(* ===== verification/Quark_Prelude.thy ===== *)
theory Quark_Prelude
  imports Main "HOL-Library.Word" "HOL-Library.Monad_Syntax"
begin

text \<open>
  The prelude of the quarkOS development: the kernel's integer types (\<^verbatim>\<open>types.h\<close>), the
  reading of a kernel call that does not come back, and the facts on words, options and lists that
  the component theories share.

  quarkOS is compiled for i686: \<^verbatim>\<open>u8_t\<close>, \<^verbatim>\<open>u16_t\<close>, \<^verbatim>\<open>u32_t\<close>, \<^verbatim>\<open>u64_t\<close> are words of their
  width, \<^verbatim>\<open>ptr_t\<close>, \<^verbatim>\<open>size_t\<close> and every pointer are 32-bit words. A C function that can fail an
  \<^verbatim>\<open>assertk\<close>, call \<^verbatim>\<open>error\<close> or \<^verbatim>\<open>panic\<close>, or spin for ever is a HOL function into
  \<open>option\<close>: \<open>None\<close> means that control never returns to the caller.
\<close>

unbundle bit_operations_syntax

section \<open>Types of the kernel\<close>

type_synonym u8 = "8 word"
type_synonym u16 = "16 word"
type_synonym u32 = "32 word"
type_synonym u64 = "64 word"
type_synonym ptr_t = "32 word"

text \<open>\<^verbatim>\<open>assertk(condition)\<close> of \<^verbatim>\<open>terminal.h\<close>: print and \<^verbatim>\<open>panic()\<close> when the condition fails.\<close>

definition assertk :: "bool \<Rightarrow> unit option" where
  "assertk b = (if b then Some () else None)"

lemma assertk_simps [simp]:
  "assertk True = Some ()" "assertk False = None"
  "(assertk b = Some u) = b" "(assertk b = None) = (\<not> b)"
  by (auto simp: assertk_def)

lemma assertk_bind [simp]: "(assertk b \<bind> f) = (if b then f () else None)"
  by (simp add: assertk_def)

text \<open>Rules to take apart a call that returned.\<close>

lemmas returned = bind_eq_Some_conv

named_theorems page_simps \<open>arithmetic of page addresses\<close>

section \<open>Words\<close>

lemma u32_of_nat_unat [simp]: "of_nat (unat (w :: u32)) = w"
  by simp

lemma unat_lt: "unat (w :: 'a::len word) < 2 ^ LENGTH('a)"
  by (rule unsigned_less)

lemma unat_u32_lt: "unat (w :: u32) < 2 ^ 32"
  using unsigned_less [of w] by simp

lemma and_not_mask_eq: "(w :: 'a::len word) AND NOT (mask n) = push_bit n (drop_bit n w)"
  by (rule bit_word_eqI) (auto simp: bit_simps)

lemma unat_and_not_mask:
  "unat ((w :: 'a::len word) AND NOT (mask n)) = unat w div 2 ^ n * 2 ^ n"
proof -
  have *: "unat w div 2 ^ n * 2 ^ n < 2 ^ LENGTH('a)"
    using unsigned_less [of w] by (meson div_times_less_eq_dividend order_le_less_trans)
  have "unat (push_bit n (drop_bit n w)) = unat w div 2 ^ n * 2 ^ n mod 2 ^ LENGTH('a)"
    by (simp only: unsigned_push_bit_eq unat_drop_bit_eq)
      (simp only: push_bit_eq_mult drop_bit_eq_div take_bit_eq_mod)
  with * show ?thesis by (simp add: and_not_mask_eq)
qed

text \<open>The bytes of a word, as the device registers and the disk blocks hold them.\<close>

lemma bit_byte:
  "m + 8 \<le> 32 \<Longrightarrow> bit (push_bit m (ucast (ucast (drop_bit m (n :: u32)) :: u8) :: u32)) k \<longleftrightarrow> m \<le> k \<and> k < m + 8 \<and> bit n k"
  by (auto simp: bit_simps)

lemma bytes16: "ucast (ucast v :: u8) OR push_bit 8 (ucast (ucast (drop_bit 8 v) :: u8)) = (v :: u16)"
  by (rule bit_word_eqI) (auto simp: bit_simps)

lemma bytes32:
  "push_bit 24 (ucast (ucast (drop_bit 24 v) :: u8)) OR push_bit 16 (ucast (ucast (drop_bit 16 v) :: u8)) OR
   push_bit 8 (ucast (ucast (drop_bit 8 v) :: u8)) OR ucast (ucast v :: u8) = (v :: u32)"
proof (rule bit_word_eqI)
  fix k assume "k < LENGTH(32)"
  then show "bit (push_bit 24 (ucast (ucast (drop_bit 24 v) :: u8)) OR push_bit 16 (ucast (ucast (drop_bit 16 v) :: u8)) OR
       push_bit 8 (ucast (ucast (drop_bit 8 v) :: u8)) OR ucast (ucast v :: u8) :: u32) k = bit v k"
    using bit_byte [of 24 v k] bit_byte [of 16 v k] bit_byte [of 8 v k] bit_byte [of 0 v k] by (simp add: bit_or_iff) (metis not_less)
qed

lemma unat_and_mask: "unat ((w :: 'a::len word) AND mask n) = unat w mod 2 ^ n"
  by (simp only: take_bit_eq_mask [symmetric] unsigned_take_bit_eq) (simp only: take_bit_eq_mod)

lemma unat_add_no_wrap:
  "unat (a :: 'a::len word) + unat b < 2 ^ LENGTH('a) \<Longrightarrow> unat (a + b) = unat a + unat b"
  by (simp add: unat_word_ariths)

lemma unat_sub_no_wrap:
  "unat (b :: 'a::len word) \<le> unat a \<Longrightarrow> unat (a - b) = unat a - unat b"
  by (simp add: unat_sub word_le_nat_alt)

lemma unat_mult_no_wrap:
  "unat (a :: 'a::len word) * unat b < 2 ^ LENGTH('a) \<Longrightarrow> unat (a * b) = unat a * unat b"
  by (simp add: unat_word_ariths)

lemma unat_exp: "n < LENGTH('a) \<Longrightarrow> unat (2 ^ n :: 'a::len word) = 2 ^ n"
proof -
  assume "n < LENGTH('a)"
  then have "(2::nat) ^ n < 2 ^ LENGTH('a)" by simp
  then have "unat (of_nat (2 ^ n) :: 'a word) = 2 ^ n" by (simp only: unat_of_nat mod_less)
  then show ?thesis by (simp only: of_nat_power of_nat_numeral)
qed

lemma word_exp_zero: "LENGTH('a) \<le> n \<Longrightarrow> (2 ^ n :: 'a::len word) = 0"
  by simp

end
