(* ===== verification/Locks.thy ===== *)
theory Locks
  imports Quark_Prelude
begin

text \<open>
  The kernel's locks: \<^verbatim>\<open>klock.s\<close>, \<^verbatim>\<open>lib/spinlock.h\<close>, \<^verbatim>\<open>lib/rwlock.h\<close>, \<^verbatim>\<open>lib/ticklock.h\<close> and
  \<^verbatim>\<open>lib/irlock.h\<close>.

  Each lock operation is a function on the lock's memory, used by the sequential models of the
  other components; a \<^verbatim>\<open>while\<close> that spins is a partial function, so that a lock nobody else
  releases is \<open>None\<close>. The readers-writer lock is also modelled instruction by instruction, with
  any number of threads interleaved (\<open>rw_step\<close>), and shown to exclude writers. The fields of
  \<^verbatim>\<open>spinlock_t\<close> that exist only for diagnostics (\<^verbatim>\<open>cpu\<close>, \<^verbatim>\<open>name\<close>) are left out.
\<close>

section \<open>Atomic instructions\<close>

text \<open>Both return the old value and leave the new one in memory.\<close>

definition fetch_and_add :: "u32 \<Rightarrow> u32 \<times> u32" where
  "fetch_and_add f = (f, f + 1)"

definition test_and_set :: "u32 \<Rightarrow> u32 \<times> u32" where
  "test_and_set f = (f, 1)"

section \<open>Spin locks\<close>

type_synonym spinlock_t = u32

definition SPINLOCK_LOCKED :: u32 where "SPINLOCK_LOCKED = 1"
definition SPINLOCK_UNLOCK :: u32 where "SPINLOCK_UNLOCK = 0"

definition spinlock_locked :: "spinlock_t \<Rightarrow> bool" where
  "spinlock_locked lk \<longleftrightarrow> lk = SPINLOCK_LOCKED"

definition spinlock_init :: spinlock_t where
  "spinlock_init = SPINLOCK_UNLOCK"

definition spinlock_unlock :: "spinlock_t \<Rightarrow> spinlock_t" where
  "spinlock_unlock lk = 0"

partial_function (option) spinlock_lock :: "spinlock_t \<Rightarrow> spinlock_t option" where
  "spinlock_lock lk =
     (case test_and_set lk of
        (old, lk') \<Rightarrow> if old = SPINLOCK_LOCKED then spinlock_lock lk' else Some lk')"

section \<open>Readers-writer locks\<close>

record rwlock =
  rw_lock :: spinlock_t
  rw_writelock :: spinlock_t
  rw_readers :: u16

definition rwlock_init :: rwlock where
  "rwlock_init = \<lparr>rw_lock = spinlock_init, rw_writelock = spinlock_init, rw_readers = 0\<rparr>"

definition rlock_lock :: "rwlock \<Rightarrow> rwlock option" where
  "rlock_lock lk = do {
     l \<leftarrow> spinlock_lock (rw_lock lk);
     let lk = lk\<lparr>rw_lock := l, rw_readers := rw_readers lk + 1\<rparr>;
     lk \<leftarrow> (if rw_readers lk = 1
            then do { w \<leftarrow> spinlock_lock (rw_writelock lk); Some (lk\<lparr>rw_writelock := w\<rparr>) }
            else Some lk);
     Some (lk\<lparr>rw_lock := spinlock_unlock (rw_lock lk)\<rparr>)
   }"

definition rlock_unlock :: "rwlock \<Rightarrow> rwlock option" where
  "rlock_unlock lk = do {
     l \<leftarrow> spinlock_lock (rw_lock lk);
     let lk = lk\<lparr>rw_lock := l, rw_readers := rw_readers lk - 1\<rparr>;
     let lk = (if rw_readers lk = 0
               then lk\<lparr>rw_writelock := spinlock_unlock (rw_writelock lk)\<rparr> else lk);
     Some (lk\<lparr>rw_lock := spinlock_unlock (rw_lock lk)\<rparr>)
   }"

definition wlock_lock :: "rwlock \<Rightarrow> rwlock option" where
  "wlock_lock lk = do {
     w \<leftarrow> spinlock_lock (rw_writelock lk);
     Some (lk\<lparr>rw_writelock := w\<rparr>)
   }"

definition wlock_unlock :: "rwlock \<Rightarrow> rwlock" where
  "wlock_unlock lk = lk\<lparr>rw_writelock := spinlock_unlock (rw_writelock lk)\<rparr>"

subsection \<open>Threads interleaved on one lock\<close>

text \<open>
  The program counter of a thread inside the four operations. \<open>RLock\<close>, \<open>RWait\<close>, \<open>ULock\<close> and
  \<open>WWait\<close> are the spinning \<^verbatim>\<open>test_and_set\<close> loops, \<open>Reading\<close> and \<open>Writing\<close> the protected
  sections, \<open>Idle\<close> is a thread outside. One instruction is one access to the shared memory;
  the increment and the decrement of \<^verbatim>\<open>readers\<close> run under \<^verbatim>\<open>lk->lock\<close> and are taken with the
  test that follows them.
\<close>

datatype rwpc =
    Idle
  | RLock | RInc | RWait | RUnlock | Reading
  | ULock | UDec | URel | UUnlock
  | WWait | Writing | WRel

fun rw_instr :: "rwpc \<Rightarrow> rwlock \<Rightarrow> rwpc \<times> rwlock" where
  "rw_instr RLock k = (case test_and_set (rw_lock k) of
     (old, f) \<Rightarrow> (if old = SPINLOCK_LOCKED then RLock else RInc, k\<lparr>rw_lock := f\<rparr>))"
| "rw_instr RInc k = (let k = k\<lparr>rw_readers := rw_readers k + 1\<rparr> in
     (if rw_readers k = 1 then RWait else RUnlock, k))"
| "rw_instr RWait k = (case test_and_set (rw_writelock k) of
     (old, f) \<Rightarrow> (if old = SPINLOCK_LOCKED then RWait else RUnlock, k\<lparr>rw_writelock := f\<rparr>))"
| "rw_instr RUnlock k = (Reading, k\<lparr>rw_lock := 0\<rparr>)"
| "rw_instr ULock k = (case test_and_set (rw_lock k) of
     (old, f) \<Rightarrow> (if old = SPINLOCK_LOCKED then ULock else UDec, k\<lparr>rw_lock := f\<rparr>))"
| "rw_instr UDec k = (let k = k\<lparr>rw_readers := rw_readers k - 1\<rparr> in
     (if rw_readers k = 0 then URel else UUnlock, k))"
| "rw_instr URel k = (UUnlock, k\<lparr>rw_writelock := 0\<rparr>)"
| "rw_instr UUnlock k = (Idle, k\<lparr>rw_lock := 0\<rparr>)"
| "rw_instr WWait k = (case test_and_set (rw_writelock k) of
     (old, f) \<Rightarrow> (if old = SPINLOCK_LOCKED then WWait else Writing, k\<lparr>rw_writelock := f\<rparr>))"
| "rw_instr WRel k = (Idle, k\<lparr>rw_writelock := 0\<rparr>)"
| "rw_instr p k = (p, k)"

text \<open>A state: the lock and the program counter of every thread.\<close>

type_synonym rwstate = "rwlock \<times> (nat \<Rightarrow> rwpc)"

text \<open>
  A thread runs one instruction of the operation it is in, or calls \<^verbatim>\<open>rlock_lock\<close>,
  \<^verbatim>\<open>wlock_lock\<close>, \<^verbatim>\<open>rlock_unlock\<close> or \<^verbatim>\<open>wlock_unlock\<close>. \<open>T\<close> is the set of threads.
\<close>

inductive rw_step :: "nat set \<Rightarrow> rwstate \<Rightarrow> rwstate \<Rightarrow> bool" for T where
  instr: "t \<in> T \<Longrightarrow> rw_instr (pc t) k = (p, k') \<Longrightarrow> rw_step T (k, pc) (k', pc(t := p))"
| call_rlock: "t \<in> T \<Longrightarrow> pc t = Idle \<Longrightarrow> rw_step T (k, pc) (k, pc(t := RLock))"
| call_wlock: "t \<in> T \<Longrightarrow> pc t = Idle \<Longrightarrow> rw_step T (k, pc) (k, pc(t := WWait))"
| call_runlock: "t \<in> T \<Longrightarrow> pc t = Reading \<Longrightarrow> rw_step T (k, pc) (k, pc(t := ULock))"
| call_wunlock: "t \<in> T \<Longrightarrow> pc t = Writing \<Longrightarrow> rw_step T (k, pc) (k, pc(t := WRel))"

inductive rw_reach :: "nat set \<Rightarrow> rwstate \<Rightarrow> bool" for T where
  start: "rw_reach T (rwlock_init, \<lambda>t. Idle)"
| step: "rw_reach T s \<Longrightarrow> rw_step T s s' \<Longrightarrow> rw_reach T s'"

section \<open>Ticket locks\<close>

record ticklock =
  ticket :: u32
  turn :: u32

definition ticklock_init :: ticklock where
  "ticklock_init = \<lparr>ticket = 0, turn = 0\<rparr>"

text \<open>One evaluation of the condition of the loop of \<^verbatim>\<open>ticklock_lock\<close>: true when it spins.\<close>

definition ticklock_spin :: "ticklock \<Rightarrow> bool \<times> ticklock" where
  "ticklock_spin k = (case fetch_and_add (ticket k) of
     (mine, t) \<Rightarrow> (turn k \<noteq> mine, k\<lparr>ticket := t\<rparr>))"

partial_function (option) ticklock_lock :: "ticklock \<Rightarrow> ticklock option" where
  "ticklock_lock k =
     (case ticklock_spin k of (again, k') \<Rightarrow> if again then ticklock_lock k' else Some k')"

definition ticklock_unlock :: "ticklock \<Rightarrow> ticklock" where
  "ticklock_unlock k = k\<lparr>turn := snd (fetch_and_add (turn k))\<rparr>"

section \<open>Interrupt locks\<close>

text \<open>The interrupt flag of the processor and \<^verbatim>\<open>cpu->ir_enable\<close>.\<close>

record ir_cpu =
  eflags_if :: bool
  ir_enable :: bool

definition ir_lock :: "ir_cpu \<Rightarrow> ir_cpu" where
  "ir_lock c = (let c = c\<lparr>ir_enable := eflags_if c\<rparr> in
     if ir_enable c then c\<lparr>eflags_if := False\<rparr> else c)"

definition ir_unlock :: "ir_cpu \<Rightarrow> ir_cpu" where
  "ir_unlock c = (if ir_enable c then c\<lparr>eflags_if := True\<rparr> else c)"

section \<open>Spin locks: lemmas\<close>

lemma spinlock_lock_returned: "spinlock_lock lk = Some lk' \<Longrightarrow> lk \<noteq> 1 \<and> lk' = 1"
proof (rule spinlock_lock.raw_induct [where P = "\<lambda>lk lk'. lk \<noteq> 1 \<and> lk' = 1"])
  fix f :: "spinlock_t \<Rightarrow> spinlock_t option" and x y
  assume "\<And>x y. f x = Some y \<Longrightarrow> x \<noteq> 1 \<and> y = 1"
    and "(case test_and_set x of
            (old, lk') \<Rightarrow> if old = SPINLOCK_LOCKED then f lk' else Some lk') = Some y"
  then show "x \<noteq> 1 \<and> y = 1"
    by (auto simp: test_and_set_def SPINLOCK_LOCKED_def split: if_splits)
qed

lemma spinlock_lock_eq [simp]: "spinlock_lock lk = (if lk = 1 then None else Some 1)"
proof (cases "spinlock_lock lk")
  case None
  then show ?thesis
    by (subst (asm) spinlock_lock.simps) (simp add: test_and_set_def SPINLOCK_LOCKED_def split: if_splits)
next
  case (Some l)
  then show ?thesis using spinlock_lock_returned [OF Some] by simp
qed

lemma spinlock_unlock_eq [simp]: "spinlock_unlock lk = 0"
  by (simp add: spinlock_unlock_def)

lemma spinlock_init_eq [simp]: "spinlock_init = 0"
  by (simp add: spinlock_init_def SPINLOCK_UNLOCK_def)

lemma rwlock_init_sel [simp]:
  "rw_lock rwlock_init = 0" "rw_writelock rwlock_init = 0" "rw_readers rwlock_init = 0"
  by (simp_all add: rwlock_init_def)

lemma wlock_lock_eq:
  "wlock_lock lk = (if rw_writelock lk = 1 then None else Some (lk\<lparr>rw_writelock := 1\<rparr>))"
  by (simp add: wlock_lock_def)

lemma wlock_unlock_eq: "wlock_unlock lk = lk\<lparr>rw_writelock := 0\<rparr>"
  by (simp add: wlock_unlock_def)

section \<open>The invariant of the readers-writer lock\<close>

text \<open>
  \<open>crit\<close>: the thread holds \<^verbatim>\<open>lk->lock\<close>; \<open>counted\<close>: it is included in \<^verbatim>\<open>lk->readers\<close>;
  \<open>shared\<close>: it relies on the readers' hold of \<^verbatim>\<open>lk->writelock\<close>; \<open>excl\<close>: it holds
  \<^verbatim>\<open>lk->writelock\<close> as a writer.
\<close>

definition crit :: "rwpc \<Rightarrow> bool" where
  "crit p \<longleftrightarrow> p \<in> {RInc, RWait, RUnlock, UDec, URel, UUnlock}"

definition counted :: "rwpc \<Rightarrow> bool" where
  "counted p \<longleftrightarrow> p \<in> {RWait, RUnlock, Reading, ULock, UDec}"

definition shared :: "rwpc \<Rightarrow> bool" where
  "shared p \<longleftrightarrow> p \<in> {RUnlock, Reading, ULock, UDec, URel}"

definition excl :: "rwpc \<Rightarrow> bool" where
  "excl p \<longleftrightarrow> p \<in> {Writing, WRel}"

lemmas pc_classes = crit_def counted_def shared_def excl_def

definition readers_of :: "(nat \<Rightarrow> rwpc) \<Rightarrow> nat set" where
  "readers_of pc = {t. counted (pc t)}"

definition lock_inv :: "rwlock \<Rightarrow> (nat \<Rightarrow> rwpc) \<Rightarrow> bool" where
  "lock_inv k pc \<longleftrightarrow> (rw_lock k = 0 \<and> (\<forall>t. \<not> crit (pc t)) \<or>
     rw_lock k = 1 \<and> (\<exists>t. crit (pc t) \<and> (\<forall>u. crit (pc u) \<longrightarrow> u = t)))"

definition writelock_inv :: "rwlock \<Rightarrow> (nat \<Rightarrow> rwpc) \<Rightarrow> bool" where
  "writelock_inv k pc \<longleftrightarrow>
     rw_writelock k \<in> {0, 1} \<and> (rw_writelock k = 1 \<longleftrightarrow> (\<exists>t. shared (pc t) \<or> excl (pc t))) \<and>
     (\<forall>t u. excl (pc t) \<longrightarrow> \<not> shared (pc u)) \<and> (\<forall>t u. excl (pc t) \<longrightarrow> excl (pc u) \<longrightarrow> t = u)"

definition edge_inv :: "(nat \<Rightarrow> rwpc) \<Rightarrow> bool" where
  "edge_inv pc \<longleftrightarrow>
     (\<forall>t. pc t = RWait \<longrightarrow> readers_of pc = {t}) \<and> (\<forall>t. pc t = URel \<longrightarrow> readers_of pc = {})"

definition rw_inv :: "nat set \<Rightarrow> rwstate \<Rightarrow> bool" where
  "rw_inv T s \<longleftrightarrow> (case s of (k, pc) \<Rightarrow>
     (\<forall>t. t \<notin> T \<longrightarrow> pc t = Idle) \<and> lock_inv k pc \<and> writelock_inv k pc \<and> edge_inv pc \<and>
     unat (rw_readers k) = card (readers_of pc))"

lemma readers_of_upd:
  "readers_of (pc(t := p)) = (if counted p then insert t (readers_of pc) else readers_of pc - {t})"
  by (auto simp: readers_of_def)

lemma readers_of_iff [simp]: "t \<in> readers_of pc \<longleftrightarrow> counted (pc t)"
  by (simp add: readers_of_def)

lemma readers_of_subset: "\<forall>t. t \<notin> T \<longrightarrow> pc t = Idle \<Longrightarrow> readers_of pc \<subseteq> T"
  by (auto simp: readers_of_def counted_def)

lemma readers_same: "counted p = counted (pc t) \<Longrightarrow> readers_of (pc(t := p)) = readers_of pc"
  by (auto simp: readers_of_def)

text \<open>How one thread's move changes the three parts of the invariant.\<close>

lemma lock_keep:
  "lock_inv k pc \<Longrightarrow> rw_lock k' = rw_lock k \<Longrightarrow> crit p = crit (pc t) \<Longrightarrow> lock_inv k' (pc(t := p))"
  by (auto simp: lock_inv_def)

lemma lock_acquire:
  "lock_inv k pc \<Longrightarrow> rw_lock k \<noteq> 1 \<Longrightarrow> crit p \<Longrightarrow> rw_lock k' = 1 \<Longrightarrow> lock_inv k' (pc(t := p))"
  by (auto simp: lock_inv_def)

lemma lock_release:
  "lock_inv k pc \<Longrightarrow> crit (pc t) \<Longrightarrow> \<not> crit p \<Longrightarrow> rw_lock k' = 0 \<Longrightarrow> lock_inv k' (pc(t := p))"
  by (auto simp: lock_inv_def)

lemma crit_unique: "lock_inv k pc \<Longrightarrow> crit (pc t) \<Longrightarrow> crit (pc u) \<Longrightarrow> u = t"
  by (auto simp: lock_inv_def)

lemma writelock_keep:
  assumes "writelock_inv k pc" "rw_writelock k' = rw_writelock k"
    "shared p = shared (pc t)" "excl p = excl (pc t)"
  shows "writelock_inv k' (pc(t := p))"
proof -
  have "shared ((pc(t := p)) u) = shared (pc u)" "excl ((pc(t := p)) u) = excl (pc u)" for u
    using assms(3,4) by auto
  with assms(1,2) show ?thesis unfolding writelock_inv_def by (simp only:) blast
qed

lemma writelock_acquire:
  "writelock_inv k pc \<Longrightarrow> rw_writelock k \<noteq> 1 \<Longrightarrow> shared p \<noteq> excl p \<Longrightarrow> rw_writelock k' = 1 \<Longrightarrow>
   writelock_inv k' (pc(t := p))"
  unfolding writelock_inv_def fun_upd_def by (auto split: if_split)

lemma writelock_release:
  "writelock_inv k pc \<Longrightarrow> shared (pc t) \<or> excl (pc t) \<Longrightarrow> (\<And>u. shared (pc u) \<Longrightarrow> u = t) \<Longrightarrow>
   \<not> shared p \<Longrightarrow> \<not> excl p \<Longrightarrow> rw_writelock k' = 0 \<Longrightarrow> writelock_inv k' (pc(t := p))"
  unfolding writelock_inv_def fun_upd_def by (simp split: if_split) blast

lemma writelock_join:
  "writelock_inv k pc \<Longrightarrow> shared (pc u) \<Longrightarrow> u \<noteq> t \<Longrightarrow> \<not> excl p \<Longrightarrow>
   rw_writelock k' = rw_writelock k \<Longrightarrow> writelock_inv k' (pc(t := p))"
  unfolding writelock_inv_def fun_upd_def by (simp split: if_split) blast

lemma edge_keep:
  "edge_inv pc \<Longrightarrow> counted p = counted (pc t) \<Longrightarrow> p \<notin> {RWait, URel} \<Longrightarrow> edge_inv (pc(t := p))"
  by (auto simp: edge_inv_def readers_same)

lemma edge_fresh:
  "(\<And>u. pc u \<in> {RWait, URel} \<Longrightarrow> u = t) \<Longrightarrow>
   (p = RWait \<Longrightarrow> readers_of pc \<subseteq> {t}) \<Longrightarrow> (p = URel \<Longrightarrow> readers_of pc \<subseteq> {t}) \<Longrightarrow> edge_inv (pc(t := p))"
  by (auto simp: edge_inv_def readers_of_upd counted_def)

lemma rw_invD:
  assumes "rw_inv T (k, pc)"
  shows "lock_inv k pc" "writelock_inv k pc" "edge_inv pc" "t \<notin> T \<Longrightarrow> pc t = Idle"
    "unat (rw_readers k) = card (readers_of pc)"
  using assms by (simp_all add: rw_inv_def)

lemma rw_invI:
  assumes "rw_inv T (k, pc)" "t \<in> T" "lock_inv k' (pc(t := p))" "writelock_inv k' (pc(t := p))"
    "edge_inv (pc(t := p))" "unat (rw_readers k') = card (readers_of (pc(t := p)))"
  shows "rw_inv T (k', pc(t := p))"
  using assms by (auto simp: rw_inv_def)

text \<open>A move that neither enters nor leaves the set of counted readers.\<close>

lemma rw_inv_move:
  assumes "rw_inv T (k, pc)" "t \<in> T" "lock_inv k' (pc(t := p))" "writelock_inv k' (pc(t := p))"
    "counted p = counted (pc t)" "p \<notin> {RWait, URel}" "rw_readers k' = rw_readers k"
  shows "rw_inv T (k', pc(t := p))"
  using assms(1,2,3,4)
proof (rule rw_invI)
  show "edge_inv (pc(t := p))" using rw_invD(3) [OF assms(1)] assms(5,6) by (rule edge_keep)
  show "unat (rw_readers k') = card (readers_of (pc(t := p)))"
    using rw_invD(5) [OF assms(1)] assms(5,7) by (simp add: readers_same)
qed

text \<open>The two instructions that change \<^verbatim>\<open>readers\<close>.\<close>

lemma finite_readers: "rw_inv T (k, pc) \<Longrightarrow> finite T \<Longrightarrow> finite (readers_of pc)"
  using readers_of_subset [of T pc] by (auto simp: rw_inv_def intro: finite_subset)

lemma readers_inc:
  assumes inv: "rw_inv T (k, pc)" and T: "finite T" "card T < 2 ^ 16" "t \<in> T"
    and "\<not> counted (pc t)" "counted p"
  shows "unat (rw_readers k + 1) = card (readers_of (pc(t := p)))"
proof -
  have "insert t (readers_of pc) \<subseteq> T" using inv T readers_of_subset [of T pc] by (simp add: rw_inv_def)
  then have "card (insert t (readers_of pc)) \<le> card T" using T(1) by (intro card_mono)
  then have "unat (rw_readers k) + 1 < 2 ^ 16"
    using assms(5) rw_invD(5) [OF inv] T(2) finite_readers [OF inv T(1)] by simp
  then have "unat (rw_readers k + 1) = unat (rw_readers k) + 1"
    using unat_add_no_wrap [of "rw_readers k" 1] by simp
  then show ?thesis
    using rw_invD(5) [OF inv] assms(5,6) finite_readers [OF inv T(1)] by (simp add: readers_of_upd)
qed

lemma readers_dec:
  assumes inv: "rw_inv T (k, pc)" and T: "finite T" and "counted (pc t)" "\<not> counted p"
  shows "unat (rw_readers k - 1) = card (readers_of (pc(t := p)))"
proof -
  note fin = finite_readers [OF inv T]
  have "0 < card (readers_of pc)" using fin assms(3) by (auto simp: card_gt_0_iff)
  then have "unat (rw_readers k - 1) = unat (rw_readers k) - 1"
    using rw_invD(5) [OF inv] unat_sub_no_wrap [of 1 "rw_readers k"] by simp
  then show ?thesis
    using rw_invD(5) [OF inv] assms(3,4) fin by (simp add: readers_of_upd)
qed

lemma rw_inv_RInc:
  assumes inv: "rw_inv T (k, pc)" and T: "finite T" "card T < 2 ^ 16" "t \<in> T" and pc: "pc t = RInc"
    and k': "k' = k\<lparr>rw_readers := rw_readers k + 1\<rparr>"
    and p: "p = (if rw_readers k' = 1 then RWait else RUnlock)"
  shows "rw_inv T (k', pc(t := p))"
proof (rule rw_invI [OF inv T(3)])
  have cnt: "unat (rw_readers k') = card (readers_of (pc(t := p)))"
    using readers_inc [OF inv T, of p] pc by (simp add: k' p counted_def)
  then show "unat (rw_readers k') = card (readers_of (pc(t := p)))" .
  show "lock_inv k' (pc(t := p))"
    using rw_invD(1) [OF inv] by (rule lock_keep) (simp_all add: k' p pc pc_classes)
  have alone: "pc u \<in> {RWait, URel, UDec} \<Longrightarrow> u = t" for u
    using crit_unique [OF rw_invD(1) [OF inv], of t u] pc by (auto simp: pc_classes)
  have tn: "t \<notin> readers_of pc" by (simp add: pc counted_def)
  have fin: "finite (readers_of pc)" using finite_readers [OF inv T(1)] .
  have card: "unat (rw_readers k') = Suc (card (readers_of pc))"
    using cnt tn fin by (simp add: readers_of_upd p counted_def)
  have one: "rw_readers k' = 1 \<longleftrightarrow> unat (rw_readers k') = 1"
    using word_unat_eq_iff [of "rw_readers k'" 1] by simp
  have p0: "p = RWait \<Longrightarrow> readers_of pc = {}"
    using card fin one by (auto simp: p split: if_splits)
  show "edge_inv (pc(t := p))" using alone p0 by (intro edge_fresh) (auto simp: p split: if_splits)
  show "writelock_inv k' (pc(t := p))"
  proof (cases "p = RWait")
    case True
    then show ?thesis
      using rw_invD(2) [OF inv] by (intro writelock_keep) (simp_all add: k' pc pc_classes)
  next
    case False
    then have "readers_of pc \<noteq> {}" using card one by (auto simp: p split: if_splits)
    then obtain u where u: "counted (pc u)" by auto
    then have "u \<noteq> t" "shared (pc u)" using tn alone [of u] pc by (auto simp: pc_classes)
    then show ?thesis
      using rw_invD(2) [OF inv] False by (intro writelock_join [of k pc u]) (simp_all add: k' p excl_def)
  qed
qed

lemma rw_inv_UDec:
  assumes inv: "rw_inv T (k, pc)" and T: "finite T" "t \<in> T" and pc: "pc t = UDec"
    and k': "k' = k\<lparr>rw_readers := rw_readers k - 1\<rparr>"
    and p: "p = (if rw_readers k' = 0 then URel else UUnlock)"
  shows "rw_inv T (k', pc(t := p))"
proof (rule rw_invI [OF inv T(2)])
  have cnt: "unat (rw_readers k') = card (readers_of (pc(t := p)))"
    using readers_dec [OF inv T(1), of t p] pc by (simp add: k' p counted_def)
  then show "unat (rw_readers k') = card (readers_of (pc(t := p)))" .
  show "lock_inv k' (pc(t := p))"
    using rw_invD(1) [OF inv] by (rule lock_keep) (simp_all add: k' p pc pc_classes)
  have alone: "pc u \<in> {RWait, URel} \<Longrightarrow> u = t" for u
    using crit_unique [OF rw_invD(1) [OF inv], of t u] pc by (auto simp: pc_classes)
  have fin: "finite (readers_of pc)" using finite_readers [OF inv T(1)] .
  have card: "unat (rw_readers k') = card (readers_of pc - {t})"
    using cnt by (simp add: readers_of_upd p counted_def)
  have p0: "p = URel \<Longrightarrow> readers_of pc \<subseteq> {t}"
    using card fin by (auto simp: p split: if_splits)
  show "edge_inv (pc(t := p))" using alone p0 by (intro edge_fresh) (auto simp: p split: if_splits)
  show "writelock_inv k' (pc(t := p))"
  proof (cases "p = URel")
    case True
    then show ?thesis
      using rw_invD(2) [OF inv] by (intro writelock_keep) (simp_all add: k' pc pc_classes)
  next
    case False
    then have "rw_readers k' \<noteq> 0" by (auto simp: p split: if_splits)
    then have "0 < unat (rw_readers k')" by (simp add: unat_gt_0)
    then have "readers_of pc - {t} \<noteq> {}" using card by (auto simp: card_gt_0_iff)
    then obtain u where "u \<in> readers_of pc - {t}" by blast
    then have u: "counted (pc u)" "u \<noteq> t" by auto
    then have "shared (pc u)" using alone [of u] by (auto simp: pc_classes)
    with u show ?thesis
      using rw_invD(2) [OF inv] False by (intro writelock_join [of k pc u]) (simp_all add: k' p excl_def)
  qed
qed

lemma rw_inv_URel:
  assumes inv: "rw_inv T (k, pc)" and t: "t \<in> T" and pc: "pc t = URel"
  shows "rw_inv T (k\<lparr>rw_writelock := 0\<rparr>, pc(t := UUnlock))"
proof (rule rw_inv_move [OF inv t])
  have none: "readers_of pc = {}" using rw_invD(3) [OF inv] pc unfolding edge_inv_def by blast
  have "shared (pc u) \<Longrightarrow> u = t" for u
    using none crit_unique [OF rw_invD(1) [OF inv], of t u] readers_of_iff [of u pc] pc
    by (auto simp: pc_classes simp del: readers_of_iff)
  then show "writelock_inv (k\<lparr>rw_writelock := 0\<rparr>) (pc(t := UUnlock))"
    using rw_invD(2) [OF inv] by (rule_tac writelock_release) (simp_all add: pc pc_classes)
  show "lock_inv (k\<lparr>rw_writelock := 0\<rparr>) (pc(t := UUnlock))"
    using rw_invD(1) [OF inv] by (rule lock_keep) (simp_all add: pc pc_classes)
qed (simp_all add: pc counted_def)

lemma rw_inv_WRel:
  assumes inv: "rw_inv T (k, pc)" and t: "t \<in> T" and pc: "pc t = WRel"
  shows "rw_inv T (k\<lparr>rw_writelock := 0\<rparr>, pc(t := Idle))"
proof (rule rw_inv_move [OF inv t])
  have "\<not> shared (pc u)" for u
    using rw_invD(2) [OF inv] pc by (auto simp: writelock_inv_def pc_classes)
  then show "writelock_inv (k\<lparr>rw_writelock := 0\<rparr>) (pc(t := Idle))"
    using rw_invD(2) [OF inv] by (intro writelock_release) (auto simp add: pc pc_classes)
  show "lock_inv (k\<lparr>rw_writelock := 0\<rparr>) (pc(t := Idle))"
    using rw_invD(1) [OF inv] by (rule lock_keep) (simp_all add: pc pc_classes)
qed (simp_all add: pc counted_def)

text \<open>The spinning loops: the flag is already set, or this \<^verbatim>\<open>test_and_set\<close> sets it.\<close>

lemma rw_inv_lock_spin:
  assumes inv: "rw_inv T (k, pc)" and t: "t \<in> T" and pc: "pc t = q"
    and q: "(q, p) \<in> {(RLock, RInc), (ULock, UDec)}"
  shows "rw_inv T (k\<lparr>rw_lock := 1\<rparr>, pc(t := (if rw_lock k = 1 then q else p)))"
proof (cases "rw_lock k = 1")
  case True
  then have same: "k\<lparr>rw_lock := 1\<rparr> = k" by (cases k) simp
  show ?thesis unfolding same using True inv pc by (simp add: fun_upd_idem)
next
  case False
  have "rw_inv T (k\<lparr>rw_lock := 1\<rparr>, pc(t := p))"
  proof (rule rw_inv_move [OF inv t])
    show "lock_inv (k\<lparr>rw_lock := 1\<rparr>) (pc(t := p))"
      using rw_invD(1) [OF inv] False by (rule lock_acquire) (use q in \<open>auto simp: pc_classes\<close>)
    show "writelock_inv (k\<lparr>rw_lock := 1\<rparr>) (pc(t := p))"
      using rw_invD(2) [OF inv] by (rule writelock_keep) (use q pc in \<open>auto simp: pc_classes\<close>)
  qed (use q pc in \<open>auto simp: pc_classes\<close>)
  with False show ?thesis by simp
qed

lemma rw_inv_writelock_spin:
  assumes inv: "rw_inv T (k, pc)" and t: "t \<in> T" and pc: "pc t = q"
    and q: "(q, p) \<in> {(RWait, RUnlock), (WWait, Writing)}"
  shows "rw_inv T (k\<lparr>rw_writelock := 1\<rparr>, pc(t := (if rw_writelock k = 1 then q else p)))"
proof (cases "rw_writelock k = 1")
  case True
  then have same: "k\<lparr>rw_writelock := 1\<rparr> = k" by (cases k) simp
  show ?thesis unfolding same using True inv pc by (simp add: fun_upd_idem)
next
  case False
  have "rw_inv T (k\<lparr>rw_writelock := 1\<rparr>, pc(t := p))"
  proof (rule rw_inv_move [OF inv t])
    show "writelock_inv (k\<lparr>rw_writelock := 1\<rparr>) (pc(t := p))"
      using rw_invD(2) [OF inv] False by (rule writelock_acquire) (use q in \<open>auto simp: pc_classes\<close>)
    show "lock_inv (k\<lparr>rw_writelock := 1\<rparr>) (pc(t := p))"
      using rw_invD(1) [OF inv] by (rule lock_keep) (use q pc in \<open>auto simp: pc_classes\<close>)
  qed (use q pc in \<open>auto simp: pc_classes\<close>)
  with False show ?thesis by simp
qed

lemma rw_inv_unlock:
  assumes inv: "rw_inv T (k, pc)" and t: "t \<in> T" and pc: "pc t = q"
    and q: "(q, p) \<in> {(RUnlock, Reading), (UUnlock, Idle)}"
  shows "rw_inv T (k\<lparr>rw_lock := 0\<rparr>, pc(t := p))"
proof (rule rw_inv_move [OF inv t])
  show "lock_inv (k\<lparr>rw_lock := 0\<rparr>) (pc(t := p))"
    using rw_invD(1) [OF inv] by (rule lock_release) (use q pc in \<open>auto simp: pc_classes\<close>)
  show "writelock_inv (k\<lparr>rw_lock := 0\<rparr>) (pc(t := p))"
    using rw_invD(2) [OF inv] by (rule writelock_keep) (use q pc in \<open>auto simp: pc_classes\<close>)
qed (use q pc in \<open>auto simp: pc_classes\<close>)

lemma rw_inv_call:
  assumes inv: "rw_inv T (k, pc)" and t: "t \<in> T" and pc: "pc t = q"
    and q: "(q, p) \<in> {(Idle, RLock), (Idle, WWait), (Reading, ULock), (Writing, WRel)}"
  shows "rw_inv T (k, pc(t := p))"
proof (rule rw_inv_move [OF inv t])
  show "lock_inv k (pc(t := p))"
    using rw_invD(1) [OF inv] by (rule lock_keep) (use q pc in \<open>auto simp: pc_classes\<close>)
  show "writelock_inv k (pc(t := p))"
    using rw_invD(2) [OF inv] by (rule writelock_keep) (use q pc in \<open>auto simp: pc_classes\<close>)
qed (use q pc in \<open>auto simp: pc_classes\<close>)

lemma rw_inv_instr:
  assumes inv: "rw_inv T (k, pc)" and T: "finite T" "card T < 2 ^ 16" "t \<in> T"
    and step: "rw_instr (pc t) k = (p, k')"
  shows "rw_inv T (k', pc(t := p))"
proof (cases "pc t")
  case RLock
  then show ?thesis using rw_inv_lock_spin [OF inv T(3) RLock] step
    by (auto simp: test_and_set_def SPINLOCK_LOCKED_def split: if_splits)
next
  case ULock
  then show ?thesis using rw_inv_lock_spin [OF inv T(3) ULock] step
    by (auto simp: test_and_set_def SPINLOCK_LOCKED_def split: if_splits)
next
  case RWait
  then show ?thesis using rw_inv_writelock_spin [OF inv T(3) RWait] step
    by (auto simp: test_and_set_def SPINLOCK_LOCKED_def split: if_splits)
next
  case WWait
  then show ?thesis using rw_inv_writelock_spin [OF inv T(3) WWait] step
    by (auto simp: test_and_set_def SPINLOCK_LOCKED_def split: if_splits)
next
  case RInc
  show ?thesis
    by (rule rw_inv_RInc [OF inv T RInc]) (use RInc step in \<open>auto simp: Let_def\<close>)
next
  case UDec
  show ?thesis
    by (rule rw_inv_UDec [OF inv T(1,3) UDec]) (use UDec step in \<open>auto simp: Let_def\<close>)
next
  case RUnlock
  then show ?thesis using rw_inv_unlock [OF inv T(3) RUnlock] step by auto
next
  case UUnlock
  then show ?thesis using rw_inv_unlock [OF inv T(3) UUnlock] step by auto
next
  case URel
  then show ?thesis using rw_inv_URel [OF inv T(3) URel] step by auto
next
  case WRel
  then show ?thesis using rw_inv_WRel [OF inv T(3) WRel] step by auto
qed (use inv step in \<open>auto simp: fun_upd_idem\<close>)

lemma rw_inv_step:
  assumes "rw_step T s s'" "rw_inv T s" "finite T" "card T < 2 ^ 16"
  shows "rw_inv T s'"
  using assms by (cases rule: rw_step.cases) (auto intro: rw_inv_instr rw_inv_call)

lemma rw_reach_inv:
  assumes "finite T" "card T < 2 ^ 16"
  shows "rw_reach T s \<Longrightarrow> rw_inv T s"
proof (induction rule: rw_reach.induct)
  case start
  then show ?case
    by (simp add: rw_inv_def lock_inv_def writelock_inv_def edge_inv_def readers_of_def pc_classes)
next
  case (step s s')
  then show ?case using rw_inv_step assms by blast
qed

text \<open>
  C4. Readers-writer lock, mutual exclusion. In every state that at most 65535 threads can reach by
  interleaving the instructions of \<^verbatim>\<open>rlock_lock\<close>, \<^verbatim>\<open>rlock_unlock\<close>, \<^verbatim>\<open>wlock_lock\<close> and
  \<^verbatim>\<open>wlock_unlock\<close>, while one thread is in the section protected by the write lock no other
  thread is in a read or a write section. (The bound is the width of \<^verbatim>\<open>readers\<close>.)
\<close>

theorem rwlock_mutual_exclusion:
  assumes "rw_reach T (k, pc)" "finite T" "card T < 2 ^ 16" "pc t = Writing" "u \<noteq> t"
  shows "pc u \<noteq> Reading \<and> pc u \<noteq> Writing"
proof -
  have "writelock_inv k pc" using rw_reach_inv [OF assms(2,3,1)] by (rule rw_invD)
  then have "\<not> shared (pc u)" "\<not> excl (pc u)"
    using assms(4,5) by (auto simp: writelock_inv_def excl_def)
  then show ?thesis by (auto simp: shared_def excl_def)
qed

theorem rwlock_mutual_exclusion_witness:
  "\<exists>k pc. rw_reach {0, 1} (k, pc) \<and> pc 0 = Writing \<and> pc 1 \<noteq> Reading \<and> pc 1 \<noteq> Writing"
proof -
  let ?pc = "(\<lambda>t. Idle)(0 := WWait, 1 := RLock)"
  have "rw_reach {0, 1} (rwlock_init, (\<lambda>t. Idle)(0 := WWait))"
    by (rule rw_reach.step [OF rw_reach.start rw_step.call_wlock]) simp_all
  then have "rw_reach {0, 1} (rwlock_init, ?pc)"
    by (rule rw_reach.step [OF _ rw_step.call_rlock]) simp_all
  then have *: "rw_reach {0, 1} (rwlock_init\<lparr>rw_writelock := 1\<rparr>, ?pc(0 := Writing))"
    by (rule rw_reach.step [OF _ rw_step.instr])
      (simp_all add: test_and_set_def SPINLOCK_LOCKED_def)
  show ?thesis
    using * rwlock_mutual_exclusion [OF *, of 0 1] by (intro exI) (rule conjI, rule *, simp)
qed

text \<open>
  C16. Readers-writer lock, progress. When some thread is inside a lock or an unlock operation and
  no thread sits in a protected section, some thread's next instruction changes the state: the
  operations never block each other for ever.
\<close>

theorem rwlock_no_deadlock:
  assumes reach: "rw_reach T (k, pc)" and T: "finite T" "card T < 2 ^ 16"
    and busy: "pc t \<notin> {Idle, Reading, Writing}" and free: "\<forall>u. pc u \<notin> {Reading, Writing}"
  shows "\<exists>u\<in>T. rw_instr (pc u) k \<noteq> (pc u, k)"
proof -
  have inv: "rw_inv T (k, pc)" using rw_reach_inv [OF T reach] .
  have in_T: "pc u \<noteq> Idle \<Longrightarrow> u \<in> T" for u using rw_invD(4) [OF inv] by blast
  have lock01: "rw_lock k = 1 \<Longrightarrow> \<exists>u. crit (pc u)" using rw_invD(1) [OF inv] by (auto simp: lock_inv_def)
  have wl: "rw_writelock k = 1 \<Longrightarrow> \<exists>u. shared (pc u) \<or> excl (pc u)"
    using rw_invD(2) [OF inv] by (auto simp: writelock_inv_def)
  have moves: "u \<in> T \<and> rw_instr (pc u) k \<noteq> (pc u, k)"
    if "pc u \<in> {RInc, RUnlock, UDec, URel, UUnlock, WRel} \<or> pc u \<in> {RLock, ULock} \<and> rw_lock k \<noteq> 1 \<or>
        pc u \<in> {RWait, WWait} \<and> rw_writelock k \<noteq> 1" for u
    using that in_T [of u]
    by (auto simp: Let_def test_and_set_def SPINLOCK_LOCKED_def split: if_splits)
  have wait: "\<exists>v. pc v \<in> {RUnlock, UDec, URel, WRel} \<or> pc v = ULock \<and> pc u \<noteq> RWait"
    if u: "pc u \<in> {RWait, WWait}" and held: "rw_writelock k = 1" for u
  proof -
    obtain v where v: "shared (pc v) \<or> excl (pc v)" using wl held by blast
    have "pc u = RWait \<Longrightarrow> counted (pc v) \<Longrightarrow> v = u"
      using rw_invD(3) [OF inv] readers_of_iff [of v pc] unfolding edge_inv_def by blast
    then show ?thesis using v free u by (intro exI [of _ v]) (auto simp: pc_classes)
  qed
  show ?thesis
  proof (cases "\<exists>u. crit (pc u)")
    case True
    then show ?thesis using moves wait unfolding crit_def by blast
  next
    case False
    then have "rw_lock k \<noteq> 1" "pc t \<in> {RLock, ULock, WWait, WRel}"
      using lock01 busy by (auto simp: crit_def, cases "pc t", auto)
    then show ?thesis using moves wait by blast
  qed
qed

theorem rwlock_no_deadlock_witness:
  "rw_reach {0} (rwlock_init, (\<lambda>t. Idle)(0 := WWait)) \<and>
   (\<exists>u\<in>{0}. rw_instr (((\<lambda>t. Idle)(0 := WWait)) u) rwlock_init
             \<noteq> (((\<lambda>t. Idle)(0 := WWait)) u, rwlock_init))"
proof -
  have *: "rw_reach {0} (rwlock_init, (\<lambda>t. Idle)(0 := WWait))"
    by (rule rw_reach.step [OF rw_reach.start rw_step.call_wlock]) simp_all
  show ?thesis using * rwlock_no_deadlock [OF *, of 0] by simp
qed

section \<open>Sequential operations as uninterrupted runs\<close>

definition rw_alone :: "rwpc \<times> rwlock \<Rightarrow> rwpc \<times> rwlock" where
  "rw_alone = (\<lambda>(p, k). rw_instr p k)"

lemma funpow_fixpoint: "f y = y \<Longrightarrow> (f ^^ n) y = y"
  by (induction n) simp_all

lemma fixpoint_unique:
  assumes "(f ^^ m) x = y" "f y = y" "(f ^^ n) x = z" "f z = z"
  shows "y = z"
proof -
  have "(f ^^ (n + m)) x = y" using assms(1,2) by (simp add: funpow_add funpow_fixpoint)
  moreover have "(f ^^ (m + n)) x = z" using assms(3,4) by (simp add: funpow_add funpow_fixpoint)
  ultimately show ?thesis by (simp add: add.commute)
qed

text \<open>A run that comes to rest in \<open>y\<close> reaches a resting state exactly when that state is \<open>y\<close>.\<close>

lemma rests_iff:
  "(f ^^ m) x = y \<Longrightarrow> f y = y \<Longrightarrow> f z = z \<Longrightarrow> (\<exists>n. (f ^^ n) x = z) \<longleftrightarrow> z = y"
  using fixpoint_unique by metis

lemma rlock_lock_rest:
  "(rw_alone ^^ 4) (RLock, k) = (case rlock_lock k of
     Some k' \<Rightarrow> (Reading, k')
   | None \<Rightarrow> if rw_lock k = 1 then (RLock, k)
             else (RWait, k\<lparr>rw_lock := 1, rw_readers := rw_readers k + 1\<rparr>))"
  by (cases k)
    (auto simp: rw_alone_def rlock_lock_def numeral_eq_Suc Let_def test_and_set_def
      SPINLOCK_LOCKED_def)

lemma rlock_unlock_rest:
  "(rw_alone ^^ 4) (ULock, k) = (case rlock_unlock k of Some k' \<Rightarrow> (Idle, k') | None \<Rightarrow> (ULock, k))"
  by (cases k)
    (auto simp: rw_alone_def rlock_unlock_def numeral_eq_Suc Let_def test_and_set_def
      SPINLOCK_LOCKED_def)

lemma wlock_lock_rest:
  "(rw_alone ^^ 1) (WWait, k) = (case wlock_lock k of Some k' \<Rightarrow> (Writing, k') | None \<Rightarrow> (WWait, k))"
  by (cases k) (auto simp: rw_alone_def wlock_lock_def test_and_set_def SPINLOCK_LOCKED_def)

text \<open>
  The functions that model a lock operation called in a sequential context are the runs of the
  instruction-level model in which no other thread interferes: \<^verbatim>\<open>rlock_lock\<close> and
  \<^verbatim>\<open>wlock_lock\<close> return exactly when the run reaches the protected section, with that run's lock
  state, and \<^verbatim>\<open>rlock_unlock\<close> exactly when its run gets out.
\<close>

theorem rwlock_sequential_runs:
  "(\<exists>n. (rw_alone ^^ n) (RLock, k) = (Reading, k')) = (rlock_lock k = Some k') \<and>
   (\<exists>n. (rw_alone ^^ n) (WWait, k) = (Writing, k')) = (wlock_lock k = Some k') \<and>
   (\<exists>n. (rw_alone ^^ n) (ULock, k) = (Idle, k')) = (rlock_unlock k = Some k')"
proof (intro conjI)
  have rest: "rw_alone (Reading, k') = (Reading, k')" "rw_alone (Writing, k') = (Writing, k')"
    "rw_alone (Idle, k') = (Idle, k')" for k' by (simp_all add: rw_alone_def)
  show "(\<exists>n. (rw_alone ^^ n) (RLock, k) = (Reading, k')) = (rlock_lock k = Some k')"
    by (subst rests_iff [OF rlock_lock_rest _ rest(1)], cases k)
      (auto simp: rw_alone_def rlock_lock_def Let_def test_and_set_def SPINLOCK_LOCKED_def
        split: option.splits)
  show "(\<exists>n. (rw_alone ^^ n) (WWait, k) = (Writing, k')) = (wlock_lock k = Some k')"
    by (subst rests_iff [OF wlock_lock_rest _ rest(2)], cases k)
      (auto simp: rw_alone_def wlock_lock_def Let_def test_and_set_def SPINLOCK_LOCKED_def
        split: option.splits)
  show "(\<exists>n. (rw_alone ^^ n) (ULock, k) = (Idle, k')) = (rlock_unlock k = Some k')"
    by (subst rests_iff [OF rlock_unlock_rest _ rest(3)], cases k)
      (auto simp: rw_alone_def rlock_unlock_def Let_def test_and_set_def SPINLOCK_LOCKED_def
        split: option.splits)
qed

section \<open>Ticket and interrupt locks\<close>

lemma ticklock_spins:
  "((\<lambda>k. snd (ticklock_spin k)) ^^ n) k = k\<lparr>ticket := ticket k + of_nat n\<rparr>"
  by (induction n) (simp_all add: ticklock_spin_def fetch_and_add_def algebra_simps)

text \<open>
  Ticket lock. A waiter draws a new ticket on every turn of its loop, so the ticket it will be
  called for is lost: once the lock is taken, if \<open>n\<close> evaluations of the loop condition happen
  before the holder unlocks, the lock that is then free is refused to the next evaluation unless
  \<open>n\<close> is a multiple of \<open>2^32\<close>.
\<close>

theorem ticklock_loses_tickets:
  assumes "turn k = ticket k"
  shows "\<exists>k1. ticklock_lock k = Some k1 \<and>
    fst (ticklock_spin (ticklock_unlock (((\<lambda>k. snd (ticklock_spin k)) ^^ n) k1)))
      = (\<not> 2 ^ 32 dvd n)"
proof -
  have "ticklock_lock k = Some (k\<lparr>ticket := ticket k + 1\<rparr>)"
    by (subst ticklock_lock.simps) (simp add: ticklock_spin_def fetch_and_add_def assms)
  moreover have "(of_nat n = (0 :: u32)) = (2 ^ 32 dvd n)"
    by (simp add: word_of_nat_eq_0_iff)
  ultimately show ?thesis
    by (simp add: ticklock_spins) (simp add: ticklock_unlock_def ticklock_spin_def fetch_and_add_def assms)
qed

theorem ticklock_loses_tickets_witness:
  "turn ticklock_init = ticket ticklock_init \<and> (\<exists>k1. ticklock_lock ticklock_init = Some k1 \<and>
    fst (ticklock_spin (ticklock_unlock (((\<lambda>k. snd (ticklock_spin k)) ^^ 1) k1))))"
  using ticklock_loses_tickets [of ticklock_init 1] by (simp add: ticklock_init_def)

text \<open>
  Interrupt lock. \<^verbatim>\<open>ir_unlock\<close> after \<^verbatim>\<open>ir_lock\<close> restores the interrupt flag, but the pair does
  not nest: after two nested pairs interrupts are always off, whatever they were before.
\<close>

theorem ir_lock_restores_not_nested:
  "eflags_if (ir_unlock (ir_lock c)) = eflags_if c \<and>
   \<not> eflags_if (ir_unlock (ir_unlock (ir_lock (ir_lock c))))"
  by (simp add: ir_lock_def ir_unlock_def Let_def)

end
