(* ===== verification/Klist.thy ===== *)
theory Klist
  imports Locks
begin

text \<open>
  The linked structures of the kernel: the circular doubly linked lists of \<^verbatim>\<open>lib/list.h\<close> and the
  queue with a dummy node of \<^verbatim>\<open>lib/queue.c\<close>, as stores of pointers.

  A node is its address; the store holds the two pointer fields of every node. \<open>dll h hd xs\<close> says
  that the header \<open>hd\<close> heads the list of the nodes \<open>xs\<close> in the store \<open>h\<close>. The operations of
  \<^verbatim>\<open>list.h\<close> are shown to be the list operations of HOL under this abstraction and to leave
  disjoint lists alone, which is why the other components may use HOL lists for them. Both
  structures implement one queue interface, the locale \<open>fifo_queue\<close>.
\<close>

section \<open>Doubly linked lists\<close>

record links =
  lnext :: "ptr_t \<Rightarrow> ptr_t"
  lprev :: "ptr_t \<Rightarrow> ptr_t"

abbreviation set_next :: "ptr_t \<Rightarrow> ptr_t \<Rightarrow> links \<Rightarrow> links" where
  "set_next a b h \<equiv> h\<lparr>lnext := (lnext h)(a := b)\<rparr>"

abbreviation set_prev :: "ptr_t \<Rightarrow> ptr_t \<Rightarrow> links \<Rightarrow> links" where
  "set_prev a b h \<equiv> h\<lparr>lprev := (lprev h)(a := b)\<rparr>"

definition list_header_init :: "ptr_t \<Rightarrow> links \<Rightarrow> links" where
  "list_header_init header h = set_prev header header (set_next header header h)"

definition list_add :: "ptr_t \<Rightarrow> ptr_t \<Rightarrow> ptr_t \<Rightarrow> links \<Rightarrow> links" where
  "list_add new p n h =
     (let h = set_prev new p h;
          h = set_next new n h;
          h = set_prev n new h
      in set_next p new h)"

definition list_add_next :: "ptr_t \<Rightarrow> ptr_t \<Rightarrow> links \<Rightarrow> links" where
  "list_add_next new target h = list_add new target (lnext h target) h"

definition list_add_prev :: "ptr_t \<Rightarrow> ptr_t \<Rightarrow> links \<Rightarrow> links" where
  "list_add_prev new target h = list_add new (lprev h target) target h"

definition list_del :: "ptr_t \<Rightarrow> links \<Rightarrow> links" where
  "list_del n h =
     (let h = set_next (lprev h n) (lnext h n) h
      in set_prev (lnext h n) (lprev h n) h)"

definition list_empty :: "ptr_t \<Rightarrow> links \<Rightarrow> bool" where
  "list_empty header h \<longleftrightarrow> lnext h header = header"

definition list_link :: "ptr_t \<Rightarrow> ptr_t \<Rightarrow> links \<Rightarrow> links" where
  "list_link header tail h = set_prev tail header (set_next header tail h)"

definition list_first :: "ptr_t \<Rightarrow> links \<Rightarrow> ptr_t" where
  "list_first header h = lnext h header"

definition list_tail :: "ptr_t \<Rightarrow> links \<Rightarrow> ptr_t" where
  "list_tail header h = lprev h header"

text \<open>\<^verbatim>\<open>list_for_each\<close> from \<open>hdr\<close> on; the accumulator is \<^verbatim>\<open>cnt\<close> of \<^verbatim>\<open>list_cnt\<close>.\<close>

partial_function (option) list_cnt_loop :: "ptr_t \<Rightarrow> links \<Rightarrow> ptr_t \<Rightarrow> u32 \<Rightarrow> u32 option" where
  "list_cnt_loop header h hdr cnt =
     (if hdr = header then Some cnt else list_cnt_loop header h (lnext h hdr) (cnt + 1))"

definition list_cnt :: "ptr_t \<Rightarrow> links \<Rightarrow> u32 option" where
  "list_cnt header h = list_cnt_loop header h (lnext h header) 0"

definition list_get_first :: "ptr_t \<Rightarrow> links \<Rightarrow> ptr_t \<times> links" where
  "list_get_first header h =
     (if \<not> list_empty header h
      then (let n = list_first header h in (n, list_del n h))
      else (0, h))"

text \<open>
  The nodes \<^verbatim>\<open>list_for_each\<close> and \<^verbatim>\<open>list_for_each_rev\<close> visit, in order.
\<close>

partial_function (option) list_for_each :: "ptr_t \<Rightarrow> links \<Rightarrow> ptr_t \<Rightarrow> ptr_t list option" where
  "list_for_each head h hdr =
     (if hdr = head then Some []
      else do { r \<leftarrow> list_for_each head h (lnext h hdr); Some (hdr # r) })"

partial_function (option) list_for_each_rev :: "ptr_t \<Rightarrow> links \<Rightarrow> ptr_t \<Rightarrow> ptr_t list option" where
  "list_for_each_rev head h hdr =
     (if hdr = head then Some []
      else do { r \<leftarrow> list_for_each_rev head h (lprev h hdr); Some (hdr # r) })"

section \<open>The queue with a dummy node\<close>

record lf_queue =
  lf_lock :: spinlock_t
  lf_head :: ptr_t
  lf_tail :: ptr_t
  lf_next :: "ptr_t \<Rightarrow> ptr_t"

text \<open>\<open>dummy\<close> is the address of the node inside the queue structure.\<close>

definition lfQueue_node_init :: "ptr_t \<Rightarrow> lf_queue \<Rightarrow> lf_queue" where
  "lfQueue_node_init node q = q\<lparr>lf_next := (lf_next q)(node := 0)\<rparr>"

definition lfQueue_init :: "ptr_t \<Rightarrow> lf_queue \<Rightarrow> lf_queue" where
  "lfQueue_init dummy q = q\<lparr>lf_next := (lf_next q)(dummy := 0), lf_head := dummy,
     lf_tail := dummy, lf_lock := spinlock_init\<rparr>"

definition lfQueue_put :: "ptr_t \<Rightarrow> lf_queue \<Rightarrow> lf_queue option" where
  "lfQueue_put node q = do {
     l \<leftarrow> spinlock_lock (lf_lock q);
     let q = q\<lparr>lf_lock := l\<rparr>;
     let q = (if lf_next q (lf_head q) = 0
              then q\<lparr>lf_next := (lf_next q)(lf_head q := node)\<rparr>
              else q\<lparr>lf_next := (lf_next q)(lf_tail q := node)\<rparr>);
     let q = q\<lparr>lf_next := (lf_next q)(node := 0), lf_tail := node\<rparr>;
     Some (q\<lparr>lf_lock := spinlock_unlock (lf_lock q)\<rparr>)
   }"

definition lfQueue_get :: "lf_queue \<Rightarrow> (ptr_t \<times> lf_queue) option" where
  "lfQueue_get q = do {
     l \<leftarrow> spinlock_lock (lf_lock q);
     let q = q\<lparr>lf_lock := l\<rparr>;
     let n = lf_next q (lf_head q);
     if n = 0 then Some (0, q\<lparr>lf_lock := spinlock_unlock (lf_lock q)\<rparr>)
     else do {
       let q = q\<lparr>lf_next := (lf_next q)(lf_head q := lf_next q n)\<rparr>;
       Some (n, q\<lparr>lf_lock := spinlock_unlock (lf_lock q)\<rparr>)
     }
   }"

section \<open>Sequences of queue operations\<close>

datatype queue_op = Put ptr_t | Get

text \<open>The results of the \<open>Get\<close>s of a sequence of operations, on an implementation and on a list.\<close>

fun run_queue ::
  "(ptr_t \<Rightarrow> 's \<Rightarrow> 's option) \<Rightarrow> ('s \<Rightarrow> (ptr_t \<times> 's) option) \<Rightarrow> queue_op list \<Rightarrow> 's \<Rightarrow>
   (ptr_t list \<times> 's) option" where
  "run_queue put get [] s = Some ([], s)"
| "run_queue put get (Put n # ops) s = do { s \<leftarrow> put n s; run_queue put get ops s }"
| "run_queue put get (Get # ops) s = do {
     (r, s) \<leftarrow> get s;
     (rs, s) \<leftarrow> run_queue put get ops s;
     Some (r # rs, s)
   }"

fun spec_queue :: "queue_op list \<Rightarrow> ptr_t list \<Rightarrow> ptr_t list \<times> ptr_t list" where
  "spec_queue [] xs = ([], xs)"
| "spec_queue (Put n # ops) xs = spec_queue ops (xs @ [n])"
| "spec_queue (Get # ops) [] = (case spec_queue ops [] of (rs, ys) \<Rightarrow> (0 # rs, ys))"
| "spec_queue (Get # ops) (x # xs) = (case spec_queue ops xs of (rs, ys) \<Rightarrow> (x # rs, ys))"

text \<open>Only nodes that are not in the queue are put into it.\<close>

fun ops_ok :: "(ptr_t \<Rightarrow> bool) \<Rightarrow> queue_op list \<Rightarrow> ptr_t list \<Rightarrow> bool" where
  "ops_ok usable [] xs \<longleftrightarrow> True"
| "ops_ok usable (Put n # ops) xs \<longleftrightarrow> usable n \<and> n \<notin> set xs \<and> ops_ok usable ops (xs @ [n])"
| "ops_ok usable (Get # ops) xs \<longleftrightarrow> ops_ok usable ops (tl xs)"

section \<open>The list a header stands for\<close>

text \<open>\<open>linked h a xs b\<close>: both ways along \<open>a, xs, b\<close> the pointer fields agree.\<close>

fun linked :: "links \<Rightarrow> ptr_t \<Rightarrow> ptr_t list \<Rightarrow> ptr_t \<Rightarrow> bool" where
  "linked h a [] b \<longleftrightarrow> lnext h a = b \<and> lprev h b = a"
| "linked h a (x # xs) b \<longleftrightarrow> lnext h a = x \<and> lprev h x = a \<and> linked h x xs b"

definition dll :: "links \<Rightarrow> ptr_t \<Rightarrow> ptr_t list \<Rightarrow> bool" where
  "dll h header xs \<longleftrightarrow> linked h header xs header \<and> distinct (header # xs) \<and> 0 \<notin> set (header # xs)"

lemma linked_append:
  "linked h a (ys @ x # zs) b \<longleftrightarrow> linked h a ys x \<and> linked h x zs b"
  by (induction ys arbitrary: a) auto

lemma linked_cong:
  assumes "\<And>p. p \<in> insert a (set xs) \<Longrightarrow> lnext h' p = lnext h p"
    and "\<And>p. p \<in> insert b (set xs) \<Longrightarrow> lprev h' p = lprev h p"
  shows "linked h' a xs b = linked h a xs b"
  using assms by (induction xs arbitrary: a) auto

lemma linked_ends:
  assumes "linked h a xs b"
  shows "lnext h a = hd (xs @ [b])" "lprev h b = last (a # xs)"
  using assms by (induction xs arbitrary: a) auto

lemma list_add_sel:
  "lnext (list_add new p n h) = (lnext h)(new := n, p := new)"
  "lprev (list_add new p n h) = (lprev h)(new := p, n := new)"
  by (simp_all add: list_add_def)

lemma list_del_sel:
  assumes "lprev h x \<noteq> x"
  shows "lnext (list_del x h) = (lnext h)(lprev h x := lnext h x)"
    "lprev (list_del x h) = (lprev h)(lnext h x := lprev h x)"
  using assms by (simp_all add: list_del_def)

lemma linked_add:
  assumes "linked h a (ys @ zs) b" "distinct (a # ys @ zs)" "b \<notin> set (ys @ zs)"
    and "new \<notin> set (a # b # ys @ zs)"
  shows "linked (list_add new (last (a # ys)) (hd (zs @ [b])) h) a (ys @ new # zs) b"
  using assms
proof (induction ys arbitrary: a)
  case Nil
  show ?case
  proof (cases zs)
    case Nil
    with Nil.prems show ?thesis by (auto simp: list_add_sel)
  next
    case (Cons z zs')
    have "linked (list_add new a z h) z zs' b = linked h z zs' b"
      using Nil.prems Cons by (intro linked_cong) (auto simp: list_add_sel)
    with Nil.prems Cons show ?thesis by (auto simp: list_add_sel)
  qed
next
  case (Cons y ys)
  have "hd (zs @ [b]) \<noteq> y" using Cons.prems by (cases zs) auto
  moreover have "last (y # ys) \<noteq> a" using Cons.prems(2) by (metis distinct.simps(2) last_in_set
        append_Cons list.distinct(1) list.set_intros(2) UnI1 set_append)
  ultimately show ?case using Cons by (auto simp: list_add_sel)
qed

lemma linked_del:
  assumes "linked h a (ys @ x # zs) b" "distinct (a # ys @ x # zs)" "b \<notin> set (ys @ x # zs)"
  shows "linked (list_del x h) a (ys @ zs) b"
proof -
  have x: "lprev h x = last (a # ys)" "lnext h x = hd (zs @ [b])"
    using assms(1) linked_ends by (auto simp: linked_append)
  have "last (a # ys) \<noteq> x" using assms(2) last_in_set [of "a # ys"] by auto
  then have sel: "lnext (list_del x h) = (lnext h)(last (a # ys) := hd (zs @ [b]))"
    "lprev (list_del x h) = (lprev h)(hd (zs @ [b]) := last (a # ys))"
    using list_del_sel [of h x] x by simp_all
  show ?thesis using assms sel
  proof (induction ys arbitrary: a)
    case Nil
    show ?case
    proof (cases zs)
      case Nil
      with Nil.prems show ?thesis by auto
    next
      case (Cons z zs')
      have "linked (list_del x h) z zs' b = linked h z zs' b"
        using Nil.prems Cons by (intro linked_cong) auto
      with Nil.prems Cons show ?thesis by auto
    qed
  next
    case (Cons y ys)
    have "hd (zs @ [b]) \<noteq> y" using Cons.prems by (cases zs) auto
    moreover have "last (y # ys) \<noteq> a" using Cons.prems(2) last_in_set [of "y # ys"] by auto
    ultimately show ?case using Cons by (auto split: if_splits)
  qed
qed

lemma dll_init: "header \<noteq> 0 \<Longrightarrow> dll (list_header_init header h) header []"
  by (simp add: dll_def list_header_init_def)

lemma dll_add:
  assumes "dll h header (ys @ zs)" "new \<notin> set (header # ys @ zs)" "new \<noteq> 0"
  shows "dll (list_add new (last (header # ys)) (hd (zs @ [header])) h) header (ys @ new # zs)"
  using assms linked_add [of h header ys zs header new] by (auto simp: dll_def)

lemma dll_neighbours:
  assumes "dll h header (ys @ zs)"
  shows "lnext h (last (header # ys)) = hd (zs @ [header])"
    "lprev h (hd (zs @ [header])) = last (header # ys)"
proof -
  have l: "linked h header (ys @ zs) header" using assms by (simp add: dll_def)
  show "lprev h (hd (zs @ [header])) = last (header # ys)"
    using l linked_ends(2) [of h header "ys" "hd (zs @ [header])"] linked_ends(2) [of h header ys header]
    by (cases zs) (auto simp: linked_append)
  show "lnext h (last (header # ys)) = hd (zs @ [header])"
  proof (cases ys rule: rev_cases)
    case Nil
    then show ?thesis using linked_ends(1) [OF l] by simp
  next
    case (snoc ys' y)
    then show ?thesis using l linked_ends(1) [of h y zs header] by (simp add: linked_append)
  qed
qed

lemma dll_add_next:
  assumes "dll h header (ys @ zs)" "new \<notin> set (header # ys @ zs)" "new \<noteq> 0"
  shows "dll (list_add_next new (last (header # ys)) h) header (ys @ new # zs)"
  using dll_add [OF assms] dll_neighbours(1) [OF assms(1)] by (simp add: list_add_next_def)

lemma dll_add_prev:
  assumes "dll h header (ys @ zs)" "new \<notin> set (header # ys @ zs)" "new \<noteq> 0"
  shows "dll (list_add_prev new (hd (zs @ [header])) h) header (ys @ new # zs)"
  using dll_add [OF assms] dll_neighbours(2) [OF assms(1)] by (simp add: list_add_prev_def)

lemma dll_add_first:
  "dll h header xs \<Longrightarrow> new \<notin> set (header # xs) \<Longrightarrow> new \<noteq> 0 \<Longrightarrow>
   dll (list_add_next new header h) header (new # xs)"
  using dll_add_next [of h header "[]" xs new] by simp

lemma dll_add_last:
  "dll h header xs \<Longrightarrow> new \<notin> set (header # xs) \<Longrightarrow> new \<noteq> 0 \<Longrightarrow>
   dll (list_add_prev new header h) header (xs @ [new])"
  using dll_add_prev [of h header xs "[]" new] by simp

lemma dll_del: "dll h header (ys @ x # zs) \<Longrightarrow> dll (list_del x h) header (ys @ zs)"
  using linked_del [of h header ys x zs header] by (auto simp: dll_def)

lemma dll_empty_iff: "dll h header xs \<Longrightarrow> list_empty header h \<longleftrightarrow> xs = []"
  by (cases xs) (auto simp: dll_def list_empty_def)

lemma dll_first: "dll h header (x # xs) \<Longrightarrow> list_first header h = x"
  by (simp add: dll_def list_first_def)

lemma dll_tail: "dll h header xs \<Longrightarrow> list_tail header h = last (header # xs)"
  using linked_ends(2) [of h header xs header] by (simp add: dll_def list_tail_def)

text \<open>An operation on one list leaves a list with other nodes as it is.\<close>

lemma dll_frame_add:
  assumes "dll h other ws" "set (other # ws) \<inter> {new, p, n} = {}"
  shows "dll (list_add new p n h) other ws"
proof -
  have "linked (list_add new p n h) other ws other = linked h other ws other"
    using assms(2) by (intro linked_cong) (auto simp: list_add_sel)
  with assms(1) show ?thesis by (simp add: dll_def)
qed

lemma dll_split:
  assumes "x \<in> set (header # xs)"
  obtains ys zs where "xs = ys @ zs" "x = hd (zs @ [header])"
proof (cases "x = header")
  case True
  then show ?thesis using that [of xs "[]"] by simp
next
  case False
  then obtain ys zs where "xs = ys @ x # zs" using assms split_list [of x xs] by auto
  then show ?thesis using that [of ys "x # zs"] by simp
qed

lemma dll_split_last:
  assumes "x \<in> set (header # xs)"
  obtains ys zs where "xs = ys @ zs" "x = last (header # ys)"
proof (cases "x = header")
  case True
  then show ?thesis using that [of "[]" xs] by simp
next
  case False
  then obtain ys zs where "xs = ys @ x # zs" using assms split_list [of x xs] by auto
  then show ?thesis using that [of "ys @ [x]" zs] by simp
qed

lemma dll_mem_next:
  assumes "dll h header xs" "x \<in> set (header # xs)"
  shows "lnext h x \<in> set (header # xs)"
  using assms(2)
proof (rule dll_split_last)
  fix ys zs assume "xs = ys @ zs" "x = last (header # ys)"
  then show ?thesis using dll_neighbours(1) [of h header ys zs] assms(1) by (cases zs) auto
qed

lemma dll_mem_prev:
  assumes "dll h header xs" "x \<in> set (header # xs)"
  shows "lprev h x \<in> set (header # xs)"
  using assms(2)
proof (rule dll_split)
  fix ys zs assume "xs = ys @ zs" "x = hd (zs @ [header])"
  then show ?thesis
    using dll_neighbours(2) [of h header ys zs] assms(1) last_in_set [of "header # ys"] by auto
qed

lemma dll_frame_del:
  assumes "dll h header xs" "x \<in> set xs" "dll h other ws"
    and disj: "set (other # ws) \<inter> set (header # xs) = {}"
  shows "dll (list_del x h) other ws"
proof -
  have in_xs: "lnext h x \<in> set (header # xs)" "lprev h x \<in> set (header # xs)"
    using dll_mem_next [OF assms(1)] dll_mem_prev [OF assms(1)] assms(2) by simp_all
  obtain ys zs where xs: "xs = ys @ x # zs" using assms(2) by (metis split_list)
  have "lprev h x = last (header # ys)"
    using dll_neighbours(2) [of h header ys "x # zs"] assms(1) xs by simp
  then have "lprev h x \<noteq> x" using assms(1) xs last_in_set [of "header # ys"] by (auto simp: dll_def)
  note sel = list_del_sel [OF this]
  have "linked (list_del x h) other ws other = linked h other ws other"
    using in_xs disj by (intro linked_cong) (auto simp: sel)
  with assms(3) show ?thesis by (simp add: dll_def)
qed

section \<open>Traversals\<close>

lemma list_for_each_linked:
  "linked h a xs header \<Longrightarrow> header \<notin> set xs \<Longrightarrow> list_for_each header h (lnext h a) = Some xs"
  by (induction xs arbitrary: a) (subst list_for_each.simps, auto)+

lemma list_for_each_rev_linked:
  "linked h header xs b \<Longrightarrow> header \<notin> set xs \<Longrightarrow>
   list_for_each_rev header h (lprev h b) = Some (rev xs)"
proof (induction xs arbitrary: b rule: rev_induct)
  case Nil
  then show ?case by (subst list_for_each_rev.simps) simp
next
  case (snoc x xs)
  have "linked h header xs x" "lprev h b = x" using snoc.prems by (auto simp: linked_append)
  then show ?case using snoc by (subst list_for_each_rev.simps) auto
qed

lemma list_cnt_linked:
  "linked h a xs header \<Longrightarrow> header \<notin> set xs \<Longrightarrow>
   list_cnt_loop header h (lnext h a) c = Some (c + of_nat (length xs))"
  by (induction xs arbitrary: a c) (subst list_cnt_loop.simps, auto simp: algebra_simps)+

lemma length_distinct_u32: "distinct (a # xs) \<Longrightarrow> length xs < 2 ^ 32" for a :: u32
  using card_mono [of UNIV "set (a # xs)"] by (simp add: distinct_card card_word)

section \<open>The queue interface\<close>

text \<open>
  What a queue promises: \<open>put\<close> appends a node that is not in it, \<open>get\<close> returns the oldest
  node, or NULL from an empty queue; both return.
\<close>

locale fifo_queue =
  fixes rep :: "'s \<Rightarrow> ptr_t list \<Rightarrow> bool"
    and usable :: "ptr_t \<Rightarrow> bool"
    and put :: "ptr_t \<Rightarrow> 's \<Rightarrow> 's option"
    and get :: "'s \<Rightarrow> (ptr_t \<times> 's) option"
  assumes put_rep: "rep s xs \<Longrightarrow> usable n \<Longrightarrow> n \<notin> set xs \<Longrightarrow> \<exists>s'. put n s = Some s' \<and> rep s' (xs @ [n])"
    and get_none: "rep s [] \<Longrightarrow> \<exists>s'. get s = Some (0, s') \<and> rep s' []"
    and get_some: "rep s (x # xs) \<Longrightarrow> \<exists>s'. get s = Some (x, s') \<and> rep s' xs"
begin

lemma run_spec:
  "rep s xs \<Longrightarrow> ops_ok usable ops xs \<Longrightarrow>
   \<exists>s'. run_queue put get ops s = Some (fst (spec_queue ops xs), s') \<and> rep s' (snd (spec_queue ops xs))"
proof (induction ops xs arbitrary: s rule: spec_queue.induct)
  case (2 n ops xs)
  then obtain s' where "put n s = Some s'" "rep s' (xs @ [n])" using put_rep by fastforce
  with 2 show ?case by fastforce
next
  case (3 ops)
  obtain s' where "get s = Some (0, s')" "rep s' []" using 3 get_none by blast
  with 3 show ?case by (fastforce split: prod.splits)
next
  case (4 ops x xs)
  obtain s' where "get s = Some (x, s')" "rep s' xs" using 4 get_some by blast
  with 4 show ?case by (fastforce split: prod.splits)
qed simp

end

lemma list_get_first_dll:
  "dll h header [] \<Longrightarrow> list_get_first header h = (0, h)"
  "dll h header (x # xs) \<Longrightarrow> list_get_first header h = (x, list_del x h)"
  using dll_empty_iff dll_first by (auto simp: list_get_first_def Let_def)

interpretation list_queue: fifo_queue
  "\<lambda>h. dll h header" "\<lambda>n. n \<noteq> header \<and> n \<noteq> 0"
  "\<lambda>n h. Some (list_add_prev n header h)" "\<lambda>h. Some (list_get_first header h)" for header
proof unfold_locales
  fix s xs n
  assume "dll s header xs" "n \<noteq> header \<and> n \<noteq> 0" "n \<notin> set xs"
  then show "\<exists>s'. Some (list_add_prev n header s) = Some s' \<and> dll s' header (xs @ [n])"
    by (simp add: dll_add_last)
next
  fix s
  assume "dll s header []"
  then show "\<exists>s'. Some (list_get_first header s) = Some (0, s') \<and> dll s' header []"
    by (simp add: list_get_first_dll)
next
  fix s x xs
  assume "dll s header (x # xs)"
  then show "\<exists>s'. Some (list_get_first header s) = Some (x, s') \<and> dll s' header xs"
    using dll_del [of s header "[]" x xs] by (simp add: list_get_first_dll)
qed

text \<open>The nodes reached from \<open>a\<close> by \<^verbatim>\<open>next\<close> up to NULL.\<close>

fun lf_path :: "(ptr_t \<Rightarrow> ptr_t) \<Rightarrow> ptr_t \<Rightarrow> ptr_t list \<Rightarrow> bool" where
  "lf_path nxt a [] \<longleftrightarrow> nxt a = 0"
| "lf_path nxt a (x # xs) \<longleftrightarrow> nxt a = x \<and> x \<noteq> 0 \<and> lf_path nxt x xs"

text \<open>The tail pointer is meaningful only while the queue has elements.\<close>

definition lfq :: "ptr_t \<Rightarrow> lf_queue \<Rightarrow> ptr_t list \<Rightarrow> bool" where
  "lfq dummy q xs \<longleftrightarrow> lf_lock q = 0 \<and> lf_head q = dummy \<and> lf_path (lf_next q) dummy xs \<and>
     distinct (dummy # xs) \<and> (xs \<noteq> [] \<longrightarrow> lf_tail q = last xs)"

lemma lf_path_cong: "(\<And>p. p \<in> insert a (set xs) \<Longrightarrow> f p = g p) \<Longrightarrow> lf_path f a xs = lf_path g a xs"
  by (induction xs arbitrary: a) auto

lemma lf_path_snoc:
  "lf_path f a xs \<Longrightarrow> distinct (a # xs) \<Longrightarrow> n \<notin> set (a # xs) \<Longrightarrow> n \<noteq> 0 \<Longrightarrow>
   lf_path (f(last (a # xs) := n, n := 0)) a (xs @ [n])"
proof (induction xs arbitrary: a)
  case (Cons x xs)
  have "last (x # xs) \<noteq> a" using Cons.prems(2) last_in_set [of "x # xs"] by auto
  with Cons show ?case by auto
qed simp

lemma lfq_init: "lfq dummy (lfQueue_init dummy q) []"
  by (simp add: lfq_def lfQueue_init_def)

lemma lfq_put:
  assumes "lfq dummy q xs" "n \<noteq> dummy" "n \<noteq> 0" "n \<notin> set xs"
  shows "\<exists>q'. lfQueue_put n q = Some q' \<and> lfq dummy q' (xs @ [n])"
proof -
  have "lf_path ((lf_next q)(last (dummy # xs) := n, n := 0)) dummy (xs @ [n])"
    using assms by (intro lf_path_snoc) (auto simp: lfq_def)
  then show ?thesis using assms by (cases xs) (auto simp: lfQueue_put_def lfq_def Let_def)
qed

lemma lfq_get:
  assumes "lfq dummy q (x # xs)"
  shows "\<exists>q'. lfQueue_get q = Some (x, q') \<and> lfq dummy q' xs"
proof -
  let ?f = "(lf_next q)(dummy := lf_next q x)"
  have "lf_path ?f dummy xs"
  proof (cases xs)
    case Nil
    then show ?thesis using assms by (simp add: lfq_def)
  next
    case (Cons y ys)
    have "lf_path ?f y ys = lf_path (lf_next q) y ys"
      using assms Cons by (intro lf_path_cong) (auto simp: lfq_def)
    then show ?thesis using assms Cons by (simp add: lfq_def)
  qed
  then show ?thesis using assms by (auto simp: lfQueue_get_def lfq_def Let_def)
qed

interpretation lf: fifo_queue "lfq dummy" "\<lambda>n. n \<noteq> dummy \<and> n \<noteq> 0" lfQueue_put lfQueue_get
  for dummy
proof unfold_locales
  fix s xs n
  assume "lfq dummy s xs" "n \<noteq> dummy \<and> n \<noteq> 0" "n \<notin> set xs"
  then show "\<exists>s'. lfQueue_put n s = Some s' \<and> lfq dummy s' (xs @ [n])" using lfq_put by blast
next
  fix s
  assume "lfq dummy s []"
  then show "\<exists>s'. lfQueue_get s = Some (0, s') \<and> lfq dummy s' []"
    by (auto simp: lfQueue_get_def lfq_def Let_def)
qed (rule lfq_get)

section \<open>Properties\<close>

text \<open>
  C17. Doubly linked lists, insertion and deletion. In a store where a header heads the nodes
  \<open>ys @ zs\<close>, \<^verbatim>\<open>list_add_next\<close> after the last node of \<open>ys\<close> and \<^verbatim>\<open>list_add_prev\<close> before the first
  node of \<open>zs\<close> (the header when there is none) both link a new node between \<open>ys\<close> and \<open>zs\<close>;
  \<^verbatim>\<open>list_del\<close> of that node gives the list back; and each of the three operations leaves every list
  with other nodes as it was.
\<close>

theorem list_add_del_refine:
  assumes "dll h header (ys @ zs)" "new \<notin> set (header # ys @ zs)" "new \<noteq> 0"
    and "dll h other ws" "set (other # ws) \<inter> set (new # header # ys @ zs) = {}"
  shows "dll (list_add_next new (last (header # ys)) h) header (ys @ new # zs) \<and>
    dll (list_add_prev new (hd (zs @ [header])) h) header (ys @ new # zs) \<and>
    dll (list_add_next new (last (header # ys)) h) other ws \<and>
    dll (list_add_prev new (hd (zs @ [header])) h) other ws \<and>
    dll (list_del new (list_add_next new (last (header # ys)) h)) header (ys @ zs) \<and>
    dll (list_del new (list_add_next new (last (header # ys)) h)) other ws"
proof (intro conjI)
  let ?h = "list_add_next new (last (header # ys)) h"
  have "last (header # ys) \<in> set (header # ys @ zs)" "hd (zs @ [header]) \<in> set (header # ys @ zs)"
    using last_in_set [of "header # ys"] by (auto simp: hd_append)
  then have ends: "set (other # ws) \<inter> {new, last (header # ys), hd (zs @ [header])} = {}"
    using assms(5) by auto
  then show other: "dll ?h other ws"
    using dll_frame_add [OF assms(4)] dll_neighbours(1) [OF assms(1)] by (simp add: list_add_next_def)
  show "dll (list_add_prev new (hd (zs @ [header])) h) other ws"
    using ends dll_frame_add [OF assms(4)] dll_neighbours(2) [OF assms(1)] by (simp add: list_add_prev_def)
  show new: "dll ?h header (ys @ new # zs)" using assms(1-3) by (rule dll_add_next)
  show "dll (list_add_prev new (hd (zs @ [header])) h) header (ys @ new # zs)"
    using assms(1-3) by (rule dll_add_prev)
  show "dll (list_del new ?h) header (ys @ zs)" using new by (rule dll_del)
  show "dll (list_del new ?h) other ws"
    using new other assms(5) by (intro dll_frame_del [of ?h header "ys @ new # zs"]) auto
qed

theorem list_add_del_refine_witness:
  "\<exists>h. dll h 16 ([] @ [32]) \<and> dll h 64 [] \<and>
    dll (list_add_next 48 (last (16 # [])) h) 16 ([] @ 48 # [32]) \<and>
    dll (list_add_prev 48 (hd ([32] @ [16])) h) 64 [] \<and>
    dll (list_del 48 (list_add_next 48 (last (16 # [])) h)) 64 []"
proof -
  let ?h = "\<lparr>lnext = (\<lambda>p. p)(16 := 32, 32 := 16), lprev = (\<lambda>p. p)(16 := 32, 32 := 16)\<rparr>"
  have d: "dll ?h 16 ([] @ [32])" "dll ?h 64 []" by (simp_all add: dll_def)
  show ?thesis
    using d list_add_del_refine [OF d(1) _ _ d(2), of 48] by (intro exI [of _ ?h] conjI) simp_all
qed

text \<open>
  C33. Doubly linked lists, traversal. On a well-formed list the forward and the backward loop end
  and visit the nodes in order and in reverse order, and \<^verbatim>\<open>list_cnt\<close> returns the exact number
  of nodes (its 32-bit counter cannot wrap).
\<close>

theorem list_traversal:
  assumes "dll h header xs"
  shows "list_for_each header h (lnext h header) = Some xs \<and>
    list_for_each_rev header h (lprev h header) = Some (rev xs) \<and>
    (\<exists>c. list_cnt header h = Some c \<and> unat c = length xs)"
proof (intro conjI)
  have l: "linked h header xs header" "header \<notin> set xs" "length xs < 2 ^ 32"
    using assms length_distinct_u32 [of header xs] by (auto simp: dll_def)
  show "list_for_each header h (lnext h header) = Some xs" using l(1,2) by (rule list_for_each_linked)
  show "list_for_each_rev header h (lprev h header) = Some (rev xs)"
    using l(1,2) by (rule list_for_each_rev_linked)
  show "\<exists>c. list_cnt header h = Some c \<and> unat c = length xs"
    using list_cnt_linked [OF l(1,2)] l(3) by (simp add: list_cnt_def unat_of_nat)
qed

theorem list_traversal_witness:
  "\<exists>h. dll h 16 [32] \<and> list_for_each 16 h (lnext h 16) = Some [32] \<and>
       (\<exists>c. list_cnt 16 h = Some c \<and> unat c = 1)"
proof -
  let ?h = "\<lparr>lnext = (\<lambda>p. p)(16 := 32, 32 := 16), lprev = (\<lambda>p. p)(16 := 32, 32 := 16)\<rparr>"
  have d: "dll ?h 16 [32]" by (simp add: dll_def)
  show ?thesis using d list_traversal [OF d] by (intro exI [of _ ?h] conjI) simp_all
qed

text \<open>
  C18. Queues. The two queue implementations of the kernel, \<^verbatim>\<open>queue_put\<close>/\<^verbatim>\<open>queue_get\<close> on a list
  header and \<^verbatim>\<open>lfQueue_put\<close>/\<^verbatim>\<open>lfQueue_get\<close>, started empty, run every sequence of operations to
  the end and return the same nodes as a first-in first-out list, NULL whenever it is empty, as
  long as no node is put while it is still in the queue.
\<close>

theorem queues_are_fifo:
  assumes "a \<noteq> 0" "ops_ok (\<lambda>n. n \<noteq> a \<and> n \<noteq> 0) ops []"
  shows "(\<exists>h'. run_queue (\<lambda>n h. Some (list_add_prev n a h)) (\<lambda>h. Some (list_get_first a h)) ops
          (list_header_init a h) = Some (fst (spec_queue ops []), h')) \<and>
    (\<exists>q'. run_queue lfQueue_put lfQueue_get ops (lfQueue_init a q) = Some (fst (spec_queue ops []), q'))"
  using list_queue.run_spec [OF dll_init [OF assms(1)] assms(2)] lf.run_spec [OF lfq_init assms(2)]
  by blast

theorem queues_are_fifo_witness:
  "ops_ok (\<lambda>n. n \<noteq> 8 \<and> n \<noteq> 0) [Put 16, Put 32, Get, Get, Get] [] \<and>
   (\<exists>q'. run_queue lfQueue_put lfQueue_get [Put 16, Put 32, Get, Get, Get]
      (lfQueue_init 8 \<lparr>lf_lock = 0, lf_head = 0, lf_tail = 0, lf_next = \<lambda>_. 7\<rparr>)
      = Some ([16, 32, 0], q'))"
  using queues_are_fifo [of 8 "[Put 16, Put 32, Get, Get, Get]"] by simp

end
