(* ===== verification/Klib.thy ===== *)
theory Klib
  imports Quark_Prelude
begin

text \<open>
  The macros and small functions of \<^verbatim>\<open>lib/qlib.h\<close>, \<^verbatim>\<open>lib/qlib.c\<close> and \<^verbatim>\<open>mm/mm.h\<close> on which every
  allocator of the kernel rests: masks, rounding up to a power of two (\<^verbatim>\<open>fixSize\<close>), the integer
  logarithm (\<^verbatim>\<open>log2\<close>), single-bit updates, and the rounding of addresses to page boundaries.
\<close>

section \<open>Definitions\<close>

subsection \<open>\<^verbatim>\<open>lib/qlib.h\<close>\<close>

definition BIT_MASK :: "nat \<Rightarrow> 'a::len word" where
  "BIT_MASK n = (if LENGTH('a) = n then - 1 else push_bit n 1 - 1)"

definition c_MIN :: "'a::linorder \<Rightarrow> 'a \<Rightarrow> 'a" where
  "c_MIN a b = (if b < a then b else a)"

definition c_MAX :: "'a::linorder \<Rightarrow> 'a \<Rightarrow> 'a" where
  "c_MAX a b = (if b > a then b else a)"

definition DIV_CEIL :: "'a::len word \<Rightarrow> 'a word \<Rightarrow> 'a word" where
  "DIV_CEIL x y = (x + y - 1) div y"

definition IS_POWER_OF_2 :: "u32 \<Rightarrow> bool" where
  "IS_POWER_OF_2 x \<longleftrightarrow> x AND (x - 1) = 0"

definition fixSize :: "u32 \<Rightarrow> u32" where
  "fixSize sz =
     (if IS_POWER_OF_2 sz then sz
      else
        let sz = sz OR drop_bit 1 sz;
            sz = sz OR drop_bit 2 sz;
            sz = sz OR drop_bit 4 sz;
            sz = sz OR drop_bit 8 sz;
            sz = sz OR drop_bit 16 sz
        in sz + 1)"

definition set_bit8 :: "u8 \<Rightarrow> nat \<Rightarrow> u8" where
  "set_bit8 v b = v OR push_bit b 1"

definition clear_bit8 :: "u8 \<Rightarrow> nat \<Rightarrow> u8" where
  "clear_bit8 v b = v AND NOT (push_bit b 1)"

definition CLEAR_BIT :: "'a::len word \<Rightarrow> nat \<Rightarrow> 'a word" where
  "CLEAR_BIT v b = v AND NOT (push_bit b 1)"

definition SET_BIT :: "'a::len word \<Rightarrow> nat \<Rightarrow> 'a word" where
  "SET_BIT v b = v OR push_bit b 1"

subsection \<open>\<^verbatim>\<open>lib/qlib.c\<close>\<close>

text \<open>The loop of \<^verbatim>\<open>log2\<close> does not end for the argument 0: \<open>None\<close>.\<close>

partial_function (option) log2_loop :: "u16 \<Rightarrow> u8 \<Rightarrow> u8 option" where
  "log2_loop val cnt = (if val \<noteq> 1 then log2_loop (drop_bit 1 val) (cnt + 1) else Some cnt)"

definition log2 :: "u16 \<Rightarrow> u8 option" where
  "log2 val = log2_loop val 0"

subsection \<open>\<^verbatim>\<open>mm/mm.h\<close>\<close>

definition PAGE_SIZE :: u32 where "PAGE_SIZE = 4 * 1024"

definition PAGE_MASK :: u32 where "PAGE_MASK = PAGE_SIZE - 1"

definition PAGE_CEIL :: "u32 \<Rightarrow> u32" where
  "PAGE_CEIL addr = addr AND NOT (BIT_MASK 12)"

definition PDE_INDEX :: "u32 \<Rightarrow> u32" where
  "PDE_INDEX addr = drop_bit 22 addr"

definition PTE_INDEX :: "u32 \<Rightarrow> u32" where
  "PTE_INDEX addr = drop_bit 12 addr AND BIT_MASK 10"

definition MEM_ALIGN :: "u32 \<Rightarrow> u32 \<Rightarrow> u32" where
  "MEM_ALIGN s align = (s + align - 1) AND NOT (align - 1)"

definition PAGE_FLOOR :: "u32 \<Rightarrow> u32" where
  "PAGE_FLOOR s = (s + PAGE_MASK) AND NOT PAGE_MASK"

section \<open>Masks and page arithmetic\<close>

lemma BIT_MASK_eq_mask: "n \<le> LENGTH('a) \<Longrightarrow> (BIT_MASK n :: 'a::len word) = mask n"
  by (auto simp: BIT_MASK_def mask_eq_exp_minus_1 push_bit_eq_mult)

lemma PAGE_MASK_eq: "PAGE_MASK = mask 12"
  by (simp add: PAGE_MASK_def PAGE_SIZE_def mask_eq_exp_minus_1)

lemma PAGE_CEIL_eq: "PAGE_CEIL a = a AND NOT (mask 12)"
  by (simp add: PAGE_CEIL_def BIT_MASK_eq_mask)

lemma PAGE_FLOOR_eq: "PAGE_FLOOR a = PAGE_CEIL (a + 0xFFF)"
  by (simp add: PAGE_FLOOR_def PAGE_CEIL_eq PAGE_MASK_eq) (simp add: mask_eq_exp_minus_1)

lemma unat_PAGE_CEIL [page_simps]: "unat (PAGE_CEIL a) = unat a div 4096 * 4096"
  by (simp add: PAGE_CEIL_eq unat_and_not_mask)

lemma unat_PAGE_SIZE [simp]: "unat PAGE_SIZE = 4096"
  by (simp add: PAGE_SIZE_def)

lemma page_offset [page_simps]: "unat (a AND PAGE_MASK) = unat a mod 4096"
  by (simp add: PAGE_MASK_eq unat_and_mask)

lemma page_aligned_iff [page_simps]: "a AND PAGE_MASK = 0 \<longleftrightarrow> 4096 dvd unat a"
  by (simp add: word_unat_eq_iff page_offset dvd_eq_mod_eq_0)

lemma unat_PAGE_FLOOR [page_simps]:
  assumes "unat a \<le> 2 ^ 32 - 4096"
  shows "unat (PAGE_FLOOR a) = (unat a + 4095) div 4096 * 4096"
proof -
  have "unat (a + 0xFFF) = unat a + 4095"
    using assms by (subst unat_add_no_wrap) auto
  then show ?thesis by (simp add: PAGE_FLOOR_eq unat_PAGE_CEIL)
qed

lemma unat_MEM_ALIGN_4: "unat sz + 3 < 2 ^ 32 \<Longrightarrow> unat (MEM_ALIGN sz 4) = (unat sz + 3) div 4 * 4"
proof -
  assume "unat sz + 3 < 2 ^ 32"
  then have "unat (sz + 3) = unat sz + 3" by (subst unat_add_no_wrap) simp_all
  moreover have "MEM_ALIGN sz 4 = (sz + 3) AND NOT (mask 2)" by (simp add: MEM_ALIGN_def mask_eq_exp_minus_1 add.commute)
  ultimately show ?thesis by (simp add: unat_and_not_mask)
qed

section \<open>Powers of two\<close>

lemma word_exp_pos: "0 < unat (w :: 'a::len word) \<Longrightarrow>
    \<exists>m. 2 ^ m \<le> unat w \<and> unat w < 2 ^ (m + 1) \<and> m < LENGTH('a)"
proof -
  assume "0 < unat w"
  then obtain m where m: "2 ^ m \<le> unat w" "unat w < 2 ^ (m + 1)"
    using ex_power_ivl1 [of 2 "unat w"] by auto
  with unat_lt [of w] have "(2::nat) ^ m < 2 ^ LENGTH('a)"
    by linarith
  then have "m < LENGTH('a)" by simp
  with m show ?thesis by blast
qed

lemma bit_unat: "bit (unat (w :: 'a::len word)) n \<longleftrightarrow> bit w n"
  by (metis bit_imp_le_length bit_unsigned_iff possible_bit_nat)

lemma bit_above: "unat (w :: 'a::len word) < 2 ^ n \<Longrightarrow> n \<le> k \<Longrightarrow> \<not> bit w k"
proof -
  assume a: "unat w < 2 ^ n" "n \<le> k"
  then have "unat w < 2 ^ k"
    by (meson order_less_le_trans power_increasing one_le_numeral)
  then have "\<not> bit (unat w) k" by (simp add: bit_iff_odd)
  then show ?thesis by (simp add: bit_unat)
qed

lemma bit_top: "2 ^ m \<le> unat (w :: 'a::len word) \<Longrightarrow> unat w < 2 ^ (m + 1) \<Longrightarrow> bit w m"
proof -
  assume "2 ^ m \<le> unat w" "unat w < 2 ^ (m + 1)"
  then have "unat w div 2 ^ m = 1"
    by (intro div_nat_eqI) auto
  then have "bit (unat w) m" by (simp add: bit_iff_odd)
  then show ?thesis by (simp add: bit_unat)
qed

text \<open>One step of the smearing: \<open>size |= size >> k\<close> doubles the reach.\<close>

lemma smear_step:
  assumes "\<And>n. bit r n \<longleftrightarrow> (\<exists>j<k. bit s (n + j))"
  shows "bit (r OR drop_bit k r) n \<longleftrightarrow> (\<exists>j<2 * k. bit (s :: 'a::len word) (n + j))"
proof -
  have "bit (r OR drop_bit k r) n \<longleftrightarrow> (\<exists>j<k. bit s (n + j)) \<or> (\<exists>j<k. bit s (n + (k + j)))"
    by (simp add: bit_or_iff bit_drop_bit_eq assms add.assoc add.left_commute)
  also have "\<dots> \<longleftrightarrow> (\<exists>j<2 * k. bit s (n + j))"
  proof
    assume "(\<exists>j<k. bit s (n + j)) \<or> (\<exists>j<k. bit s (n + (k + j)))"
    then show "\<exists>j<2 * k. bit s (n + j)"
    proof
      assume "\<exists>j<k. bit s (n + j)"
      then obtain j where "j < k" "bit s (n + j)" by blast
      then show ?thesis by (intro exI [of _ j]) simp
    next
      assume "\<exists>j<k. bit s (n + (k + j))"
      then obtain j where "j < k" "bit s (n + (k + j))" by blast
      then show ?thesis by (intro exI [of _ "k + j"]) simp
    qed
  next
    assume "\<exists>j<2 * k. bit s (n + j)"
    then obtain j where j: "j < 2 * k" "bit s (n + j)" by blast
    show "(\<exists>j<k. bit s (n + j)) \<or> (\<exists>j<k. bit s (n + (k + j)))"
    proof (cases "j < k")
      case True with j show ?thesis by blast
    next
      case False
      then have "j - k < k" "n + (k + (j - k)) = n + j" using j by auto
      with j show ?thesis by metis
    qed
  qed
  finally show ?thesis .
qed

definition smear :: "u32 \<Rightarrow> u32" where
  "smear sz = (let a = sz OR drop_bit 1 sz; b = a OR drop_bit 2 a; c = b OR drop_bit 4 b;
                   d = c OR drop_bit 8 c in d OR drop_bit 16 d)"

lemma bit_smear: "bit (smear s) n \<longleftrightarrow> (\<exists>j<32. bit s (n + j))"
proof -
  define a where "a = s OR drop_bit 1 s"
  define b where "b = a OR drop_bit 2 a"
  define c where "c = b OR drop_bit 4 b"
  define d where "d = c OR drop_bit 8 c"
  have "\<And>n. bit a n \<longleftrightarrow> (\<exists>j<2. bit s (n + j))"
    using smear_step [of s 1 s] by (simp add: a_def)
  then have "\<And>n. bit b n \<longleftrightarrow> (\<exists>j<4. bit s (n + j))"
    using smear_step [of a 2 s] by (simp add: b_def)
  then have "\<And>n. bit c n \<longleftrightarrow> (\<exists>j<8. bit s (n + j))"
    using smear_step [of b 4 s] by (simp add: c_def)
  then have "\<And>n. bit d n \<longleftrightarrow> (\<exists>j<16. bit s (n + j))"
    using smear_step [of c 8 s] by (simp add: d_def)
  then have "bit (d OR drop_bit 16 d) n \<longleftrightarrow> (\<exists>j<32. bit s (n + j))"
    using smear_step [of d 16 s] by simp
  then show ?thesis by (simp add: smear_def a_def b_def c_def d_def Let_def)
qed

lemma smear_eq_mask:
  assumes "2 ^ m \<le> unat s" "unat s < 2 ^ (m + 1)" "m < 32"
  shows "smear s = mask (m + 1)"
proof (rule bit_word_eqI)
  fix n assume n: "n < LENGTH(32)"
  have "bit (smear s) n \<longleftrightarrow> n \<le> m"
  proof
    assume "bit (smear s) n"
    then obtain j where "bit s (n + j)" by (auto simp: bit_smear)
    then have "\<not> m + 1 \<le> n + j" using bit_above [OF assms(2)] by blast
    then show "n \<le> m" by simp
  next
    assume "n \<le> m"
    with bit_top [OF assms(1,2)] assms(3) show "bit (smear s) n"
      by (auto simp: bit_smear intro!: exI [of _ "m - n"])
  qed
  with n show "bit (smear s) n \<longleftrightarrow> bit (mask (m + 1) :: u32) n"
    by (auto simp: bit_simps less_Suc_eq_le)
qed

lemma fixSize_smear: "\<not> IS_POWER_OF_2 s \<Longrightarrow> fixSize s = smear s + 1"
  by (simp add: fixSize_def smear_def Let_def)

lemma IS_POWER_OF_2_exp: "IS_POWER_OF_2 (2 ^ k)"
proof (cases "k < 32")
  case True
  have "(2 ^ k :: u32) AND mask k = 0"
    by (rule bit_word_eqI) (auto simp: bit_simps)
  then show ?thesis by (simp add: IS_POWER_OF_2_def mask_eq_exp_minus_1)
next
  case False
  then have "(2 ^ k :: u32) = 0" by (intro word_exp_zero) simp
  then show ?thesis by (simp only: IS_POWER_OF_2_def) simp
qed

lemma IS_POWER_OF_2_D:
  assumes "IS_POWER_OF_2 s" "2 ^ m \<le> unat s" "unat s < 2 ^ (m + 1)" "m < 32"
  shows "s = 2 ^ m"
proof (rule ccontr)
  assume "s \<noteq> 2 ^ m"
  have u: "unat (2 ^ m :: u32) = 2 ^ m" using assms(4) by (simp add: unat_exp)
  with \<open>s \<noteq> 2 ^ m\<close> assms(2) have gt: "2 ^ m < unat s"
    by (metis order_le_less word_unat_eq_iff)
  then have "unat (s - 1) = unat s - 1"
    by (metis gr_implies_not0 unat_minus_one unat_0)
  with gt assms(3) have "2 ^ m \<le> unat (s - 1)" "unat (s - 1) < 2 ^ (m + 1)" by auto
  then have "bit (s - 1) m" by (rule bit_top)
  moreover have "bit s m" using assms(2,3) by (rule bit_top)
  ultimately have "bit (s AND (s - 1)) m" by (simp add: bit_and_iff)
  with assms(1) show False by (simp add: IS_POWER_OF_2_def)
qed

text \<open>\<^verbatim>\<open>fixSize\<close> rounds up to the least power of two, for every size up to 2 GiB.\<close>

lemma fixSize_exp:
  assumes "0 < unat s" "unat s \<le> 2 ^ 31"
  obtains k where "k \<le> 31" "fixSize s = 2 ^ k" "unat s \<le> 2 ^ k" "\<And>j. unat s \<le> 2 ^ j \<Longrightarrow> k \<le> j"
proof -
  obtain m where m: "2 ^ m \<le> unat s" "unat s < 2 ^ (m + 1)" "m < 32"
    using word_exp_pos [OF assms(1)] by auto
  show thesis
  proof (cases "IS_POWER_OF_2 s")
    case True
    then have s: "s = 2 ^ m" using m by (rule IS_POWER_OF_2_D)
    have u: "unat s = 2 ^ m" unfolding s using m(3) by (simp add: unat_exp)
    show thesis
    proof (rule that)
      show "m \<le> 31" using m(3) by simp
      show "fixSize s = 2 ^ m" using True s by (simp add: fixSize_def)
      show "unat s \<le> 2 ^ m" using u by simp
      show "\<And>j. unat s \<le> 2 ^ j \<Longrightarrow> m \<le> j" using u by simp
    qed
  next
    case False
    have "unat s \<noteq> 2 ^ m"
    proof
      assume "unat s = 2 ^ m"
      then have "s = 2 ^ m" using m(3) by (simp add: word_unat_eq_iff unat_exp)
      with False IS_POWER_OF_2_exp show False by simp
    qed
    with m have gt: "2 ^ m < unat s" by simp
    with assms(2) have "(2::nat) ^ m < 2 ^ 31" by linarith
    then have m31: "m < 31" using power_less_imp_less_exp [of "2::nat" m 31] by simp
    show thesis
    proof (rule that)
      show "m + 1 \<le> 31" using m31 by simp
      show "fixSize s = 2 ^ (m + 1)"
        using False by (simp add: fixSize_smear smear_eq_mask [OF m] mask_eq_exp_minus_1)
      show "unat s \<le> 2 ^ (m + 1)" using m by simp
      fix j assume "unat s \<le> 2 ^ j"
      with gt have "(2::nat) ^ m < 2 ^ j" by linarith
      then show "m + 1 \<le> j" by simp
    qed
  qed
qed

section \<open>\<^verbatim>\<open>log2\<close>\<close>

lemma log2_loop_exp:
  assumes "2 ^ k \<le> unat v" "unat v < 2 ^ (k + 1)"
  shows "log2_loop v c = Some (c + of_nat k)"
  using assms
proof (induction k arbitrary: v c)
  case 0
  then have "unat v = 1" by simp
  then have "v = 1" by (metis unat_1 word_unat_eq_iff)
  then show ?case by (simp add: log2_loop.simps)
next
  case (Suc k)
  from Suc.prems have "2 \<le> unat v"
    using one_le_power [of "2::nat" k] by (simp only: power_Suc) linarith
  then have "v \<noteq> 1" by auto
  have "unat (drop_bit 1 v) = unat v div 2"
    by (simp only: unat_drop_bit_eq) (simp only: drop_bit_eq_div power_one_right)
  with Suc.prems have "2 ^ k \<le> unat (drop_bit 1 v)" "unat (drop_bit 1 v) < 2 ^ (k + 1)"
    by auto
  then have "log2_loop (drop_bit 1 v) (c + 1) = Some (c + 1 + of_nat k)" by (rule Suc.IH)
  with \<open>v \<noteq> 1\<close> show ?case by (subst log2_loop.simps) (simp add: algebra_simps)
qed

lemma log2_exp: "k < 16 \<Longrightarrow> log2 (2 ^ k) = Some (of_nat k)"
  using log2_loop_exp [of k "2 ^ k" 0] by (simp add: log2_def unat_exp)

lemma log2_loop_zero: "log2_loop 0 c = None"
proof (rule ccontr)
  assume "log2_loop 0 c \<noteq> None"
  then obtain r where ret: "log2_loop 0 c = Some r" by blast
  have "(0 :: u16) \<noteq> 0"
  proof (rule log2_loop.raw_induct [where P = "\<lambda>v c r. v \<noteq> 0", OF _ ret])
    fix f v c r
    assume "\<And>v c r. f v c = Some r \<Longrightarrow> v \<noteq> (0::u16)"
      and "(if v \<noteq> 1 then f (drop_bit 1 v) (c + 1) else Some c) = Some r"
    then show "v \<noteq> 0" by (metis drop_bit_of_0 zero_neq_one)
  qed
  then show False by simp
qed

text \<open>
  For every size from 1 byte to 2 GiB, \<^verbatim>\<open>fixSize\<close> returns the least power of two that is not
  below the size; the shift-and-or cascade never overflows there.
\<close>

theorem fixSize_least_power_of_two:
  assumes "0 < unat sz" "unat sz \<le> 2 ^ 31"
  shows "\<exists>k\<le>31. fixSize sz = 2 ^ k \<and> unat sz \<le> unat (fixSize sz) \<and>
           (\<forall>j. unat sz \<le> 2 ^ j \<longrightarrow> unat (fixSize sz) \<le> 2 ^ j)"
proof -
  from fixSize_exp [OF assms] obtain k where k: "k \<le> 31" "fixSize sz = 2 ^ k" "unat sz \<le> 2 ^ k"
    "\<And>j. unat sz \<le> 2 ^ j \<Longrightarrow> k \<le> j" by metis
  have "unat (fixSize sz) = 2 ^ k" using k(1,2) by (simp add: unat_exp)
  with k show ?thesis by (intro exI [of _ k]) (simp add: power_increasing)
qed

theorem fixSize_least_power_of_two_witness:
  "fixSize 100 = 128 \<and>
   (\<exists>k\<le>31. fixSize 100 = 2 ^ k \<and> unat (100 :: u32) \<le> unat (fixSize 100) \<and>
      (\<forall>j. unat (100 :: u32) \<le> 2 ^ j \<longrightarrow> unat (fixSize 100) \<le> 2 ^ j))"
proof
  show "fixSize 100 = 128" by (simp add: fixSize_def IS_POWER_OF_2_def Let_def)
qed (rule fixSize_least_power_of_two; simp)

text \<open>
  \<^verbatim>\<open>log2\<close> returns on every non-zero 16-bit argument, and its result is the integer logarithm;
  on 0 its loop never ends.
\<close>

theorem log2_floor:
  "if val = 0 then log2 val = None
   else \<exists>k. log2 val = Some k \<and> 2 ^ unat k \<le> unat val \<and> unat val < 2 ^ (unat k + 1)"
proof -
  have "\<exists>k. log2 val = Some k \<and> 2 ^ unat k \<le> unat val \<and> unat val < 2 ^ (unat k + 1)" if "val \<noteq> 0"
  proof -
    from that have "0 < unat val" by (simp add: unat_gt_0)
    then obtain m where m: "2 ^ m \<le> unat val" "unat val < 2 ^ (m + 1)" "m < 16"
      using word_exp_pos [of val] by auto
    then have "log2 val = Some (of_nat m)" by (simp add: log2_def log2_loop_exp)
    moreover have "unat (of_nat m :: u8) = m" using m(3) by (simp add: unat_of_nat)
    ultimately show ?thesis using m by auto
  qed
  then show ?thesis by (auto simp: log2_def log2_loop_zero)
qed

end
