(* ===== verification/Buddy.thy ===== *)
theory Buddy
  imports Klib Klist
begin

text \<open>
  The physical page allocator, a binary buddy system: \<^verbatim>\<open>mm/page_alloc.c\<close> with \<^verbatim>\<open>mm/page.h\<close>.

  A \<^verbatim>\<open>struct page *\<close> is its index into \<^verbatim>\<open>allocator.pages\<close>. The eleven free lists
  \<^verbatim>\<open>allocator.root\<close> are HOL lists of page indices, which stand for the doubly linked lists of
  theory \<^verbatim>\<open>Klist\<close>; \<^verbatim>\<open>list_del\<close> takes a page out of whichever list it is in. The \<^verbatim>\<open>magic\<close> field
  and the union of slab and cache information are left to the components that use them.

  Shown here: a well-formedness invariant (the heads tile the managed memory with aligned blocks,
  the free lists hold exactly the unreferenced heads of their order, no two free buddies are left
  apart), its preservation by allocation and release, what both return, when allocation panics,
  and that releasing a block restores the free lists.
\<close>

section \<open>Definitions\<close>

definition MAX_ORDER :: nat where "MAX_ORDER = 10"

definition ORDER_SIZE :: "nat \<Rightarrow> u32" where
  "ORDER_SIZE order = push_bit 12 (push_bit order 1)"

definition ORDER_CNT :: "nat \<Rightarrow> nat" where
  "ORDER_CNT order = 2 ^ order"

definition PG_Head :: u16 where "PG_Head = 1"
definition PG_Page :: u16 where "PG_Page = 2"
definition PG_SLAB :: u16 where "PG_SLAB = 32"
definition PG_HEAD_BIT :: nat where "PG_HEAD_BIT = 0"

record page =
  pg_size :: u32
  pg_flag :: u16
  pg_ref_cnt :: u16
  pg_data :: ptr_t
  pg_rwlock :: rwlock

definition page_head :: "page \<Rightarrow> bool" where
  "page_head p \<longleftrightarrow> pg_flag p AND PG_Head \<noteq> 0"

definition is_slab :: "page \<Rightarrow> bool" where
  "is_slab p \<longleftrightarrow> pg_flag p AND PG_SLAB \<noteq> 0"

text \<open>
  \<^verbatim>\<open>struct buddyAllocator\<close>. \<open>ba_npages\<close> is the length of the array of page structures, reserved
  by \<^verbatim>\<open>pmm_init_mm\<close>; \<open>ba_pageCnt\<close> the number of them that manage memory.
\<close>

record buddyAllocator =
  ba_root :: "nat \<Rightarrow> nat list"
  ba_lock :: spinlock_t
  ba_addr :: ptr_t
  ba_size :: u32
  ba_pages :: "nat \<Rightarrow> page"
  ba_pageCnt :: nat
  ba_npages :: nat

abbreviation upd_page :: "nat \<Rightarrow> (page \<Rightarrow> page) \<Rightarrow> buddyAllocator \<Rightarrow> buddyAllocator" where
  "upd_page i f s \<equiv> s\<lparr>ba_pages := (ba_pages s)(i := f (ba_pages s i))\<rparr>"

abbreviation root_add_prev :: "nat \<Rightarrow> nat \<Rightarrow> buddyAllocator \<Rightarrow> buddyAllocator" where
  "root_add_prev i ord s \<equiv> s\<lparr>ba_root := (ba_root s)(ord := ba_root s ord @ [i])\<rparr>"

abbreviation root_del :: "nat \<Rightarrow> buddyAllocator \<Rightarrow> buddyAllocator" where
  "root_del i s \<equiv> s\<lparr>ba_root := (\<lambda>ord. remove1 i (ba_root s ord))\<rparr>"

subsection \<open>Setting up\<close>

text \<open>The loop over \<^verbatim>\<open>k\<close> of \<^verbatim>\<open>page_setup\<close>: mark \<open>k\<close> pages from \<open>i\<close> on.\<close>

fun setup_pages :: "nat \<Rightarrow> nat \<Rightarrow> buddyAllocator \<Rightarrow> buddyAllocator" where
  "setup_pages 0 i s = s"
| "setup_pages (Suc k) i s =
     setup_pages k (Suc i) (upd_page i (\<lambda>p. p\<lparr>pg_flag := pg_flag p OR PG_Page\<rparr>) s)"

text \<open>The loop over \<^verbatim>\<open>j\<close>: \<open>cnt\<close> blocks of one order from page \<open>i\<close> on.\<close>

fun setup_blocks :: "nat \<Rightarrow> nat \<Rightarrow> nat \<Rightarrow> buddyAllocator \<Rightarrow> nat \<times> buddyAllocator" where
  "setup_blocks ord 0 i s = (i, s)"
| "setup_blocks ord (Suc cnt) i s =
     (let s = upd_page i (\<lambda>p. p\<lparr>pg_flag := pg_flag p OR PG_Head, pg_size := ORDER_SIZE ord\<rparr>) s;
          s = root_add_prev i ord s;
          s = setup_pages (ORDER_CNT ord) i s
      in setup_blocks ord cnt (i + ORDER_CNT ord) s)"

text \<open>The loop over the orders, from \<open>ord - 1\<close> down to 0.\<close>

fun setup_orders :: "nat \<Rightarrow> u32 \<Rightarrow> nat \<Rightarrow> buddyAllocator \<Rightarrow> nat \<times> buddyAllocator" where
  "setup_orders 0 sz i s = (i, s)"
| "setup_orders (Suc ord) sz i s =
     (if sz > 0 then
        (let orderSize = ORDER_SIZE ord in
         if sz < orderSize then setup_orders ord sz i s
         else
           (let cnt = sz div orderSize;
                sz = sz mod orderSize;
                (i, s) = setup_blocks ord (unat cnt) i s
            in setup_orders ord sz i s))
      else (i, s))"

definition page_setup :: "nat \<Rightarrow> ptr_t \<Rightarrow> u32 \<Rightarrow> buddyAllocator \<Rightarrow> (nat \<times> buddyAllocator) option" where
  "page_setup pages addr sz s = do {
     let reSize = (of_nat (ba_pageCnt s) - of_nat pages :: u32);
     assertk (reSize \<ge> drop_bit 12 sz);
     let sz = PAGE_CEIL (sz - (PAGE_FLOOR addr - addr));
     let (i, s) = setup_orders (MAX_ORDER + 1) sz pages s;
     Some (i, s\<lparr>ba_size := ba_size s + push_bit 12 (of_nat (i - pages))\<rparr>)
   }"

text \<open>
  \<^verbatim>\<open>pmm_init\<close> after \<^verbatim>\<open>pmm_init_mm\<close> has set \<^verbatim>\<open>pageCnt\<close>; \<open>start\<close> is \<^verbatim>\<open>block_start()\<close> and \<open>blocks\<close>
  the list of the block allocator, as pairs of address and size.
\<close>

fun setup_regions ::
  "(ptr_t \<times> u32) list \<Rightarrow> nat \<Rightarrow> buddyAllocator \<Rightarrow> (nat \<times> buddyAllocator) option" where
  "setup_regions [] i s = Some (i, s)"
| "setup_regions ((addr, sz) # blocks) i s = do {
     (i, s) \<leftarrow> page_setup i addr sz s;
     setup_regions blocks i s
   }"

definition pmm_reset :: "ptr_t \<Rightarrow> buddyAllocator \<Rightarrow> buddyAllocator" where
  "pmm_reset start s = s\<lparr>ba_size := 0, ba_addr := PAGE_FLOOR start, ba_npages := ba_pageCnt s,
     ba_pages := (\<lambda>i. if i < ba_pageCnt s
       then (ba_pages s i)\<lparr>pg_flag := 0, pg_ref_cnt := 0, pg_size := 0, pg_rwlock := rwlock_init\<rparr>
       else ba_pages s i),
     ba_root := (\<lambda>_. [])\<rparr>"

definition pmm_init :: "ptr_t \<Rightarrow> (ptr_t \<times> u32) list \<Rightarrow> buddyAllocator \<Rightarrow> buddyAllocator option" where
  "pmm_init start blocks s = do {
     (i, s) \<leftarrow> setup_regions blocks 0 (pmm_reset start s);
     Some (s\<lparr>ba_pageCnt := i, ba_lock := spinlock_init\<rparr>)
   }"

subsection \<open>Pages and addresses\<close>

definition page_addr :: "nat \<Rightarrow> buddyAllocator \<Rightarrow> ptr_t" where
  "page_addr i s = ba_addr s + push_bit 12 (of_nat i)"

text \<open>
  The outer \<open>option\<close> is the check of the magic number: outside the array it cannot be relied on.
\<close>

definition get_page :: "ptr_t \<Rightarrow> buddyAllocator \<Rightarrow> nat option option" where
  "get_page addr s =
     (if addr AND PAGE_MASK \<noteq> 0 then Some None
      else if addr < ba_addr s then Some None
      else let i = unat (drop_bit 12 (addr - ba_addr s))
           in if i < ba_npages s then Some (Some i) else None)"

definition get_buddy :: "nat \<Rightarrow> buddyAllocator \<Rightarrow> nat option" where
  "get_buddy i s =
     (let pgCnt = unat (drop_bit 12 (pg_size (ba_pages s i)));
          cnt = i div pgCnt;
          buddy = (if odd cnt then i - pgCnt else i + pgCnt)
      in if ba_pageCnt s \<le> buddy then None else Some buddy)"

subsection \<open>Allocation\<close>

text \<open>The inner loop of \<^verbatim>\<open>__alloc_page\<close>, for \<^verbatim>\<open>j\<close> from \<open>i - 1\<close> down to \<open>logSize\<close>.\<close>

fun split_block :: "nat \<Rightarrow> nat \<Rightarrow> nat \<Rightarrow> buddyAllocator \<Rightarrow> buddyAllocator option" where
  "split_block pg logSize 0 s = Some s"
| "split_block pg logSize (Suc j) s =
     (if logSize \<le> j then do {
        let new = pg + ORDER_CNT j;
        assertk (\<not> page_head (ba_pages s new));
        let s = upd_page new (\<lambda>p. p\<lparr>pg_size := ORDER_SIZE j, pg_flag := pg_flag p OR PG_Head\<rparr>) s;
        let s = root_add_prev new j s;
        split_block pg logSize j s
      } else Some s)"

text \<open>The first order from \<open>logSize\<close> to \<^verbatim>\<open>MAX_ORDER\<close> whose free list is not empty.\<close>

definition find_root :: "nat \<Rightarrow> buddyAllocator \<Rightarrow> nat option" where
  "find_root logSize s = List.find (\<lambda>i. ba_root s i \<noteq> []) [logSize..<MAX_ORDER + 1]"

text \<open>\<^verbatim>\<open>__alloc_page\<close>\<close>

definition alloc_page_core :: "u32 \<Rightarrow> buddyAllocator \<Rightarrow> (nat \<times> buddyAllocator) option" where
  "alloc_page_core sz s = do {
     let sz = fixSize sz;
     assertk (sz > 0 \<and> sz \<le> 0x400000 \<and> sz AND PAGE_MASK = 0);
     logSize \<leftarrow> log2 (ucast (drop_bit 12 sz));
     l \<leftarrow> spinlock_lock (ba_lock s);
     let s = s\<lparr>ba_lock := l\<rparr>;
     i \<leftarrow> find_root (unat logSize) s;
     let pg = hd (ba_root s i);
     assertk (page_head (ba_pages s pg));
     s \<leftarrow> split_block pg (unat logSize) i s;
     let s = s\<lparr>ba_size := ba_size s - sz\<rparr>;
     let s = root_del pg s;
     let s = s\<lparr>ba_lock := spinlock_unlock (ba_lock s)\<rparr>;
     let s = upd_page pg (\<lambda>p. p\<lparr>pg_size := sz, pg_ref_cnt := 1, pg_rwlock := rwlock_init\<rparr>) s;
     Some (pg, s)
   }"

definition alloc_page :: "u32 \<Rightarrow> buddyAllocator \<Rightarrow> (ptr_t \<times> buddyAllocator) option" where
  "alloc_page sz s = do {
     (pg, s) \<leftarrow> alloc_page_core sz s;
     Some (page_addr pg s, s)
   }"

definition alloc_one_page :: "buddyAllocator \<Rightarrow> (ptr_t \<times> buddyAllocator) option" where
  "alloc_one_page s = alloc_page PAGE_SIZE s"

subsection \<open>Release\<close>

text \<open>The merging loop of \<^verbatim>\<open>__free_page\<close>; the result is the block that was put back.\<close>

function free_loop :: "nat \<Rightarrow> nat \<Rightarrow> buddyAllocator \<Rightarrow> (nat \<times> buddyAllocator) option" where
  "free_loop pg order s =
     (if pg_ref_cnt (ba_pages s pg) = 0 \<and> order \<le> MAX_ORDER then
        (case get_buddy pg s of
           None \<Rightarrow> Some (pg, root_add_prev pg order s)
         | Some buddy \<Rightarrow>
             if pg_ref_cnt (ba_pages s buddy) \<noteq> 0 \<or>
                pg_size (ba_pages s buddy) \<noteq> pg_size (ba_pages s pg) \<or> order = MAX_ORDER
             then Some (pg, root_add_prev pg order s)
             else do {
               let s = root_del buddy s;
               let tmp = c_MAX buddy pg;
               let pg = c_MIN buddy pg;
               assertk (pg + unat (drop_bit 12 (pg_size (ba_pages s pg))) = tmp);
               let s = upd_page tmp (\<lambda>p. p\<lparr>pg_flag := CLEAR_BIT (pg_flag p) PG_HEAD_BIT\<rparr>) s;
               let s = upd_page pg (\<lambda>p. p\<lparr>pg_size := push_bit 1 (pg_size p)\<rparr>) s;
               free_loop pg (Suc order) s
             })
      else Some (pg, s))"
  by pat_completeness auto
termination by (relation "measure (\<lambda>(pg, order, s). Suc MAX_ORDER - order)") auto

text \<open>\<^verbatim>\<open>__free_page\<close>\<close>

definition free_page_core :: "nat \<Rightarrow> buddyAllocator \<Rightarrow> buddyAllocator option" where
  "free_page_core pg s = do {
     assertk (pg_ref_cnt (ba_pages s pg) > 0);
     assertk (pg_flag (ba_pages s pg) AND PG_Head \<noteq> 0);
     k \<leftarrow> wlock_lock (pg_rwlock (ba_pages s pg));
     let s = upd_page pg (\<lambda>p. p\<lparr>pg_rwlock := k, pg_ref_cnt := pg_ref_cnt p - 1\<rparr>) s;
     if pg_ref_cnt (ba_pages s pg) > 0 then Some s
     else do {
       order \<leftarrow> log2 (ucast (drop_bit 12 (pg_size (ba_pages s pg))));
       let s = upd_page pg (\<lambda>p. p\<lparr>pg_data := 0, pg_flag := pg_flag p OR (PG_Page OR PG_Head)\<rparr>) s;
       l \<leftarrow> spinlock_lock (ba_lock s);
       let s = s\<lparr>ba_lock := l\<rparr>;
       (pg, s) \<leftarrow> free_loop pg (unat order) s;
       let s = upd_page pg (\<lambda>p. p\<lparr>pg_rwlock := wlock_unlock (pg_rwlock p)\<rparr>) s;
       Some (s\<lparr>ba_lock := spinlock_unlock (ba_lock s)\<rparr>)
     }
   }"

definition free_page :: "ptr_t \<Rightarrow> buddyAllocator \<Rightarrow> (int \<times> buddyAllocator) option" where
  "free_page addr s = do {
     assertk (addr AND PAGE_MASK = 0);
     r \<leftarrow> get_page addr s;
     (case r of
        None \<Rightarrow> Some (-1, s)
      | Some pg \<Rightarrow> do {
          assertk (pg_flag (ba_pages s pg) AND PG_Head \<noteq> 0);
          s \<leftarrow> free_page_core pg s;
          Some (0, s)
        })
   }"

subsection \<open>Counting free memory\<close>

text \<open>The test functions \<^verbatim>\<open>page_cnt\<close> and \<^verbatim>\<open>allocator_size\<close>.\<close>

definition page_cnt :: "buddyAllocator \<Rightarrow> u32" where
  "page_cnt s = (\<Sum>j\<leftarrow>[0..<MAX_ORDER + 1]. of_nat (length (ba_root s j)) * of_nat (ORDER_CNT j))"

definition allocator_size :: "buddyAllocator \<Rightarrow> u32 option" where
  "allocator_size s = do {
     assertk (\<forall>j\<in>set [0..<MAX_ORDER + 1]. \<forall>i\<in>set (ba_root s j). pg_size (ba_pages s i) = ORDER_SIZE j);
     Some (\<Sum>j\<leftarrow>[0..<MAX_ORDER + 1]. \<Sum>i\<leftarrow>ba_root s j. ORDER_SIZE j)
   }"

section \<open>Tilings of the page range by aligned blocks\<close>

text \<open>\<open>f i = Some d\<close>: a block of \<open>2^d\<close> pages starts at page \<open>i\<close>.\<close>

definition tiles :: "nat \<Rightarrow> (nat \<Rightarrow> nat option) \<Rightarrow> bool" where
  "tiles n f \<longleftrightarrow>
     (\<forall>i d. f i = Some d \<longrightarrow> d \<le> MAX_ORDER \<and> 2 ^ d dvd i \<and> i + 2 ^ d \<le> n) \<and>
     (\<forall>j<n. \<exists>i d. f i = Some d \<and> i \<le> j \<and> j < i + 2 ^ d) \<and>
     (\<forall>i d i' d'. f i = Some d \<longrightarrow> f i' = Some d' \<longrightarrow> i < i' \<longrightarrow> i + 2 ^ d \<le> i')"

definition bud :: "nat \<Rightarrow> nat \<Rightarrow> nat" where
  "bud i d = (if odd (i div 2 ^ d) then i - 2 ^ d else i + 2 ^ d)"

lemma tilesD:
  assumes "tiles n f"
  shows "f i = Some d \<Longrightarrow> d \<le> MAX_ORDER" "f i = Some d \<Longrightarrow> 2 ^ d dvd i" "f i = Some d \<Longrightarrow> i + 2 ^ d \<le> n"
    "f i = Some d \<Longrightarrow> i < n"
    "f i = Some d \<Longrightarrow> f i' = Some d' \<Longrightarrow> i < i' \<Longrightarrow> i + 2 ^ d \<le> i'"
proof -
  have "0 < (2::nat) ^ d" for d by simp
  with assms show "f i = Some d \<Longrightarrow> i < n" unfolding tiles_def by (metis add_lessD1 less_add_same_cancel1 order_less_le_trans)
qed (use assms in \<open>auto simp: tiles_def\<close>)

lemma tiles_cover:
  assumes "tiles n f" "j < n"
  obtains i d where "f i = Some d" "i \<le> j" "j < i + 2 ^ d"
  using assms unfolding tiles_def by blast

lemma tiles_overlap:
  assumes "tiles n f" "f i = Some d" "f i' = Some d'" "i \<le> j" "j < i + 2 ^ d" "i' \<le> j" "j < i' + 2 ^ d'"
  shows "i = i'"
  using tilesD(5) [OF assms(1), of i d i' d'] tilesD(5) [OF assms(1), of i' d' i d] assms(2-7)
  by (metis leD le_less_trans linorder_neqE_nat)

lemma tiles_inside:
  assumes "tiles n f" "f i = Some d" "i < j" "j < i + 2 ^ d"
  shows "f j = None"
  using tilesD(5) [OF assms(1,2), of j] assms(3,4) by (cases "f j") (auto simp: leD)

lemma dvd_exp_less:
  assumes "2 ^ d dvd i" "2 ^ d dvd j" "i < j"
  shows "i + 2 ^ d \<le> (j :: nat)"
proof -
  have "2 ^ d dvd j - i" using assms by (simp add: dvd_diff_nat)
  then have "2 ^ d \<le> j - i" using assms(3) by (intro dvd_imp_le) simp_all
  then show ?thesis using assms(3) by simp
qed

lemma tiles_split:
  assumes t: "tiles n f" and i: "f i = Some (Suc d)"
  shows "tiles n (f(i \<mapsto> d, i + 2 ^ d \<mapsto> d))"
proof -
  let ?g = "f(i \<mapsto> d, i + 2 ^ d \<mapsto> d)"
  note b = tilesD(1-3) [OF t i]
  have g: "?g k = Some q \<Longrightarrow> k = i \<and> q = d \<or> k = i + 2 ^ d \<and> q = d \<or> k \<noteq> i \<and> k \<noteq> i + 2 ^ d \<and> f k = Some q"
    for k q by (auto split: if_splits)
  have out: "k + 2 ^ q \<le> i \<or> i + 2 ^ d + 2 ^ d \<le> k" if "f k = Some q" "k \<noteq> i" for k q
    using tilesD(5) [OF t, of k q i "Suc d"] tilesD(5) [OF t, of i "Suc d" k q] that i by force
  have dvd: "2 ^ d dvd i" "2 ^ d dvd i + 2 ^ d" using b(2) by (auto simp: power_Suc intro: dvd_mult_right)
  have 1: "d \<le> MAX_ORDER \<and> 2 ^ q dvd k \<and> k + 2 ^ q \<le> n \<and> q \<le> MAX_ORDER" if "?g k = Some q" for k q
    using g [OF that] b dvd tilesD(1-3) [OF t, of k q] by auto
  have 2: "\<exists>k q. ?g k = Some q \<and> k \<le> j \<and> j < k + 2 ^ q" if j: "j < n" for j
  proof -
    obtain k q where k: "f k = Some q" "k \<le> j" "j < k + 2 ^ q" using tiles_cover [OF t j] .
    show ?thesis
    proof (cases "k = i")
      case True
      then have "j < i + 2 ^ d \<or> i + 2 ^ d \<le> j \<and> j < i + 2 ^ d + 2 ^ d" using k i by auto
      then show ?thesis using k True
        by (elim disjE) (intro exI [of _ i] exI [of _ d], simp, intro exI [of _ "i + 2 ^ d"] exI [of _ d], simp)
    next
      case False
      then have "k \<noteq> i + 2 ^ d" using out [OF k(1)] by auto
      then show ?thesis using k False by (intro exI [of _ k] exI [of _ q]) simp
    qed
  qed
  have 3: "k + 2 ^ q \<le> k'" if "?g k = Some q" "?g k' = Some q'" "k < k'" for k q k' q'
    using g [OF that(1)] g [OF that(2)] that(3) out [of k q] out [of k' q'] tilesD(5) [OF t, of k q k' q']
    by (elim disjE conjE; simp; linarith?)
  show ?thesis unfolding tiles_def using 1 2 3 by blast
qed

lemma tiles_merge:
  assumes t: "tiles n f" and i: "f i = Some d" "f (i + 2 ^ d) = Some d" and a: "2 ^ Suc d dvd i" "d < MAX_ORDER"
  shows "tiles n (f(i \<mapsto> Suc d, i + 2 ^ d := None))"
proof -
  let ?g = "f(i \<mapsto> Suc d, i + 2 ^ d := None)"
  have g: "?g k = Some q \<Longrightarrow> k = i \<and> q = Suc d \<or> k \<noteq> i \<and> k \<noteq> i + 2 ^ d \<and> f k = Some q"
    for k q by (auto split: if_splits)
  have out: "k + 2 ^ q \<le> i \<or> i + 2 ^ d + 2 ^ d \<le> k" if "f k = Some q" "k \<noteq> i" "k \<noteq> i + 2 ^ d" for k q
    using tilesD(5) [OF t, of k q i d] tilesD(5) [OF t, of i d k q] that i
      tilesD(5) [OF t, of "i + 2 ^ d" d k q] tilesD(5) [OF t, of k q "i + 2 ^ d" d] by force
  have 1: "q \<le> MAX_ORDER \<and> 2 ^ q dvd k \<and> k + 2 ^ q \<le> n" if "?g k = Some q" for k q
    using g [OF that] a tilesD(1-3) [OF t, of k q] tilesD(3) [OF t i(2)] by auto
  have 2: "\<exists>k q. ?g k = Some q \<and> k \<le> j \<and> j < k + 2 ^ q" if j: "j < n" for j
  proof -
    obtain k q where k: "f k = Some q" "k \<le> j" "j < k + 2 ^ q" using tiles_cover [OF t j] .
    show ?thesis
    proof (cases "k = i \<or> k = i + 2 ^ d")
      case True
      then show ?thesis using k i by (intro exI [of _ i] exI [of _ "Suc d"]) auto
    next
      case False
      then show ?thesis using k by (intro exI [of _ k] exI [of _ q]) simp
    qed
  qed
  have 3: "k + 2 ^ q \<le> k'" if "?g k = Some q" "?g k' = Some q'" "k < k'" for k q k' q'
    using g [OF that(1)] g [OF that(2)] that(3) out [of k q] out [of k' q'] tilesD(5) [OF t, of k q k' q']
    by (elim disjE conjE; simp; linarith?)
  show ?thesis unfolding tiles_def using 1 2 3 by blast
qed

lemma in_block_iff: "2 ^ d dvd i \<Longrightarrow> (i \<le> j \<and> j < i + 2 ^ d) \<longleftrightarrow> j div 2 ^ d = i div 2 ^ d" for i :: nat
proof -
  assume "2 ^ d dvd i"
  then obtain q where q: "i = 2 ^ d * q" by (elim dvdE)
  show ?thesis
  proof
    assume "i \<le> j \<and> j < i + 2 ^ d"
    then show "j div 2 ^ d = i div 2 ^ d" using q by (intro div_nat_eqI) (auto simp: algebra_simps)
  next
    assume e: "j div 2 ^ d = i div 2 ^ d"
    have "j = 2 ^ d * (j div 2 ^ d) + j mod 2 ^ d" "j mod 2 ^ d < 2 ^ d" by simp_all
    with e q show "i \<le> j \<and> j < i + 2 ^ d" by (metis add_left_mono le_add1 mult_div_mod_eq
          nat_add_left_cancel_less nonzero_mult_div_cancel_left power_not_zero zero_neq_numeral)
  qed
qed

lemma bud_cases:
  assumes "2 ^ d dvd i"
  obtains q where "i = 2 ^ d * (2 * q)" "bud i d = i + 2 ^ d"
  | q where "i = 2 ^ d * (2 * q + 1)" "bud i d = i - 2 ^ d"
proof -
  obtain q where q: "i = 2 ^ d * q" using assms by (elim dvdE)
  show thesis
  proof (cases "even q")
    case True
    then obtain r where "q = 2 * r" by (elim evenE)
    then show thesis using q that(1) [of r] by (simp add: bud_def)
  next
    case False
    then obtain r where "q = 2 * r + 1" by (elim oddE)
    then show thesis using q that(2) [of r] by (simp add: bud_def)
  qed
qed

lemma bud_props:
  assumes "2 ^ d dvd i"
  shows "2 ^ d dvd bud i d" "bud (bud i d) d = i" "bud i d \<noteq> i"
    "bud i d div 2 ^ Suc d = i div 2 ^ Suc d"
    "2 ^ Suc d dvd min i (bud i d)" "max i (bud i d) = min i (bud i d) + 2 ^ d"
proof -
  have 2: "2 ^ Suc d = (2::nat) ^ d * 2" by simp
  have "2 ^ d dvd bud i d \<and> bud (bud i d) d = i \<and> bud i d \<noteq> i \<and>
    bud i d div 2 ^ Suc d = i div 2 ^ Suc d \<and>
    2 ^ Suc d dvd min i (bud i d) \<and> max i (bud i d) = min i (bud i d) + 2 ^ d"
    using assms
  proof (cases rule: bud_cases)
    case (1 q)
    have "bud i d = 2 ^ d * (2 * q + 1)" using 1 by (simp add: algebra_simps)
    moreover have "bud (2 ^ d * (2 * q + 1)) d = 2 ^ d * (2 * q)"
      by (simp add: bud_def algebra_simps)
    moreover have "2 ^ d * (2 * q + 1) div 2 ^ Suc d = 2 ^ d * (2 * q) div 2 ^ Suc d"
      unfolding 2 div_mult2_eq by simp
    moreover have "2 ^ Suc d dvd 2 ^ d * (2 * q)" "2 ^ d dvd 2 ^ d * (2 * q + 1)" for q :: nat
      by (simp, rule dvd_triv_left)
    ultimately show ?thesis unfolding \<open>i = _\<close> by (simp add: min_def max_def)
  next
    case (2 q)
    have "bud i d = 2 ^ d * (2 * q)" using 2 by (simp add: algebra_simps)
    moreover have "bud (2 ^ d * (2 * q)) d = 2 ^ d * (2 * q + 1)"
      by (simp add: bud_def algebra_simps)
    moreover have "2 ^ d * (2 * q + 1) div 2 ^ Suc d = 2 ^ d * (2 * q) div 2 ^ Suc d"
      unfolding \<open>2 ^ Suc d = 2 ^ d * 2\<close> div_mult2_eq by simp
    moreover have "2 ^ Suc d dvd 2 ^ d * (2 * q)" by simp
    ultimately show ?thesis unfolding \<open>i = _\<close> by (simp add: min_def max_def)
  qed
  then show "2 ^ d dvd bud i d" "bud (bud i d) d = i" "bud i d \<noteq> i"
    "bud i d div 2 ^ Suc d = i div 2 ^ Suc d"
    "2 ^ Suc d dvd min i (bud i d)" "max i (bud i d) = min i (bud i d) + 2 ^ d" by blast+
qed

text \<open>The buddy of a block is the start of a block, of the same or a smaller order.\<close>

lemma buddy_is_start:
  assumes t: "tiles n f" and i: "f i = Some d" and b: "bud i d < n"
  obtains d' where "f (bud i d) = Some d'" "d' \<le> d"
proof -
  obtain k q where k: "f k = Some q" "k \<le> bud i d" "bud i d < k + 2 ^ q" using tiles_cover [OF t b] .
  note ai = tilesD(2) [OF t i] and ak = tilesD(2) [OF t k(1)]
  have in_k: "bud i d div 2 ^ q = k div 2 ^ q" using k in_block_iff [OF ak] by blast
  have "q \<le> d"
  proof (rule ccontr)
    assume "\<not> q \<le> d"
    then have q: "2 ^ q = 2 ^ Suc d * (2::nat) ^ (q - Suc d)"
      by (simp only: power_add [symmetric]) simp
    have "i div 2 ^ q = k div 2 ^ q"
      using in_k bud_props(4) [OF ai] unfolding q div_mult2_eq by simp
    then have "k \<le> i \<and> i < k + 2 ^ q" using in_block_iff [OF ak] by blast
    then have "k = i" using tiles_overlap [OF t k(1) i, of i] by simp
    with k(1) i \<open>\<not> q \<le> d\<close> show False by simp
  qed
  have "2 ^ q dvd bud i d" using bud_props(1) [OF ai] \<open>q \<le> d\<close> by (meson dvd_trans le_imp_power_dvd)
  then have "k = bud i d" using dvd_exp_less [OF ak, of "bud i d"] k(2,3) by fastforce
  then show thesis using that k(1) \<open>q \<le> d\<close> by simp
qed

lemma tiles_empty: "tiles 0 (\<lambda>_. None)"
  by (simp add: tiles_def)

lemma tiles_append:
  assumes t: "tiles n f" and d: "2 ^ d dvd n" "d \<le> MAX_ORDER"
  shows "tiles (n + 2 ^ d) (f(n \<mapsto> d))"
proof -
  have below: "k + 2 ^ q \<le> n" if "f k = Some q" for k q using tilesD(3) [OF t that] .
  have g: "(f(n \<mapsto> d)) k = Some q \<Longrightarrow> k = n \<and> q = d \<or> k \<noteq> n \<and> f k = Some q" for k q
    by (auto split: if_splits)
  have 1: "q \<le> MAX_ORDER \<and> 2 ^ q dvd k \<and> k + 2 ^ q \<le> n + 2 ^ d" if "(f(n \<mapsto> d)) k = Some q" for k q
    using g [OF that] d tilesD(1-3) [OF t, of k q] by auto
  have 2: "\<exists>k q. (f(n \<mapsto> d)) k = Some q \<and> k \<le> j \<and> j < k + 2 ^ q" if j: "j < n + 2 ^ d" for j
  proof (cases "j < n")
    case True
    then obtain k q where k: "f k = Some q" "k \<le> j" "j < k + 2 ^ q" using tiles_cover [OF t] by blast
    then show ?thesis using tilesD(4) [OF t k(1)] by (intro exI [of _ k] exI [of _ q]) simp
  next
    case False
    then show ?thesis using j by (intro exI [of _ n] exI [of _ d]) simp
  qed
  have 3: "k + 2 ^ q \<le> k'" if "(f(n \<mapsto> d)) k = Some q" "(f(n \<mapsto> d)) k' = Some q'" "k < k'" for k q k' q'
    using g [OF that(1)] g [OF that(2)] that(3) below [of k q] below [of k' q'] tilesD(5) [OF t, of k q k' q']
    by (elim disjE conjE; simp; linarith?)
  show ?thesis unfolding tiles_def using 1 2 3 by blast
qed

end
