(* ===== verification/Buddy_Inv.thy ===== *)
theory Buddy_Inv
  imports Buddy
begin

text \<open>
  The invariant of the page allocator of theory \<^verbatim>\<open>Buddy\<close> and its preservation: splitting and merging
  of blocks, allocation, release and set-up. The properties built on these lemmas are in theory
  \<^verbatim>\<open>Buddy_Spec\<close>.
\<close>

section \<open>The invariant\<close>

lemma ORDER_SIZE_eq: "ORDER_SIZE d = 2 ^ (12 + d)"
  by (simp add: ORDER_SIZE_def push_bit_eq_mult power_add)

lemma unat_ORDER_SIZE: "d \<le> MAX_ORDER \<Longrightarrow> unat (ORDER_SIZE d) = 4096 * 2 ^ d"
  unfolding ORDER_SIZE_eq by (subst unat_exp) (simp_all add: MAX_ORDER_def power_add)

lemma ORDER_SIZE_pages [simp]: "d \<le> MAX_ORDER \<Longrightarrow> unat (drop_bit 12 (ORDER_SIZE d)) = 2 ^ d"
  by (simp only: unat_drop_bit_eq) (simp only: drop_bit_eq_div unat_ORDER_SIZE, simp)

lemma ORDER_SIZE_inject [simp]:
  assumes "d \<le> MAX_ORDER" "d' \<le> MAX_ORDER"
  shows "ORDER_SIZE d = ORDER_SIZE d' \<longleftrightarrow> d = d'"
proof
  assume "ORDER_SIZE d = ORDER_SIZE d'"
  then have "unat (ORDER_SIZE d) = unat (ORDER_SIZE d')" by (rule arg_cong)
  then show "d = d'" unfolding unat_ORDER_SIZE [OF assms(1)] unat_ORDER_SIZE [OF assms(2)] by simp
qed simp

lemma drop_ORDER_SIZE: "d \<le> MAX_ORDER \<Longrightarrow> drop_bit 12 (ORDER_SIZE d) = 2 ^ d"
  by (rule word_unat_eq_iff [THEN iffD2], subst unat_exp) (simp_all add: MAX_ORDER_def)

lemma log2_ORDER_SIZE:
  assumes "d \<le> MAX_ORDER"
  shows "log2 (ucast (drop_bit 12 (ORDER_SIZE d))) = Some (of_nat d)" "unat (of_nat d :: u8) = d"
proof -
  have "ucast (2 ^ d :: u32) = (2 ^ d :: u16)"
    by (rule bit_word_eqI) (auto simp: bit_simps)
  then show "log2 (ucast (drop_bit 12 (ORDER_SIZE d))) = Some (of_nat d)"
    using assms log2_exp [of d] by (simp add: drop_ORDER_SIZE MAX_ORDER_def)
  show "unat (of_nat d :: u8) = d" using assms by (simp add: unat_of_nat MAX_ORDER_def)
qed

definition shape_at :: "buddyAllocator \<Rightarrow> (nat \<Rightarrow> nat option) \<Rightarrow> nat \<Rightarrow> bool" where
  "shape_at s f i \<longleftrightarrow> (case f i of
     None \<Rightarrow> \<not> page_head (ba_pages s i) \<and> pg_ref_cnt (ba_pages s i) = 0
   | Some d \<Rightarrow> page_head (ba_pages s i) \<and> pg_size (ba_pages s i) = ORDER_SIZE d)"

definition unused :: "buddyAllocator \<Rightarrow> (nat \<Rightarrow> nat option) \<Rightarrow> nat \<Rightarrow> nat \<Rightarrow> bool" where
  "unused s f i d \<longleftrightarrow> f i = Some d \<and> pg_ref_cnt (ba_pages s i) = 0"

text \<open>
  The allocator's structure up to the pages of \<open>X\<close>, which are being taken out or put back: the page
  structures describe the tiling \<open>f\<close>, the free lists hold the unreferenced starts of blocks of their
  order, and two unreferenced buddies of one order below the maximum do not stay apart.
\<close>

definition buddy_ok :: "nat set \<Rightarrow> buddyAllocator \<Rightarrow> (nat \<Rightarrow> nat option) \<Rightarrow> bool" where
  "buddy_ok X s f \<longleftrightarrow>
     tiles (ba_pageCnt s) f \<and>
     (\<forall>i<ba_pageCnt s. i \<notin> X \<longrightarrow> shape_at s f i) \<and>
     (\<forall>d. distinct (ba_root s d)) \<and>
     (\<forall>d i. i \<notin> X \<longrightarrow> i \<in> set (ba_root s d) \<longleftrightarrow> unused s f i d) \<and>
     (\<forall>i d. i \<notin> X \<longrightarrow> bud i d \<notin> X \<longrightarrow> d < MAX_ORDER \<longrightarrow>
        \<not> (unused s f i d \<and> unused s f (bud i d) d))"

definition buddy_inv :: "buddyAllocator \<Rightarrow> bool" where
  "buddy_inv s \<longleftrightarrow> ba_lock s = 0 \<and> ba_pageCnt s \<le> ba_npages s \<and> ba_npages s \<le> 2 ^ 20 \<and>
     (\<exists>f. buddy_ok {} s f)"

lemma shape_at_cong: "f' i = f i \<Longrightarrow> ba_pages s' i = ba_pages s i \<Longrightarrow> shape_at s' f' i = shape_at s f i"
  by (cases "f i") (simp_all add: shape_at_def)

lemma buddy_okD:
  assumes "buddy_ok X s f"
  shows "tiles (ba_pageCnt s) f" "i < ba_pageCnt s \<Longrightarrow> i \<notin> X \<Longrightarrow> shape_at s f i"
    "distinct (ba_root s d)" "i \<notin> X \<Longrightarrow> i \<in> set (ba_root s d) \<longleftrightarrow> unused s f i d"
    "i \<notin> X \<Longrightarrow> bud i d \<notin> X \<Longrightarrow> d < MAX_ORDER \<Longrightarrow> unused s f i d \<Longrightarrow> unused s f (bud i d) d \<Longrightarrow> False"
  using assms unfolding buddy_ok_def by blast+

text \<open>Only the head flag, the size and the reference count of a page matter.\<close>

definition same_page :: "page \<Rightarrow> page \<Rightarrow> bool" where
  "same_page p q \<longleftrightarrow> page_head p = page_head q \<and> pg_size p = pg_size q \<and> pg_ref_cnt p = pg_ref_cnt q"

lemma same_page_refl [simp]: "same_page p p"
  by (simp add: same_page_def)

lemma buddy_ok_cong:
  assumes "\<And>i. same_page (ba_pages s' i) (ba_pages s i)" "ba_root s' = ba_root s" "ba_pageCnt s' = ba_pageCnt s"
  shows "buddy_ok X s' f = buddy_ok X s f"
proof -
  have "shape_at s' f i = shape_at s f i" "unused s' f i d = unused s f i d" for i d
    using assms(1) [of i] by (cases "f i"; simp add: shape_at_def unused_def same_page_def)+
  then show ?thesis unfolding buddy_ok_def assms(2,3) by (simp only:)
qed

lemma buddy_ok_weaken: "buddy_ok {} s f \<Longrightarrow> buddy_ok X s f"
  unfolding buddy_ok_def by blast

text \<open>The blocks in use: the abstract state of the allocator.\<close>

definition page_order :: "page \<Rightarrow> nat" where
  "page_order p = unat (the (log2 (ucast (drop_bit 12 (pg_size p)))))"

definition in_use :: "buddyAllocator \<Rightarrow> nat \<Rightarrow> nat option" where
  "in_use s i = (if i < ba_pageCnt s \<and> page_head (ba_pages s i) \<and> pg_ref_cnt (ba_pages s i) \<noteq> 0
     then Some (page_order (ba_pages s i)) else None)"

lemma in_use_eq:
  assumes "buddy_ok {} s f"
  shows "in_use s i = (if pg_ref_cnt (ba_pages s i) \<noteq> 0 then f i else None)"
proof (cases "i < ba_pageCnt s")
  case True
  note t = buddy_okD(1) [OF assms]
  have "shape_at s f i" using buddy_okD(2) [OF assms True] by simp
  then show ?thesis
    using True tilesD(1) [OF t] log2_ORDER_SIZE
    by (auto simp: shape_at_def in_use_def page_order_def split: option.splits)
next
  case False
  then have "f i = None" using tilesD(4) [OF buddy_okD(1) [OF assms]] by (cases "f i") auto
  then show ?thesis using False by (simp add: in_use_def)
qed

lemma page_head_bit: "page_head p \<longleftrightarrow> bit (pg_flag p) 0"
  by (simp add: page_head_def PG_Head_def and_one_eq bit_0 odd_iff_mod_2_eq_one)

lemma page_head_set [simp]:
  "page_head (p\<lparr>pg_flag := g OR PG_Head\<rparr>)" "page_head (p\<lparr>pg_flag := g OR (PG_Page OR PG_Head)\<rparr>)"
  "\<not> page_head (p\<lparr>pg_flag := CLEAR_BIT g PG_HEAD_BIT\<rparr>)"
  by (simp_all add: page_head_bit CLEAR_BIT_def PG_HEAD_BIT_def bit_or_iff bit_and_iff bit_not_iff PG_Head_def)

lemma page_head_cong: "pg_flag p = pg_flag q \<Longrightarrow> page_head p = page_head q"
  by (simp add: page_head_def)

text \<open>What every step of the allocator leaves alone: the configuration and the blocks in use.\<close>

definition same_env :: "buddyAllocator \<Rightarrow> buddyAllocator \<Rightarrow> bool" where
  "same_env s s' \<longleftrightarrow> ba_pageCnt s' = ba_pageCnt s \<and> ba_npages s' = ba_npages s \<and> ba_addr s' = ba_addr s \<and>
     ba_lock s' = ba_lock s \<and> ba_size s' = ba_size s \<and>
     (\<forall>i. pg_ref_cnt (ba_pages s' i) = pg_ref_cnt (ba_pages s i))"

definition same_used :: "nat \<Rightarrow> buddyAllocator \<Rightarrow> (nat \<Rightarrow> nat option) \<Rightarrow> buddyAllocator \<Rightarrow>
    (nat \<Rightarrow> nat option) \<Rightarrow> bool" where
  "same_used pg s f s' f' \<longleftrightarrow> (\<forall>i. i \<noteq> pg \<longrightarrow> pg_ref_cnt (ba_pages s i) \<noteq> 0 \<longrightarrow>
     f' i = f i \<and> ba_pages s' i = ba_pages s i)"

lemma same_env_refl [simp]: "same_env s s"
  by (simp add: same_env_def)

lemma same_env_trans: "same_env s s' \<Longrightarrow> same_env s' s'' \<Longrightarrow> same_env s s''"
  by (simp add: same_env_def)

lemma same_used_refl [simp]: "same_used pg s f s f"
  by (simp add: same_used_def)

lemma same_used_trans:
  "same_env s s' \<Longrightarrow> same_used pg s f s' f' \<Longrightarrow> same_used pg s' f' s'' f'' \<Longrightarrow> same_used pg s f s'' f''"
  by (simp add: same_used_def same_env_def)

section \<open>Allocation\<close>

lemma bud_low:
  assumes "2 ^ Suc j dvd i"
  shows "bud i j = i + 2 ^ j" "bud (i + 2 ^ j) j = i"
proof -
  obtain q where "i = 2 ^ Suc j * q" using assms by (elim dvdE)
  then have i: "i = 2 ^ j * (2 * q)" by simp
  then show b: "bud i j = i + 2 ^ j" by (simp add: bud_def)
  have "2 ^ j dvd i" unfolding i by (rule dvd_triv_left)
  from bud_props(2) [OF this] b show "bud (i + 2 ^ j) j = i" by simp
qed

definition split_step :: "nat \<Rightarrow> nat \<Rightarrow> buddyAllocator \<Rightarrow> buddyAllocator" where
  "split_step pg j s = root_add_prev (pg + 2 ^ j) j
     (upd_page (pg + 2 ^ j) (\<lambda>p. p\<lparr>pg_size := ORDER_SIZE j, pg_flag := pg_flag p OR PG_Head\<rparr>) s)"

lemma split_step_ok:
  assumes ok: "buddy_ok {pg} s f" and pg: "f pg = Some (Suc j)"
  defines "new \<equiv> pg + 2 ^ j" and "s1 \<equiv> split_step pg j s"
    and "f1 \<equiv> f(pg \<mapsto> j, pg + 2 ^ j \<mapsto> j)"
  shows "\<not> page_head (ba_pages s new)" "buddy_ok {pg} s1 f1" "f1 pg = Some j"
    "same_env s s1" "same_used pg s f s1 f1" "ba_pages s1 pg = ba_pages s pg"
proof -
  note t = buddy_okD(1) [OF ok]
  have fnew: "f new = None" using tiles_inside [OF t pg, of new] by (simp add: new_def)
  have new_n: "new < ba_pageCnt s" using tilesD(3) [OF t pg] zero_less_power [of "2::nat" j] unfolding new_def power_Suc by linarith
  have new_pg: "new \<noteq> pg" by (simp add: new_def)
  have "shape_at s f new" using buddy_okD(2) [OF ok new_n] new_pg by simp
  then show head: "\<not> page_head (ba_pages s new)" and "f1 pg = Some j"
    using fnew by (simp_all add: shape_at_def f1_def)
  have ref: "pg_ref_cnt (ba_pages s new) = 0" using \<open>shape_at s f new\<close> fnew by (simp add: shape_at_def)
  show env: "same_env s s1" by (simp add: same_env_def s1_def split_step_def)
  show "same_used pg s f s1 f1"
    using ref by (auto simp: same_used_def s1_def split_step_def f1_def new_def)
  show "ba_pages s1 pg = ba_pages s pg" by (simp add: s1_def split_step_def)
  have f1: "f1 i = (if i = pg \<or> i = new then Some j else f i)" for i by (simp add: f1_def new_def)
  have t1: "tiles (ba_pageCnt s1) f1" using tiles_split [OF t pg] by (simp add: f1_def s1_def split_step_def)
  have u1: "unused s1 f1 i d \<longleftrightarrow> (if i = new then d = j else unused s f i d)" if "i \<noteq> pg" for i d
    using that ref by (auto simp: unused_def f1 s1_def split_step_def new_def)
  have r1: "ba_root s1 d = ba_root s d @ (if d = j then [new] else [])" for d
    by (simp add: s1_def split_step_def new_def)
  have p1: "ba_pages s1 i = (if i = new
      then (ba_pages s i)\<lparr>pg_size := ORDER_SIZE j, pg_flag := pg_flag (ba_pages s i) OR PG_Head\<rparr>
      else ba_pages s i)" for i by (simp add: s1_def split_step_def new_def)
  have notin: "new \<notin> set (ba_root s d)" for d
    using buddy_okD(4) [OF ok, of new d] new_pg fnew by (simp add: unused_def)
  have bnew: "bud new j = pg"
    using bud_low(2) [OF tilesD(2) [OF t pg]] by (simp add: new_def)
  show "buddy_ok {pg} s1 f1"
    unfolding buddy_ok_def
  proof (intro conjI allI impI)
    show "tiles (ba_pageCnt s1) f1" by (rule t1)
    show "shape_at s1 f1 i" if "i < ba_pageCnt s1" "i \<notin> {pg}" for i
    proof (cases "i = new")
      case True
      then show ?thesis by (simp add: shape_at_def f1 p1)
    next
      case False
      then have "shape_at s1 f1 i = shape_at s f i" using that by (intro shape_at_cong) (simp_all add: f1 p1)
      then show ?thesis using buddy_okD(2) [OF ok, of i] that env by (simp add: same_env_def)
    qed
    show "distinct (ba_root s1 d)" for d using buddy_okD(3) [OF ok, of d] notin by (simp add: r1)
    show "i \<in> set (ba_root s1 d) \<longleftrightarrow> unused s1 f1 i d" if "i \<notin> {pg}" for i d
      using that buddy_okD(4) [OF ok, of i d] notin by (auto simp: r1 u1)
    show "\<not> (unused s1 f1 i d \<and> unused s1 f1 (bud i d) d)"
      if "i \<notin> {pg}" "bud i d \<notin> {pg}" "d < MAX_ORDER" for i d
    proof
      assume u: "unused s1 f1 i d \<and> unused s1 f1 (bud i d) d"
      then have "2 ^ d dvd i" using tilesD(2) [OF t1, of i d] by (simp add: unused_def)
      then have bb: "bud (bud i d) d = i" by (rule bud_props)
      have "i = new \<Longrightarrow> d = j" "bud i d = new \<Longrightarrow> d = j"
        using u that u1 [of i d] u1 [of "bud i d" d] by simp_all
      then have "i \<noteq> new" "bud i d \<noteq> new" using bb bnew that by (blast, metis insertI1)
      then show False using u that u1 buddy_okD(5) [OF ok, of i d] by simp
    qed
  qed
qed

lemma split_block_ok:
  assumes "buddy_ok {pg} s f" "f pg = Some hi" "lo \<le> hi"
  shows "\<exists>s' f'. split_block pg lo hi s = Some s' \<and> buddy_ok {pg} s' f' \<and> f' pg = Some lo \<and>
    same_env s s' \<and> same_used pg s f s' f' \<and> ba_pages s' pg = ba_pages s pg"
  using assms
proof (induction hi arbitrary: s f)
  case 0
  then show ?case by (intro exI [of _ s] exI [of _ f]) simp
next
  case (Suc j)
  show ?case
  proof (cases "lo \<le> j")
    case True
    let ?s = "split_step pg j s" and ?f = "f(pg \<mapsto> j, pg + 2 ^ j \<mapsto> j)"
    note st = split_step_ok [OF Suc.prems(1,2)]
    obtain s' f' where r: "split_block pg lo j ?s = Some s'" "buddy_ok {pg} s' f'" "f' pg = Some lo"
      "same_env ?s s'" "same_used pg ?s ?f s' f'" "ba_pages s' pg = ba_pages ?s pg"
      using Suc.IH [OF st(2,3) True] by blast
    have "split_block pg lo (Suc j) s = Some s'"
      using True st(1) r(1) by (simp add: ORDER_CNT_def split_step_def)
    moreover have "same_env s s'" using st(4) r(4) by (rule same_env_trans)
    moreover have "same_used pg s f s' f'" using st(4,5) r(5) by (rule same_used_trans)
    ultimately show ?thesis using r(2,3,6) st(6) by (intro exI [of _ s'] exI [of _ f']) simp
  next
    case False
    then show ?thesis using Suc.prems by (intro exI [of _ s] exI [of _ f]) simp
  qed
qed

lemma find_root_Some:
  assumes "find_root lo s = Some i"
  shows "lo \<le> i" "i \<le> MAX_ORDER" "ba_root s i \<noteq> []"
proof -
  obtain k where k: "k < length [lo..<MAX_ORDER + 1]" "ba_root s ([lo..<MAX_ORDER + 1] ! k) \<noteq> []"
    "i = [lo..<MAX_ORDER + 1] ! k"
    using assms unfolding find_root_def find_Some_iff by blast
  then show "ba_root s i \<noteq> []" by metis
  have "i \<in> set [lo..<MAX_ORDER + 1]" unfolding k(3) using k(1) by (rule nth_mem)
  then show "lo \<le> i" "i \<le> MAX_ORDER" by auto
qed

lemma find_root_None: "find_root lo s = None \<longleftrightarrow> (\<forall>i. lo \<le> i \<longrightarrow> i \<le> MAX_ORDER \<longrightarrow> ba_root s i = [])"
  by (auto simp: find_root_def find_None_iff)

text \<open>A page that got a reference and left the lists is in place.\<close>

lemma buddy_ok_use:
  assumes ok: "buddy_ok {pg} s f" and pg: "f pg = Some d"
    and s': "ba_pageCnt s' = ba_pageCnt s" "\<And>d. ba_root s' d = remove1 pg (ba_root s d)"
      "\<And>i. i \<noteq> pg \<Longrightarrow> ba_pages s' i = ba_pages s i" "pg_ref_cnt (ba_pages s' pg) \<noteq> 0"
      "page_head (ba_pages s' pg)" "pg_size (ba_pages s' pg) = ORDER_SIZE d"
  shows "buddy_ok {} s' f"
proof -
  have u: "unused s' f i d \<longleftrightarrow> i \<noteq> pg \<and> unused s f i d" for i d
    using s'(3) [of i] s'(4) by (cases "i = pg") (simp_all add: unused_def)
  show ?thesis
    unfolding buddy_ok_def
  proof (intro conjI allI impI)
    show "tiles (ba_pageCnt s') f" using buddy_okD(1) [OF ok] s'(1) by simp
    show "shape_at s' f i" if "i < ba_pageCnt s'" for i
    proof (cases "i = pg")
      case True
      then show ?thesis using pg s'(5,6) by (simp add: shape_at_def)
    next
      case False
      then show ?thesis
        using buddy_okD(2) [OF ok, of i] that s'(1,3) shape_at_cong [of f i f s' s] by simp
    qed
    show "distinct (ba_root s' d)" for d using buddy_okD(3) [OF ok] s'(2) by (simp add: distinct_remove1)
    show "i \<in> set (ba_root s' d) \<longleftrightarrow> unused s' f i d" for i d
      using buddy_okD(3) [OF ok, of d] buddy_okD(4) [OF ok, of i d] by (auto simp: s'(2) u set_remove1_eq)
    show "\<not> (unused s' f i d \<and> unused s' f (bud i d) d)" if "d < MAX_ORDER" for i d
      using buddy_okD(5) [OF ok, of i d] that by (auto simp: u)
  qed
qed

lemma alloc_page_ok:
  assumes ok: "buddy_ok {} s f" and lock: "ba_lock s = 0"
    and sz: "fixSize sz = ORDER_SIZE d" "d \<le> MAX_ORDER" and root: "find_root d s = Some i"
  shows "\<exists>pg s' f'. alloc_page_core sz s = Some (pg, s') \<and> buddy_ok {} s' f' \<and> f' pg = Some d \<and>
    f pg = Some i \<and> pg_ref_cnt (ba_pages s pg) = 0 \<and> pg_ref_cnt (ba_pages s' pg) = 1 \<and>
    ba_lock s' = 0 \<and> ba_pageCnt s' = ba_pageCnt s \<and> ba_npages s' = ba_npages s \<and> ba_addr s' = ba_addr s \<and>
    ba_size s' = ba_size s - ORDER_SIZE d \<and> same_used pg s f s' f' \<and>
    (\<forall>k. k \<noteq> pg \<longrightarrow> pg_ref_cnt (ba_pages s' k) = pg_ref_cnt (ba_pages s k)) \<and>
    pg_rwlock (ba_pages s' pg) = rwlock_init \<and> pg_flag (ba_pages s' pg) = pg_flag (ba_pages s pg)"
proof -
  define pg where "pg = hd (ba_root s i)"
  note fr = find_root_Some [OF root]
  have "pg \<in> set (ba_root s i)" using fr(3) by (simp add: pg_def)
  then have pg: "f pg = Some i" "pg_ref_cnt (ba_pages s pg) = 0"
    using buddy_okD(4) [OF ok, of pg i] by (simp_all add: unused_def)
  have head: "page_head (ba_pages s pg)"
    using buddy_okD(2) [OF ok, of pg] tilesD(4) [OF buddy_okD(1) [OF ok] pg(1)] pg(1) by (simp add: shape_at_def)
  let ?s = "s\<lparr>ba_lock := 1\<rparr>"
  have ok1: "buddy_ok {pg} ?s f" using buddy_ok_weaken [OF ok] buddy_ok_cong [of ?s s "{pg}" f] by simp
  obtain s1 f1 where r: "split_block pg d i ?s = Some s1" "buddy_ok {pg} s1 f1" "f1 pg = Some d"
    "same_env ?s s1" "same_used pg ?s f s1 f1" "ba_pages s1 pg = ba_pages ?s pg"
    using split_block_ok [OF ok1 pg(1) fr(1)] by blast
  have "sz' > 0 \<and> sz' \<le> 0x400000 \<and> sz' AND PAGE_MASK = 0" if "sz' = ORDER_SIZE d" for sz'
  proof (intro conjI)
    have u: "unat sz' = 4096 * 2 ^ d" using that unat_ORDER_SIZE [OF sz(2)] by simp
    show "sz' > 0" using u by (simp add: word_less_nat_alt)
    have "(2::nat) ^ d \<le> 2 ^ 10" using sz(2) by (intro power_increasing) (simp_all add: MAX_ORDER_def)
    then show "sz' \<le> 0x400000" using u by (simp add: word_le_nat_alt)
    show "sz' AND PAGE_MASK = 0" using u by (simp add: page_aligned_iff)
  qed
  note guard = this [OF refl]
  let ?s2 = "upd_page pg (\<lambda>p. p\<lparr>pg_size := ORDER_SIZE d, pg_ref_cnt := 1, pg_rwlock := rwlock_init\<rparr>)
      (s1\<lparr>ba_size := ba_size s1 - ORDER_SIZE d, ba_root := (\<lambda>ord. remove1 pg (ba_root s1 ord)), ba_lock := 0\<rparr>)"
  have root': "find_root d ?s = Some i" and hd_pg: "hd (ba_root ?s i) = pg"
    using root by (simp_all add: find_root_def pg_def del: upt_Suc)
  have call: "alloc_page_core sz s = Some (pg, ?s2)"
    using guard lock root' r(1) head log2_ORDER_SIZE [OF sz(2)] hd_pg
    by (simp add: alloc_page_core_def sz(1) Let_def)
  have "buddy_ok {} ?s2 f1"
    using r(2,3)
    by (rule buddy_ok_use) (use head r(6) in \<open>simp_all add: page_head_def\<close>)
  with call pg r show ?thesis
    by (intro exI [of _ pg] exI [of _ ?s2] exI [of _ f1]) (auto simp: same_env_def same_used_def)
qed

section \<open>Release\<close>

lemma get_buddy_eq:
  assumes "pg_size (ba_pages s pg) = ORDER_SIZE d" "d \<le> MAX_ORDER"
  shows "get_buddy pg s = (if ba_pageCnt s \<le> bud pg d then None else Some (bud pg d))"
  using assms by (simp add: get_buddy_def bud_def Let_def)

text \<open>
  A block that is on its way back: in the tiling and described by its page structure, without a
  reference and in no list.
\<close>

definition pending :: "nat \<Rightarrow> nat \<Rightarrow> buddyAllocator \<Rightarrow> (nat \<Rightarrow> nat option) \<Rightarrow> bool" where
  "pending pg d s f \<longleftrightarrow> buddy_ok {pg} s f \<and> f pg = Some d \<and> shape_at s f pg \<and>
     pg_ref_cnt (ba_pages s pg) = 0 \<and> (\<forall>e. pg \<notin> set (ba_root s e))"

lemma pendingD:
  assumes "pending pg d s f"
  shows "buddy_ok {pg} s f" "f pg = Some d" "pg_size (ba_pages s pg) = ORDER_SIZE d"
    "pg_ref_cnt (ba_pages s pg) = 0" "pg \<notin> set (ba_root s e)" "tiles (ba_pageCnt s) f"
    "d \<le> MAX_ORDER" "2 ^ d dvd pg" "pg < ba_pageCnt s" "page_head (ba_pages s pg)"
proof -
  show ok: "buddy_ok {pg} s f" and fpg: "f pg = Some d"
    using assms by (simp_all add: pending_def)
  show t: "tiles (ba_pageCnt s) f" using buddy_okD(1) [OF ok] .
  show "d \<le> MAX_ORDER" "2 ^ d dvd pg" "pg < ba_pageCnt s" using tilesD(1,2,4) [OF t fpg] .
qed (use assms in \<open>auto simp: pending_def shape_at_def\<close>)

lemma buddy_unused:
  assumes p: "pending pg d s f" and n: "bud pg d < ba_pageCnt s"
  shows "unused s f (bud pg d) d \<longleftrightarrow>
    pg_ref_cnt (ba_pages s (bud pg d)) = 0 \<and> pg_size (ba_pages s (bud pg d)) = pg_size (ba_pages s pg)"
proof -
  obtain d' where d': "f (bud pg d) = Some d'" "d' \<le> d"
    using buddy_is_start [OF pendingD(6,2) [OF p] n] .
  have "shape_at s f (bud pg d)"
    using buddy_okD(2) [OF pendingD(1) [OF p] n] bud_props(3) [OF pendingD(8) [OF p]] by simp
  then show ?thesis
    using d' pendingD(3,7) [OF p] by (auto simp: shape_at_def unused_def)
qed

lemma put_back_ok:
  assumes p: "pending pg d s f" and b: "d = MAX_ORDER \<or> \<not> unused s f (bud pg d) d"
  shows "buddy_ok {} (root_add_prev pg d s) f"
proof -
  let ?s = "root_add_prev pg d s"
  note ok = pendingD(1) [OF p]
  have u: "unused ?s f = unused s f" and sh: "shape_at ?s f i = shape_at s f i" for i
    using shape_at_cong [of f i f ?s s] by (auto intro!: ext simp: unused_def)
  show ?thesis
    unfolding buddy_ok_def u sh
  proof (intro conjI allI impI)
    show "tiles (ba_pageCnt ?s) f" using pendingD(6) [OF p] by simp
    show "shape_at s f i" if "i < ba_pageCnt ?s" for i
      using buddy_okD(2) [OF ok, of i] that p by (cases "i = pg") (simp_all add: pending_def)
    show "distinct (ba_root ?s e)" for e
      using buddy_okD(3) [OF ok, of e] pendingD(5) [OF p, of e] by auto
    show "i \<in> set (ba_root ?s e) \<longleftrightarrow> unused s f i e" for i e
    proof (cases "i = pg")
      case True
      then show ?thesis using pendingD(2,4,5) [OF p] by (auto simp: unused_def)
    next
      case False
      then show ?thesis using buddy_okD(4) [OF ok, of i e] by auto
    qed
    show "\<not> (unused s f i e \<and> unused s f (bud i e) e)" if e: "e < MAX_ORDER" for i e
    proof
      assume a: "unused s f i e \<and> unused s f (bud i e) e"
      then have "2 ^ e dvd i" using tilesD(2) [OF pendingD(6) [OF p], of i e] by (simp add: unused_def)
      then have bb: "bud (bud i e) e = i" by (rule bud_props)
      have "x = pg \<Longrightarrow> unused s f x e \<Longrightarrow> e = d" for x using pendingD(2) [OF p] by (auto simp: unused_def)
      then have "i \<noteq> pg \<and> bud i e \<noteq> pg" using a b bb e by (metis less_irrefl_nat)
      then show False using buddy_okD(5) [OF ok, of i e] a e by simp
    qed
  qed
qed

definition merge_step :: "nat \<Rightarrow> nat \<Rightarrow> buddyAllocator \<Rightarrow> buddyAllocator" where
  "merge_step pg b s =
     upd_page (min b pg) (\<lambda>p. p\<lparr>pg_size := push_bit 1 (pg_size p)\<rparr>)
       (upd_page (max b pg) (\<lambda>p. p\<lparr>pg_flag := CLEAR_BIT (pg_flag p) PG_HEAD_BIT\<rparr>) (root_del b s))"

lemma merge_step_ok:
  assumes p: "pending pg d s f" and d: "d < MAX_ORDER" and b: "unused s f (bud pg d) d"
  defines "lo \<equiv> min (bud pg d) pg" and "hi \<equiv> max (bud pg d) pg"
  defines "s1 \<equiv> merge_step pg (bud pg d) s" and "f1 \<equiv> f(lo \<mapsto> Suc d, hi := None)"
  shows "pending lo (Suc d) s1 f1" "same_env s s1" "same_used pg s f s1 f1"
    "hi = lo + 2 ^ d" "pg_size (ba_pages s lo) = ORDER_SIZE d"
proof -
  note ok = pendingD(1) [OF p] and t = pendingD(6) [OF p]
  note bp = bud_props [OF pendingD(8) [OF p]]
  have pair: "{lo, hi} = {pg, bud pg d}" "lo \<noteq> hi" using bp(3) by (auto simp: lo_def hi_def min_def max_def)
  show hi: "hi = lo + 2 ^ d" using bp(6) by (simp add: hi_def lo_def max.commute min.commute)
  have dvd: "2 ^ Suc d dvd lo" using bp(5) by (simp add: lo_def min.commute)
  have fb: "f (bud pg d) = Some d" "pg_ref_cnt (ba_pages s (bud pg d)) = 0" using b by (simp_all add: unused_def)
  have f2: "f lo = Some d" "f hi = Some d" using pair(1) fb pendingD(2) [OF p] by (auto simp: lo_def hi_def min_def max_def)
  have ref2: "pg_ref_cnt (ba_pages s lo) = 0" "pg_ref_cnt (ba_pages s hi) = 0"
    using fb pendingD(4) [OF p] by (simp_all add: lo_def hi_def min_def max_def)
  have "shape_at s f (bud pg d)"
    using buddy_okD(2) [OF ok, of "bud pg d"] tilesD(4) [OF t fb(1)] bp(3) by simp
  then have sh2: "page_head (ba_pages s lo)" "pg_size (ba_pages s lo) = ORDER_SIZE d"
    using fb pendingD(3,10) [OF p] by (simp_all add: shape_at_def lo_def min_def)
  then show "pg_size (ba_pages s lo) = ORDER_SIZE d" by simp
  show env: "same_env s s1" by (simp add: same_env_def s1_def merge_step_def)
  have pages: "ba_pages s1 i = (if i = lo then (ba_pages s lo)\<lparr>pg_size := push_bit 1 (pg_size (ba_pages s lo))\<rparr>
      else if i = hi then (ba_pages s hi)\<lparr>pg_flag := CLEAR_BIT (pg_flag (ba_pages s hi)) PG_HEAD_BIT\<rparr>
      else ba_pages s i)" for i
    using pair(2) by (simp add: s1_def merge_step_def lo_def [symmetric] hi_def [symmetric])
  have roots: "ba_root s1 e = remove1 (bud pg d) (ba_root s e)" for e by (simp add: s1_def merge_step_def)
  have f1: "f1 i = (if i = hi then None else if i = lo then Some (Suc d) else f i)" for i by (simp add: f1_def)
  show "same_used pg s f s1 f1" using ref2 by (auto simp: same_used_def pages f1)
  have t1: "tiles (ba_pageCnt s1) f1"
    using tiles_merge [OF t f2(1) _ dvd d] f2(2) env by (simp add: hi f1_def same_env_def)
  have u1: "unused s1 f1 i e \<longleftrightarrow> (if i = lo then e = Suc d else i \<noteq> hi \<and> unused s f i e)" for i e
    using ref2 pair(2) by (auto simp: unused_def f1 pages)
  have in1: "i \<in> set (ba_root s1 e) \<longleftrightarrow> i \<notin> {lo, hi} \<and> unused s f i e" for i e
    using buddy_okD(3) [OF ok, of e] buddy_okD(4) [OF ok, of i e] pendingD(5) [OF p, of e]
    unfolding pair roots by auto
  have other: "shape_at s1 f1 i = shape_at s f i" if "i \<notin> {lo, hi}" for i
    using that by (intro shape_at_cong) (simp_all add: f1 pages)
  have "shape_at s1 f1 hi" using ref2 pair(2) by (simp add: shape_at_def f1 pages)
  have "push_bit 1 (ORDER_SIZE d) = ORDER_SIZE (Suc d)" by (simp add: ORDER_SIZE_eq push_bit_eq_mult power_add)
  then have shlo: "shape_at s1 f1 lo" using sh2 pair(2) by (simp add: shape_at_def f1 pages page_head_def)
  have "buddy_ok {lo} s1 f1"
    unfolding buddy_ok_def
  proof (intro conjI allI impI)
    show "shape_at s1 f1 i" if i: "i < ba_pageCnt s1" "i \<notin> {lo}" for i
      using other [of i] \<open>shape_at s1 f1 hi\<close> buddy_okD(2) [OF ok, of i] i env pair(1)
      by (cases "i = hi") (auto simp: same_env_def)
    show "\<not> (unused s1 f1 i e \<and> unused s1 f1 (bud i e) e)"
      if i: "i \<notin> {lo}" "bud i e \<notin> {lo}" "e < MAX_ORDER" for i e
    proof
      assume "unused s1 f1 i e \<and> unused s1 f1 (bud i e) e"
      then have "i \<notin> {lo, hi}" "bud i e \<notin> {lo, hi}" "unused s f i e" "unused s f (bud i e) e"
        using u1 [of i e] u1 [of "bud i e" e] i by (auto split: if_splits)
      then show False using buddy_okD(5) [OF ok, of i e] i(3) unfolding pair by simp
    qed
    show "i \<in> set (ba_root s1 e) \<longleftrightarrow> unused s1 f1 i e" if "i \<notin> {lo}" for i e
      using that in1 [of i e] u1 [of i e] by simp
  qed (use t1 buddy_okD(3) [OF ok] in \<open>simp_all add: roots distinct_remove1\<close>)
  moreover have "f1 lo = Some (Suc d)" "pg_ref_cnt (ba_pages s1 lo) = 0" "\<forall>e. lo \<notin> set (ba_root s1 e)"
    using pair(2) ref2 in1 [of lo] by (simp_all add: f1 pages)
  ultimately show "pending lo (Suc d) s1 f1" using shlo by (simp add: pending_def)
qed

declare free_loop.simps [simp del]

lemma free_loop_ok:
  assumes "pending pg d s f"
  shows "\<exists>pg' s' f'. free_loop pg d s = Some (pg', s') \<and> buddy_ok {} s' f' \<and> same_env s s' \<and>
    same_used pg s f s' f' \<and> pg_ref_cnt (ba_pages s pg') = 0"
  using assms
proof (induction "MAX_ORDER - d" arbitrary: pg d s f rule: less_induct)
  case less
  note p = less.prems
  have gb: "get_buddy pg s = (if ba_pageCnt s \<le> bud pg d then None else Some (bud pg d))"
    using pendingD(3,7) [OF p] by (rule get_buddy_eq)
  show ?case
  proof (cases "d < MAX_ORDER \<and> unused s f (bud pg d) d")
    case True
    then have n: "bud pg d < ba_pageCnt s"
      using tilesD(4) [OF pendingD(6) [OF p], of "bud pg d" d] by (simp add: unused_def)
    let ?lo = "min (bud pg d) pg" and ?s = "merge_step pg (bud pg d) s"
    let ?f = "f(?lo \<mapsto> Suc d, max (bud pg d) pg := None)"
    note m = merge_step_ok [OF p conjunct1 [OF True] conjunct2 [OF True]]
    obtain pg' s' f' where r: "free_loop ?lo (Suc d) ?s = Some (pg', s')" "buddy_ok {} s' f'"
      "same_env ?s s'" "same_used ?lo ?s ?f s' f'" "pg_ref_cnt (ba_pages ?s pg') = 0"
      using less.hyps [OF _ m(1)] True by (meson diff_less_mono2 lessI)
    have mm: "c_MAX (bud pg d) pg = max (bud pg d) pg" "c_MIN (bud pg d) pg = ?lo"
      by (auto simp: c_MAX_def c_MIN_def max_def min_def)
    have call: "free_loop pg d s = Some (pg', s')"
      using True n gb r(1) buddy_unused [OF p n] pendingD(4,7) [OF p] m(4,5)
      by (subst free_loop.simps) (simp add: mm merge_step_def Let_def)
    have "same_env s s'" using m(2) r(3) by (rule same_env_trans)
    moreover have "same_used pg s f s' f'"
      using m(2,3) r(4) pendingD(4) [OF m(1)] unfolding same_used_def same_env_def by metis
    moreover have "pg_ref_cnt (ba_pages s pg') = 0" using r(5) m(2) by (simp add: same_env_def)
    ultimately show ?thesis using call r(2) by blast
  next
    case False
    then have cond: "d = MAX_ORDER \<or> \<not> unused s f (bud pg d) d" using pendingD(7) [OF p] by auto
    have call: "free_loop pg d s = Some (pg, root_add_prev pg d s)"
      using cond gb buddy_unused [OF p] pendingD(4,7) [OF p]
      by (subst free_loop.simps) (auto split: option.splits)
    moreover have "same_env s (root_add_prev pg d s)" "same_used pg s f (root_add_prev pg d s) f"
      by (simp_all add: same_env_def same_used_def)
    ultimately show ?thesis using put_back_ok [OF p cond] pendingD(4) [OF p] by blast
  qed
qed

lemma free_page_ok:
  assumes ok: "buddy_ok {} s f" and lock: "ba_lock s = 0"
    and pg: "f pg = Some d" "pg_ref_cnt (ba_pages s pg) = 1" "rw_writelock (pg_rwlock (ba_pages s pg)) \<noteq> 1"
  shows "\<exists>s' f'. free_page_core pg s = Some s' \<and> buddy_ok {} s' f' \<and> ba_lock s' = 0 \<and>
    ba_pageCnt s' = ba_pageCnt s \<and> ba_npages s' = ba_npages s \<and> ba_addr s' = ba_addr s \<and> ba_size s' = ba_size s \<and>
    (\<forall>k. pg_ref_cnt (ba_pages s' k) = (if k = pg then 0 else pg_ref_cnt (ba_pages s k))) \<and>
    (\<forall>k. k \<noteq> pg \<longrightarrow> pg_ref_cnt (ba_pages s k) \<noteq> 0 \<longrightarrow> f' k = f k \<and> ba_pages s' k = ba_pages s k)"
proof -
  note t = buddy_okD(1) [OF ok]
  have sh: "page_head (ba_pages s pg)" "pg_size (ba_pages s pg) = ORDER_SIZE d"
    using buddy_okD(2) [OF ok, of pg] tilesD(4) [OF t pg(1)] pg(1) by (simp_all add: shape_at_def)
  let ?p = "(ba_pages s pg)\<lparr>pg_rwlock := (pg_rwlock (ba_pages s pg))\<lparr>rw_writelock := 1\<rparr>, pg_ref_cnt := 0,
      pg_data := 0, pg_flag := pg_flag (ba_pages s pg) OR (PG_Page OR PG_Head)\<rparr>"
  let ?s = "s\<lparr>ba_pages := (ba_pages s)(pg := ?p), ba_lock := 1\<rparr>"
  have notin: "pg \<notin> set (ba_root s e)" for e using buddy_okD(4) [OF ok, of pg e] pg(2) by (simp add: unused_def)
  have "buddy_ok {pg} ?s f"
  proof -
    have "unused ?s f i e = unused s f i e" "shape_at ?s f i = shape_at s f i" if "i \<notin> {pg}" for i e
      using that shape_at_cong [of f i f ?s s] by (auto simp: unused_def)
    then show ?thesis using buddy_ok_weaken [OF ok, of "{pg}"] unfolding buddy_ok_def by simp
  qed
  then have pend: "pending pg d ?s f"
    using pg(1) sh(2) notin by (simp add: pending_def shape_at_def)
  obtain pg' s1 f1 where r: "free_loop pg d ?s = Some (pg', s1)" "buddy_ok {} s1 f1" "same_env ?s s1"
    "same_used pg ?s f s1 f1" "pg_ref_cnt (ba_pages ?s pg') = 0"
    using free_loop_ok [OF pend] by blast
  let ?s2 = "upd_page pg' (\<lambda>p. p\<lparr>pg_rwlock := wlock_unlock (pg_rwlock p)\<rparr>) s1\<lparr>ba_lock := 0\<rparr>"
  have dd: "log2 (ucast (drop_bit 12 (pg_size (ba_pages s pg)))) = Some (of_nat d)" "unat (of_nat d :: u8) = d"
    using log2_ORDER_SIZE [OF tilesD(1) [OF t pg(1)]] sh(2) by simp_all
  have call: "free_page_core pg s = Some ?s2"
    using pg sh(1) lock r(1) dd
    by (simp add: free_page_core_def wlock_lock_eq page_head_def Let_def)
  have "buddy_ok {} ?s2 f1"
    using r(2) buddy_ok_cong [of ?s2 s1 "{}" f1] by (simp add: same_page_def page_head_def)
  moreover have "pg_ref_cnt (ba_pages ?s2 k) = (if k = pg then 0 else pg_ref_cnt (ba_pages s k))" for k
    using r(3) by (auto simp: same_env_def)
  moreover have "f1 k = f k \<and> ba_pages ?s2 k = ba_pages s k" if "k \<noteq> pg" "pg_ref_cnt (ba_pages s k) \<noteq> 0" for k
    using r(4,5) that by (auto simp: same_used_def split: if_splits)
  ultimately show ?thesis
    using call r(3) by (intro exI [of _ ?s2] exI [of _ f1]) (simp add: same_env_def)
qed

section \<open>Free regions\<close>

text \<open>An aligned range of \<open>2^d\<close> managed pages that no block in use touches.\<close>

definition free_region :: "buddyAllocator \<Rightarrow> nat \<Rightarrow> nat \<Rightarrow> bool" where
  "free_region s i d \<longleftrightarrow> 2 ^ d dvd i \<and> i + 2 ^ d \<le> ba_pageCnt s \<and>
     (\<forall>k e. in_use s k = Some e \<longrightarrow> k + 2 ^ e \<le> i \<or> i + 2 ^ d \<le> k)"

text \<open>By coalescing, such a range lies in one block of the tiling.\<close>

lemma region_in_block:
  assumes ok: "buddy_ok {} s f" and "free_region s i d" "d \<le> MAX_ORDER"
  shows "\<exists>k e. unused s f k e \<and> d \<le> e \<and> k \<le> i \<and> i + 2 ^ d \<le> k + 2 ^ e"
  using assms(2,3)
proof (induction d arbitrary: i)
  case 0
  then have "i < ba_pageCnt s" by (simp add: free_region_def)
  then obtain k e where k: "f k = Some e" "k \<le> i" "i < k + 2 ^ e" using tiles_cover [OF buddy_okD(1) [OF ok]] by blast
  have "pg_ref_cnt (ba_pages s k) = 0"
  proof (rule ccontr)
    assume "pg_ref_cnt (ba_pages s k) \<noteq> 0"
    then have "in_use s k = Some e" using in_use_eq [OF ok] k(1) by simp
    then show False using 0(1) k(2,3) unfolding free_region_def by fastforce
  qed
  with k show ?case by (intro exI [of _ k] exI [of _ e]) (simp add: unused_def)
next
  case (Suc d)
  note t = buddy_okD(1) [OF ok]
  have i: "2 ^ Suc d dvd i" "2 ^ d dvd i" using Suc.prems(1) by (auto simp: free_region_def intro: dvd_mult_right)
  have sub: "free_region s i d" "free_region s (i + 2 ^ d) d"
    using Suc.prems(1) i(2) unfolding free_region_def by (fastforce simp: dvd_add)+
  obtain k e where k: "unused s f k e" "d \<le> e" "k \<le> i" "i + 2 ^ d \<le> k + 2 ^ e"
    using Suc.IH [OF sub(1)] Suc.prems(2) by auto
  obtain k' e' where k': "unused s f k' e'" "d \<le> e'" "k' \<le> i + 2 ^ d" "i + 2 ^ d + 2 ^ d \<le> k' + 2 ^ e'"
    using Suc.IH [OF sub(2)] Suc.prems(2) by auto
  have a: "2 ^ e dvd k" "2 ^ e' dvd k'" using k(1) k'(1) tilesD(2) [OF t] by (auto simp: unused_def)
  consider "Suc d \<le> e" | "Suc d \<le> e'" | "e = d" "e' = d" using k(2) k'(2) by linarith
  then show ?case
  proof cases
    case 1
    then have "2 ^ Suc d dvd k + 2 ^ e" using a(1) by (meson dvd_add dvd_trans le_imp_power_dvd dvd_refl)
    moreover have "i < k + 2 ^ e" using k(4) zero_less_power [of "2::nat" d] by linarith
    ultimately have "i + 2 ^ Suc d \<le> k + 2 ^ e" using i(1) by (intro dvd_exp_less)
    with 1 k show ?thesis by blast
  next
    case 2
    then have "2 ^ Suc d dvd k'" using a(2) by (meson dvd_trans le_imp_power_dvd)
    then have "k' \<le> i" using dvd_exp_less [OF i(1), of k'] k'(3) by (cases "i < k'") auto
    moreover have "i + 2 ^ Suc d \<le> k' + 2 ^ e'" using k'(4) by simp
    ultimately show ?thesis using 2 k'(1) by blast
  next
    case 3
    then have "k = i" using k(3,4) by simp
    moreover have "k' = i + 2 ^ d" using k'(3,4) 3 by simp
    ultimately have False
      using buddy_okD(5) [OF ok, of i d] bud_low(1) [OF i(1)] k(1) k'(1) 3 Suc.prems(2) by simp
    then show ?thesis ..
  qed
qed

lemma block_region:
  assumes ok: "buddy_ok {} s f" and u: "unused s f i d"
  shows "free_region s i d"
  unfolding free_region_def
proof (intro conjI allI impI)
  note t = buddy_okD(1) [OF ok]
  have fi: "f i = Some d" using u by (simp add: unused_def)
  show "2 ^ d dvd i" "i + 2 ^ d \<le> ba_pageCnt s" using tilesD(2,3) [OF t fi] .
  fix k e assume "in_use s k = Some e"
  then have k: "f k = Some e" "pg_ref_cnt (ba_pages s k) \<noteq> 0" using in_use_eq [OF ok, of k] by (auto split: if_splits)
  then have "k \<noteq> i" using u by (auto simp: unused_def)
  then show "k + 2 ^ e \<le> i \<or> i + 2 ^ d \<le> k"
    using tilesD(5) [OF t k(1) fi] tilesD(5) [OF t fi k(1)] by linarith
qed

lemma free_region_smaller:
  assumes "free_region s k e" "d \<le> e"
  shows "free_region s k d"
proof -
  have "(2::nat) ^ d \<le> 2 ^ e" using assms(2) by (intro power_increasing) simp_all
  moreover have "2 ^ d dvd k" using assms by (meson dvd_trans free_region_def le_imp_power_dvd)
  ultimately show ?thesis using assms(1) unfolding free_region_def by (meson add_left_mono le_trans)
qed

lemma free_region_cong:
  "in_use s' = in_use s \<Longrightarrow> ba_pageCnt s' = ba_pageCnt s \<Longrightarrow> free_region s' i d = free_region s i d"
  by (simp add: free_region_def)

lemma find_root_region:
  assumes ok: "buddy_ok {} s f" and d: "d \<le> MAX_ORDER"
  shows "find_root d s = None \<longleftrightarrow> (\<forall>i. \<not> free_region s i d)"
proof
  assume none: "find_root d s = None"
  show "\<forall>i. \<not> free_region s i d"
  proof (intro allI notI)
    fix i assume "free_region s i d"
    then obtain k e where k: "unused s f k e" "d \<le> e" using region_in_block [OF ok _ d] by blast
    have "e \<le> MAX_ORDER" using k(1) tilesD(1) [OF buddy_okD(1) [OF ok]] by (auto simp: unused_def)
    then show False using none k buddy_okD(4) [OF ok, of k e] by (auto simp: find_root_None)
  qed
next
  assume no: "\<forall>i. \<not> free_region s i d"
  show "find_root d s = None"
  proof (cases "find_root d s")
    case (Some i)
    then have "hd (ba_root s i) \<in> set (ba_root s i)" "d \<le> i" using find_root_Some [OF Some] by simp_all
    then show ?thesis
      using no block_region [OF ok, of _ i] free_region_smaller buddy_okD(4) [OF ok] by blast
  qed simp
qed

text \<open>The blocks in use determine the free blocks.\<close>

lemma unused_determined:
  assumes ok: "buddy_ok {} s f" "buddy_ok {} s' f'"
    and eq: "in_use s' = in_use s" "ba_pageCnt s' = ba_pageCnt s" and u: "unused s f i d"
  shows "unused s' f' i d"
proof -
  note t = buddy_okD(1) [OF ok(1)] and cong = free_region_cong [OF eq]
  have fi: "f i = Some d" "d \<le> MAX_ORDER" using u tilesD(1) [OF t] by (auto simp: unused_def)
  obtain k e where k: "unused s' f' k e" "d \<le> e" "k \<le> i" "i + 2 ^ d \<le> k + 2 ^ e"
    using region_in_block [OF ok(2), of i d] block_region [OF ok(1) u] fi(2) cong by blast
  have "e \<le> MAX_ORDER" using k(1) tilesD(1) [OF buddy_okD(1) [OF ok(2)]] by (auto simp: unused_def)
  then obtain k2 e2 where k2: "unused s f k2 e2" "e \<le> e2" "k2 \<le> k" "k + 2 ^ e \<le> k2 + 2 ^ e2"
    using region_in_block [OF ok(1), of k e] block_region [OF ok(2) k(1)] cong by blast
  have pos: "0 < (2::nat) ^ d" by simp
  have "k2 = i"
  proof (rule tiles_overlap [OF t])
    show "f k2 = Some e2" using k2(1) by (simp add: unused_def)
    show "f i = Some d" by (rule fi)
    show "k2 \<le> i" "i < k2 + 2 ^ e2" "i \<le> i" "i < i + 2 ^ d" using k k2 pos by linarith+
  qed
  then have "e2 = d" using k2(1) fi(1) by (simp add: unused_def)
  then have "e = d" using k(2) k2(2) by simp
  moreover have "k = i" using k(3,4) \<open>e = d\<close> by simp
  ultimately show ?thesis using k(1) by simp
qed

lemma free_lists_determined:
  assumes "buddy_inv s" "buddy_inv s'" "in_use s' = in_use s" "ba_pageCnt s' = ba_pageCnt s"
  shows "set (ba_root s' d) = set (ba_root s d)"
proof -
  obtain f f' where ok: "buddy_ok {} s f" "buddy_ok {} s' f'" using assms(1,2) by (auto simp: buddy_inv_def)
  have "unused s f i d \<longleftrightarrow> unused s' f' i d" for i
    using unused_determined [OF ok assms(3,4)] unused_determined [OF ok(2,1)] assms(3,4) by metis
  then show ?thesis using buddy_okD(4) [OF ok(1)] buddy_okD(4) [OF ok(2)] by auto
qed

section \<open>Sizes of requests\<close>

lemma page_request:
  assumes "2048 < unat sz" "unat sz \<le> 4194304"
  shows "\<exists>d\<le>MAX_ORDER. fixSize sz = ORDER_SIZE d \<and> unat sz \<le> 4096 * 2 ^ d"
proof -
  have pre: "0 < unat sz" "unat sz \<le> 2 ^ 31" using assms by simp_all
  obtain k where k: "k \<le> 31" "fixSize sz = 2 ^ k" "unat sz \<le> 2 ^ k" "\<And>j. unat sz \<le> 2 ^ j \<Longrightarrow> k \<le> j"
    by (rule fixSize_exp [OF pre]) (rule that)
  have "11 < k"
  proof (rule ccontr)
    assume "\<not> 11 < k"
    then have "(2::nat) ^ k \<le> 2 ^ 11" by (intro power_increasing) simp_all
    then show False using assms(1) k(3) by simp
  qed
  moreover have "k \<le> 22" using k(4) [of 22] assms(2) by simp
  ultimately have "k = 12 + (k - 12)" "k - 12 \<le> MAX_ORDER" by (simp_all add: MAX_ORDER_def)
  then have "fixSize sz = ORDER_SIZE (k - 12)" "unat sz \<le> 4096 * 2 ^ (k - 12)"
    using k(2,3) power_add [of "2::nat" 12 "k - 12"] by (simp_all add: ORDER_SIZE_eq)
  then show ?thesis using \<open>k - 12 \<le> MAX_ORDER\<close> by blast
qed

section \<open>Set-up\<close>

text \<open>Pages below \<open>p\<close> have been handed to the allocator, pages from \<open>p\<close> on are untouched.\<close>

definition built :: "nat \<Rightarrow> buddyAllocator \<Rightarrow> (nat \<Rightarrow> nat option) \<Rightarrow> bool" where
  "built p s f \<longleftrightarrow> tiles p f \<and> p \<le> ba_pageCnt s \<and> (\<forall>i<p. shape_at s f i) \<and>
     (\<forall>i. p \<le> i \<longrightarrow> i < ba_pageCnt s \<longrightarrow> \<not> page_head (ba_pages s i)) \<and>
     (\<forall>i<ba_pageCnt s. pg_ref_cnt (ba_pages s i) = 0) \<and>
     (\<forall>d. distinct (ba_root s d) \<and> set (ba_root s d) = {i. f i = Some d})"

lemma setup_pages_all:
  "ba_root (setup_pages k i s) = ba_root s \<and> ba_pageCnt (setup_pages k i s) = ba_pageCnt s \<and>
   ba_npages (setup_pages k i s) = ba_npages s \<and> ba_addr (setup_pages k i s) = ba_addr s \<and>
   (\<forall>j. same_page (ba_pages (setup_pages k i s) j) (ba_pages s j))"
proof (induction k arbitrary: i s)
  case (Suc k)
  have "page_head (p\<lparr>pg_flag := pg_flag p OR PG_Page\<rparr>) = page_head p" for p
    by (simp add: page_head_bit PG_Page_def bit_0 even_or_iff)
  then have "same_page (ba_pages (upd_page i (\<lambda>p. p\<lparr>pg_flag := pg_flag p OR PG_Page\<rparr>) s) j) (ba_pages s j)" for j
    by (simp add: same_page_def)
  then show ?case
    using Suc [of "Suc i" "upd_page i (\<lambda>p. p\<lparr>pg_flag := pg_flag p OR PG_Page\<rparr>) s"]
    by (simp add: same_page_def)
qed simp

lemmas setup_pages_same =
  setup_pages_all [THEN conjunct1] setup_pages_all [THEN conjunct2, THEN conjunct1]
  setup_pages_all [THEN conjunct2, THEN conjunct2, THEN conjunct1]
  setup_pages_all [THEN conjunct2, THEN conjunct2, THEN conjunct2, THEN conjunct1]
  setup_pages_all [THEN conjunct2, THEN conjunct2, THEN conjunct2, THEN conjunct2, rule_format]

definition setup_step :: "nat \<Rightarrow> nat \<Rightarrow> buddyAllocator \<Rightarrow> buddyAllocator" where
  "setup_step d p s = setup_pages (ORDER_CNT d) p (root_add_prev p d
     (upd_page p (\<lambda>q. q\<lparr>pg_flag := pg_flag q OR PG_Head, pg_size := ORDER_SIZE d\<rparr>) s))"

lemma setup_step_sel:
  "ba_root (setup_step d p s) = (ba_root s)(d := ba_root s d @ [p])"
  "ba_pageCnt (setup_step d p s) = ba_pageCnt s" "ba_npages (setup_step d p s) = ba_npages s"
  "ba_addr (setup_step d p s) = ba_addr s"
  "i \<noteq> p \<Longrightarrow> same_page (ba_pages (setup_step d p s) i) (ba_pages s i)"
  "page_head (ba_pages (setup_step d p s) p)" "pg_size (ba_pages (setup_step d p s) p) = ORDER_SIZE d"
  "pg_ref_cnt (ba_pages (setup_step d p s) p) = pg_ref_cnt (ba_pages s p)"
  using setup_pages_same(5) [of "ORDER_CNT d" p "root_add_prev p d
     (upd_page p (\<lambda>q. q\<lparr>pg_flag := pg_flag q OR PG_Head, pg_size := ORDER_SIZE d\<rparr>) s)" p]
    setup_pages_same(5) [of "ORDER_CNT d" p "root_add_prev p d
     (upd_page p (\<lambda>q. q\<lparr>pg_flag := pg_flag q OR PG_Head, pg_size := ORDER_SIZE d\<rparr>) s)" i]
  by (auto simp: setup_step_def setup_pages_same(1-4) same_page_def page_head_bit bit_or_iff PG_Head_def)

lemma shape_at_same_page:
  "same_page (ba_pages s' i) (ba_pages s i) \<Longrightarrow> f' i = f i \<Longrightarrow> shape_at s' f' i = shape_at s f i"
  by (cases "f i") (simp_all add: shape_at_def same_page_def)

lemma setup_step_ok:
  assumes b: "built p s f" and d: "2 ^ d dvd p" "d \<le> MAX_ORDER" "p + 2 ^ d \<le> ba_pageCnt s"
  shows "built (p + 2 ^ d) (setup_step d p s) (f(p \<mapsto> d))"
proof -
  let ?s = "setup_step d p s" and ?f = "f(p \<mapsto> d)"
  have t: "tiles p f" using b by (simp add: built_def)
  have above: "p \<le> i \<Longrightarrow> f i = None" for i using tilesD(4) [OF t, of i] by (cases "f i") auto
  have ref: "pg_ref_cnt (ba_pages ?s i) = 0" if "i < ba_pageCnt s" for i
    using that b setup_step_sel(5) [of i p d s] setup_step_sel(8) [of d p s]
    by (cases "i = p") (simp_all add: built_def same_page_def)
  have low: "shape_at ?s ?f i" if i: "i < p + 2 ^ d" for i
  proof (cases "i < p")
    case True
    then show ?thesis
      using shape_at_same_page [OF setup_step_sel(5), of i p ?f f d s] b by (simp add: built_def)
  next
    case False
    show ?thesis
    proof (cases "i = p")
      case True
      then show ?thesis using setup_step_sel(6,7) by (simp add: shape_at_def)
    next
      case i': False
      have "\<not> page_head (ba_pages s i)" using b False i d(3) by (simp add: built_def)
      then have "\<not> page_head (ba_pages ?s i)" using setup_step_sel(5) [OF i', of d s] by (simp add: same_page_def)
      then show ?thesis using above [of i] False i' i d(3) ref [of i] by (simp add: shape_at_def)
    qed
  qed
  have high: "\<not> page_head (ba_pages ?s i)" if "p + 2 ^ d \<le> i" "i < ba_pageCnt s" for i
  proof -
    have "i \<noteq> p" "p \<le> i" using that(1) by (auto simp: le_iff_add)
    then show ?thesis using b that(2) setup_step_sel(5) [of i p d s] by (simp add: built_def same_page_def)
  qed
  have "p \<notin> set (ba_root s e)" for e using b above [of p] by (simp add: built_def)
  then have roots: "distinct (ba_root ?s e) \<and> set (ba_root ?s e) = {i. ?f i = Some e}" for e
    using b above [of p] by (auto simp: built_def setup_step_sel(1))
  show ?thesis
    using tiles_append [OF t d(1,2)] d(3) low high ref roots
    by (simp add: built_def setup_step_sel(2))
qed

definition same_conf :: "buddyAllocator \<Rightarrow> buddyAllocator \<Rightarrow> bool" where
  "same_conf s s' \<longleftrightarrow> ba_pageCnt s' = ba_pageCnt s \<and> ba_npages s' = ba_npages s \<and> ba_addr s' = ba_addr s"

lemma setup_blocks_ok:
  assumes "built p s f" "2 ^ d dvd p" "d \<le> MAX_ORDER" "p + cnt * 2 ^ d \<le> ba_pageCnt s"
  shows "\<exists>s' f'. setup_blocks d cnt p s = (p + cnt * 2 ^ d, s') \<and> built (p + cnt * 2 ^ d) s' f' \<and>
    same_conf s s' \<and> (\<forall>i e. f' i = Some e \<longrightarrow> f i = Some e \<or> e = d \<and> p \<le> i \<and> i < p + cnt * 2 ^ d)"
  using assms
proof (induction cnt arbitrary: p s f)
  case 0
  then show ?case by (auto simp: same_conf_def)
next
  case (Suc cnt)
  let ?s = "setup_step d p s" and ?f = "f(p \<mapsto> d)"
  have "built (p + 2 ^ d) ?s ?f" using Suc.prems by (intro setup_step_ok) simp_all
  moreover have "2 ^ d dvd p + 2 ^ d" using Suc.prems(2) by simp
  moreover have "p + 2 ^ d + cnt * 2 ^ d \<le> ba_pageCnt ?s" using Suc.prems(4) by (simp add: setup_step_sel)
  ultimately obtain s' f' where r: "setup_blocks d cnt (p + 2 ^ d) ?s = (p + 2 ^ d + cnt * 2 ^ d, s')"
    "built (p + 2 ^ d + cnt * 2 ^ d) s' f'" "same_conf ?s s'"
    "\<forall>i e. f' i = Some e \<longrightarrow> ?f i = Some e \<or> e = d \<and> p + 2 ^ d \<le> i \<and> i < p + 2 ^ d + cnt * 2 ^ d"
    using Suc.IH Suc.prems(3) by blast
  have "setup_blocks d (Suc cnt) p s = (p + Suc cnt * 2 ^ d, s')"
    using r(1) by (simp add: setup_step_def ORDER_CNT_def Let_def add.assoc)
  moreover have "built (p + Suc cnt * 2 ^ d) s' f'" using r(2) by (simp add: add.assoc)
  moreover have "same_conf s s'" using r(3) by (simp add: same_conf_def setup_step_sel)
  moreover have "f i = Some e \<or> e = d \<and> p \<le> i \<and> i < p + Suc cnt * 2 ^ d" if "f' i = Some e" for i e
  proof (cases "i = p")
    case True
    then show ?thesis using r(4) that by (auto split: if_splits)
  next
    case False
    then show ?thesis using r(4) that by fastforce
  qed
  ultimately show ?case by blast
qed

definition few :: "nat \<Rightarrow> (nat \<Rightarrow> nat option) \<Rightarrow> bool" where
  "few K f \<longleftrightarrow> (\<forall>d i. d < K \<longrightarrow> f i \<noteq> Some d) \<and>
     (\<forall>d i j. d < MAX_ORDER \<longrightarrow> f i = Some d \<longrightarrow> f j = Some d \<longrightarrow> i = j)"

lemma few_less: "few K f \<Longrightarrow> L \<le> K \<Longrightarrow> few L f"
  by (auto simp: few_def)

lemma div_ORDER_SIZE:
  assumes "d \<le> MAX_ORDER"
  shows "unat (w div ORDER_SIZE d) = unat w div (4096 * 2 ^ d)" "unat (w mod ORDER_SIZE d) = unat w mod (4096 * 2 ^ d)"
  using unat_ORDER_SIZE [OF assms] by (simp_all add: unat_div unat_mod)

lemma few_blocks:
  assumes few: "few (Suc d) f" and t: "tiles n f'" and cnt: "d < MAX_ORDER \<Longrightarrow> cnt \<le> 1"
    and new: "\<forall>i e. f' i = Some e \<longrightarrow> f i = Some e \<or> e = d \<and> p \<le> i \<and> i < p + cnt * 2 ^ d"
  shows "few d f'"
  unfolding few_def
proof (intro conjI allI impI)
  show "f' i \<noteq> Some e" if "e < d" for i e
    using new few that by (metis few_def less_SucI less_irrefl_nat)
  show "i = j" if e: "e < MAX_ORDER" "f' i = Some e" "f' j = Some e" for e i j
  proof (cases "e = d")
    case True
    have none: "f i \<noteq> Some d" for i using few by (simp add: few_def)
    then have "p \<le> i \<and> i < p + 2 ^ d" "p \<le> j \<and> j < p + 2 ^ d"
      using new e cnt True by (metis (no_types, lifting) less_le_trans add_left_mono mult_le_mono1 nat_mult_1)+
    then show ?thesis
      using tilesD(5) [OF t e(2,3)] tilesD(5) [OF t e(3,2)] True
      by (metis add_le_cancel_right leD le_less_trans linorder_neqE_nat)
  next
    case False
    then show ?thesis using new few e by (metis few_def)
  qed
qed

lemma setup_orders_ok:
  assumes "built p s f" "few K f" "K \<le> Suc MAX_ORDER" "2 ^ K dvd 2 * p" "K \<le> MAX_ORDER \<Longrightarrow> unat sz < 4096 * 2 ^ K"
    "4096 dvd unat sz" "p + unat sz div 4096 \<le> ba_pageCnt s"
  shows "\<exists>s' f'. setup_orders K sz p s = (p + unat sz div 4096, s') \<and> built (p + unat sz div 4096) s' f' \<and>
    few 0 f' \<and> same_conf s s'"
  using assms
proof (induction K arbitrary: p s f sz)
  case 0
  then have "unat sz = 0" by (auto elim!: dvdE)
  then have "sz = 0" by (simp add: unat_eq_zero)
  then show ?case using 0 by (auto simp: same_conf_def)
next
  case (Suc K)
  have K: "K \<le> MAX_ORDER" "2 ^ K dvd p" "2 ^ K dvd 2 * p" using Suc.prems(3,4) by simp_all
  show ?case
  proof (cases "0 < sz \<and> \<not> sz < ORDER_SIZE K")
    case False
    have sub: "\<exists>s' f'. setup_orders K sz p s = (p + unat sz div 4096, s') \<and> built (p + unat sz div 4096) s' f' \<and>
      few 0 f' \<and> same_conf s s'" if "sz < ORDER_SIZE K"
      using Suc.prems(1,6,7) K few_less [OF Suc.prems(2), of K] that unat_ORDER_SIZE [OF K(1)]
      by (intro Suc.IH) (simp_all add: word_less_nat_alt)
    show ?thesis
    proof (cases "sz = 0")
      case True
      then show ?thesis using Suc.prems(1) few_less [OF Suc.prems(2), of 0] by (auto simp: same_conf_def)
    next
      case nz: False
      then have "0 < sz" "sz < ORDER_SIZE K" using False by (simp_all add: word_gt_0)
      then show ?thesis using sub by simp
    qed
  next
    case True
    let ?cnt = "unat (sz div ORDER_SIZE K)" and ?r = "sz mod ORDER_SIZE K"
    note dv = div_ORDER_SIZE [OF K(1), of sz]
    obtain n where n: "unat sz = 4096 * n" using Suc.prems(6) by (elim dvdE)
    have cnt: "?cnt = n div 2 ^ K" unfolding dv(1) n by simp
    have r4: "unat ?r = 4096 * (n mod 2 ^ K)" unfolding dv(2) n by (simp only: mult_mod_right)
    have split_n: "p + ?cnt * 2 ^ K + n mod 2 ^ K = p + n"
      using div_mult_mod_eq [of n "2 ^ K"] unfolding cnt by linarith
    obtain s1 f1 where b: "setup_blocks K ?cnt p s = (p + ?cnt * 2 ^ K, s1)" "built (p + ?cnt * 2 ^ K) s1 f1"
      "same_conf s s1" "\<forall>i e. f1 i = Some e \<longrightarrow> f i = Some e \<or> e = K \<and> p \<le> i \<and> i < p + ?cnt * 2 ^ K"
      using setup_blocks_ok [OF Suc.prems(1) K(2,1), of ?cnt] Suc.prems(7) n split_n by auto
    have "?cnt \<le> 1" if "K < MAX_ORDER"
    proof -
      have "n < 2 * 2 ^ K" using Suc.prems(5) n that by simp
      then have "n div 2 ^ K < 2" by (simp add: less_mult_imp_div_less mult.commute)
      then show ?thesis using cnt by simp
    qed
    then have few1: "few K f1" using few_blocks [OF Suc.prems(2) _ _ b(4)] b(2) unfolding built_def by blast
    have "2 ^ K dvd 2 * (p + ?cnt * 2 ^ K)" using K(2) by (simp add: dvd_add)
    moreover have "unat ?r < 4096 * 2 ^ K" using r4 by simp
    moreover have "p + ?cnt * 2 ^ K + unat ?r div 4096 \<le> ba_pageCnt s1"
      using Suc.prems(7) n r4 split_n b(3) by (simp add: same_conf_def)
    ultimately obtain s' f' where r: "setup_orders K ?r (p + ?cnt * 2 ^ K) s1 = (p + ?cnt * 2 ^ K + unat ?r div 4096, s')"
      "built (p + ?cnt * 2 ^ K + unat ?r div 4096) s' f'" "few 0 f'" "same_conf s1 s'"
      using Suc.IH [OF b(2) few1, of ?r] K(1) r4 by auto
    have e: "p + ?cnt * 2 ^ K + unat ?r div 4096 = p + unat sz div 4096" using r4 n split_n by simp
    have "setup_orders (Suc K) sz p s = (p + unat sz div 4096, s')"
      using True b(1) r(1) unfolding e by (simp add: Let_def)
    then show ?thesis using r(2-4) b(3) unfolding e by (auto simp: same_conf_def)
  qed
qed

lemma built_buddy_ok:
  assumes "built p s f" "few 0 f"
  shows "buddy_ok {} (s\<lparr>ba_pageCnt := p, ba_lock := 0\<rparr>) f"
proof -
  let ?s = "s\<lparr>ba_pageCnt := p, ba_lock := 0\<rparr>"
  have t: "tiles p f" using assms(1) by (simp add: built_def)
  have ref: "pg_ref_cnt (ba_pages s i) = 0" if "f i = Some d" for i d
    using assms(1) tilesD(4) [OF t that] by (simp add: built_def)
  have "\<not> (unused ?s f i d \<and> unused ?s f (bud i d) d)" if "d < MAX_ORDER" for i d
    using assms(2) that bud_props(3) [of d i] tilesD(2) [OF t, of i d] by (auto simp: few_def unused_def)
  moreover have "shape_at ?s f i" if "i < p" for i
    using assms(1) that shape_at_cong [of f i f ?s s] by (simp add: built_def)
  ultimately show ?thesis using assms(1) t ref by (auto simp: buddy_ok_def built_def unused_def)
qed

lemma pmm_init_one_region:
  assumes pad: "unat (PAGE_FLOOR addr - addr) \<le> unat sz"
    and cnt: "unat sz div 4096 \<le> ba_pageCnt s" "ba_pageCnt s \<le> 2 ^ 20"
  shows "\<exists>s'. pmm_init start [(addr, sz)] s = Some s' \<and> buddy_inv s' \<and> in_use s' = (\<lambda>_. None) \<and>
    ba_pageCnt s' = (unat sz - unat (PAGE_FLOOR addr - addr)) div 4096 \<and>
    ba_npages s' = ba_pageCnt s \<and> ba_addr s' = PAGE_FLOOR start"
proof -
  let ?s = "pmm_reset start s"
  let ?sz = "PAGE_CEIL (sz - (PAGE_FLOOR addr - addr))"
  define n where "n = (unat sz - unat (PAGE_FLOOR addr - addr)) div 4096"
  have sz': "unat ?sz = 4096 * n" using pad by (simp add: unat_PAGE_CEIL unat_sub_no_wrap n_def)
  have "n \<le> unat sz div 4096" unfolding n_def by (intro div_le_mono) simp
  then have n: "n \<le> ba_pageCnt s" using cnt(1) by simp
  have "page_head (p\<lparr>pg_flag := 0, pg_ref_cnt := 0, pg_size := 0, pg_rwlock := k\<rparr>) = False" for p k
    by (simp add: page_head_def)
  then have b0: "built 0 ?s (\<lambda>_. None)" by (simp add: built_def tiles_empty pmm_reset_def)
  have "few (Suc MAX_ORDER) (\<lambda>_. None)" by (simp add: few_def)
  then obtain s1 f1 where r: "setup_orders (Suc MAX_ORDER) ?sz 0 ?s = (n, s1)" "built n s1 f1" "few 0 f1" "same_conf ?s s1"
    using setup_orders_ok [OF b0, of "Suc MAX_ORDER" ?sz] sz' n by (auto simp: pmm_reset_def)
  have "unat (of_nat (ba_pageCnt s) :: u32) = ba_pageCnt s" using cnt(2) by (simp add: unat_of_nat)
  moreover have "unat (drop_bit 12 sz) = unat sz div 4096"
    by (simp only: unat_drop_bit_eq) (simp only: drop_bit_eq_div, simp)
  ultimately have guard: "drop_bit 12 sz \<le> (of_nat (ba_pageCnt s) :: u32)" using cnt(1) by (simp add: word_le_nat_alt)
  have cnt0: "ba_pageCnt ?s = ba_pageCnt s" by (simp add: pmm_reset_def)
  let ?s2 = "s1\<lparr>ba_size := ba_size s1 + push_bit 12 (of_nat n)\<rparr>"
  let ?s3 = "?s2\<lparr>ba_pageCnt := n, ba_lock := 0\<rparr>"
  have call: "pmm_init start [(addr, sz)] s = Some ?s3"
    using guard r(1) cnt0 by (simp add: pmm_init_def page_setup_def Let_def del: setup_orders.simps)
  have "built n ?s2 f1" using r(2) shape_at_cong [of f1 _ f1 ?s2 s1] by (simp add: built_def)
  then have ok: "buddy_ok {} ?s3 f1" using r(3) by (rule built_buddy_ok)
  have "in_use ?s3 i = None" for i
    using r(2) by (auto simp: in_use_def built_def)
  moreover have "buddy_inv ?s3" using ok r(4) n cnt(2) by (auto simp: buddy_inv_def same_conf_def pmm_reset_def)
  ultimately show ?thesis using call r(4) by (auto simp: n_def same_conf_def pmm_reset_def)
qed

section \<open>Pages and addresses\<close>

lemma unat_page_addr:
  assumes "unat (ba_addr s) + 4096 * ba_npages s \<le> 2 ^ 32" "i < ba_npages s"
  shows "unat (page_addr i s) = unat (ba_addr s) + 4096 * i"
proof -
  have "unat (ba_addr s) + 4096 * i < 2 ^ 32" using assms by simp
  moreover from this have "unat (push_bit 12 (of_nat i) :: u32) = 4096 * i"
    by (simp add: push_bit_eq_mult unat_word_ariths unat_of_nat)
  ultimately show ?thesis by (simp add: page_addr_def unat_add_no_wrap)
qed

lemma get_page_page_addr:
  assumes "4096 dvd unat (ba_addr s)" "unat (ba_addr s) + 4096 * ba_npages s \<le> 2 ^ 32" "i < ba_npages s"
  shows "get_page (page_addr i s) s = Some (Some i)"
proof -
  note addr = unat_page_addr [OF assms(2,3)]
  have "page_addr i s AND PAGE_MASK = 0" using addr assms(1) by (simp add: page_aligned_iff)
  moreover have "unat (page_addr i s - ba_addr s) = 4096 * i" using addr by (simp add: unat_sub_no_wrap)
  then have "unat (drop_bit 12 (page_addr i s - ba_addr s)) = i"
    by (simp only: unat_drop_bit_eq) (simp only: drop_bit_eq_div, simp)
  ultimately show ?thesis using addr assms(3) by (simp add: get_page_def word_less_nat_alt Let_def)
qed

lemma page_addr_get_page:
  assumes "4096 dvd unat (ba_addr s)" "unat (ba_addr s) + 4096 * ba_npages s \<le> 2 ^ 32"
    "get_page a s = Some (Some i)"
  shows "page_addr i s = a"
proof -
  let ?b = "ba_addr s"
  have a: "4096 dvd unat a" "unat ?b \<le> unat a" "i = unat (drop_bit 12 (a - ?b))" "i < ba_npages s"
    using assms(3) by (auto simp: get_page_def Let_def page_aligned_iff word_less_nat_alt split: if_splits)
  have "i = (unat a - unat ?b) div 4096"
    unfolding a(3) by (simp only: unat_drop_bit_eq) (simp only: drop_bit_eq_div unat_sub_no_wrap [OF a(2)], simp)
  moreover have "4096 dvd unat a - unat ?b" using a(1) assms(1) by (rule dvd_diff_nat)
  ultimately have "unat ?b + 4096 * i = unat a" using a(2) by simp
  then show ?thesis using unat_page_addr [OF assms(2) a(4)] by (simp add: word_unat_eq_iff)
qed

end
