(* ===== verification/Buddy_Spec.thy ===== *)
theory Buddy_Spec
  imports Buddy_Inv
begin

text \<open>
  The properties of the page allocator (theories \<^verbatim>\<open>Buddy\<close> and \<^verbatim>\<open>Buddy_Inv\<close>). Its abstract state is
  the map \<open>in_use\<close> from the first pages of the blocks in use to their orders; \<open>free_region\<close> says
  that an aligned range of pages meets none of them.
\<close>

section \<open>Allocation, release and set-up\<close>

lemma alloc_page_cases:
  assumes inv: "buddy_inv s" and sz: "fixSize sz = ORDER_SIZE d" "d \<le> MAX_ORDER"
  shows "case alloc_page_core sz s of
      None \<Rightarrow> \<forall>i. \<not> free_region s i d
    | Some (pg, s') \<Rightarrow> buddy_inv s' \<and> free_region s pg d \<and> in_use s' = (in_use s)(pg \<mapsto> d) \<and>
        ba_pageCnt s' = ba_pageCnt s \<and> ba_addr s' = ba_addr s \<and> pg_ref_cnt (ba_pages s' pg) = 1 \<and>
        rw_writelock (pg_rwlock (ba_pages s' pg)) = 0 \<and> ba_size s' = ba_size s - ORDER_SIZE d \<and>
        pg_flag (ba_pages s' pg) = pg_flag (ba_pages s pg)"
proof -
  obtain f where ok: "buddy_ok {} s f" and lock: "ba_lock s = 0" using inv by (auto simp: buddy_inv_def)
  show ?thesis
  proof (cases "find_root d s")
    case None
    have "find_root d (s\<lparr>ba_lock := 1\<rparr>) = None" using None by (simp add: find_root_def del: upt_Suc)
    then have "alloc_page_core sz s = None"
      using log2_ORDER_SIZE [OF sz(2)] lock by (auto simp: alloc_page_core_def sz(1) Let_def)
    then show ?thesis using None find_root_region [OF ok sz(2)] by simp
  next
    case (Some i)
    note fr = find_root_Some [OF Some]
    obtain pg s' f' where r: "alloc_page_core sz s = Some (pg, s')" "buddy_ok {} s' f'" "f' pg = Some d"
      "f pg = Some i" "pg_ref_cnt (ba_pages s pg) = 0" "pg_ref_cnt (ba_pages s' pg) = 1" "ba_lock s' = 0"
      "ba_pageCnt s' = ba_pageCnt s" "ba_npages s' = ba_npages s" "ba_addr s' = ba_addr s"
      "ba_size s' = ba_size s - ORDER_SIZE d" "same_used pg s f s' f'"
      "\<forall>k. k \<noteq> pg \<longrightarrow> pg_ref_cnt (ba_pages s' k) = pg_ref_cnt (ba_pages s k)"
      "pg_rwlock (ba_pages s' pg) = rwlock_init" "pg_flag (ba_pages s' pg) = pg_flag (ba_pages s pg)"
      using alloc_page_ok [OF ok lock sz Some] by blast
    have "in_use s' k = ((in_use s)(pg \<mapsto> d)) k" for k
      using in_use_eq [OF ok, of k] in_use_eq [OF r(2), of k] r(3,6,12,13)
      by (cases "k = pg") (auto simp: same_used_def)
    then have "in_use s' = (in_use s)(pg \<mapsto> d)" by (rule ext)
    moreover have "free_region s pg d"
      using block_region [OF ok, of pg i] free_region_smaller fr(1) r(4,5) by (simp add: unused_def)
    moreover have "buddy_inv s'" using r(2,7,8,9) inv by (auto simp: buddy_inv_def)
    ultimately show ?thesis using r by simp
  qed
qed

text \<open>What allocation leaves alone, and the page structure of the new block.\<close>

lemma alloc_page_frame:
  assumes inv: "buddy_inv s" and sz: "fixSize sz = ORDER_SIZE d" "d \<le> MAX_ORDER" and a: "alloc_page_core sz s = Some (pg, s')"
  shows "page_head (ba_pages s' pg)" "pg_size (ba_pages s' pg) = ORDER_SIZE d" "pg < ba_pageCnt s"
    "ba_npages s' = ba_npages s" "k \<noteq> pg \<Longrightarrow> in_use s k \<noteq> None \<Longrightarrow> ba_pages s' k = ba_pages s k"
proof -
  obtain f where ok: "buddy_ok {} s f" and lock: "ba_lock s = 0" using inv by (auto simp: buddy_inv_def)
  have "find_root d s \<noteq> None"
    using alloc_page_cases [OF inv sz] find_root_region [OF ok sz(2)] a by auto
  then obtain i where i: "find_root d s = Some i" by auto
  obtain f' where r: "buddy_ok {} s' f'" "f' pg = Some d" "f pg = Some i"
    "ba_pageCnt s' = ba_pageCnt s" "ba_npages s' = ba_npages s" "same_used pg s f s' f'"
    using alloc_page_ok [OF ok lock sz i] a by auto
  show "pg < ba_pageCnt s" using tilesD(4) [OF buddy_okD(1) [OF ok] r(3)] .
  then show "page_head (ba_pages s' pg)" "pg_size (ba_pages s' pg) = ORDER_SIZE d"
    using buddy_okD(2) [OF r(1), of pg] r(2,4) by (simp_all add: shape_at_def)
  show "ba_npages s' = ba_npages s" by (rule r(5))
  show "ba_pages s' k = ba_pages s k" if "k \<noteq> pg" "in_use s k \<noteq> None"
    using r(6) that in_use_eq [OF ok, of k] by (auto simp: same_used_def split: if_splits)
qed

lemma free_page_frees:
  assumes inv: "buddy_inv s" and use: "in_use s pg = Some d" and ref: "pg_ref_cnt (ba_pages s pg) = 1"
    and wl: "rw_writelock (pg_rwlock (ba_pages s pg)) \<noteq> 1"
  shows "\<exists>s'. free_page_core pg s = Some s' \<and> buddy_inv s' \<and> in_use s' = (in_use s)(pg := None) \<and>
    ba_pageCnt s' = ba_pageCnt s \<and> ba_addr s' = ba_addr s \<and> ba_size s' = ba_size s \<and>
    (\<forall>k. k \<noteq> pg \<longrightarrow> in_use s k \<noteq> None \<longrightarrow> ba_pages s' k = ba_pages s k)"
proof -
  obtain f where ok: "buddy_ok {} s f" and lock: "ba_lock s = 0" using inv by (auto simp: buddy_inv_def)
  have fpg: "f pg = Some d" using in_use_eq [OF ok, of pg] use by (simp split: if_splits)
  obtain s' f' where r: "free_page_core pg s = Some s'" "buddy_ok {} s' f'" "ba_lock s' = 0"
    "ba_pageCnt s' = ba_pageCnt s" "ba_npages s' = ba_npages s" "ba_addr s' = ba_addr s" "ba_size s' = ba_size s"
    "\<forall>k. pg_ref_cnt (ba_pages s' k) = (if k = pg then 0 else pg_ref_cnt (ba_pages s k))"
    "\<forall>k. k \<noteq> pg \<longrightarrow> pg_ref_cnt (ba_pages s k) \<noteq> 0 \<longrightarrow> f' k = f k \<and> ba_pages s' k = ba_pages s k"
    using free_page_ok [OF ok lock fpg ref wl] by blast
  have "in_use s' k = ((in_use s)(pg := None)) k" for k
    using in_use_eq [OF ok, of k] in_use_eq [OF r(2), of k] r(8,9) by (cases "k = pg") auto
  then have "in_use s' = (in_use s)(pg := None)" by (rule ext)
  moreover have "buddy_inv s'" using r(2-5) inv by (auto simp: buddy_inv_def)
  moreover have "ba_pages s' k = ba_pages s k" if "k \<noteq> pg" "in_use s k \<noteq> None" for k
    using r(9) that in_use_eq [OF ok, of k] by (auto split: if_splits)
  ultimately show ?thesis using r(1,4,6,7) by blast
qed

text \<open>A small allocator for the witnesses: four pages from 1 MB on.\<close>

lemma small_buddy:
  obtains s where "buddy_inv s" "in_use s = (\<lambda>_. None)" "ba_pageCnt s = 4" "free_region s 0 0" "ba_npages s = 4" "ba_addr s = 0x100000"
proof -
  fix s0 :: buddyAllocator
  have "\<exists>s. pmm_init 0x100000 [(0x100000, 0x4000)] (s0\<lparr>ba_pageCnt := 4\<rparr>) = Some s \<and> buddy_inv s \<and>
    in_use s = (\<lambda>_. None) \<and>
    ba_pageCnt s = (unat (0x4000 :: u32) - unat (PAGE_FLOOR 0x100000 - 0x100000)) div 4096 \<and>
    ba_npages s = ba_pageCnt (s0\<lparr>ba_pageCnt := 4\<rparr>) \<and> ba_addr s = PAGE_FLOOR 0x100000"
    by (rule pmm_init_one_region) (simp_all add: PAGE_FLOOR_def PAGE_MASK_def PAGE_SIZE_def)
  then obtain s where "buddy_inv s" "in_use s = (\<lambda>_. None)" "ba_pageCnt s = 4" "ba_npages s = 4" "ba_addr s = 0x100000"
    by (auto simp: PAGE_FLOOR_def PAGE_MASK_def PAGE_SIZE_def)
  then show thesis using that [of s] by (simp add: free_region_def)
qed

text \<open>
  C2. Page allocation, sound and complete. For every request between half a page and 4 MB,
  \<^verbatim>\<open>__alloc_page\<close> on a well-formed allocator rounds the size up to a power of two, and either
  returns a block of exactly that size which was free and aligned to its size, entering it into the
  map of blocks in use with reference count 1 and leaving the allocator well-formed and all other
  blocks as they were; or it panics, and then no aligned free range of that size exists at all.
\<close>

theorem buddy_alloc_correct:
  assumes "buddy_inv s" "2048 < unat sz" "unat sz \<le> 4194304"
  shows "\<exists>d\<le>MAX_ORDER. fixSize sz = ORDER_SIZE d \<and> unat sz \<le> 4096 * 2 ^ d \<and>
    (case alloc_page_core sz s of
       None \<Rightarrow> \<forall>i. \<not> free_region s i d
     | Some (pg, s') \<Rightarrow> buddy_inv s' \<and> free_region s pg d \<and> in_use s' = (in_use s)(pg \<mapsto> d) \<and>
         pg_ref_cnt (ba_pages s' pg) = 1)"
proof -
  obtain d where d: "d \<le> MAX_ORDER" "fixSize sz = ORDER_SIZE d" "unat sz \<le> 4096 * 2 ^ d"
    using page_request [OF assms(2,3)] by blast
  show ?thesis
    using alloc_page_cases [OF assms(1) d(2,1)] d by (auto split: option.splits)
qed

theorem buddy_alloc_correct_witness:
  "\<exists>s pg s'. buddy_inv s \<and> alloc_page_core 5000 s = Some (pg, s') \<and> buddy_inv s' \<and> free_region s pg 1 \<and>
     in_use s' = (in_use s)(pg \<mapsto> 1)"
proof (rule small_buddy)
  fix s assume s: "buddy_inv s" "in_use s = (\<lambda>_. None)" "ba_pageCnt s = 4"
  have sz: "fixSize 5000 = ORDER_SIZE 1"
    by (simp add: fixSize_def IS_POWER_OF_2_def ORDER_SIZE_eq Let_def)
  obtain d where d: "d \<le> MAX_ORDER" "fixSize 5000 = ORDER_SIZE d" and
    c: "case alloc_page_core 5000 s of None \<Rightarrow> \<forall>i. \<not> free_region s i d
     | Some (pg, s') \<Rightarrow> buddy_inv s' \<and> free_region s pg d \<and> in_use s' = (in_use s)(pg \<mapsto> d) \<and>
         pg_ref_cnt (ba_pages s' pg) = 1"
    using buddy_alloc_correct [OF s(1), of 5000] by auto
  have "d = 1" using d sz by (simp add: MAX_ORDER_def)
  moreover have "free_region s 0 1" using s by (simp add: free_region_def)
  ultimately show ?thesis using s(1) c by (cases "alloc_page_core 5000 s") auto
qed

text \<open>
  C7. Page release. \<^verbatim>\<open>__free_page\<close> of a block in use that has one reference and whose lock is
  free returns, takes exactly that block out of the map of blocks in use, leaves every other block
  in use untouched, and leaves the allocator well-formed, in particular fully coalesced.
\<close>

theorem buddy_free_correct:
  assumes "buddy_inv s" "in_use s pg = Some d" "pg_ref_cnt (ba_pages s pg) = 1"
    "rw_writelock (pg_rwlock (ba_pages s pg)) \<noteq> 1"
  shows "\<exists>s'. free_page_core pg s = Some s' \<and> buddy_inv s' \<and> in_use s' = (in_use s)(pg := None) \<and>
    (\<forall>k. k \<noteq> pg \<longrightarrow> in_use s k \<noteq> None \<longrightarrow> ba_pages s' k = ba_pages s k)"
  using free_page_frees [OF assms] by blast

theorem buddy_free_correct_witness:
  "\<exists>s pg s'. buddy_inv s \<and> in_use s pg = Some 0 \<and> free_page_core pg s = Some s' \<and> buddy_inv s' \<and>
     in_use s' = (in_use s)(pg := None)"
proof (rule small_buddy)
  fix s assume s: "buddy_inv s" "free_region s 0 0"
  have sz: "fixSize 4096 = ORDER_SIZE 0" "0 \<le> MAX_ORDER"
    by (simp_all add: fixSize_def IS_POWER_OF_2_def ORDER_SIZE_eq)
  obtain pg s1 where "alloc_page_core 4096 s = Some (pg, s1)"
    using alloc_page_cases [OF s(1) sz] s(2) by (auto split: option.splits)
  then have a: "buddy_inv s1" "in_use s1 pg = Some 0" "pg_ref_cnt (ba_pages s1 pg) = 1"
    "rw_writelock (pg_rwlock (ba_pages s1 pg)) \<noteq> 1"
    using alloc_page_cases [OF s(1) sz] by simp_all
  show ?thesis using buddy_free_correct [OF a] a by blast
qed

text \<open>
  C14. Allocation followed by release. The free lists are determined by the blocks in use: after
  \<^verbatim>\<open>__alloc_page\<close> and \<^verbatim>\<open>__free_page\<close> of the block it returned, every free list holds the same blocks
  as before. The counter \<^verbatim>\<open>allocator.size\<close> is not restored: it stays smaller by the block's size.
\<close>

theorem buddy_alloc_free_roundtrip:
  assumes "buddy_inv s" "2048 < unat sz" "unat sz \<le> 4194304" "alloc_page_core sz s = Some (pg, s1)"
  shows "\<exists>s2. free_page_core pg s1 = Some s2 \<and> buddy_inv s2 \<and> in_use s2 = in_use s \<and>
    (\<forall>d. set (ba_root s2 d) = set (ba_root s d)) \<and> ba_size s2 = ba_size s - fixSize sz"
proof -
  obtain d where d: "d \<le> MAX_ORDER" "fixSize sz = ORDER_SIZE d"
    using page_request [OF assms(2,3)] by blast
  have a: "buddy_inv s1" "free_region s pg d" "in_use s1 = (in_use s)(pg \<mapsto> d)" "ba_pageCnt s1 = ba_pageCnt s"
    "pg_ref_cnt (ba_pages s1 pg) = 1" "rw_writelock (pg_rwlock (ba_pages s1 pg)) = 0"
    "ba_size s1 = ba_size s - ORDER_SIZE d"
    using alloc_page_cases [OF assms(1) d(2,1)] assms(4) by simp_all
  obtain s2 where f: "free_page_core pg s1 = Some s2" "buddy_inv s2" "in_use s2 = (in_use s1)(pg := None)"
    "ba_pageCnt s2 = ba_pageCnt s1" "ba_size s2 = ba_size s1"
    using free_page_frees [OF a(1) _ a(5), of d] a(3,6) by auto
  have "in_use s pg = None"
  proof (cases "in_use s pg")
    case (Some e)
    then have "pg + 2 ^ e \<le> pg \<or> pg + 2 ^ d \<le> pg" using a(2) Some unfolding free_region_def by blast
    then show ?thesis by simp
  qed
  then have use: "in_use s2 = in_use s" using f(3) a(3) by auto
  then have "set (ba_root s2 e) = set (ba_root s e)" for e
    using free_lists_determined [OF assms(1) f(2)] f(4) a(4) by simp
  then show ?thesis using f a(7) use d(2) by auto
qed

theorem buddy_alloc_free_roundtrip_witness:
  "\<exists>s pg s1 s2. alloc_page_core 4096 s = Some (pg, s1) \<and> free_page_core pg s1 = Some s2 \<and>
     (\<forall>d. set (ba_root s2 d) = set (ba_root s d)) \<and> ba_size s2 = ba_size s - 4096"
proof (rule small_buddy)
  fix s assume s: "buddy_inv s" "free_region s 0 0"
  have sz: "fixSize 4096 = ORDER_SIZE 0" "0 \<le> MAX_ORDER" "fixSize 4096 = 4096"
    by (simp_all add: fixSize_def IS_POWER_OF_2_def ORDER_SIZE_eq)
  obtain pg s1 where a: "alloc_page_core 4096 s = Some (pg, s1)"
    using alloc_page_cases [OF s(1) sz(1,2)] s(2) by (auto split: option.splits)
  show ?thesis using buddy_alloc_free_roundtrip [OF s(1) _ _ a] a sz(3) by auto
qed

text \<open>
  C15. Set-up. \<^verbatim>\<open>pmm_init\<close> on one region of memory that contains a page boundary and for which enough
  page structures were reserved succeeds and yields a well-formed allocator with no block in use
  that manages all whole pages of the region.
\<close>

theorem pmm_init_correct:
  assumes "unat (PAGE_FLOOR addr - addr) \<le> unat sz" "unat sz div 4096 \<le> ba_pageCnt s" "ba_pageCnt s \<le> 2 ^ 20"
  shows "\<exists>s'. pmm_init start [(addr, sz)] s = Some s' \<and> buddy_inv s' \<and> in_use s' = (\<lambda>_. None) \<and>
    ba_pageCnt s' = (unat sz - unat (PAGE_FLOOR addr - addr)) div 4096"
  using pmm_init_one_region [OF assms] by blast

theorem pmm_init_correct_witness:
  "\<exists>s s'. pmm_init 0x100800 [(0x100800, 0x4000)] s = Some s' \<and> buddy_inv s' \<and> ba_pageCnt s' = 3"
proof -
  fix s0 :: buddyAllocator
  have e: "PAGE_FLOOR 0x100800 - 0x100800 = 0x800" by (simp add: PAGE_FLOOR_def PAGE_MASK_def PAGE_SIZE_def)
  show ?thesis
    using pmm_init_correct [of "0x100800" "0x4000" "s0\<lparr>ba_pageCnt := 4\<rparr>" "0x100800"] unfolding e by auto
qed

section \<open>Accounting\<close>

lemma tiles_sum:
  assumes t: "tiles n f"
  shows "(\<Sum>i\<in>dom f. 2 ^ the (f i)) = n"
proof -
  have dom: "dom f \<subseteq> {..<n}" using tilesD(4) [OF t] by auto
  have cover: "(\<Union>i\<in>dom f. {i..<i + 2 ^ the (f i)}) = {..<n}"
  proof
    show "(\<Union>i\<in>dom f. {i..<i + 2 ^ the (f i)}) \<subseteq> {..<n}" using tilesD(3) [OF t] by fastforce
    show "{..<n} \<subseteq> (\<Union>i\<in>dom f. {i..<i + 2 ^ the (f i)})"
    proof
      fix j assume "j \<in> {..<n}"
      then obtain i d where "f i = Some d" "i \<le> j" "j < i + 2 ^ d" using tiles_cover [OF t, of j] by blast
      then show "j \<in> (\<Union>i\<in>dom f. {i..<i + 2 ^ the (f i)})" by (intro UN_I [of i]) auto
    qed
  qed
  have disj: "{i..<i + 2 ^ the (f i)} \<inter> {k..<k + 2 ^ the (f k)} = {}"
    if "i \<in> dom f" "k \<in> dom f" "i \<noteq> k" for i k
  proof -
    have "j \<notin> {k..<k + 2 ^ the (f k)}" if "j \<in> {i..<i + 2 ^ the (f i)}" for j
      using tiles_overlap [OF t, of i "the (f i)" k "the (f k)" j] that \<open>i \<in> dom f\<close> \<open>k \<in> dom f\<close> \<open>i \<noteq> k\<close>
      by (auto simp: domIff)
    then show ?thesis by blast
  qed
  have "card {..<n} = (\<Sum>i\<in>dom f. card {i..<i + 2 ^ the (f i)})"
    unfolding cover [symmetric] using dom disj by (intro card_UN_disjoint) (auto intro: finite_subset)
  then show ?thesis by simp
qed

lemma root_sum:
  assumes ok: "buddy_ok {} s f"
  shows "(\<Sum>d\<le>MAX_ORDER. length (ba_root s d) * 2 ^ d) = (\<Sum>i\<in>{i. \<exists>d. unused s f i d}. 2 ^ the (f i))"
proof -
  let ?U = "{i. \<exists>d. unused s f i d}"
  note t = buddy_okD(1) [OF ok]
  have "?U \<subseteq> {..<ba_pageCnt s}" using tilesD(4) [OF t] by (auto simp: unused_def)
  then have fin: "finite ?U" by (rule finite_subset) simp
  have ord: "(\<lambda>i. the (f i)) ` ?U \<subseteq> {..MAX_ORDER}" using tilesD(1) [OF t] by (auto simp: unused_def)
  have eq: "{i \<in> ?U. the (f i) = d} = set (ba_root s d)" for d
    using buddy_okD(4) [OF ok] by (auto simp: unused_def)
  have "(\<Sum>i\<in>?U. 2 ^ the (f i)) = (\<Sum>d\<le>MAX_ORDER. \<Sum>i\<in>{i \<in> ?U. the (f i) = d}. 2 ^ the (f i))"
    using fin ord by (intro sum.group [symmetric]) simp_all
  also have "\<dots> = (\<Sum>d\<le>MAX_ORDER. \<Sum>i\<in>{i \<in> ?U. the (f i) = d}. 2 ^ d)"
    by (intro sum.cong refl) simp
  also have "\<dots> = (\<Sum>d\<le>MAX_ORDER. length (ba_root s d) * 2 ^ d)"
    unfolding eq using buddy_okD(3) [OF ok] by (simp add: distinct_card)
  finally show ?thesis by simp
qed

lemma page_cnt_nat: "page_cnt s = of_nat (\<Sum>d\<le>MAX_ORDER. length (ba_root s d) * 2 ^ d)"
proof -
  have "page_cnt s = (\<Sum>j\<leftarrow>[0..<MAX_ORDER + 1]. of_nat (length (ba_root s j) * 2 ^ j))"
    by (simp add: page_cnt_def ORDER_CNT_def)
  also have "\<dots> = (\<Sum>j\<in>{0..<MAX_ORDER + 1}. of_nat (length (ba_root s j) * 2 ^ j))"
    by (rule sum_list_distinct_conv_sum_set [where xs = "[0..<MAX_ORDER + 1]", simplified set_upt]) simp
  also have "{0..<MAX_ORDER + 1} = {..MAX_ORDER}" by auto
  finally show ?thesis by simp
qed

text \<open>
  C13. Accounting. On a well-formed allocator the number of free pages that \<^verbatim>\<open>page_cnt\<close> adds up in
  32-bit arithmetic and the pages of the blocks in use together are all the managed pages: no page
  is lost and none is counted twice.
\<close>

theorem page_accounting:
  assumes "buddy_inv s"
  shows "unat (page_cnt s) + (\<Sum>i\<in>dom (in_use s). 2 ^ the (in_use s i)) = ba_pageCnt s"
proof -
  obtain f where ok: "buddy_ok {} s f" using assms by (auto simp: buddy_inv_def)
  let ?U = "{i. \<exists>d. unused s f i d}"
  note t = buddy_okD(1) [OF ok]
  have dom: "dom f = ?U \<union> dom (in_use s)" "?U \<inter> dom (in_use s) = {}"
    using in_use_eq [OF ok] by (auto simp: unused_def domIff split: if_splits)
  have "dom f \<subseteq> {..<ba_pageCnt s}" using tilesD(4) [OF t] by auto
  then have fin: "finite (dom f)" by (rule finite_subset) simp
  have "(\<Sum>i\<in>dom (in_use s). (2::nat) ^ the (in_use s i)) = (\<Sum>i\<in>dom (in_use s). 2 ^ the (f i))"
    using in_use_eq [OF ok] by (intro sum.cong) (auto split: if_splits)
  moreover have "(\<Sum>i\<in>?U. 2 ^ the (f i)) + (\<Sum>i\<in>dom (in_use s). 2 ^ the (f i)) = ba_pageCnt s"
    using tiles_sum [OF t] fin unfolding dom(1) by (simp add: sum.union_disjoint [OF _ _ dom(2)])
  ultimately have total: "(\<Sum>d\<le>MAX_ORDER. length (ba_root s d) * 2 ^ d) +
      (\<Sum>i\<in>dom (in_use s). 2 ^ the (in_use s i)) = ba_pageCnt s"
    using root_sum [OF ok] by simp
  moreover have "ba_pageCnt s < 2 ^ LENGTH(32)" using assms by (simp add: buddy_inv_def)
  ultimately have "(\<Sum>d\<le>MAX_ORDER. length (ba_root s d) * 2 ^ d) < 2 ^ LENGTH(32)" by linarith
  then have "unat (page_cnt s) = (\<Sum>d\<le>MAX_ORDER. length (ba_root s d) * 2 ^ d)"
    unfolding page_cnt_nat unat_of_nat by (rule mod_less)
  then show ?thesis using total by simp
qed

theorem page_accounting_witness:
  "\<exists>s. buddy_inv s \<and> unat (page_cnt s) + (\<Sum>i\<in>dom (in_use s). 2 ^ the (in_use s i)) = 4"
proof (rule small_buddy)
  fix s assume s: "buddy_inv s" "ba_pageCnt s = 4"
  then show ?thesis using page_accounting [OF s(1)] by auto
qed

section \<open>Shared pages, stale flags, addresses\<close>

text \<open>
  Shared pages. \<^verbatim>\<open>__free_page\<close> of a page that has several references (a page shared copy on
  write) drops one of them but returns with the page's write lock held, so that the next release of
  the same page never returns.
\<close>

theorem shared_page_free_keeps_lock:
  assumes "1 < pg_ref_cnt (ba_pages s pg)" "page_head (ba_pages s pg)"
    "rw_writelock (pg_rwlock (ba_pages s pg)) \<noteq> 1"
  shows "\<exists>s'. free_page_core pg s = Some s' \<and> pg_ref_cnt (ba_pages s' pg) = pg_ref_cnt (ba_pages s pg) - 1 \<and>
    free_page_core pg s' = None"
proof -
  let ?r = "pg_ref_cnt (ba_pages s pg)"
  let ?s = "upd_page pg (\<lambda>p. p\<lparr>pg_rwlock := (pg_rwlock p)\<lparr>rw_writelock := 1\<rparr>, pg_ref_cnt := pg_ref_cnt p - 1\<rparr>) s"
  have r: "unat (?r - 1) = unat ?r - 1" "1 < unat ?r"
    using assms(1) unat_sub_no_wrap [of 1 ?r] by (simp_all add: word_less_nat_alt)
  then have "0 < ?r - 1" "0 < ?r" by (simp_all add: word_less_nat_alt)
  then have "free_page_core pg s = Some ?s" and "free_page_core pg ?s = None"
    using assms(2,3) by (simp_all add: free_page_core_def wlock_lock_eq page_head_def Let_def)
  then show ?thesis by (intro exI [of _ ?s]) simp
qed

theorem shared_page_free_keeps_lock_witness:
  "\<exists>s s'. pg_ref_cnt (ba_pages s 0) = 2 \<and> free_page_core 0 s = Some s' \<and> free_page_core 0 s' = None"
proof -
  fix s0 :: buddyAllocator
  define s where "s = s0\<lparr>ba_pages := \<lambda>_. \<lparr>pg_size = 4096, pg_flag = 1, pg_ref_cnt = 2, pg_data = 0, pg_rwlock = rwlock_init\<rparr>\<rparr>"
  have "\<exists>s'. free_page_core 0 s = Some s' \<and> pg_ref_cnt (ba_pages s' 0) = pg_ref_cnt (ba_pages s 0) - 1 \<and>
    free_page_core 0 s' = None"
    by (rule shared_page_free_keeps_lock) (simp_all add: s_def page_head_def PG_Head_def)
  moreover have "pg_ref_cnt (ba_pages s 0) = 2" by (simp add: s_def)
  ultimately show ?thesis by blast
qed

lemma free_loop_flags:
  "free_loop pg d s = Some (pg', s') \<Longrightarrow> k \<noteq> 0 \<Longrightarrow> bit (pg_flag (ba_pages s' i)) k = bit (pg_flag (ba_pages s i)) k"
proof (induction pg d s rule: free_loop.induct)
  case (1 pg d s)
  have clear: "bit (CLEAR_BIT w PG_HEAD_BIT) k = bit w k" for w :: u16
    using \<open>k \<noteq> 0\<close> by (auto simp: CLEAR_BIT_def PG_HEAD_BIT_def bit_simps dest: bit_imp_le_length)
  show ?case
    using 1(1) 1(2) [unfolded free_loop.simps [of pg d s]] \<open>k \<noteq> 0\<close>
    by (auto simp: Let_def clear split: if_splits option.splits)
qed

text \<open>
  Stale flags. The flags of a page outlive its release: a page that carried the slab flag still
  carries it after \<^verbatim>\<open>__free_page\<close>, and \<^verbatim>\<open>__alloc_page\<close> hands the flags of a page out unchanged. (The
  comment in \<^verbatim>\<open>__free_page\<close> says that other flags are cleared.)
\<close>

theorem free_keeps_slab_flag:
  assumes "free_page_core pg s = Some s'" "is_slab (ba_pages s i)"
  shows "is_slab (ba_pages s' i)"
proof -
  have slab: "is_slab p \<longleftrightarrow> bit (pg_flag p) 5" for p
    using and_exp_eq_0_iff_not_bit [of "pg_flag p" 5] by (simp add: is_slab_def PG_SLAB_def)
  show ?thesis
    using assms unfolding slab
    by (auto simp: free_page_core_def Let_def returned bit_or_iff split: if_splits
        dest!: free_loop_flags [where k = 5 and i = i])
qed

theorem free_keeps_slab_flag_witness:
  "\<exists>s s'. free_page_core 0 s = Some s' \<and> is_slab (ba_pages s 0) \<and> is_slab (ba_pages s' 0)"
proof -
  fix s0 :: buddyAllocator
  define s where "s = s0\<lparr>ba_pages := \<lambda>_. \<lparr>pg_size = 4096, pg_flag = 33, pg_ref_cnt = 2, pg_data = 0, pg_rwlock = rwlock_init\<rparr>\<rparr>"
  have "is_slab (ba_pages s 0)" by (simp add: s_def is_slab_def PG_SLAB_def)
  moreover have "\<exists>s'. free_page_core 0 s = Some s'"
    by (simp add: s_def free_page_core_def wlock_lock_eq PG_Head_def Let_def)
  ultimately show ?thesis using free_keeps_slab_flag [of 0 s] by blast
qed

text \<open>
  Addresses. With a page-aligned start address and no wrap-around, \<^verbatim>\<open>get_page\<close> finds the page
  whose address \<^verbatim>\<open>page_addr\<close> computes, and whenever \<^verbatim>\<open>get_page\<close> finds a page, \<^verbatim>\<open>page_addr\<close> gives
  the address back.
\<close>

theorem page_addr_roundtrip:
  assumes "4096 dvd unat (ba_addr s)" "unat (ba_addr s) + 4096 * ba_npages s \<le> 2 ^ 32"
  shows "(i < ba_npages s \<longrightarrow> get_page (page_addr i s) s = Some (Some i)) \<and>
    (get_page a s = Some (Some i) \<longrightarrow> page_addr i s = a)"
  using get_page_page_addr [OF assms] page_addr_get_page [OF assms] by blast

theorem page_addr_roundtrip_witness:
  "\<exists>s. ba_addr s = 0x100000 \<and> ba_npages s = 4 \<and> get_page (page_addr 3 s) s = Some (Some 3)"
proof -
  fix s0 :: buddyAllocator
  let ?s = "s0\<lparr>ba_addr := 0x100000, ba_npages := 4\<rparr>"
  show ?thesis using page_addr_roundtrip [of ?s 3] by (intro exI [of _ ?s]) simp
qed

end
