(* ===== verification/Kvm.thy ===== *)
theory Kvm
  imports Buddy_Inv
begin

text \<open>
  The kernel's virtual memory, \<^verbatim>\<open>mm/vm.c\<close>: the page tables of the upper gigabyte as one flat array
  of 256 * 1024 entries, the loops that fill and clear it, and the translation in both directions.

  The loops compare and add 32-bit addresses, which may wrap around; they are partial functions on
  words. A page table index outside the array is an undefined access of the C code (\<open>None\<close>).
  Flushing the TLB and loading \<^verbatim>\<open>cr3\<close> have no effect on the modelled memory. \<open>kmem\<close> is the kernel
  memory shared by the components above: the page allocator, the kernel page tables, and the
  contents of memory as 32-bit words by address.
\<close>

section \<open>Definitions\<close>

definition KERNEL_START :: u32 where "KERNEL_START = 0xc0000000"
definition DEV_SPACE :: u32 where "DEV_SPACE = 0xFE000000"
definition DEVSP_SIZE :: u32 where "DEVSP_SIZE = 0x2000000"
definition PHYS_TOP :: u32 where "PHYS_TOP = 1 * 1024 * 1024 * 1024 - DEVSP_SIZE"

definition VM_PRES :: u32 where "VM_PRES = 1"
definition VM_NPRES :: u32 where "VM_NPRES = 0"
definition VM_KR :: u32 where "VM_KR = 0"
definition VM_KRW :: u32 where "VM_KRW = 2"
definition VM_UR :: u32 where "VM_UR = 4"
definition VM_URW :: u32 where "VM_URW = 6"
definition VM_RW_BIT :: nat where "VM_RW_BIT = 1"
definition VM_IGNORE_BIT1 :: u32 where "VM_IGNORE_BIT1 = 0x200"

definition N_PTE :: nat where "N_PTE = 1024"
definition N_PDE :: nat where "N_PDE = 1024"

type_synonym pgtab = "nat \<Rightarrow> u32"

definition getPageTableEntry :: "ptr_t \<Rightarrow> nat option" where
  "getPageTableEntry va = do {
     assertk (va \<ge> KERNEL_START);
     Some (unat (drop_bit 12 (va - KERNEL_START)))
   }"

subsection \<open>Filling and clearing page tables\<close>

partial_function (option) kvm_page_init_loop ::
  "pgtab \<Rightarrow> nat \<Rightarrow> ptr_t \<Rightarrow> ptr_t \<Rightarrow> u32 \<Rightarrow> pgtab option" where
  "kvm_page_init_loop pt i pa stop flags =
     (if pa < stop then do {
        assertk (i < N_PTE div 4 * N_PTE);
        assertk (pt i AND VM_PRES = 0);
        kvm_page_init_loop (pt(i := pa OR VM_PRES OR flags)) (i + 1) (pa + PAGE_SIZE) stop flags
      } else Some pt)"

definition kvm_page_init :: "ptr_t \<Rightarrow> u32 \<Rightarrow> u32 \<Rightarrow> pgtab \<Rightarrow> pgtab option" where
  "kvm_page_init va sz flags pt = do {
     assertk (va AND PAGE_MASK = 0);
     let pa = va - KERNEL_START;
     let stop = pa + sz;
     i \<leftarrow> getPageTableEntry va;
     kvm_page_init_loop pt i pa stop flags
   }"

partial_function (option) kvm_maps4_loop ::
  "pgtab \<Rightarrow> nat \<Rightarrow> u32 \<Rightarrow> u32 \<Rightarrow> u32 \<Rightarrow> pgtab option" where
  "kvm_maps4_loop pt i vpa stop flags =
     (if vpa < stop then do {
        assertk (i < N_PTE div 4 * N_PTE);
        assertk (pt i AND VM_PRES = 0);
        kvm_maps4_loop (pt(i := push_bit 12 vpa OR VM_PRES OR flags)) (i + 1) (vpa + 1) stop flags
      } else Some pt)"

definition kvm_maps4 :: "ptr_t \<Rightarrow> ptr_t \<Rightarrow> u32 \<Rightarrow> u32 \<Rightarrow> pgtab \<Rightarrow> pgtab option" where
  "kvm_maps4 va pa sz flags pt = do {
     assertk (va AND PAGE_MASK = 0);
     let vpa = drop_bit 12 pa;
     let stop = vpa + DIV_CEIL sz PAGE_SIZE;
     i \<leftarrow> getPageTableEntry va;
     kvm_maps4_loop pt i vpa stop flags
   }"

partial_function (option) kvm_maps_loop ::
  "pgtab \<Rightarrow> nat \<Rightarrow> ptr_t \<Rightarrow> ptr_t \<Rightarrow> ptr_t \<Rightarrow> u32 \<Rightarrow> pgtab option" where
  "kvm_maps_loop pt i va pa stop flags =
     (if va < stop then do {
        assertk (i < N_PTE div 4 * N_PTE);
        assertk (pt i AND VM_PRES = 0);
        kvm_maps_loop (pt(i := pa OR flags)) (i + 1) (va + PAGE_SIZE) (pa + PAGE_SIZE) stop flags
      } else Some pt)"

definition kvm_maps :: "ptr_t \<Rightarrow> ptr_t \<Rightarrow> u32 \<Rightarrow> u32 \<Rightarrow> pgtab \<Rightarrow> pgtab option" where
  "kvm_maps va pa sz flags pt = do {
     assertk (va AND PAGE_MASK = 0);
     let stop = va + sz;
     i \<leftarrow> getPageTableEntry va;
     kvm_maps_loop pt i va pa stop flags
   }"

partial_function (option) kvm_unmap_loop :: "pgtab \<Rightarrow> nat \<Rightarrow> ptr_t \<Rightarrow> ptr_t \<Rightarrow> pgtab option" where
  "kvm_unmap_loop pt i va stop =
     (if va < stop then do {
        assertk (i < N_PTE div 4 * N_PTE);
        kvm_unmap_loop (pt(i := VM_NPRES)) (i + 1) (va + PAGE_SIZE) stop
      } else Some pt)"

definition kvm_unmap3 :: "ptr_t \<Rightarrow> u32 \<Rightarrow> pgtab \<Rightarrow> pgtab option" where
  "kvm_unmap3 va sz pt = do {
     assertk (va > KERNEL_START);
     assertk (sz AND PAGE_MASK = 0);
     let stop = va + sz;
     i \<leftarrow> getPageTableEntry va;
     kvm_unmap_loop pt i va stop
   }"

text \<open>
  \<^verbatim>\<open>kvm_init\<close>: the linker symbols, the physical address of the tables and \<^verbatim>\<open>g_mem_start\<close> are
  arguments; the results are the page directory, the page tables and the value of \<^verbatim>\<open>cr3\<close>.
\<close>

definition kvm_init ::
  "ptr_t \<Rightarrow> ptr_t \<Rightarrow> ptr_t \<Rightarrow> ptr_t \<Rightarrow> ptr_t \<Rightarrow> ptr_t \<Rightarrow> pgtab \<Rightarrow> pgtab \<Rightarrow>
   (pgtab \<times> pgtab \<times> u32) option" where
  "kvm_init startKernel dataStart endKernel g_mem_start tables dir pageDir pt = do {
     assertk (g_mem_start > endKernel - KERNEL_START);
     let pageDir = (\<lambda>i. if 768 \<le> i \<and> i < 768 + N_PTE div 4
        then (tables + of_nat (i - 768) * PAGE_SIZE - KERNEL_START) OR VM_KRW OR VM_PRES else pageDir i);
     let cr3 = 0 OR (dir - KERNEL_START);
     pt \<leftarrow> kvm_page_init KERNEL_START (startKernel - KERNEL_START) VM_KRW pt;
     pt \<leftarrow> kvm_page_init startKernel (dataStart - startKernel) VM_KR pt;
     pt \<leftarrow> kvm_page_init dataStart (g_mem_start - (dataStart - KERNEL_START)) VM_KRW pt;
     pt \<leftarrow> kvm_maps4 DEV_SPACE DEV_SPACE DEVSP_SIZE (VM_PRES OR VM_KRW) pt;
     Some (pageDir, pt, cr3)
   }"

definition kvm_copy :: "pgtab \<Rightarrow> pgtab \<Rightarrow> pgtab" where
  "kvm_copy pageDir pgdir = (\<lambda>i.
     if N_PDE div 4 * 3 \<le> i \<and> i < N_PDE div 4 * 3 + N_PDE div 4 \<and> pageDir i AND VM_PRES \<noteq> 0
     then pageDir i else pgdir i)"

subsection \<open>Kernel memory\<close>

record kmem =
  km_pmm :: buddyAllocator
  km_pt :: pgtab
  km_word :: "ptr_t \<Rightarrow> u32"

definition v2p :: "ptr_t \<Rightarrow> kmem \<Rightarrow> ptr_t option" where
  "v2p va k = do {
     i \<leftarrow> getPageTableEntry va;
     Some (PAGE_CEIL (km_pt k i))
   }"

definition p2v :: "ptr_t \<Rightarrow> kmem \<Rightarrow> ptr_t option" where
  "p2v pa k = do {
     r \<leftarrow> get_page pa (km_pmm k);
     pg \<leftarrow> r;
     Some (pg_data (ba_pages (km_pmm k) pg))
   }"

definition kvm_vm2page :: "ptr_t \<Rightarrow> kmem \<Rightarrow> nat option option" where
  "kvm_vm2page va k = do {
     i \<leftarrow> getPageTableEntry va;
     get_page (PAGE_CEIL (km_pt k i)) (km_pmm k)
   }"

definition va_get_page :: "ptr_t \<Rightarrow> kmem \<Rightarrow> nat option option" where
  "va_get_page addr k = do {
     addr \<leftarrow> v2p addr k;
     assertk (addr \<noteq> 0);
     r \<leftarrow> get_page addr (km_pmm k);
     Some (case r of
         None \<Rightarrow> None
       | Some pg \<Rightarrow> if page_head (ba_pages (km_pmm k) pg) then Some pg else None)
   }"

definition kvm_map :: "nat \<Rightarrow> u32 \<Rightarrow> kmem \<Rightarrow> kmem option" where
  "kvm_map pg flags k = do {
     let pa = page_addr pg (km_pmm k);
     let va = pa + KERNEL_START;
     assertk (pa < PHYS_TOP);
     let k = k\<lparr>km_pmm := upd_page pg (\<lambda>p. p\<lparr>pg_data := va\<rparr>) (km_pmm k)\<rparr>;
     let sz = pg_size (ba_pages (km_pmm k) pg);
     pt \<leftarrow> kvm_maps va pa sz flags (km_pt k);
     Some (k\<lparr>km_pt := pt\<rparr>)
   }"

definition kvm_unmap :: "nat \<Rightarrow> kmem \<Rightarrow> kmem option" where
  "kvm_unmap pg k = do {
     let va = pg_data (ba_pages (km_pmm k) pg);
     let sz = pg_size (ba_pages (km_pmm k) pg);
     pt \<leftarrow> kvm_unmap3 va sz (km_pt k);
     Some (k\<lparr>km_pt := pt\<rparr>)
   }"

definition kvm_unmap2 :: "ptr_t \<Rightarrow> kmem \<Rightarrow> kmem option" where
  "kvm_unmap2 addr k = do {
     r \<leftarrow> kvm_vm2page addr k;
     pg \<leftarrow> r;
     kvm_unmap pg k
   }"

section \<open>Loops over page tables\<close>

definition map_range :: "nat \<Rightarrow> nat \<Rightarrow> (nat \<Rightarrow> u32) \<Rightarrow> pgtab \<Rightarrow> pgtab" where
  "map_range i c g pt = (\<lambda>j. if i \<le> j \<and> j < i + c then g (j - i) else pt j)"

lemma map_range_0 [simp]: "map_range i 0 g pt = pt"
  by (rule ext) (auto simp: map_range_def)

lemma map_range_Suc: "map_range (Suc i) c (\<lambda>n. g (Suc n)) (pt(i := g 0)) = map_range i (Suc c) g pt"
  by (rule ext) (auto simp: map_range_def Suc_diff_Suc)

text \<open>No entry of the range is in use.\<close>

definition range_free :: "nat \<Rightarrow> nat \<Rightarrow> pgtab \<Rightarrow> bool" where
  "range_free i c pt \<longleftrightarrow> i + c \<le> N_PTE div 4 * N_PTE \<and> (\<forall>j. i \<le> j \<longrightarrow> j < i + c \<longrightarrow> pt j AND VM_PRES = 0)"

lemma range_free_Suc:
  "range_free i (Suc c) pt \<Longrightarrow> i < N_PTE div 4 * N_PTE \<and> pt i AND VM_PRES = 0 \<and> range_free (Suc i) c (pt(i := x))"
  by (auto simp: range_free_def)

lemma unat_add_page: "unat va + 4096 * Suc c < 2 ^ 32 \<Longrightarrow> unat (va + PAGE_SIZE) = unat va + 4096" for va :: u32
  by (subst unat_add_no_wrap) simp_all

lemma kvm_maps_loop_range:
  "unat stop = unat va + 4096 * c \<Longrightarrow> range_free i c pt \<Longrightarrow>
   kvm_maps_loop pt i va pa stop flags = Some (map_range i c (\<lambda>n. (pa + 4096 * of_nat n) OR flags) pt)"
proof (induction c arbitrary: pt i va pa)
  case 0
  then have "va = stop" by (simp add: word_unat_eq_iff)
  then show ?case by (subst kvm_maps_loop.simps) simp
next
  case (Suc c)
  note f = range_free_Suc [OF Suc.prems(2)]
  have nw: "unat va + 4096 * Suc c < 2 ^ 32" using Suc.prems(1) unat_u32_lt [of stop] by simp
  have lt: "va < stop" using Suc.prems(1) by (simp add: word_less_nat_alt)
  have st: "unat stop = unat (va + PAGE_SIZE) + 4096 * c" using Suc.prems(1) unat_add_page [OF nw] by simp
  have ih: "kvm_maps_loop (pt(i := pa OR flags)) (Suc i) (va + PAGE_SIZE) (pa + PAGE_SIZE) stop flags =
    Some (map_range (Suc i) c (\<lambda>n. (pa + PAGE_SIZE + 4096 * of_nat n) OR flags) (pt(i := pa OR flags)))"
    by (rule Suc.IH [OF st]) (use f in blast)
  have "(\<lambda>n. (pa + PAGE_SIZE + 4096 * of_nat n) OR flags) = (\<lambda>n. (pa + 4096 * of_nat (Suc n)) OR flags)"
    by (rule ext) (simp add: PAGE_SIZE_def algebra_simps)
  then show ?case
    using f ih lt map_range_Suc [of i c "\<lambda>n. (pa + 4096 * of_nat n) OR flags" pt]
    by (subst kvm_maps_loop.simps) simp
qed

lemma kvm_unmap_loop_range:
  "unat stop = unat va + 4096 * c \<Longrightarrow> i + c \<le> N_PTE div 4 * N_PTE \<Longrightarrow>
   kvm_unmap_loop pt i va stop = Some (map_range i c (\<lambda>_. VM_NPRES) pt)"
proof (induction c arbitrary: pt i va)
  case 0
  then have "va = stop" by (simp add: word_unat_eq_iff)
  then show ?case by (subst kvm_unmap_loop.simps) simp
next
  case (Suc c)
  have nw: "unat va + 4096 * Suc c < 2 ^ 32" using Suc.prems(1) unat_u32_lt [of stop] by simp
  have lt: "va < stop" using Suc.prems(1) by (simp add: word_less_nat_alt)
  have st: "unat stop = unat (va + PAGE_SIZE) + 4096 * c" using Suc.prems(1) unat_add_page [OF nw] by simp
  have ih: "kvm_unmap_loop (pt(i := VM_NPRES)) (Suc i) (va + PAGE_SIZE) stop =
    Some (map_range (Suc i) c (\<lambda>_. VM_NPRES) (pt(i := VM_NPRES)))"
    using st Suc.prems(2) by (intro Suc.IH) simp_all
  show ?case
    using ih lt Suc.prems(2) map_range_Suc [of i c "\<lambda>_. VM_NPRES" pt] by (subst kvm_unmap_loop.simps) simp
qed

lemma kvm_maps4_loop_range:
  "unat stop = unat vpa + c \<Longrightarrow> range_free i c pt \<Longrightarrow>
   kvm_maps4_loop pt i vpa stop flags =
     Some (map_range i c (\<lambda>n. push_bit 12 (vpa + of_nat n) OR VM_PRES OR flags) pt)"
proof (induction c arbitrary: pt i vpa)
  case 0
  then have "vpa = stop" by (simp add: word_unat_eq_iff)
  then show ?case by (subst kvm_maps4_loop.simps) simp
next
  case (Suc c)
  note f = range_free_Suc [OF Suc.prems(2)]
  have "unat vpa + 1 < 2 ^ 32" using Suc.prems(1) unat_u32_lt [of stop] by simp
  then have "unat (vpa + 1) = unat vpa + 1" by (subst unat_add_no_wrap) simp_all
  then have st: "unat stop = unat (vpa + 1) + c" using Suc.prems(1) by simp
  let ?pt = "pt(i := push_bit 12 vpa OR VM_PRES OR flags)"
  have ih: "kvm_maps4_loop ?pt (Suc i) (vpa + 1) stop flags =
    Some (map_range (Suc i) c (\<lambda>n. push_bit 12 (vpa + 1 + of_nat n) OR VM_PRES OR flags) ?pt)"
    by (rule Suc.IH [OF st]) (use f in blast)
  have lt: "vpa < stop" using Suc.prems(1) by (simp add: word_less_nat_alt)
  have "(\<lambda>n. push_bit 12 (vpa + 1 + of_nat n) OR VM_PRES OR flags) =
      (\<lambda>n. push_bit 12 (vpa + of_nat (Suc n)) OR VM_PRES OR flags)"
    by (rule ext) (simp add: algebra_simps)
  then show ?case
    using f ih lt map_range_Suc [of i c "\<lambda>n. push_bit 12 (vpa + of_nat n) OR VM_PRES OR flags" pt]
    by (subst kvm_maps4_loop.simps) simp
qed

section \<open>Mapping and translating\<close>

definition pt_index :: "ptr_t \<Rightarrow> nat" where
  "pt_index va = (unat va - unat KERNEL_START) div 4096"

lemma getPageTableEntry_eq:
  "getPageTableEntry va = (if KERNEL_START \<le> va then Some (pt_index va) else None)"
proof (cases "KERNEL_START \<le> va")
  case True
  then have "unat (va - KERNEL_START) = unat va - unat KERNEL_START"
    by (intro unat_sub_no_wrap) (simp add: word_le_nat_alt)
  then have "unat (drop_bit 12 (va - KERNEL_START)) = pt_index va"
    by (simp only: unat_drop_bit_eq) (simp only: drop_bit_eq_div pt_index_def, simp)
  then show ?thesis using True by (simp add: getPageTableEntry_def)
qed (simp add: getPageTableEntry_def)

lemma pt_index_bound: "unat va + 4096 * c \<le> 2 ^ 32 \<Longrightarrow> KERNEL_START \<le> va \<Longrightarrow> 4096 dvd unat va \<Longrightarrow>
    pt_index va + c \<le> N_PTE div 4 * N_PTE"
  by (auto simp: pt_index_def KERNEL_START_def N_PTE_def word_le_nat_alt elim!: dvdE)

lemma kvm_maps_range:
  assumes va: "4096 dvd unat va" "KERNEL_START \<le> va" and sz: "unat sz = 4096 * c" "unat va + unat sz < 2 ^ 32"
    and free: "range_free (pt_index va) c pt"
  shows "kvm_maps va pa sz flags pt =
    Some (map_range (pt_index va) c (\<lambda>n. (pa + 4096 * of_nat n) OR flags) pt)"
proof -
  have "unat (va + sz) = unat va + 4096 * c" using sz by (subst unat_add_no_wrap) simp_all
  then show ?thesis
    using kvm_maps_loop_range [OF _ free] va
    by (simp add: kvm_maps_def getPageTableEntry_eq page_aligned_iff)
qed

lemma kvm_unmap3_range:
  assumes va: "4096 dvd unat va" "KERNEL_START < va" and sz: "unat sz = 4096 * c" "unat va + unat sz < 2 ^ 32"
  shows "kvm_unmap3 va sz pt = Some (map_range (pt_index va) c (\<lambda>_. VM_NPRES) pt)"
proof -
  have "unat (va + sz) = unat va + 4096 * c" using sz by (subst unat_add_no_wrap) simp_all
  moreover have "pt_index va + c \<le> N_PTE div 4 * N_PTE" using va sz by (intro pt_index_bound) simp_all
  ultimately show ?thesis
    using kvm_unmap_loop_range va sz(1)
    by (simp add: kvm_unmap3_def getPageTableEntry_eq page_aligned_iff)
qed

lemma PAGE_CEIL_or_flags:
  assumes "4096 dvd unat pa" "unat flags < 4096"
  shows "PAGE_CEIL (pa OR flags) = pa"
proof -
  have low: "\<not> bit pa n" if "n < 12" for n
  proof -
    have "pa AND mask 12 = 0" using assms(1) unat_and_mask [of pa 12] by (simp add: word_unat_eq_iff dvd_eq_mod_eq_0)
    then have "bit (pa AND mask 12) n = False" by simp
    then show ?thesis using that by (simp add: bit_simps)
  qed
  have high: "\<not> bit flags n" if "12 \<le> n" for n using bit_above [of flags 12 n] assms(2) that by simp
  have "bit pa n \<Longrightarrow> 12 \<le> n" "bit flags n \<Longrightarrow> n < 12" for n using low high by (meson not_le)+
  then show ?thesis by (intro bit_word_eqI) (auto simp: PAGE_CEIL_eq bit_simps dest: leD)
qed

lemma map_range_undo: "(\<And>j. i \<le> j \<Longrightarrow> j < i + c \<Longrightarrow> pt j = 0) \<Longrightarrow> map_range i c (\<lambda>_. VM_NPRES) (map_range i c g pt) = pt"
  by (rule ext) (auto simp: map_range_def VM_NPRES_def)

lemma page_number:
  fixes a va :: u32
  assumes "4096 dvd unat va" "KERNEL_START \<le> va" "unat va \<le> unat a"
  shows "pt_index a - pt_index va = (unat a - unat va) div 4096" "pt_index va \<le> pt_index a"
proof -
  have k: "unat KERNEL_START = 4096 * 786432" by (simp add: KERNEL_START_def)
  obtain q where q: "unat va = 4096 * q" using assms(1) by (elim dvdE)
  have q0: "786432 \<le> q" using assms(2) q k by (simp add: word_le_nat_alt)
  have "pt_index va = q - 786432"
    unfolding pt_index_def q k by (simp only: diff_mult_distrib2 [symmetric])
  moreover have "unat a - unat KERNEL_START = (unat a - unat va) + 4096 * (q - 786432)"
    using q k assms(3) q0 by simp
  then have "pt_index a = q - 786432 + (unat a - unat va) div 4096"
    unfolding pt_index_def by (simp only: div_mult_self2)
  ultimately show "pt_index a - pt_index va = (unat a - unat va) div 4096" "pt_index va \<le> pt_index a"
    by simp_all
qed

lemma kvm_maps_translates:
  assumes va: "4096 dvd unat va" "KERNEL_START < va" and sz: "unat sz = 4096 * c" "unat va + unat sz < 2 ^ 32"
    and pa: "4096 dvd unat pa" "unat pa + unat sz \<le> 2 ^ 32" and flags: "unat flags < 4096"
    and free: "\<forall>j. pt_index va \<le> j \<longrightarrow> j < pt_index va + c \<longrightarrow> km_pt k j = 0"
  shows "\<exists>pt. kvm_maps va pa sz flags (km_pt k) = Some pt \<and>
    (\<forall>a. KERNEL_START \<le> a \<longrightarrow> v2p a (k\<lparr>km_pt := pt\<rparr>) =
       (if va \<le> a \<and> a < va + sz then Some (pa + (PAGE_CEIL a - va)) else v2p a k)) \<and>
    kvm_unmap3 va sz pt = Some (km_pt k)"
proof -
  let ?i = "pt_index va" and ?g = "\<lambda>n. (pa + 4096 * of_nat n) OR flags"
  let ?pt = "map_range ?i c ?g (km_pt k)"
  have va': "KERNEL_START \<le> va" using va(2) by simp
  have bound: "?i + c \<le> N_PTE div 4 * N_PTE" using va va' sz by (intro pt_index_bound) simp_all
  then have "range_free ?i c (km_pt k)" using free by (simp add: range_free_def)
  then have call: "kvm_maps va pa sz flags (km_pt k) = Some ?pt" using va(1) va' sz by (intro kvm_maps_range)
  have undo: "kvm_unmap3 va sz ?pt = Some (km_pt k)"
    using kvm_unmap3_range [OF va sz] map_range_undo [of ?i c "km_pt k" ?g] free by simp
  have end': "unat (va + sz) = unat va + 4096 * c" using sz by (subst unat_add_no_wrap) simp_all
  have tr: "v2p a (k\<lparr>km_pt := ?pt\<rparr>) =
       (if va \<le> a \<and> a < va + sz then Some (pa + (PAGE_CEIL a - va)) else v2p a k)" if a: "KERNEL_START \<le> a" for a
  proof (cases "va \<le> a")
    case True
    then have le: "unat va \<le> unat a" by (simp add: word_le_nat_alt)
    note pn = page_number [OF va(1) va' le]
    define n where "n = (unat a - unat va) div 4096"
    have idx: "pt_index a = ?i + n" using pn by (simp add: n_def)
    have inr: "a < va + sz \<longleftrightarrow> n < c"
      using end' le by (simp add: word_less_nat_alt n_def less_mult_imp_div_less div_less_iff_less_mult) linarith
    obtain q where q: "unat va = 4096 * q" using va(1) by (elim dvdE)
    have "unat (PAGE_CEIL a) = unat va + 4096 * n"
    proof -
      have "unat a = 4096 * q + (unat a - unat va)" using q le by simp
      then have "unat a div 4096 = q + n" unfolding n_def by (metis div_mult_self4 zero_neq_numeral)
      then show ?thesis by (simp add: unat_PAGE_CEIL q)
    qed
    then have e: "unat (PAGE_CEIL a - va) = 4096 * n" by (subst unat_sub_no_wrap) simp_all
    have "PAGE_CEIL a - va = of_nat (4096 * n)" unfolding e [symmetric] by simp
    moreover have "PAGE_CEIL (?g n) = pa + 4096 * of_nat n" if "n < c"
    proof (rule PAGE_CEIL_or_flags [OF _ flags])
      have "4096 * n < 2 ^ 32" "unat pa + 4096 * n < 2 ^ 32" using that pa(2) sz(1) by linarith+
      then have "unat (pa + 4096 * of_nat n) = unat pa + 4096 * n"
        by (simp add: unat_word_ariths unat_of_nat)
      then show "4096 dvd unat (pa + 4096 * of_nat n)" using pa(1) by simp
    qed
    ultimately show ?thesis
      using True a idx inr by (auto simp: v2p_def getPageTableEntry_eq map_range_def)
  next
    case False
    have "pt_index a < ?i"
    proof -
      obtain q where q: "unat va = 4096 * q" using va(1) by (elim dvdE)
      have "unat a < 4096 * q" "unat KERNEL_START = 4096 * 786432" "unat KERNEL_START \<le> unat a"
        using False q a by (simp_all add: word_le_nat_alt KERNEL_START_def)
      then show ?thesis unfolding pt_index_def q by (simp add: less_mult_imp_div_less)
    qed
    then show ?thesis using False a by (simp add: v2p_def getPageTableEntry_eq map_range_def)
  qed
  show ?thesis using call tr undo by blast
qed

text \<open>
  C27. Kernel mappings. \<^verbatim>\<open>kvm_maps\<close> of a page-aligned kernel range below the last page, whose entries
  are not in use, succeeds; afterwards \<^verbatim>\<open>v2p\<close> takes every address of the range to the frame at the
  same distance from \<open>pa\<close> and translates every other kernel address as before; and \<^verbatim>\<open>kvm_unmap3\<close>
  of the range gives a table that was zero there back unchanged.
\<close>

theorem kvm_maps_translate:
  assumes va: "4096 dvd unat va" "KERNEL_START < va" and sz: "unat sz = 4096 * c" "unat va + unat sz < 2 ^ 32"
    and pa: "4096 dvd unat pa" "unat pa + unat sz \<le> 2 ^ 32" and flags: "unat flags < 4096"
    and free: "\<forall>j. pt_index va \<le> j \<longrightarrow> j < pt_index va + c \<longrightarrow> km_pt k j = 0"
  shows "\<exists>pt. kvm_maps va pa sz flags (km_pt k) = Some pt \<and>
    (\<forall>a. KERNEL_START \<le> a \<longrightarrow> v2p a (k\<lparr>km_pt := pt\<rparr>) =
       (if va \<le> a \<and> a < va + sz then Some (pa + (PAGE_CEIL a - va)) else v2p a k)) \<and>
    kvm_unmap3 va sz pt = Some (km_pt k)"
  using assms by (rule kvm_maps_translates)

theorem kvm_maps_translate_witness:
  "\<exists>k pt. kvm_maps 0xc0400000 0x400000 0x2000 3 (km_pt k) = Some pt \<and>
     v2p 0xc0401234 (k\<lparr>km_pt := pt\<rparr>) = Some 0x401000 \<and> kvm_unmap3 0xc0400000 0x2000 pt = Some (km_pt k)"
proof -
  fix k0 :: kmem
  let ?k = "k0\<lparr>km_pt := \<lambda>_. 0\<rparr>"
  obtain pt where "kvm_maps 0xc0400000 0x400000 0x2000 3 (km_pt ?k) = Some pt"
    and tr: "\<forall>a. KERNEL_START \<le> a \<longrightarrow> v2p a (?k\<lparr>km_pt := pt\<rparr>) =
       (if 0xc0400000 \<le> a \<and> a < 0xc0400000 + 0x2000 then Some (0x400000 + (PAGE_CEIL a - 0xc0400000)) else v2p a ?k)"
    and "kvm_unmap3 0xc0400000 0x2000 pt = Some (km_pt ?k)"
    using kvm_maps_translate [of "0xc0400000" "0x2000" 2 "0x400000" 3 ?k] by (auto simp: KERNEL_START_def)
  moreover have "v2p 0xc0401234 (?k\<lparr>km_pt := pt\<rparr>) = Some 0x401000"
    using tr [rule_format, of "0xc0401234"] by (simp add: KERNEL_START_def PAGE_CEIL_eq mask_eq_exp_minus_1)
  ultimately show ?thesis by (intro exI [of _ ?k] exI [of _ pt]) simp
qed

text \<open>
  The device window. The last 32 MB of the address space are mapped with \<^verbatim>\<open>kvm_maps4\<close>, which
  counts pages instead of addresses: on free entries it maps the whole window to itself, up to the
  last page. \<^verbatim>\<open>kvm_maps\<close> with the same arguments would map nothing, since the end of the window wraps
  to 0.
\<close>

theorem device_window_mapped:
  assumes "\<forall>j. 0x3E000 \<le> j \<longrightarrow> j < 0x40000 \<longrightarrow> pt j AND VM_PRES = 0"
  shows "\<exists>pt'. kvm_maps4 DEV_SPACE DEV_SPACE DEVSP_SIZE (VM_PRES OR VM_KRW) pt = Some pt' \<and>
    (\<forall>n<0x2000. pt' (0x3E000 + n) = push_bit 12 (0xFE000 + of_nat n) OR 3) \<and>
    (\<forall>j. j < 0x3E000 \<longrightarrow> pt' j = pt j) \<and>
    kvm_maps DEV_SPACE DEV_SPACE DEVSP_SIZE (VM_PRES OR VM_KRW) pt = Some pt"
proof -
  have i: "getPageTableEntry DEV_SPACE = Some 0x3E000"
    by (simp add: getPageTableEntry_def DEV_SPACE_def KERNEL_START_def)
  have free: "range_free 0x3E000 0x2000 pt" using assms by (simp add: range_free_def N_PTE_def)
  have e: "drop_bit 12 DEV_SPACE = 0xFE000" "DIV_CEIL DEVSP_SIZE PAGE_SIZE = 0x2000" "DEV_SPACE AND PAGE_MASK = 0"
    by (simp_all add: DEV_SPACE_def DEVSP_SIZE_def DIV_CEIL_def PAGE_SIZE_def PAGE_MASK_def)
  have "kvm_maps4 DEV_SPACE DEV_SPACE DEVSP_SIZE (VM_PRES OR VM_KRW) pt =
    Some (map_range 0x3E000 0x2000 (\<lambda>n. push_bit 12 (0xFE000 + of_nat n) OR VM_PRES OR (VM_PRES OR VM_KRW)) pt)"
    using i e kvm_maps4_loop_range [OF _ free, of "0x100000" "0xFE000" "VM_PRES OR VM_KRW"]
    by (simp add: kvm_maps4_def)
  moreover have "kvm_maps DEV_SPACE DEV_SPACE DEVSP_SIZE (VM_PRES OR VM_KRW) pt = Some pt"
    using i e by (simp add: kvm_maps_def) (subst kvm_maps_loop.simps, simp add: DEV_SPACE_def DEVSP_SIZE_def)
  ultimately show ?thesis by (simp add: map_range_def or.assoc VM_PRES_def VM_KRW_def)
qed

theorem device_window_mapped_witness:
  "\<exists>pt'. kvm_maps4 DEV_SPACE DEV_SPACE DEVSP_SIZE (VM_PRES OR VM_KRW) (\<lambda>_. 0) = Some pt' \<and>
     pt' 0x3FFFF = 0xFFFFF003"
proof -
  obtain pt' where "kvm_maps4 DEV_SPACE DEV_SPACE DEVSP_SIZE (VM_PRES OR VM_KRW) (\<lambda>_. 0) = Some pt'"
    "\<forall>n<0x2000. pt' (0x3E000 + n) = push_bit 12 (0xFE000 + of_nat n) OR 3"
    using device_window_mapped [of "\<lambda>_. 0"] by auto
  moreover from this have "pt' 0x3FFFF = 0xFFFFF003" by (elim allE [of _ "0x1FFF"]) simp
  ultimately show ?thesis by blast
qed

lemma addr_pages [simp]:
  "get_page a (s\<lparr>ba_pages := P\<rparr>) = get_page a s" "page_addr i (s\<lparr>ba_pages := P\<rparr>) = page_addr i s"
  unfolding get_page_def page_addr_def by simp_all

lemma kvm_map_maps:
  assumes cfg: "4096 dvd unat (ba_addr (km_pmm k))" "unat (ba_addr (km_pmm k)) + 4096 * ba_npages (km_pmm k) \<le> 2 ^ 32"
    and pg: "pg < ba_npages (km_pmm k)" "page_head (ba_pages (km_pmm k) pg)"
      "pg_size (ba_pages (km_pmm k) pg) = ORDER_SIZE d" "d \<le> MAX_ORDER"
    and pa: "0 < unat (page_addr pg (km_pmm k))" "unat (page_addr pg (km_pmm k)) + 4096 * 2 ^ d \<le> unat PHYS_TOP"
    and flags: "unat flags < 4096"
    and free: "\<forall>j. unat (page_addr pg (km_pmm k)) div 4096 \<le> j \<longrightarrow>
      j < unat (page_addr pg (km_pmm k)) div 4096 + 2 ^ d \<longrightarrow> km_pt k j = 0"
  shows "\<exists>k'. kvm_map pg flags k = Some k' \<and>
    km_pmm k' = upd_page pg (\<lambda>p. p\<lparr>pg_data := page_addr pg (km_pmm k) + KERNEL_START\<rparr>) (km_pmm k) \<and>
    km_word k' = km_word k \<and>
    va_get_page (page_addr pg (km_pmm k) + KERNEL_START) k' = Some (Some pg) \<and>
    (\<forall>a. page_addr pg (km_pmm k) + KERNEL_START \<le> a \<longrightarrow>
       a < page_addr pg (km_pmm k) + KERNEL_START + ORDER_SIZE d \<longrightarrow> v2p a k' = Some (PAGE_CEIL a - KERNEL_START)) \<and>
    kvm_unmap pg k' = Some (k'\<lparr>km_pt := km_pt k\<rparr>)"
proof -
  let ?pa = "page_addr pg (km_pmm k)" and ?c = "(2::nat) ^ d"
  let ?va = "?pa + KERNEL_START" and ?sz = "ORDER_SIZE d"
  let ?k = "k\<lparr>km_pmm := upd_page pg (\<lambda>p. p\<lparr>pg_data := ?va\<rparr>) (km_pmm k)\<rparr>"
  have sz: "unat ?sz = 4096 * ?c" using unat_ORDER_SIZE [OF pg(4)] .
  have top: "unat PHYS_TOP = 1040187392" "unat KERNEL_START = 3221225472"
    by (simp_all add: PHYS_TOP_def DEVSP_SIZE_def KERNEL_START_def)
  have pa4: "4096 dvd unat ?pa" using unat_page_addr [OF cfg(2) pg(1)] cfg(1) by simp
  have va: "unat ?va = unat ?pa + 3221225472"
    using pa(2) top by (subst unat_add_no_wrap) simp_all
  have idx: "pt_index ?va = unat ?pa div 4096" by (simp add: pt_index_def va top)
  have va4: "4096 dvd unat ?va" unfolding va using pa4 by (intro dvd_add) simp_all
  have gt: "KERNEL_START < ?va" using va pa(1) top by (simp add: word_less_nat_alt)
  have nw: "unat ?va + unat ?sz < 2 ^ 32" "unat ?pa + unat ?sz \<le> 2 ^ 32" using va sz pa(2) top by simp_all
  obtain pt where m: "kvm_maps ?va ?pa ?sz flags (km_pt ?k) = Some pt"
    "\<forall>a. KERNEL_START \<le> a \<longrightarrow> v2p a (?k\<lparr>km_pt := pt\<rparr>) =
       (if ?va \<le> a \<and> a < ?va + ?sz then Some (?pa + (PAGE_CEIL a - ?va)) else v2p a ?k)"
    "kvm_unmap3 ?va ?sz pt = Some (km_pt ?k)"
    using kvm_maps_translates [OF va4 gt sz nw(1) pa4 nw(2) flags, of ?k] free idx by auto
  let ?k' = "?k\<lparr>km_pt := pt\<rparr>"
  have lt: "?pa < PHYS_TOP" using pa(2) zero_less_power [of "2::nat" d] unfolding word_less_nat_alt by linarith
  have call: "kvm_map pg flags k = Some ?k'"
    using m(1) lt pg(3) by (simp add: kvm_map_def Let_def)
  have tr: "v2p a ?k' = Some (PAGE_CEIL a - KERNEL_START)" if "?va \<le> a" "a < ?va + ?sz" for a
    using m(2) that gt by (simp add: algebra_simps)
  have ceil: "PAGE_CEIL ?va = ?va" using va4 by (simp add: word_unat_eq_iff unat_PAGE_CEIL)
  have "?va < ?va + ?sz"
    using nw(1) sz zero_less_power [of "2::nat" d] by (simp add: word_less_nat_alt unat_add_no_wrap)
  then have "v2p ?va ?k' = Some ?pa" using tr [of ?va] ceil by simp
  moreover have "get_page ?pa (km_pmm ?k') = Some (Some pg)"
    using get_page_page_addr [OF cfg pg(1)] by simp
  moreover have "?pa \<noteq> 0" using pa(1) by auto
  ultimately have "va_get_page ?va ?k' = Some (Some pg)"
    using pg(2) by (simp add: va_get_page_def page_head_def)
  moreover have "kvm_unmap pg ?k' = Some (?k'\<lparr>km_pt := km_pt k\<rparr>)"
    using m(3) pg(3) by (simp add: kvm_unmap_def Let_def)
  ultimately show ?thesis using call tr by (intro exI [of _ ?k']) simp
qed

text \<open>The same for one page: exactly one entry of the page tables changes.\<close>

lemma kvm_map_page:
  assumes cfg: "4096 dvd unat (ba_addr (km_pmm k))" "0 < unat (ba_addr (km_pmm k))"
      "unat (ba_addr (km_pmm k)) + 4096 * ba_npages (km_pmm k) \<le> unat PHYS_TOP"
    and pg: "pg < ba_npages (km_pmm k)" "pg_size (ba_pages (km_pmm k) pg) = ORDER_SIZE 0"
    and free: "km_pt k (unat (page_addr pg (km_pmm k)) div 4096) AND VM_PRES = 0"
  shows "kvm_map pg flags k = Some (k\<lparr>
    km_pmm := upd_page pg (\<lambda>p. p\<lparr>pg_data := page_addr pg (km_pmm k) + KERNEL_START\<rparr>) (km_pmm k),
    km_pt := (km_pt k)(unat (page_addr pg (km_pmm k)) div 4096 := page_addr pg (km_pmm k) OR flags)\<rparr>)"
proof -
  let ?pa = "page_addr pg (km_pmm k)"
  let ?va = "?pa + KERNEL_START"
  have top: "unat PHYS_TOP = 1040187392" "unat KERNEL_START = 3221225472"
    by (simp_all add: PHYS_TOP_def DEVSP_SIZE_def KERNEL_START_def)
  have cfg32: "unat (ba_addr (km_pmm k)) + 4096 * ba_npages (km_pmm k) \<le> 2 ^ 32" using cfg(3) top by simp
  note pa = unat_page_addr [OF cfg32 pg(1)]
  have lim: "unat ?pa + 4096 \<le> unat PHYS_TOP" using pa cfg(3) pg(1) by simp
  have va: "unat ?va = unat ?pa + 3221225472" using lim top by (subst unat_add_no_wrap) simp_all
  have idx: "pt_index ?va = unat ?pa div 4096" by (simp add: pt_index_def va top)
  have va4: "4096 dvd unat ?va" unfolding va pa using cfg(1) by (intro dvd_add) simp_all
  have ge: "KERNEL_START \<le> ?va" using va top by (simp add: word_le_nat_alt)
  have sz: "unat (ORDER_SIZE 0) = 4096 * 1" by (simp add: unat_ORDER_SIZE)
  have "pt_index ?va + 1 \<le> N_PTE div 4 * N_PTE" using va lim top ge va4 by (intro pt_index_bound) simp_all
  then have "range_free (pt_index ?va) 1 (km_pt k)"
    unfolding range_free_def using free idx by (metis le_antisym less_Suc_eq_le Suc_eq_plus1)
  then have "kvm_maps ?va ?pa (ORDER_SIZE 0) flags (km_pt k) =
    Some (map_range (pt_index ?va) 1 (\<lambda>n. (?pa + 4096 * of_nat n) OR flags) (km_pt k))"
    using va lim top sz by (intro kvm_maps_range [OF va4 ge sz]) simp_all
  also have "map_range (pt_index ?va) 1 (\<lambda>n. (?pa + 4096 * of_nat n) OR flags) (km_pt k) =
    (km_pt k)(unat ?pa div 4096 := ?pa OR flags)"
    unfolding idx by (rule ext) (auto simp: map_range_def)
  finally show ?thesis using lim pg(2) by (simp add: kvm_map_def Let_def word_less_nat_alt fun_upd_def)
qed

lemma v2p_page_addr:
  assumes "unat (ba_addr s) + 4096 * ba_npages s \<le> unat PHYS_TOP" "pg < ba_npages s"
  shows "v2p (page_addr pg s + KERNEL_START) k = Some (PAGE_CEIL (km_pt k (unat (page_addr pg s) div 4096)))"
proof -
  have top: "unat PHYS_TOP = 1040187392" "unat KERNEL_START = 3221225472"
    by (simp_all add: PHYS_TOP_def DEVSP_SIZE_def KERNEL_START_def)
  have "unat (page_addr pg s) = unat (ba_addr s) + 4096 * pg"
    using assms top by (intro unat_page_addr) simp_all
  then have va: "unat (page_addr pg s + KERNEL_START) = unat (page_addr pg s) + 3221225472"
    using assms top by (subst unat_add_no_wrap) simp_all
  then have "KERNEL_START \<le> page_addr pg s + KERNEL_START" using top by (simp add: word_le_nat_alt)
  then show ?thesis using va top by (simp add: v2p_def getPageTableEntry_eq pt_index_def)
qed

text \<open>
  Pages in the kernel's address space. \<^verbatim>\<open>kvm_map\<close> of an allocated block below \<^verbatim>\<open>PHYS_TOP\<close> whose page
  table entries are empty succeeds and sets \<^verbatim>\<open>page->data\<close> to the block's physical address plus 3 GB;
  then \<^verbatim>\<open>va_get_page\<close> finds the page from that pointer, every address of the block translates to its
  frame, and \<^verbatim>\<open>kvm_unmap\<close> restores the page tables.
\<close>

theorem kvm_map_correct:
  assumes "4096 dvd unat (ba_addr (km_pmm k))" "unat (ba_addr (km_pmm k)) + 4096 * ba_npages (km_pmm k) \<le> 2 ^ 32"
    and "pg < ba_npages (km_pmm k)" "page_head (ba_pages (km_pmm k) pg)"
      "pg_size (ba_pages (km_pmm k) pg) = ORDER_SIZE d" "d \<le> MAX_ORDER"
    and "0 < unat (page_addr pg (km_pmm k))" "unat (page_addr pg (km_pmm k)) + 4096 * 2 ^ d \<le> unat PHYS_TOP"
    and "unat flags < 4096"
    and "\<forall>j. unat (page_addr pg (km_pmm k)) div 4096 \<le> j \<longrightarrow>
      j < unat (page_addr pg (km_pmm k)) div 4096 + 2 ^ d \<longrightarrow> km_pt k j = 0"
  shows "\<exists>k'. kvm_map pg flags k = Some k' \<and>
    pg_data (ba_pages (km_pmm k') pg) = page_addr pg (km_pmm k) + KERNEL_START \<and>
    va_get_page (pg_data (ba_pages (km_pmm k') pg)) k' = Some (Some pg) \<and>
    (\<forall>a. page_addr pg (km_pmm k) + KERNEL_START \<le> a \<longrightarrow>
       a < page_addr pg (km_pmm k) + KERNEL_START + ORDER_SIZE d \<longrightarrow> v2p a k' = Some (PAGE_CEIL a - KERNEL_START)) \<and>
    kvm_unmap pg k' = Some (k'\<lparr>km_pt := km_pt k\<rparr>)"
  using kvm_map_maps [OF assms] by fastforce

theorem kvm_map_correct_witness:
  "\<exists>k k'. kvm_map 2 3 k = Some k' \<and> pg_data (ba_pages (km_pmm k') 2) = 0xc0102000 \<and>
     va_get_page 0xc0102000 k' = Some (Some 2)"
proof -
  fix k0 :: kmem and s0 :: buddyAllocator
  define k where "k = k0\<lparr>km_pmm := s0\<lparr>ba_addr := 0x100000, ba_npages := 4,
    ba_pages := \<lambda>_. \<lparr>pg_size = ORDER_SIZE 0, pg_flag = 1, pg_ref_cnt = 1, pg_data = 0, pg_rwlock = rwlock_init\<rparr>\<rparr>,
    km_pt := \<lambda>_. 0\<rparr>"
  have a: "page_addr 2 (km_pmm k) = 0x102000" by (simp add: page_addr_def k_def)
  obtain k' where k': "kvm_map 2 3 k = Some k'"
    "pg_data (ba_pages (km_pmm k') 2) = page_addr 2 (km_pmm k) + KERNEL_START"
    "va_get_page (pg_data (ba_pages (km_pmm k') 2)) k' = Some (Some 2)"
    using kvm_map_correct [of k 2 0 3] unfolding a
    by (auto simp: k_def page_head_def PG_Head_def PHYS_TOP_def DEVSP_SIZE_def)
  have "page_addr 2 (km_pmm k) + KERNEL_START = 0xc0102000" by (simp add: a KERNEL_START_def)
  with k' show ?thesis by (intro exI [of _ k] exI [of _ k']) simp
qed

end
