(* ===== verification/Slab.thy ===== *)
theory Slab
  imports Kvm Buddy_Spec
begin

text \<open>
  The slab allocator and \<^verbatim>\<open>kmalloc\<close>: \<^verbatim>\<open>mm/slab.c\<close>, \<^verbatim>\<open>mm/slab.h\<close>, \<^verbatim>\<open>mm/kmalloc.c\<close>.

  A slab is one page cut into chunks of one size; the free chunks are linked through their first
  word. \<open>kh_slab\<close> holds the \<^verbatim>\<open>slab\<close> member of the page structures, \<open>kh_list\<close> the lists of slab pages:
  the partial lists of the ten size classes, the list of full slabs, and the two lists of every
  fixed-size cache. \<^verbatim>\<open>list_del\<close> takes a page out of whichever list it is in.
\<close>

section \<open>Definitions\<close>

definition LIST_SIZE :: nat where "LIST_SIZE = 10"
definition SLAB_MAX :: u16 where "SLAB_MAX = push_bit LIST_SIZE 2"
definition SLAB_MIN :: u16 where "SLAB_MIN = 4"
definition SLAB_MAGIC :: u32 where "SLAB_MAGIC = 0xac616749"

record slabInfo =
  si_chunk :: ptr_t
  si_size :: u16
  si_n_allocated :: u16
  si_magic :: u32

record slabCache =
  sc_size :: u32
  sc_lock :: spinlock_t

text \<open>
  \<open>Slab i\<close> is \<^verbatim>\<open>allocator.slab[i]\<close>, \<open>Full\<close> \<^verbatim>\<open>allocator.full_slab\<close>; \<open>CacheList c\<close> and \<open>CacheFull c\<close> are
  \<^verbatim>\<open>cache_list\<close> and \<^verbatim>\<open>full_list\<close> of the cache \<open>c\<close>. \<open>kh_caches\<close> is the list \<^verbatim>\<open>allocator.cache\<close>.
\<close>

datatype slist = Slab nat | Full | CacheList nat | CacheFull nat

record kheap =
  kh_mem :: kmem
  kh_slab :: "nat \<Rightarrow> slabInfo"
  kh_list :: "slist \<Rightarrow> nat list"
  kh_lock :: spinlock_t
  kh_cache :: "nat \<Rightarrow> slabCache"
  kh_caches :: "nat list"

abbreviation kh_page :: "kheap \<Rightarrow> nat \<Rightarrow> page" where
  "kh_page h pg \<equiv> ba_pages (km_pmm (kh_mem h)) pg"

abbreviation kh_word :: "kheap \<Rightarrow> ptr_t \<Rightarrow> u32" where
  "kh_word h a \<equiv> km_word (kh_mem h) a"

abbreviation upd_kpage :: "nat \<Rightarrow> (page \<Rightarrow> page) \<Rightarrow> kheap \<Rightarrow> kheap" where
  "upd_kpage pg f h \<equiv> h\<lparr>kh_mem := (kh_mem h)\<lparr>km_pmm := upd_page pg f (km_pmm (kh_mem h))\<rparr>\<rparr>"

abbreviation upd_slab :: "nat \<Rightarrow> (slabInfo \<Rightarrow> slabInfo) \<Rightarrow> kheap \<Rightarrow> kheap" where
  "upd_slab pg f h \<equiv> h\<lparr>kh_slab := (kh_slab h)(pg := f (kh_slab h pg))\<rparr>"

abbreviation store_word :: "ptr_t \<Rightarrow> u32 \<Rightarrow> kheap \<Rightarrow> kheap" where
  "store_word a v h \<equiv> h\<lparr>kh_mem := (kh_mem h)\<lparr>km_word := (km_word (kh_mem h))(a := v)\<rparr>\<rparr>"

abbreviation slist_del :: "nat \<Rightarrow> kheap \<Rightarrow> kheap" where
  "slist_del pg h \<equiv> h\<lparr>kh_list := (\<lambda>l. remove1 pg (kh_list h l))\<rparr>"

abbreviation slist_add_next :: "nat \<Rightarrow> slist \<Rightarrow> kheap \<Rightarrow> kheap" where
  "slist_add_next pg l h \<equiv> h\<lparr>kh_list := (kh_list h)(l := pg # kh_list h l)\<rparr>"

subsection \<open>Slabs\<close>

text \<open>The loop of \<^verbatim>\<open>add_slab\<close>: \<open>n\<close> more chunks follow \<open>chunk\<close>; the last one gets NULL.\<close>

fun chunk_loop :: "nat \<Rightarrow> ptr_t \<Rightarrow> u32 \<Rightarrow> (ptr_t \<Rightarrow> u32) \<Rightarrow> (ptr_t \<Rightarrow> u32)" where
  "chunk_loop 0 chunk chunkSize m = m(chunk := 0)"
| "chunk_loop (Suc n) chunk chunkSize m =
     (let m = m(chunk := chunk + chunkSize) in chunk_loop n (m chunk) chunkSize m)"

definition add_slab :: "slist \<Rightarrow> u16 \<Rightarrow> kheap \<Rightarrow> kheap option" where
  "add_slab l chunkSize h = do {
     (pg, pmm) \<leftarrow> alloc_page_core PAGE_SIZE (km_pmm (kh_mem h));
     let pmm = upd_page pg (\<lambda>p. p\<lparr>pg_flag := pg_flag p OR PG_SLAB\<rparr>) pmm;
     mem \<leftarrow> kvm_map pg (VM_PRES OR VM_KRW) ((kh_mem h)\<lparr>km_pmm := pmm\<rparr>);
     let h = h\<lparr>kh_mem := mem\<rparr>;
     assertk (chunkSize \<noteq> 0);
     let cnt_unused = (ucast (PAGE_SIZE div ucast chunkSize) :: u16);
     let h = upd_slab pg (\<lambda>i. i\<lparr>si_size := chunkSize, si_n_allocated := 0, si_chunk := pg_data (kh_page h pg),
       si_magic := SLAB_MAGIC\<rparr>) h;
     let m = chunk_loop (unat cnt_unused - 1) (si_chunk (kh_slab h pg)) (ucast chunkSize) (km_word (kh_mem h));
     let h = h\<lparr>kh_mem := (kh_mem h)\<lparr>km_word := m\<rparr>\<rparr>;
     Some (slist_add_next pg l h)
   }"

text \<open>\<^verbatim>\<open>__slab_alloc\<close>\<close>

definition slab_alloc_core :: "slist \<Rightarrow> slist \<Rightarrow> u16 \<Rightarrow> kheap \<Rightarrow> (ptr_t \<times> kheap) option" where
  "slab_alloc_core l full sz h = do {
     h \<leftarrow> (if kh_list h l = [] then add_slab l sz h else Some h);
     let pg = hd (kh_list h l);
     k \<leftarrow> wlock_lock (pg_rwlock (kh_page h pg));
     let h = upd_kpage pg (\<lambda>p. p\<lparr>pg_rwlock := k\<rparr>) h;
     assertk (kh_list h l \<noteq> [] \<and> si_chunk (kh_slab h pg) \<noteq> 0);
     let h = upd_slab pg (\<lambda>i. i\<lparr>si_n_allocated := si_n_allocated i + 1\<rparr>) h;
     let chunk = si_chunk (kh_slab h pg);
     let h = upd_slab pg (\<lambda>i. i\<lparr>si_chunk := kh_word h (si_chunk i)\<rparr>) h;
     let h = (if si_chunk (kh_slab h pg) = 0 then slist_add_next pg full (slist_del pg h) else h);
     let h = upd_kpage pg (\<lambda>p. p\<lparr>pg_rwlock := wlock_unlock (pg_rwlock p)\<rparr>) h;
     Some (chunk, h)
   }"

text \<open>\<^verbatim>\<open>__slab_free\<close>\<close>

definition slab_free_core :: "ptr_t \<Rightarrow> slist \<Rightarrow> kheap \<Rightarrow> kheap option" where
  "slab_free_core addr l h = do {
     let block = PAGE_CEIL addr;
     r \<leftarrow> va_get_page block (kh_mem h);
     pg \<leftarrow> r;
     assertk (is_slab (kh_page h pg));
     assertk (si_magic (kh_slab h pg) = SLAB_MAGIC);
     assertk (si_n_allocated (kh_slab h pg) > 0);
     let h = (if si_chunk (kh_slab h pg) = 0 then slist_add_next pg l (slist_del pg h) else h);
     let h = upd_slab pg (\<lambda>i. i\<lparr>si_n_allocated := si_n_allocated i - 1\<rparr>) h;
     let h = store_word addr (si_chunk (kh_slab h pg)) h;
     Some (upd_slab pg (\<lambda>i. i\<lparr>si_chunk := addr\<rparr>) h)
   }"

definition slab_init :: "kheap \<Rightarrow> kheap" where
  "slab_init h = h\<lparr>kh_list := (\<lambda>l. case l of Slab i \<Rightarrow> if i < LIST_SIZE then [] else kh_list h l
     | Full \<Rightarrow> [] | _ \<Rightarrow> kh_list h l), kh_caches := [], kh_lock := spinlock_init\<rparr>"

text \<open>\<^verbatim>\<open>SLAB_INDEX\<close>: \<^verbatim>\<open>log2(size) - 2\<close> as an \<^verbatim>\<open>int\<close>, stored in an unsigned variable.\<close>

definition SLAB_INDEX :: "u16 \<Rightarrow> nat option" where
  "SLAB_INDEX sz = do { l \<leftarrow> log2 sz; assertk (2 \<le> unat l \<and> unat l - 2 < LIST_SIZE); Some (unat l - 2) }"

definition slab_alloc :: "u16 \<Rightarrow> kheap \<Rightarrow> (ptr_t \<times> kheap) option" where
  "slab_alloc sz h = do {
     assertk (sz \<noteq> 0 \<and> sz \<le> SLAB_MAX);
     let sz = (if sz < SLAB_MIN then SLAB_MIN else sz);
     let sz = (ucast (fixSize (ucast sz)) :: u16);
     idx \<leftarrow> SLAB_INDEX sz;
     l \<leftarrow> spinlock_lock (kh_lock h);
     (ret, h) \<leftarrow> slab_alloc_core (Slab idx) Full sz (h\<lparr>kh_lock := l\<rparr>);
     Some (ret, h\<lparr>kh_lock := spinlock_unlock (kh_lock h)\<rparr>)
   }"

definition slab_free :: "ptr_t \<Rightarrow> kheap \<Rightarrow> kheap option" where
  "slab_free addr h = do {
     r \<leftarrow> va_get_page (PAGE_CEIL addr) (kh_mem h);
     pg \<leftarrow> r;
     assertk (is_slab (kh_page h pg));
     idx \<leftarrow> SLAB_INDEX (si_size (kh_slab h pg));
     l \<leftarrow> spinlock_lock (kh_lock h);
     h \<leftarrow> slab_free_core addr (Slab idx) (h\<lparr>kh_lock := l\<rparr>);
     Some (h\<lparr>kh_lock := spinlock_unlock (kh_lock h)\<rparr>)
   }"

definition slab_chunk_size :: "ptr_t \<Rightarrow> kheap \<Rightarrow> u16 option" where
  "slab_chunk_size addr h = do {
     r \<leftarrow> va_get_page (PAGE_CEIL addr) (kh_mem h);
     pg \<leftarrow> r;
     assertk (is_slab (kh_page h pg));
     assertk (si_size (kh_slab h pg) \<le> SLAB_MAX);
     Some (si_size (kh_slab h pg))
   }"

subsection \<open>Fixed-size caches\<close>

definition cache_alloc_create :: "nat \<Rightarrow> u32 \<Rightarrow> kheap \<Rightarrow> kheap" where
  "cache_alloc_create c sz h = h\<lparr>kh_list := (kh_list h)(CacheList c := [], CacheFull c := []),
     kh_cache := (kh_cache h)(c := \<lparr>sc_size = sz, sc_lock = spinlock_init\<rparr>), kh_caches := c # kh_caches h\<rparr>"

definition cache_alloc :: "nat \<Rightarrow> kheap \<Rightarrow> (ptr_t \<times> kheap) option" where
  "cache_alloc c h = do {
     l \<leftarrow> spinlock_lock (sc_lock (kh_cache h c));
     let h = h\<lparr>kh_cache := (kh_cache h)(c := (kh_cache h c)\<lparr>sc_lock := l\<rparr>)\<rparr>;
     (ret, h) \<leftarrow> slab_alloc_core (CacheList c) (CacheFull c) (ucast (sc_size (kh_cache h c))) h;
     Some (ret, h\<lparr>kh_cache := (kh_cache h)(c := (kh_cache h c)\<lparr>sc_lock := spinlock_unlock (sc_lock (kh_cache h c))\<rparr>)\<rparr>)
   }"

definition cache_free :: "nat \<Rightarrow> ptr_t \<Rightarrow> kheap \<Rightarrow> kheap option" where
  "cache_free c addr h = do {
     l \<leftarrow> spinlock_lock (sc_lock (kh_cache h c));
     let h = h\<lparr>kh_cache := (kh_cache h)(c := (kh_cache h c)\<lparr>sc_lock := l\<rparr>)\<rparr>;
     h \<leftarrow> slab_free_core addr (CacheList c) h;
     Some (h\<lparr>kh_cache := (kh_cache h)(c := (kh_cache h c)\<lparr>sc_lock := spinlock_unlock (sc_lock (kh_cache h c))\<rparr>)\<rparr>)
   }"

subsection \<open>Recycling empty slabs\<close>

text \<open>
  The loop of \<^verbatim>\<open>recycle\<close> over the pages that are in the list when it starts. (The next page is read
  after \<^verbatim>\<open>__free_page\<close> has relinked the current one; that point is never reached, see below.)
\<close>

fun recycle_loop :: "nat list \<Rightarrow> kheap \<Rightarrow> kheap option" where
  "recycle_loop [] h = Some h"
| "recycle_loop (pg # pgs) h = do {
     k \<leftarrow> wlock_lock (pg_rwlock (kh_page h pg));
     let h = upd_kpage pg (\<lambda>p. p\<lparr>pg_rwlock := k\<rparr>) h;
     h \<leftarrow> (if si_n_allocated (kh_slab h pg) = 0 then do {
        let h = slist_del pg h;
        pmm \<leftarrow> free_page_core pg (km_pmm (kh_mem h));
        mem \<leftarrow> kvm_unmap pg ((kh_mem h)\<lparr>km_pmm := pmm\<rparr>);
        Some (h\<lparr>kh_mem := mem\<rparr>)
      } else Some h);
     recycle_loop pgs (upd_kpage pg (\<lambda>p. p\<lparr>pg_rwlock := wlock_unlock (pg_rwlock p)\<rparr>) h)
   }"

definition recycle :: "slist \<Rightarrow> kheap \<Rightarrow> kheap option" where
  "recycle l h = recycle_loop (kh_list h l) h"

fun recycle_slabs :: "nat list \<Rightarrow> kheap \<Rightarrow> kheap option" where
  "recycle_slabs [] h = Some h"
| "recycle_slabs (i # is) h = do { h \<leftarrow> recycle (Slab i) h; recycle_slabs is h }"

text \<open>
  For a cache, \<^verbatim>\<open>slab_recycle\<close> passes \<^verbatim>\<open>&cache->head\<close> to \<^verbatim>\<open>recycle\<close>, a node of the list \<^verbatim>\<open>allocator.cache\<close>,
  not the header of a list of pages: the loop reads the other nodes of that ring, at least the
  header \<^verbatim>\<open>allocator.cache\<close>, as pages. That is outside any object, \<open>None\<close>.
\<close>

fun recycle_caches :: "nat list \<Rightarrow> kheap \<Rightarrow> kheap option" where
  "recycle_caches [] h = Some h"
| "recycle_caches (c # cs) h = do {
     l \<leftarrow> spinlock_lock (sc_lock (kh_cache h c));
     None
   }"

definition slab_recycle :: "kheap \<Rightarrow> kheap option" where
  "slab_recycle h = do {
     l \<leftarrow> spinlock_lock (kh_lock h);
     h \<leftarrow> recycle_slabs [0..<LIST_SIZE] (h\<lparr>kh_lock := l\<rparr>);
     recycle_caches (kh_caches h) (h\<lparr>kh_lock := spinlock_unlock (kh_lock h)\<rparr>)
   }"

subsection \<open>\<^verbatim>\<open>kmalloc.c\<close>\<close>

text \<open>\<^verbatim>\<open>bzero\<close> and \<^verbatim>\<open>memcpy\<close> on the words of memory.\<close>

definition zero_words :: "ptr_t \<Rightarrow> u32 \<Rightarrow> (ptr_t \<Rightarrow> u32) \<Rightarrow> (ptr_t \<Rightarrow> u32)" where
  "zero_words addr sz m = (\<lambda>a. if a - addr < sz then 0 else m a)"

definition copy_words :: "ptr_t \<Rightarrow> ptr_t \<Rightarrow> u32 \<Rightarrow> (ptr_t \<Rightarrow> u32) \<Rightarrow> (ptr_t \<Rightarrow> u32)" where
  "copy_words dst src sz m = (\<lambda>a. if a - dst < sz then m (src + (a - dst)) else m a)"

definition kmalloc :: "u32 \<Rightarrow> kheap \<Rightarrow> (ptr_t \<times> kheap) option" where
  "kmalloc sz h = do {
     let sz = fixSize sz;
     if sz \<le> ucast SLAB_MAX then slab_alloc (ucast sz) h
     else do {
       (pg, pmm) \<leftarrow> alloc_page_core sz (km_pmm (kh_mem h));
       mem \<leftarrow> kvm_map pg (VM_PRES OR VM_KRW) ((kh_mem h)\<lparr>km_pmm := pmm\<rparr>);
       Some (pg_data (ba_pages (km_pmm mem) pg), h\<lparr>kh_mem := mem\<rparr>)
     }
   }"

definition kcalloc :: "u32 \<Rightarrow> kheap \<Rightarrow> (ptr_t \<times> kheap) option" where
  "kcalloc sz h = do {
     let sz = fixSize sz;
     (addr, h) \<leftarrow> kmalloc sz h;
     Some (addr, h\<lparr>kh_mem := (kh_mem h)\<lparr>km_word := zero_words addr sz (km_word (kh_mem h))\<rparr>\<rparr>)
   }"

definition kfree :: "ptr_t \<Rightarrow> kheap \<Rightarrow> kheap option" where
  "kfree addr h = do {
     r \<leftarrow> va_get_page (PAGE_CEIL addr) (kh_mem h);
     pg \<leftarrow> r;
     if is_slab (kh_page h pg) then slab_free addr h
     else do {
       mem \<leftarrow> kvm_unmap pg (kh_mem h);
       pmm \<leftarrow> free_page_core pg (km_pmm mem);
       Some (h\<lparr>kh_mem := mem\<lparr>km_pmm := pmm\<rparr>\<rparr>)
     }
   }"

definition krealloc :: "ptr_t \<Rightarrow> u32 \<Rightarrow> kheap \<Rightarrow> (ptr_t \<times> kheap) option" where
  "krealloc old newsize h = do {
     (addr, h) \<leftarrow> kmalloc newsize h;
     assertk (addr \<noteq> 0);
     r \<leftarrow> va_get_page (PAGE_CEIL old) (kh_mem h);
     pg \<leftarrow> r;
     let sz = pg_size (kh_page h pg);
     assertk (pg_size (kh_page h pg) < newsize);
     sz \<leftarrow> (if is_slab (kh_page h pg)
            then do { s \<leftarrow> slab_chunk_size addr h; Some (ucast s) } else Some sz);
     let h = h\<lparr>kh_mem := (kh_mem h)\<lparr>km_word := copy_words addr old sz (km_word (kh_mem h))\<rparr>\<rparr>;
     h \<leftarrow> kfree old h;
     Some (addr, h)
   }"

section \<open>Chains of free chunks\<close>

fun chunk_path :: "(ptr_t \<Rightarrow> u32) \<Rightarrow> ptr_t \<Rightarrow> ptr_t list \<Rightarrow> bool" where
  "chunk_path m c [] \<longleftrightarrow> c = 0"
| "chunk_path m c (x # xs) \<longleftrightarrow> c = x \<and> x \<noteq> 0 \<and> chunk_path m (m x) xs"

lemma chunk_path_cong: "(\<And>x. x \<in> set xs \<Longrightarrow> m' x = m x) \<Longrightarrow> chunk_path m' c xs = chunk_path m c xs"
  by (induction xs arbitrary: c) auto

lemma chunk_path_null: "chunk_path m c xs \<Longrightarrow> c = 0 \<longleftrightarrow> xs = []"
  by (cases xs) auto

text \<open>The chunks of a page: \<open>n\<close> of them, \<open>sz\<close> bytes apart.\<close>

definition chunks :: "nat \<Rightarrow> ptr_t \<Rightarrow> u32 \<Rightarrow> ptr_t list" where
  "chunks n c sz = map (\<lambda>k. c + of_nat k * sz) [0..<n]"

lemma chunks_Suc: "chunks (Suc n) c sz = c # chunks n (c + sz) sz"
proof -
  have "[0..<Suc n] = 0 # map Suc [0..<n]" by (simp add: map_Suc_upt upt_conv_Cons del: upt_Suc)
  then show ?thesis by (simp add: chunks_def algebra_simps del: upt_Suc)
qed

lemma unat_chunk:
  fixes c sz :: u32
  assumes "unat c + n * unat sz \<le> 2 ^ 32" "k < n" "sz \<noteq> 0"
  shows "unat (c + of_nat k * sz) = unat c + k * unat sz"
proof -
  have "0 < unat sz" using assms(3) by (simp add: unat_gt_0)
  have "Suc k * unat sz \<le> n * unat sz" using assms(2) by (intro mult_le_mono1) simp
  then have lt: "unat c + k * unat sz < 2 ^ 32" using assms(1) \<open>0 < unat sz\<close> by simp
  moreover have "k < 2 ^ 32" using lt \<open>0 < unat sz\<close> by (metis (no_types, opaque_lifting)
      add_lessD1 add.commute le_less_trans mult.right_neutral mult_le_mono2 Suc_leI One_nat_def)
  ultimately show ?thesis by (simp add: unat_word_ariths unat_of_nat)
qed

lemma distinct_chunks:
  assumes "unat c + n * unat sz \<le> 2 ^ 32" "sz \<noteq> 0"
  shows "distinct (chunks n c sz)"
  unfolding chunks_def distinct_map
proof (intro conjI inj_onI)
  have "0 < unat sz" using assms(2) by (simp add: unat_gt_0)
  fix x y assume "x \<in> set [0..<n]" "y \<in> set [0..<n]" "c + of_nat x * sz = c + of_nat y * sz"
  then have "unat c + x * unat sz = unat c + y * unat sz"
    using unat_chunk [OF assms(1) _ assms(2)] by (metis atLeastLessThan_iff set_upt)
  then show "x = y" using \<open>0 < unat sz\<close> by simp
qed simp

lemma chunk_loop_frame:
  "x \<notin> set (chunks (Suc n) c sz) \<Longrightarrow> chunk_loop n c sz m x = m x"
proof (induction n arbitrary: c m)
  case (Suc n)
  then have "x \<noteq> c" "x \<notin> set (chunks (Suc n) (c + sz) sz)" by (simp_all add: chunks_Suc [of "Suc n"])
  then show ?case using Suc.IH [of "c + sz"] by (simp add: Let_def)
qed (simp add: chunks_def)

lemma chunk_loop_path:
  "unat c + Suc n * unat sz \<le> 2 ^ 32 \<Longrightarrow> sz \<noteq> 0 \<Longrightarrow> c \<noteq> 0 \<Longrightarrow>
   chunk_path (chunk_loop n c sz m) c (chunks (Suc n) c sz)"
proof (induction n arbitrary: c m)
  case 0
  then show ?case by (simp add: chunks_def)
next
  case (Suc n)
  let ?m = "m(c := c + sz)"
  have d: "distinct (c # chunks (Suc n) (c + sz) sz)"
    using distinct_chunks [OF Suc.prems(1,2)] by (simp only: chunks_Suc)
  have sum: "unat (c + sz) = unat c + unat sz" using unat_chunk [OF Suc.prems(1), of 1] Suc.prems(2) by simp
  then have "c + sz \<noteq> 0" using Suc.prems(3) by (metis add_is_0 unat_eq_zero)
  then have "chunk_path (chunk_loop n (c + sz) sz ?m) (c + sz) (chunks (Suc n) (c + sz) sz)"
    using Suc.prems sum by (intro Suc.IH) simp_all
  moreover have "chunk_loop n (c + sz) sz ?m c = c + sz" using d by (subst chunk_loop_frame) simp_all
  ultimately show ?case using Suc.prems(3) by (simp add: chunks_Suc [of "Suc n"] Let_def)
qed

section \<open>The slab invariant\<close>

text \<open>
  \<open>F\<close> gives the free chunks of every slab page. A page of a list is a mapped slab whose chain is \<open>F\<close>;
  its free chunks lie in the page, and with the allocated ones they are all the chunks of the page.
\<close>

definition slab_page :: "kheap \<Rightarrow> (nat \<Rightarrow> ptr_t list) \<Rightarrow> nat \<Rightarrow> bool" where
  "slab_page h F pg \<longleftrightarrow>
     is_slab (kh_page h pg) \<and> si_magic (kh_slab h pg) = SLAB_MAGIC \<and> si_size (kh_slab h pg) \<noteq> 0 \<and>
     rw_writelock (pg_rwlock (kh_page h pg)) \<noteq> 1 \<and>
     chunk_path (km_word (kh_mem h)) (si_chunk (kh_slab h pg)) (F pg) \<and> distinct (F pg) \<and>
     (\<forall>c\<in>set (F pg). PAGE_CEIL c = pg_data (kh_page h pg)) \<and>
     va_get_page (pg_data (kh_page h pg)) (kh_mem h) = Some (Some pg) \<and>
     length (F pg) + unat (si_n_allocated (kh_slab h pg)) = 4096 div unat (si_size (kh_slab h pg))"

fun partial_list :: "slist \<Rightarrow> bool" where
  "partial_list (Slab i) = True" | "partial_list Full = False"
| "partial_list (CacheList c) = True" | "partial_list (CacheFull c) = False"

text \<open>The chunk sizes that belong into a list.\<close>

fun list_size :: "kheap \<Rightarrow> slist \<Rightarrow> u16 set" where
  "list_size h (Slab i) = (if i < LIST_SIZE then {2 ^ (i + 2)} else {})"
| "list_size h Full = {2 ^ (i + 2) |i. i < LIST_SIZE}"
| "list_size h (CacheList c) = {ucast (sc_size (kh_cache h c))}"
| "list_size h (CacheFull c) = {ucast (sc_size (kh_cache h c))}"

text \<open>
  Every page is at most once in the lists, in a list of its chunk size, in a partial list exactly
  when it has free chunks; and a page that has free chunks is in a list.
\<close>

definition slab_inv :: "kheap \<Rightarrow> (nat \<Rightarrow> ptr_t list) \<Rightarrow> bool" where
  "slab_inv h F \<longleftrightarrow>
     (\<forall>l. distinct (kh_list h l)) \<and>
     (\<forall>l l' pg. pg \<in> set (kh_list h l) \<longrightarrow> pg \<in> set (kh_list h l') \<longrightarrow> l = l') \<and>
     (\<forall>l. \<forall>pg\<in>set (kh_list h l). slab_page h F pg \<and> (partial_list l \<longleftrightarrow> F pg \<noteq> [])) \<and>
     (\<forall>l l'. \<forall>pg\<in>set (kh_list h l). \<forall>pg'\<in>set (kh_list h l').
        pg_data (kh_page h pg) = pg_data (kh_page h pg') \<longrightarrow> pg = pg') \<and>
     (\<forall>l. \<forall>pg\<in>set (kh_list h l). si_size (kh_slab h pg) \<in> list_size h l) \<and>
     (\<forall>pg. F pg \<noteq> [] \<longrightarrow> (\<exists>l. pg \<in> set (kh_list h l)))"

lemma slab_invD:
  assumes "slab_inv h F"
  shows "distinct (kh_list h l)" "pg \<in> set (kh_list h l) \<Longrightarrow> pg \<in> set (kh_list h l') \<Longrightarrow> l = l'"
    "pg \<in> set (kh_list h l) \<Longrightarrow> slab_page h F pg" "pg \<in> set (kh_list h l) \<Longrightarrow> partial_list l \<longleftrightarrow> F pg \<noteq> []"
    "pg \<in> set (kh_list h l) \<Longrightarrow> pg' \<in> set (kh_list h l') \<Longrightarrow>
       pg_data (kh_page h pg) = pg_data (kh_page h pg') \<Longrightarrow> pg = pg'"
    "pg \<in> set (kh_list h l) \<Longrightarrow> si_size (kh_slab h pg) \<in> list_size h l"
    "F pg \<noteq> [] \<Longrightarrow> \<exists>l. pg \<in> set (kh_list h l)"
  using assms unfolding slab_inv_def by blast+

text \<open>
  A change of one slab page \<open>pg\<close>, which ends up alone in list \<open>l'\<close> or stays in list \<open>l\<close>, and of words
  that lie in that page.
\<close>

lemma list_size_cong: "kh_cache h' = kh_cache h \<Longrightarrow> list_size h' l = list_size h l"
  by (cases l) simp_all

lemma slab_inv_change:
  assumes inv: "slab_inv h F" and l: "pg \<in> set (kh_list h l)"
    and lists: "kh_list h' = kh_list h \<and> l' = l \<or>
      l \<noteq> l' \<and> kh_list h' = (\<lambda>k. remove1 pg (kh_list h k))(l' := pg # kh_list h l')"
    and others: "\<And>q. q \<noteq> pg \<Longrightarrow> kh_page h' q = kh_page h q \<and> kh_slab h' q = kh_slab h q"
    and words: "\<And>x. PAGE_CEIL x \<noteq> pg_data (kh_page h pg) \<Longrightarrow> kh_word h' x = kh_word h x"
    and data: "pg_data (kh_page h' pg) = pg_data (kh_page h pg)"
    and va: "\<And>x. va_get_page x (kh_mem h') = va_get_page x (kh_mem h)"
    and pg: "slab_page h' (F(pg := cs)) pg" "partial_list l' \<longleftrightarrow> cs \<noteq> []"
    and cls: "kh_cache h' = kh_cache h" "si_size (kh_slab h' pg) \<in> list_size h l'"
  shows "slab_inv h' (F(pg := cs))"
proof -
  have notin: "pg \<notin> set (kh_list h k)" if "k \<noteq> l" for k using slab_invD(2) [OF inv l] that by blast
  have mem: "q \<in> set (kh_list h' k) \<longleftrightarrow> (if q = pg then k = l' else q \<in> set (kh_list h k))" for q k
    using lists notin l slab_invD(1) [OF inv] by (cases "k = l'"; cases "q = pg"; fastforce)
  have dist: "distinct (kh_list h' k)" for k
    using lists notin [of l'] slab_invD(1) [OF inv] by (cases "k = l'") (auto simp: distinct_remove1)
  have dpg: "pg_data (kh_page h' q) = pg_data (kh_page h q)" for q using others [of q] data by (cases "q = pg") simp_all
  have other: "slab_page h' (F(pg := cs)) q" if q: "q \<noteq> pg" "q \<in> set (kh_list h k)" for q k
  proof -
    have sq: "slab_page h F q" using slab_invD(3) [OF inv q(2)] .
    have "pg_data (kh_page h q) \<noteq> pg_data (kh_page h pg)" using slab_invD(5) [OF inv q(2) l] q(1) by blast
    then have "chunk_path (km_word (kh_mem h')) c (F q) = chunk_path (km_word (kh_mem h)) c (F q)" for c
      using sq words by (intro chunk_path_cong) (auto simp: slab_page_def)
    then show ?thesis using sq others [OF q(1)] q(1) va by (simp add: slab_page_def)
  qed
  show ?thesis
    unfolding slab_inv_def
  proof (intro conjI allI ballI impI)
    fix k q assume "q \<in> set (kh_list h' k)"
    then show "slab_page h' (F(pg := cs)) q" "partial_list k \<longleftrightarrow> (F(pg := cs)) q \<noteq> []"
      "si_size (kh_slab h' q) \<in> list_size h' k"
      using other [of q k] pg mem slab_invD(4,6) [OF inv, of q k] others [of q] cls list_size_cong [OF cls(1)]
      by (auto split: if_splits)
  next
    fix k k' q assume "q \<in> set (kh_list h' k)" "q \<in> set (kh_list h' k')"
    then show "k = k'" using mem slab_invD(2) [OF inv] by (auto split: if_splits)
  next
    fix k k' q q' assume "q \<in> set (kh_list h' k)" "q' \<in> set (kh_list h' k')"
      "pg_data (kh_page h' q) = pg_data (kh_page h' q')"
    then show "q = q'" using mem slab_invD(5) [OF inv] l unfolding dpg by (metis (full_types))
  next
    fix q assume "(F(pg := cs)) q \<noteq> []"
    then show "\<exists>k. q \<in> set (kh_list h' k)" using mem slab_invD(7) [OF inv, of q] by (cases "q = pg") auto
  qed (rule dist)
qed

text \<open>The translation of addresses looks at the page tables and the head flags of the pages only.\<close>

lemma va_get_page_cong:
  assumes "km_pt k' = km_pt k" "ba_addr (km_pmm k') = ba_addr (km_pmm k)" "ba_npages (km_pmm k') = ba_npages (km_pmm k)"
    "\<And>q. page_head (ba_pages (km_pmm k') q) = page_head (ba_pages (km_pmm k) q)"
  shows "va_get_page x k' = va_get_page x k"
proof -
  have "get_page a (km_pmm k') = get_page a (km_pmm k)" for a using assms(2,3) by (simp add: get_page_def)
  then show ?thesis unfolding va_get_page_def v2p_def using assms(1,4) by (simp cong: option.case_cong)
qed

text \<open>
  The effect of the two core routines: the first chunk \<open>c\<close> of the chain \<open>c # cs\<close> of page \<open>pg\<close> is taken
  out, and a chunk \<open>a\<close> becomes the first of the chain.
\<close>

definition chunk_out :: "nat \<Rightarrow> slist \<Rightarrow> ptr_t \<Rightarrow> ptr_t list \<Rightarrow> kheap \<Rightarrow> kheap" where
  "chunk_out pg full c cs h = h\<lparr>
     kh_mem := (kh_mem h)\<lparr>km_pmm := upd_page pg (\<lambda>p. p\<lparr>pg_rwlock := (pg_rwlock p)\<lparr>rw_writelock := 0\<rparr>\<rparr>) (km_pmm (kh_mem h))\<rparr>,
     kh_slab := (kh_slab h)(pg := (kh_slab h pg)\<lparr>si_n_allocated := si_n_allocated (kh_slab h pg) + 1, si_chunk := kh_word h c\<rparr>),
     kh_list := (if cs = [] then (\<lambda>k. remove1 pg (kh_list h k))(full := pg # kh_list h full) else kh_list h)\<rparr>"

definition chunk_in :: "nat \<Rightarrow> slist \<Rightarrow> ptr_t \<Rightarrow> kheap \<Rightarrow> kheap" where
  "chunk_in pg l a h = h\<lparr>
     kh_mem := (kh_mem h)\<lparr>km_word := (km_word (kh_mem h))(a := si_chunk (kh_slab h pg))\<rparr>,
     kh_slab := (kh_slab h)(pg := (kh_slab h pg)\<lparr>si_n_allocated := si_n_allocated (kh_slab h pg) - 1, si_chunk := a\<rparr>),
     kh_list := (if si_chunk (kh_slab h pg) = 0 then (\<lambda>k. remove1 pg (kh_list h k))(l := pg # kh_list h l)
       else kh_list h)\<rparr>"

lemma chunk_out_va [simp]: "va_get_page x (kh_mem (chunk_out pg full c cs h)) = va_get_page x (kh_mem h)"
  by (rule va_get_page_cong) (simp_all add: chunk_out_def page_head_def)

lemma chunk_in_va [simp]: "va_get_page x (kh_mem (chunk_in pg l a h)) = va_get_page x (kh_mem h)"
  by (rule va_get_page_cong) (simp_all add: chunk_in_def page_head_def)

lemma slab_alloc_core_ok:
  assumes inv: "slab_inv h F" and l: "kh_list h l = pg # rest" and kinds: "partial_list l" "\<not> partial_list full"
    and F: "F pg = c # cs" and cls: "si_size (kh_slab h pg) \<in> list_size h full"
  shows "slab_alloc_core l full sz h = Some (c, chunk_out pg full c cs h)"
    "slab_inv (chunk_out pg full c cs h) (F(pg := cs))"
    "unat (si_n_allocated (kh_slab h pg) + 1) = unat (si_n_allocated (kh_slab h pg)) + 1"
proof -
  have pg: "pg \<in> set (kh_list h l)" using l by simp
  have sp: "slab_page h F pg" using slab_invD(3) [OF inv pg] .
  let ?i = "kh_slab h pg" and ?p = "kh_page h pg" and ?h = "chunk_out pg full c cs h"
  have c: "si_chunk ?i = c" "c \<noteq> 0" "chunk_path (km_word (kh_mem h)) (kh_word h c) cs"
    and wl: "rw_writelock (pg_rwlock ?p) \<noteq> 1" and len: "Suc (length cs) + unat (si_n_allocated ?i) = 4096 div unat (si_size ?i)"
    using sp F by (simp_all add: slab_page_def)
  have null: "kh_word h c = 0 \<longleftrightarrow> cs = []" using chunk_path_null [OF c(3)] .
  have full: "pg \<notin> set (kh_list h full)" using slab_invD(2) [OF inv pg, of full] kinds by (cases "l = full") auto
  show "slab_alloc_core l full sz h = Some (c, ?h)"
    using l c(1,2) wl null full
    by (cases "cs = []")
      (simp_all add: slab_alloc_core_def chunk_out_def wlock_lock_eq wlock_unlock_eq Let_def remove1_idem fun_upd_def cong: if_cong)
  have "unat (si_n_allocated ?i) < 4096" using len div_le_dividend [of 4096 "unat (si_size ?i)"] by linarith
  then show n: "unat (si_n_allocated ?i + 1) = unat (si_n_allocated ?i) + 1" by (subst unat_add_no_wrap) simp_all
  have "va_get_page (pg_data ?p) (kh_mem ?h) = Some (Some pg)" using sp by (simp add: slab_page_def)
  then have sp': "slab_page ?h (F(pg := cs)) pg"
    using sp F c(3) len n by (simp add: slab_page_def is_slab_def chunk_out_def)
  have "l \<noteq> full" using kinds by blast
  then have l': "kh_list ?h = kh_list h \<and> (if cs = [] then full else l) = l \<or>
      l \<noteq> (if cs = [] then full else l) \<and>
      kh_list ?h = (\<lambda>k. remove1 pg (kh_list h k))((if cs = [] then full else l) := pg # kh_list h (if cs = [] then full else l))"
    by (simp add: chunk_out_def)
  show "slab_inv ?h (F(pg := cs))"
    using slab_invD(6) [OF inv pg] cls kinds
    by (intro slab_inv_change [OF inv pg l' _ _ _ chunk_out_va sp']) (simp_all add: chunk_out_def)
qed

lemma slab_free_core_ok:
  assumes inv: "slab_inv h F" and pg: "pg \<in> set (kh_list h k)" and kinds: "partial_list l"
    and a: "PAGE_CEIL a = pg_data (kh_page h pg)" "a \<noteq> 0" "a \<notin> set (F pg)" "si_n_allocated (kh_slab h pg) \<noteq> 0"
    and cls: "si_size (kh_slab h pg) \<in> list_size h l"
  shows "slab_free_core a l h = Some (chunk_in pg l a h)" "slab_inv (chunk_in pg l a h) (F(pg := a # F pg))"
proof -
  have sp: "slab_page h F pg" and kd: "partial_list k \<longleftrightarrow> F pg \<noteq> []" using slab_invD(3,4) [OF inv pg] by auto
  let ?i = "kh_slab h pg" and ?h = "chunk_in pg l a h"
  have path: "chunk_path (km_word (kh_mem h)) (si_chunk ?i) (F pg)" using sp by (simp add: slab_page_def)
  have null: "si_chunk ?i = 0 \<longleftrightarrow> F pg = []" using chunk_path_null [OF path] .
  have n0: "0 < si_n_allocated ?i" using a(4) by (simp add: word_gt_0)
  have notl: "F pg = [] \<Longrightarrow> pg \<notin> set (kh_list h l)" using slab_invD(2) [OF inv pg, of l] kinds kd by (cases "k = l") auto
  have va: "va_get_page (PAGE_CEIL a) (kh_mem h) = Some (Some pg)" using sp a(1) by (simp add: slab_page_def)
  show "slab_free_core a l h = Some ?h"
    using va sp n0 null notl
    by (cases "F pg = []")
      (simp_all add: slab_free_core_def chunk_in_def slab_page_def Let_def remove1_idem fun_upd_def cong: if_cong)
  have n: "unat (si_n_allocated ?i - 1) = unat (si_n_allocated ?i) - 1" "0 < unat (si_n_allocated ?i)"
    using n0 unat_sub_no_wrap [of 1 "si_n_allocated ?i"] by (simp_all add: word_less_nat_alt)
  have "chunk_path ((km_word (kh_mem h))(a := si_chunk ?i)) (si_chunk ?i) (F pg)"
    using path a(3) by (subst chunk_path_cong) auto
  moreover have "va_get_page (pg_data (kh_page h pg)) (kh_mem ?h) = Some (Some pg)" using sp by (simp add: slab_page_def)
  ultimately have sp': "slab_page ?h (F(pg := a # F pg)) pg"
    using sp a(1-3) n by (simp add: slab_page_def chunk_in_def)
  have "F pg = [] \<Longrightarrow> k \<noteq> l" using notl pg by blast
  then have l': "kh_list ?h = kh_list h \<and> (if F pg = [] then l else k) = k \<or>
      k \<noteq> (if F pg = [] then l else k) \<and>
      kh_list ?h = (\<lambda>k. remove1 pg (kh_list h k))((if F pg = [] then l else k) := pg # kh_list h (if F pg = [] then l else k))"
    using null by (simp add: chunk_in_def)
  show "slab_inv ?h (F(pg := a # F pg))"
    using slab_invD(6) [OF inv pg] cls kinds kd a(1)
    by (intro slab_inv_change [OF inv pg l' _ _ _ chunk_in_va sp']) (auto simp: chunk_in_def)
qed

text \<open>Putting the chunk back that was taken out restores everything but the lock of the page.\<close>

lemma chunk_in_out:
  assumes inv: "slab_inv h F" and l: "kh_list h l = pg # rest" and kinds: "partial_list l" "\<not> partial_list full"
    and F: "F pg = c # cs"
  shows "chunk_in pg l c (chunk_out pg full c cs h) = h\<lparr>kh_mem := kh_mem (chunk_out pg full c cs h)\<rparr>"
proof -
  have pg: "pg \<in> set (kh_list h l)" using l by simp
  have c: "si_chunk (kh_slab h pg) = c" "chunk_path (km_word (kh_mem h)) (kh_word h c) cs"
    using slab_invD(3) [OF inv pg] F by (simp_all add: slab_page_def)
  have null: "kh_word h c = 0 \<longleftrightarrow> cs = []" using chunk_path_null [OF c(2)] .
  have "l \<noteq> full" using kinds by blast
  have notin: "remove1 pg (kh_list h k) = kh_list h k" if "k \<noteq> l" for k
    using slab_invD(2) [OF inv pg, of k] that by (intro remove1_idem) blast
  have "(\<lambda>k. remove1 pg (((\<lambda>k. remove1 pg (kh_list h k))(full := pg # kh_list h full)) k))
      (l := pg # remove1 pg (kh_list h l)) = kh_list h"
    using l notin \<open>l \<noteq> full\<close> by (intro ext) (auto simp: fun_upd_def)
  then have "kh_list (chunk_in pg l c (chunk_out pg full c cs h)) = kh_list h"
    using null \<open>l \<noteq> full\<close> by (simp add: chunk_in_def chunk_out_def)
  moreover have "(kh_slab h pg)\<lparr>si_chunk := c\<rparr> = kh_slab h pg" using c(1) by simp
  ultimately show ?thesis by (simp add: chunk_in_def chunk_out_def)
qed

section \<open>Size classes\<close>

lemma fixSize_two_power: "fixSize (2 ^ k) = 2 ^ k"
  by (simp add: fixSize_def IS_POWER_OF_2_exp)

lemma ucast_two_power: "k < LENGTH('b) \<Longrightarrow> (ucast (2 ^ k :: 'a::len word) :: 'b::len word) = (if k < LENGTH('a) then 2 ^ k else 0)"
  by (rule bit_word_eqI) (auto simp: bit_simps)

lemma slab_alloc_power:
  assumes "2 \<le> k" "k < 12"
  shows "SLAB_INDEX (ucast (fixSize (ucast (2 ^ k :: u16)))) = Some (k - 2)"
proof -
  have "fixSize (ucast (2 ^ k :: u16)) = 2 ^ k" using assms by (simp add: ucast_two_power fixSize_two_power)
  then have "(ucast (fixSize (ucast (2 ^ k :: u16))) :: u16) = 2 ^ k" using assms by (simp only:) (simp add: ucast_two_power)
  moreover have "unat (of_nat k :: u8) = k" using assms by (simp add: unat_of_nat)
  ultimately show ?thesis using assms by (simp add: SLAB_INDEX_def log2_exp LIST_SIZE_def)
qed

text \<open>The size class of a request and what \<^verbatim>\<open>kmalloc\<close> makes of it.\<close>

definition in_class :: "u32 \<Rightarrow> nat \<Rightarrow> bool" where
  "in_class sz i \<longleftrightarrow> i < LIST_SIZE \<and> unat sz \<le> 4 * 2 ^ i \<and> (if i = 0 then 0 < unat sz else 2 * 2 ^ i < unat sz)"

lemma class_power:
  assumes "in_class sz i"
  obtains k where "k \<le> i + 2" "fixSize sz = 2 ^ k" "0 < i \<Longrightarrow> k = i + 2"
proof -
  have i: "i < 10" "unat sz \<le> 2 ^ (i + 2)" "0 < unat sz" "0 < i \<Longrightarrow> 2 ^ (i + 1) < unat sz"
    using assms by (auto simp: in_class_def LIST_SIZE_def split: if_splits)
  have "(2::nat) ^ (i + 2) \<le> 2 ^ 31" using i(1) by (intro power_increasing) simp_all
  then have "unat sz \<le> 2 ^ 31" using i(2) by linarith
  from i(3) this show thesis
  proof (rule fixSize_exp)
    fix k assume k: "fixSize sz = 2 ^ k" "unat sz \<le> 2 ^ k" "\<And>j. unat sz \<le> 2 ^ j \<Longrightarrow> k \<le> j"
    show thesis
    proof (rule that)
      show "k \<le> i + 2" using k(3) i(2) .
      assume "0 < i"
      then have "(2::nat) ^ (i + 1) < 2 ^ k" using i(4) k(2) by linarith
      then have "i + 1 < k" by (rule power_less_imp_less_exp [rotated]) simp
      then show "k = i + 2" using k(3) [OF i(2)] by linarith
    qed (rule k(1))
  qed
qed

lemma kmalloc_class:
  assumes "in_class sz i" "kh_lock h \<noteq> 1"
  shows "kmalloc sz h = (case slab_alloc_core (Slab i) Full (2 ^ (i + 2)) (h\<lparr>kh_lock := 1\<rparr>) of
    None \<Rightarrow> None | Some (ret, h') \<Rightarrow> Some (ret, h'\<lparr>kh_lock := 0\<rparr>))"
proof -
  obtain k where k: "k \<le> i + 2" "fixSize sz = 2 ^ k" "0 < i \<Longrightarrow> k = i + 2" by (rule class_power [OF assms(1)]) (rule that)
  have i: "i < 10" using assms(1) by (simp add: in_class_def LIST_SIZE_def)
  have u: "unat (2 ^ k :: u32) = 2 ^ k" "unat (2 ^ k :: u16) = 2 ^ k" "unat (2 ^ (i + 2) :: u16) = 2 ^ (i + 2)"
    using k(1) i by (subst unat_exp; simp)+
  have le: "(2::nat) ^ k \<le> 2 ^ 11" "(2::nat) ^ (i + 2) \<le> 2 ^ 11" using k(1) i by (intro power_increasing; simp)+
  have c: "(ucast (2 ^ k :: u32) :: u16) = 2 ^ k" using k(1) i by (simp add: ucast_two_power)
  have sm: "SLAB_MAX = 2048" "SLAB_MIN = 4" by (simp_all add: SLAB_MAX_def LIST_SIZE_def SLAB_MIN_def)
  have small: "(2 ^ k :: u32) \<le> ucast SLAB_MAX" "(2 ^ k :: u16) \<noteq> 0" "(2 ^ k :: u16) \<le> 2048"
    using le u by (simp_all add: word_le_nat_alt sm unat_eq_zero [symmetric] del: unat_eq_zero)
  have min: "(if (2 ^ k :: u16) < 4 then 4 else 2 ^ k) = (2 ^ (i + 2) :: u16)"
  proof (cases "k < 2")
    case True
    then have "i = 0" using k(3) by (cases i) auto
    moreover have "(2::nat) ^ k \<le> 2 ^ 1" using True by (intro power_increasing) simp_all
    ultimately show ?thesis using u by (simp add: word_less_nat_alt)
  next
    case False
    then have "k = i + 2" using k by (cases "i = 0") auto
    moreover have "(2::nat) ^ 2 \<le> 2 ^ k" using False by (intro power_increasing) simp_all
    ultimately show ?thesis using u by (simp add: word_less_nat_alt)
  qed
  have f: "fixSize (ucast (2 ^ (i + 2) :: u16)) = 2 ^ (i + 2)" "(ucast (2 ^ (i + 2) :: u32) :: u16) = 2 ^ (i + 2)"
    using i by (subst ucast_two_power; simp add: fixSize_two_power del: power_Suc power_add)+
  have idx: "SLAB_INDEX (2 ^ (i + 2)) = Some i" using slab_alloc_power [of "i + 2"] i f by simp
  have "slab_alloc (2 ^ k) h = (case slab_alloc_core (Slab i) Full (2 ^ (i + 2)) (h\<lparr>kh_lock := 1\<rparr>) of
    None \<Rightarrow> None | Some (ret, h') \<Rightarrow> Some (ret, h'\<lparr>kh_lock := 0\<rparr>))"
    unfolding slab_alloc_def Let_def sm min f idx using small assms(2) by (simp split: option.splits)
  then show ?thesis using small(1) c k(2) by (simp add: kmalloc_def)
qed

lemma list_size_lock [simp]: "list_size (h\<lparr>kh_lock := x\<rparr>) l = list_size h l"
  by (rule list_size_cong) simp

lemma slab_inv_lock [simp]: "slab_inv (h\<lparr>kh_lock := x\<rparr>) F = slab_inv h F"
  by (simp add: slab_inv_def slab_page_def)

lemma chunk_lock [simp]:
  "chunk_out pg full c cs (h\<lparr>kh_lock := x\<rparr>) = (chunk_out pg full c cs h)\<lparr>kh_lock := x\<rparr>"
  "chunk_in pg l a (h\<lparr>kh_lock := x\<rparr>) = (chunk_in pg l a h)\<lparr>kh_lock := x\<rparr>"
  by (simp_all add: chunk_out_def chunk_in_def)

lemma kmalloc_small:
  assumes inv: "slab_inv h F" and "kh_lock h \<noteq> 1" and i: "in_class sz i" and l: "kh_list h (Slab i) = pg # rest"
  obtains c cs where "F pg = c # cs" "kmalloc sz h = Some (c, (chunk_out pg Full c cs h)\<lparr>kh_lock := 0\<rparr>)"
    "slab_inv (chunk_out pg Full c cs h) (F(pg := cs))" "si_size (kh_slab h pg) = 2 ^ (i + 2)"
    "unat (si_n_allocated (kh_slab h pg) + 1) = unat (si_n_allocated (kh_slab h pg)) + 1"
proof -
  have pg: "pg \<in> set (kh_list h (Slab i))" using l by simp
  have sz: "i < LIST_SIZE" "si_size (kh_slab h pg) = 2 ^ (i + 2)"
    using i slab_invD(6) [OF inv pg] by (simp_all add: in_class_def)
  obtain c cs where F: "F pg = c # cs" using slab_invD(4) [OF inv pg] by (cases "F pg") auto
  have full: "si_size (kh_slab h pg) \<in> list_size (h\<lparr>kh_lock := 1\<rparr>) Full" using sz by auto
  note r = slab_alloc_core_ok [where h = "h\<lparr>kh_lock := 1\<rparr>" and l = "Slab i" and full = Full and F = F and rest = rest]
  show thesis
  proof (rule that [OF F _ _ sz(2)])
    show "kmalloc sz h = Some (c, (chunk_out pg Full c cs h)\<lparr>kh_lock := 0\<rparr>)"
      using kmalloc_class [OF i assms(2)] r(1) inv l F full by simp
  qed (use r(2,3) inv l F full in simp_all)
qed

lemma kfree_small:
  assumes inv: "slab_inv h F" and pg: "pg \<in> set (kh_list h k)" and "kh_lock h \<noteq> 1" "i < LIST_SIZE"
    and size: "si_size (kh_slab h pg) = 2 ^ (i + 2)"
    and a: "PAGE_CEIL a = pg_data (kh_page h pg)" "a \<noteq> 0" "a \<notin> set (F pg)" "si_n_allocated (kh_slab h pg) \<noteq> 0"
  shows "kfree a h = Some ((chunk_in pg (Slab i) a h)\<lparr>kh_lock := 0\<rparr>)"
    "slab_inv (chunk_in pg (Slab i) a h) (F(pg := a # F pg))"
proof -
  have sp: "slab_page h F pg" using slab_invD(3) [OF inv pg] .
  have slab: "is_slab (kh_page h pg)" "va_get_page (PAGE_CEIL a) (kh_mem h) = Some (Some pg)"
    using sp a(1) by (simp_all add: slab_page_def)
  have u: "unat (of_nat (i + 2) :: u8) = i + 2" using assms(4) by (subst unat_of_nat) (simp add: LIST_SIZE_def)
  have idx: "SLAB_INDEX (2 ^ (i + 2)) = Some i"
    using assms(4) u by (simp add: SLAB_INDEX_def log2_exp LIST_SIZE_def del: power_Suc power_add of_nat_add of_nat_Suc)
  have cls: "si_size (kh_slab h pg) \<in> list_size (h\<lparr>kh_lock := 1\<rparr>) (Slab i)" using size assms(4) by simp
  note r = slab_free_core_ok [of "h\<lparr>kh_lock := 1\<rparr>" F pg k "Slab i" a]
  show "kfree a h = Some ((chunk_in pg (Slab i) a h)\<lparr>kh_lock := 0\<rparr>)"
    using r(1) inv pg a cls slab idx size assms(3) by (simp add: kfree_def slab_free_def)
  show "slab_inv (chunk_in pg (Slab i) a h) (F(pg := a # F pg))" using r(2) inv pg a cls by simp
qed

section \<open>The heap\<close>

text \<open>
  The slab allocator on top of the page allocator: its pages are blocks of one page in use, mapped
  at their physical address plus 3 GB, and the free pages of the page allocator are not mapped.
\<close>

definition heap_inv :: "kheap \<Rightarrow> (nat \<Rightarrow> ptr_t list) \<Rightarrow> bool" where
  "heap_inv h F \<longleftrightarrow> slab_inv h F \<and>
     (let s = km_pmm (kh_mem h) in
      buddy_inv s \<and> 4096 dvd unat (ba_addr s) \<and> 0 < unat (ba_addr s) \<and>
      unat (ba_addr s) + 4096 * ba_npages s \<le> unat PHYS_TOP \<and>
      (\<forall>l. \<forall>pg\<in>set (kh_list h l). in_use s pg = Some 0 \<and> pg_data (ba_pages s pg) = page_addr pg s + KERNEL_START) \<and>
      (\<forall>pg. free_region s pg 0 \<longrightarrow> km_pt (kh_mem h) (unat (page_addr pg s) div 4096) AND VM_PRES = 0))"

lemma heap_invD:
  assumes "heap_inv h F"
  shows "slab_inv h F" "buddy_inv (km_pmm (kh_mem h))" "4096 dvd unat (ba_addr (km_pmm (kh_mem h)))"
    "0 < unat (ba_addr (km_pmm (kh_mem h)))"
    "unat (ba_addr (km_pmm (kh_mem h))) + 4096 * ba_npages (km_pmm (kh_mem h)) \<le> unat PHYS_TOP"
    "pg \<in> set (kh_list h l) \<Longrightarrow> in_use (km_pmm (kh_mem h)) pg = Some 0"
    "pg \<in> set (kh_list h l) \<Longrightarrow> pg_data (kh_page h pg) = page_addr pg (km_pmm (kh_mem h)) + KERNEL_START"
    "free_region (km_pmm (kh_mem h)) pg 0 \<Longrightarrow>
       km_pt (kh_mem h) (unat (page_addr pg (km_pmm (kh_mem h))) div 4096) AND VM_PRES = 0"
  using assms by (simp_all add: heap_inv_def Let_def)

lemma heap_inv_lock [simp]: "heap_inv (h\<lparr>kh_lock := x\<rparr>) F = heap_inv h F"
  by (simp add: heap_inv_def)

text \<open>Only the head flag, the size and the reference count of a page matter to the page allocator.\<close>

lemma pmm_same_page:
  assumes "same_page (g (ba_pages s pg)) (ba_pages s pg)"
  shows "in_use (upd_page pg g s) = in_use s" "buddy_inv (upd_page pg g s) = buddy_inv s"
    "free_region (upd_page pg g s) q d = free_region s q d" "page_addr q (upd_page pg g s) = page_addr q s"
proof -
  let ?s = "upd_page pg g s"
  show use: "in_use ?s = in_use s"
    using assms by (intro ext) (simp add: in_use_def page_order_def same_page_def)
  show "free_region ?s q d = free_region s q d" using use by (intro free_region_cong) simp_all
  have "buddy_ok {} ?s = buddy_ok {} s" using assms by (intro ext buddy_ok_cong) simp_all
  then show "buddy_inv ?s = buddy_inv s" by (simp add: buddy_inv_def)
  show "page_addr q ?s = page_addr q s" by (simp add: page_addr_def)
qed

lemma heap_inv_page_lock:
  assumes inv: "heap_inv h F" and s: "slab_inv h' F'" and pt: "km_pt (kh_mem h') = km_pt (kh_mem h)"
    and pmm: "km_pmm (kh_mem h') = upd_page pg (\<lambda>p. p\<lparr>pg_rwlock := lk p\<rparr>) (km_pmm (kh_mem h))"
    and mem: "\<And>q k. q \<in> set (kh_list h' k) \<Longrightarrow> \<exists>k. q \<in> set (kh_list h k)"
  shows "heap_inv h' F'"
proof -
  have page: "in_use (km_pmm (kh_mem h)) q = Some 0 \<and> pg_data (kh_page h q) = page_addr q (km_pmm (kh_mem h)) + KERNEL_START"
    if "q \<in> set (kh_list h' k)" for q k
    using mem [OF that] heap_invD(6,7) [OF inv] by blast
  have data: "pg_data (kh_page h' q) = pg_data (kh_page h q)" for q using pmm by simp
  have conf: "ba_addr (km_pmm (kh_mem h')) = ba_addr (km_pmm (kh_mem h))" "ba_npages (km_pmm (kh_mem h')) = ba_npages (km_pmm (kh_mem h))"
    using pmm by simp_all
  have "same_page ((\<lambda>p. p\<lparr>pg_rwlock := lk p\<rparr>) p) p" for p by (simp add: same_page_def page_head_def)
  note same = pmm_same_page [where pg = pg and s = "km_pmm (kh_mem h)" and g = "\<lambda>p. p\<lparr>pg_rwlock := lk p\<rparr>",
    OF this, folded pmm]
  show ?thesis
    unfolding heap_inv_def Let_def same data conf pt using s page heap_invD(2-5,8) [OF inv] by blast
qed

text \<open>The chunks of a new slab of the class \<open>i\<close> whose page is at \<open>va\<close>.\<close>

definition slab_chunks :: "nat \<Rightarrow> ptr_t \<Rightarrow> ptr_t list" where
  "slab_chunks i va = chunks (2 ^ (10 - i)) va (2 ^ (i + 2))"

lemma slab_chunks:
  assumes va: "4096 dvd unat va" "va \<noteq> 0" "unat va + 4096 \<le> 2 ^ 32" and i: "i < LIST_SIZE"
  shows "chunk_path (chunk_loop (2 ^ (10 - i) - 1) va (2 ^ (i + 2)) m) va (slab_chunks i va)"
    "distinct (slab_chunks i va)" "length (slab_chunks i va) = 2 ^ (10 - i)"
    "c \<in> set (slab_chunks i va) \<Longrightarrow> PAGE_CEIL c = va"
    "PAGE_CEIL x \<noteq> va \<Longrightarrow> chunk_loop (2 ^ (10 - i) - 1) va (2 ^ (i + 2)) m x = m x"
proof -
  have i10: "i < 10" using i by (simp add: LIST_SIZE_def)
  have u: "unat (2 ^ (i + 2) :: u32) = 2 ^ (i + 2)" using i10 by (subst unat_exp) simp_all
  have "(2::nat) ^ (10 - i) * 2 ^ (i + 2) = 2 ^ 12" using i10 by (subst power_add [symmetric]) simp
  then have n: "2 ^ (10 - i) * unat (2 ^ (i + 2) :: u32) = 4096" using u by simp
  have nz: "(2 ^ (i + 2) :: u32) \<noteq> 0" using u by (metis power_eq_0_iff unat_0 zero_neq_numeral)
  have Suc: "Suc (2 ^ (10 - i) - 1) = 2 ^ (10 - i)" by simp
  have le: "unat va + Suc (2 ^ (10 - i) - 1) * unat (2 ^ (i + 2) :: u32) \<le> 2 ^ 32" using va(3) n unfolding Suc by simp
  show "chunk_path (chunk_loop (2 ^ (10 - i) - 1) va (2 ^ (i + 2)) m) va (slab_chunks i va)"
    using chunk_loop_path [OF le nz va(2), of m] unfolding slab_chunks_def Suc .
  show "distinct (slab_chunks i va)" using distinct_chunks [OF le nz] unfolding slab_chunks_def Suc .
  show "length (slab_chunks i va) = 2 ^ (10 - i)" by (simp add: slab_chunks_def chunks_def)
  show ceil: "PAGE_CEIL c = va" if c: "c \<in> set (slab_chunks i va)" for c
  proof -
    obtain k where k: "k < 2 ^ (10 - i)" "c = va + of_nat k * 2 ^ (i + 2)" using c unfolding slab_chunks_def chunks_def by auto
    have "unat c = unat va + k * 2 ^ (i + 2)" using unat_chunk [OF le _ nz, of k] k u unfolding Suc by simp
    moreover have "k * 2 ^ (i + 2) < 4096" using k(1) n u by (metis mult_less_mono1 zero_less_numeral zero_less_power)
    moreover obtain q where "unat va = 4096 * q" using va(1) by (auto elim: dvdE)
    ultimately have "unat (PAGE_CEIL c) = unat va" by (simp add: unat_PAGE_CEIL)
    then show ?thesis by (simp add: word_unat_eq_iff)
  qed
  show "chunk_loop (2 ^ (10 - i) - 1) va (2 ^ (i + 2)) m x = m x" if "PAGE_CEIL x \<noteq> va"
    using ceil that by (intro chunk_loop_frame) (auto simp: slab_chunks_def)
qed

lemma fixSize_PAGE_SIZE: "fixSize PAGE_SIZE = ORDER_SIZE 0"
  by (simp add: fixSize_def IS_POWER_OF_2_def ORDER_SIZE_eq PAGE_SIZE_def)

text \<open>The state after \<^verbatim>\<open>add_slab\<close>, for the page \<open>pg\<close> that \<^verbatim>\<open>__alloc_page\<close> returned with the state \<open>s\<close>.\<close>

definition slab_added :: "nat \<Rightarrow> nat \<Rightarrow> buddyAllocator \<Rightarrow> kheap \<Rightarrow> kheap" where
  "slab_added i pg s h = (let va = page_addr pg s + KERNEL_START in h\<lparr>
     kh_mem := (kh_mem h)\<lparr>km_pmm := upd_page pg (\<lambda>p. p\<lparr>pg_flag := pg_flag p OR PG_SLAB, pg_data := va\<rparr>) s,
       km_pt := (km_pt (kh_mem h))(unat (page_addr pg s) div 4096 := page_addr pg s OR (VM_PRES OR VM_KRW)),
       km_word := chunk_loop (2 ^ (10 - i) - 1) va (2 ^ (i + 2)) (km_word (kh_mem h))\<rparr>,
     kh_slab := (kh_slab h)(pg := (kh_slab h pg)\<lparr>si_size := 2 ^ (i + 2), si_n_allocated := 0, si_chunk := va,
       si_magic := SLAB_MAGIC\<rparr>),
     kh_list := (kh_list h)(Slab i := pg # kh_list h (Slab i))\<rparr>)"

lemma add_slab_eq:
  assumes inv: "heap_inv h F" and i: "i < LIST_SIZE" and a: "alloc_page_core PAGE_SIZE (km_pmm (kh_mem h)) = Some (pg, s)"
  shows "add_slab (Slab i) (2 ^ (i + 2)) h = Some (slab_added i pg s h)"
proof -
  let ?s = "km_pmm (kh_mem h)"
  have i10: "i < 10" using i by (simp add: LIST_SIZE_def)
  have sz: "fixSize PAGE_SIZE = ORDER_SIZE 0" "0 \<le> MAX_ORDER" by (simp_all add: fixSize_PAGE_SIZE)
  note fr = alloc_page_frame [OF heap_invD(2) [OF inv] sz a]
  have al: "free_region ?s pg 0" "ba_addr s = ba_addr ?s"
    using alloc_page_cases [OF heap_invD(2) [OF inv] sz] a by simp_all
  have addr: "page_addr q s = page_addr q ?s" for q using al(2) by (simp add: page_addr_def)
  have "pg < ba_npages s" using fr(3,4) heap_invD(2) [OF inv] by (auto simp: buddy_inv_def)
  then have map: "kvm_map pg f ((kh_mem h)\<lparr>km_pmm := upd_page pg (\<lambda>p. p\<lparr>pg_flag := pg_flag p OR PG_SLAB\<rparr>) s\<rparr>) =
    Some ((kh_mem h)\<lparr>km_pmm := upd_page pg (\<lambda>p. p\<lparr>pg_flag := pg_flag p OR PG_SLAB, pg_data := page_addr pg s + KERNEL_START\<rparr>) s,
      km_pt := (km_pt (kh_mem h))(unat (page_addr pg s) div 4096 := page_addr pg s OR f)\<rparr>)" for f
    using heap_invD(3-5,8) [OF inv] al fr(2,4) addr by (subst kvm_map_page) (simp_all)
  have u: "unat (2 ^ (i + 2) :: u16) = 2 ^ (i + 2)" "unat (2 ^ (i + 2) :: u32) = 2 ^ (i + 2)"
    using i10 by (subst unat_exp; simp)+
  then have nz: "(2 ^ (i + 2) :: u16) \<noteq> 0" by (metis power_eq_0_iff unat_0 zero_neq_numeral)
  have c: "(ucast (2 ^ (i + 2) :: u16) :: u32) = 2 ^ (i + 2)" using i10 by (subst ucast_two_power) simp_all
  have "(4096::nat) = 2 ^ (10 - i) * 2 ^ (i + 2)" using i10 by (subst power_add [symmetric]) simp
  then have q: "(4096::nat) div 2 ^ (i + 2) = 2 ^ (10 - i)" by (metis nonzero_mult_div_cancel_right power_not_zero zero_neq_numeral)
  have "(2::nat) ^ (10 - i) < 2 ^ 16" by (rule power_strict_increasing) simp_all
  then have cnt: "unat (ucast (PAGE_SIZE div ucast (2 ^ (i + 2) :: u16) :: u32) :: u16) = 2 ^ (10 - i)"
    using u q i10 by (simp add: c unsigned_ucast_eq unat_div take_bit_nat_eq_self del: power_add power_Suc)
  define z :: u16 where "z = 2 ^ (i + 2)"
  show ?thesis
    using nz cnt c unfolding add_slab_def a slab_added_def z_def [symmetric] by (simp add: map Let_def)
qed

text \<open>The new page is in no list, has no free chunks recorded, and the address of its frame is its own.\<close>

lemma new_page:
  assumes inv: "heap_inv h F" and a: "alloc_page_core PAGE_SIZE (km_pmm (kh_mem h)) = Some (pg, s)"
  shows "pg \<notin> set (kh_list h l)" "F pg = []" "pg < ba_npages s" "free_region (km_pmm (kh_mem h)) pg 0"
    "in_use s = (in_use (km_pmm (kh_mem h)))(pg \<mapsto> 0)" "buddy_inv s" "page_addr q s = page_addr q (km_pmm (kh_mem h))"
    "ba_addr s = ba_addr (km_pmm (kh_mem h))" "ba_npages s = ba_npages (km_pmm (kh_mem h))"
    "ba_pageCnt s = ba_pageCnt (km_pmm (kh_mem h))"
    "rw_writelock (pg_rwlock (ba_pages s pg)) = 0" "page_head (ba_pages s pg)"
    "q \<in> set (kh_list h l) \<Longrightarrow> ba_pages s q = kh_page h q"
proof -
  let ?s = "km_pmm (kh_mem h)"
  have sz: "fixSize PAGE_SIZE = ORDER_SIZE 0" "0 \<le> MAX_ORDER" by (simp_all add: fixSize_PAGE_SIZE)
  note fr = alloc_page_frame [OF heap_invD(2) [OF inv] sz a]
  show al: "free_region ?s pg 0" "in_use s = (in_use ?s)(pg \<mapsto> 0)" "buddy_inv s" "ba_addr s = ba_addr ?s"
    "ba_pageCnt s = ba_pageCnt ?s" "rw_writelock (pg_rwlock (ba_pages s pg)) = 0"
    using alloc_page_cases [OF heap_invD(2) [OF inv] sz] a by simp_all
  show np: "ba_npages s = ba_npages ?s" by (rule fr(4))
  show "page_head (ba_pages s pg)" by (rule fr(1))
  show "page_addr q s = page_addr q ?s" using al(4) by (simp add: page_addr_def)
  show "pg < ba_npages s" using fr(3) np heap_invD(2) [OF inv] by (simp add: buddy_inv_def)
  have "in_use ?s pg \<noteq> Some 0" using al(1) unfolding free_region_def by (metis add_le_same_cancel1 le_zero_eq one_neq_zero power_0)
  then show notin: "pg \<notin> set (kh_list h l)" for l using heap_invD(6) [OF inv] by blast
  then show "F pg = []" using slab_invD(7) [OF heap_invD(1) [OF inv]] by blast
  show "ba_pages s q = kh_page h q" if "q \<in> set (kh_list h l)"
    using fr(5) [of q] heap_invD(6) [OF inv that] notin [of l] that by (cases "q = pg") simp_all
qed

lemma page_number_inject:
  assumes "unat (ba_addr s) + 4096 * ba_npages s \<le> unat PHYS_TOP" "p < ba_npages s" "q < ba_npages s"
  shows "unat (page_addr p s) div 4096 = unat (page_addr q s) div 4096 \<longleftrightarrow> p = q"
    "page_addr p s + KERNEL_START = page_addr q s + KERNEL_START \<longleftrightarrow> p = q"
proof -
  have "unat PHYS_TOP \<le> 2 ^ 32" by (simp add: PHYS_TOP_def DEVSP_SIZE_def)
  then have u: "unat (page_addr k s) = unat (ba_addr s) + 4096 * k" if "k < ba_npages s" for k
    using assms(1) that by (intro unat_page_addr) simp_all
  have "(unat (ba_addr s) + 4096 * k) div 4096 = unat (ba_addr s) div 4096 + k" for k by simp
  then show eq: "unat (page_addr p s) div 4096 = unat (page_addr q s) div 4096 \<longleftrightarrow> p = q"
    using u assms(2,3) by simp
  then show "page_addr p s + KERNEL_START = page_addr q s + KERNEL_START \<longleftrightarrow> p = q" by auto
qed

lemma slab_added_va:
  assumes inv: "heap_inv h F" and a: "alloc_page_core PAGE_SIZE (km_pmm (kh_mem h)) = Some (pg, s)"
  shows "va_get_page (page_addr pg s + KERNEL_START) (kh_mem (slab_added i pg s h)) = Some (Some pg)"
    "q \<in> set (kh_list h l) \<Longrightarrow> va_get_page (pg_data (kh_page h q)) (kh_mem (slab_added i pg s h)) = Some (Some q)"
proof -
  let ?s = "km_pmm (kh_mem h)" and ?k = "kh_mem (slab_added i pg s h)"
  note n = new_page [OF inv a]
  have lim: "unat (ba_addr s) + 4096 * ba_npages s \<le> unat PHYS_TOP" using heap_invD(5) [OF inv] n(8,9) by simp
  have lim32: "unat (ba_addr s) + 4096 * ba_npages s \<le> 2 ^ 32" using lim by (simp add: PHYS_TOP_def DEVSP_SIZE_def)
  have al: "4096 dvd unat (ba_addr s)" "0 < unat (ba_addr s)" using heap_invD(3,4) [OF inv] n(8) by simp_all
  note pa = unat_page_addr [OF lim32 n(3)]
  have "PAGE_CEIL (page_addr pg s OR (VM_PRES OR VM_KRW)) = page_addr pg s"
    using pa al(1) by (intro PAGE_CEIL_or_flags) (simp_all add: VM_PRES_def VM_KRW_def)
  then have "v2p (page_addr pg s + KERNEL_START) ?k = Some (page_addr pg s)"
    using v2p_page_addr [OF lim n(3), of ?k] by (simp add: slab_added_def Let_def)
  moreover have "page_addr pg s \<noteq> 0" using pa al(2) by (metis add_is_0 less_numeral_extra(3) unat_0)
  moreover have "page_head (ba_pages (km_pmm ?k) q) = page_head (ba_pages s q)" for q
    by (simp add: slab_added_def Let_def page_head_bit bit_or_iff PG_SLAB_def)
  moreover have "get_page x (km_pmm ?k) = get_page x s" for x by (simp add: slab_added_def Let_def)
  ultimately show "va_get_page (page_addr pg s + KERNEL_START) ?k = Some (Some pg)"
    using get_page_page_addr [OF al(1) lim32 n(3)] n(12) by (simp add: va_get_page_def)
  assume q: "q \<in> set (kh_list h l)"
  have qn: "q < ba_npages ?s" "q \<noteq> pg" "q < ba_npages s"
    using heap_invD(6) [OF inv q] heap_invD(2) [OF inv] n(1) [of l] n(9) q by (auto simp: in_use_def buddy_inv_def split: if_splits)
  then have "v2p (pg_data (kh_page h q)) ?k = v2p (pg_data (kh_page h q)) (kh_mem h)"
    using heap_invD(7) [OF inv q] v2p_page_addr [OF heap_invD(5) [OF inv] qn(1)] n(7) page_number_inject(1) [OF lim qn(3) n(3)]
    by (simp add: slab_added_def Let_def)
  moreover have "va_get_page (pg_data (kh_page h q)) (kh_mem h) = Some (Some q)"
    using slab_invD(3) [OF heap_invD(1) [OF inv] q] by (simp add: slab_page_def)
  moreover have "get_page x (km_pmm ?k) = get_page x ?s" for x using n(8,9) by (simp add: get_page_def slab_added_def Let_def)
  moreover have "page_head (ba_pages (km_pmm ?k) q) = page_head (kh_page h q)"
    using n(13) [OF q] qn(2) by (simp add: slab_added_def Let_def)
  ultimately show "va_get_page (pg_data (kh_page h q)) ?k = Some (Some q)"
    by (auto simp: va_get_page_def split: bind_splits option.splits if_splits)
qed

lemma slab_added_chunks:
  assumes inv: "heap_inv h F" and i: "i < LIST_SIZE" and a: "alloc_page_core PAGE_SIZE (km_pmm (kh_mem h)) = Some (pg, s)"
  defines "va \<equiv> page_addr pg s + KERNEL_START"
  shows "chunk_path (km_word (kh_mem (slab_added i pg s h))) va (slab_chunks i va)" "distinct (slab_chunks i va)"
    "length (slab_chunks i va) = 2 ^ (10 - i)" "c \<in> set (slab_chunks i va) \<Longrightarrow> PAGE_CEIL c = va"
    "PAGE_CEIL x \<noteq> va \<Longrightarrow> kh_word (slab_added i pg s h) x = kh_word h x"
proof -
  note n = new_page [OF inv a]
  have lim: "unat (ba_addr s) + 4096 * ba_npages s \<le> unat PHYS_TOP" using heap_invD(5) [OF inv] n(8,9) by simp
  have ks: "unat PHYS_TOP = 1040187392" "unat KERNEL_START = 3221225472"
    by (simp_all add: PHYS_TOP_def DEVSP_SIZE_def KERNEL_START_def)
  have pa: "unat (page_addr pg s) = unat (ba_addr s) + 4096 * pg" using lim ks n(3) by (intro unat_page_addr) simp_all
  have va: "unat va = unat (ba_addr s) + 4096 * pg + 3221225472"
    unfolding va_def using pa lim ks n(3) by (subst unat_add_no_wrap) simp_all
  have v: "4096 dvd unat va" unfolding va using heap_invD(3) [OF inv] n(8) by (intro dvd_add) simp_all
  have v2: "va \<noteq> 0" "unat va + 4096 \<le> 2 ^ 32" using va lim ks n(3) by auto
  note ch = slab_chunks [OF v v2 i]
  have w: "km_word (kh_mem (slab_added i pg s h)) = chunk_loop (2 ^ (10 - i) - 1) va (2 ^ (i + 2)) (km_word (kh_mem h))"
    by (simp add: slab_added_def Let_def va_def)
  show "chunk_path (km_word (kh_mem (slab_added i pg s h))) va (slab_chunks i va)" unfolding w by (rule ch(1))
  show "distinct (slab_chunks i va)" "length (slab_chunks i va) = 2 ^ (10 - i)" by (rule ch)+
  show "PAGE_CEIL c = va" if "c \<in> set (slab_chunks i va)" using that by (rule ch(4))
  show "kh_word (slab_added i pg s h) x = kh_word h x" if "PAGE_CEIL x \<noteq> va" unfolding w using that by (rule ch(5))
qed

lemma slab_added_page:
  assumes inv: "heap_inv h F" and i: "i < LIST_SIZE" and a: "alloc_page_core PAGE_SIZE (km_pmm (kh_mem h)) = Some (pg, s)"
  shows "slab_page (slab_added i pg s h) (F(pg := slab_chunks i (page_addr pg s + KERNEL_START))) pg"
proof -
  note n = new_page [OF inv a] and ch = slab_added_chunks [OF inv i a] and va = slab_added_va(1) [OF inv a]
  have i10: "i < 10" using i by (simp add: LIST_SIZE_def)
  have u: "unat (2 ^ (i + 2) :: u16) = 2 ^ (i + 2)" using i10 by (subst unat_exp) simp_all
  then have nz: "(2 ^ (i + 2) :: u16) \<noteq> 0" by (metis power_eq_0_iff unat_0 zero_neq_numeral)
  have "(4096::nat) = 2 ^ (10 - i) * 2 ^ (i + 2)" using i10 by (subst power_add [symmetric]) simp
  then have cnt: "(4096::nat) div unat (2 ^ (i + 2) :: u16) = 2 ^ (10 - i)"
    unfolding u by (metis nonzero_mult_div_cancel_right power_not_zero zero_neq_numeral)
  have pg: "kh_page (slab_added i pg s h) pg = (ba_pages s pg)\<lparr>pg_flag := pg_flag (ba_pages s pg) OR PG_SLAB,
      pg_data := page_addr pg s + KERNEL_START\<rparr>"
    and si: "si_chunk (kh_slab (slab_added i pg s h) pg) = page_addr pg s + KERNEL_START"
      "si_size (kh_slab (slab_added i pg s h) pg) = 2 ^ (i + 2)" "si_n_allocated (kh_slab (slab_added i pg s h) pg) = 0"
      "si_magic (kh_slab (slab_added i pg s h) pg) = SLAB_MAGIC"
    by (simp_all add: slab_added_def Let_def)
  have "(g OR PG_SLAB) AND PG_SLAB = PG_SLAB" for g by (rule bit_word_eqI) (auto simp: bit_simps)
  then have slab: "is_slab (p\<lparr>pg_flag := g OR PG_SLAB, pg_data := d\<rparr>)" for p g d
    by (simp add: is_slab_def PG_SLAB_def)
  have ceil: "\<forall>c\<in>set (slab_chunks i (page_addr pg s + KERNEL_START)). PAGE_CEIL c = page_addr pg s + KERNEL_START"
    using ch(4) by blast
  define z :: u16 where "z = 2 ^ (i + 2)"
  show ?thesis
    unfolding slab_page_def pg si z_def [symmetric] fun_upd_same
    using n(11) nz [folded z_def] cnt [folded z_def] ch(1-3) ceil va slab by simp
qed

lemma slab_inv_added:
  assumes inv: "heap_inv h F" and i: "i < LIST_SIZE" and a: "alloc_page_core PAGE_SIZE (km_pmm (kh_mem h)) = Some (pg, s)"
  shows "slab_inv (slab_added i pg s h) (F(pg := slab_chunks i (page_addr pg s + KERNEL_START)))"
proof -
  let ?h = "slab_added i pg s h" and ?va = "page_addr pg s + KERNEL_START"
  let ?F = "F(pg := slab_chunks i ?va)"
  note n = new_page [OF inv a] and si = heap_invD(1) [OF inv] and ch = slab_added_chunks [OF inv i a]
  have lim: "unat (ba_addr s) + 4096 * ba_npages s \<le> unat PHYS_TOP" using heap_invD(5) [OF inv] n(8,9) by simp
  have mem: "q \<in> set (kh_list ?h l) \<longleftrightarrow> (q = pg \<and> l = Slab i) \<or> q \<in> set (kh_list h l)" for q l
    by (auto simp: slab_added_def Let_def)
  have old: "q \<noteq> pg" "kh_page ?h q = kh_page h q" "kh_slab ?h q = kh_slab h q" "pg_data (kh_page h q) \<noteq> ?va"
    if q: "q \<in> set (kh_list h l)" for q l
  proof -
    show qp: "q \<noteq> pg" using n(1) [of l] q by blast
    then show "kh_page ?h q = kh_page h q" "kh_slab ?h q = kh_slab h q" using n(13) [OF q] by (simp_all add: slab_added_def Let_def)
    have "q < ba_npages s" using heap_invD(6) [OF inv q] heap_invD(2) [OF inv] n(9) by (auto simp: in_use_def buddy_inv_def split: if_splits)
    then show "pg_data (kh_page h q) \<noteq> ?va" using heap_invD(7) [OF inv q] page_number_inject(2) [OF lim _ n(3)] qp n(7) by simp
  qed
  have oldpage: "slab_page ?h ?F q" if q: "q \<in> set (kh_list h l)" for q l
  proof -
    have sq: "slab_page h F q" using slab_invD(3) [OF si q] .
    have "chunk_path (km_word (kh_mem ?h)) c (F q) = chunk_path (km_word (kh_mem h)) c (F q)" for c
      using sq old(4) [OF q] ch(5) by (intro chunk_path_cong) (auto simp: slab_page_def)
    then show ?thesis using sq old(1-3) [OF q] slab_added_va(2) [OF inv a q, of i] by (simp add: slab_page_def)
  qed
  have new: "pg_data (kh_page ?h pg) = ?va" "si_size (kh_slab ?h pg) = 2 ^ (i + 2)" "kh_cache ?h = kh_cache h"
    by (simp_all add: slab_added_def Let_def)
  have ne: "slab_chunks i ?va \<noteq> []" using ch(3) by (metis length_0_conv power_not_zero zero_neq_numeral)
  show ?thesis
    unfolding slab_inv_def
  proof (intro conjI allI ballI impI)
    show "distinct (kh_list ?h l)" for l using slab_invD(1) [OF si] n(1) by (simp add: slab_added_def Let_def)
  next
    fix l q assume q: "q \<in> set (kh_list ?h l)"
    have "slab_page ?h ?F q \<and> (partial_list l \<longleftrightarrow> ?F q \<noteq> []) \<and> si_size (kh_slab ?h q) \<in> list_size ?h l"
    proof (cases "q \<in> set (kh_list h l)")
      case True
      then show ?thesis
        using oldpage [OF True] old(1,3) [OF True] slab_invD(4,6) [OF si True] list_size_cong [OF new(3), of l] by simp
    next
      case False
      then have "q = pg" "l = Slab i" using q mem [of q l] by blast+
      then show ?thesis using slab_added_page [OF inv i a] ne new(2) i by simp
    qed
    then show "slab_page ?h ?F q" "partial_list l \<longleftrightarrow> ?F q \<noteq> []" "si_size (kh_slab ?h q) \<in> list_size ?h l" by blast+
  next
    fix l l' q assume "q \<in> set (kh_list ?h l)" "q \<in> set (kh_list ?h l')"
    then have "(q = pg \<and> l = Slab i) \<or> q \<in> set (kh_list h l)" "(q = pg \<and> l' = Slab i) \<or> q \<in> set (kh_list h l')"
      unfolding mem .
    then show "l = l'" using slab_invD(2) [OF si, of q l l'] n(1) by blast
  next
    fix l l' q q' assume q: "q \<in> set (kh_list ?h l)" "q' \<in> set (kh_list ?h l')" "pg_data (kh_page ?h q) = pg_data (kh_page ?h q')"
    show "q = q'"
    proof (cases "q = pg \<or> q' = pg")
      case True
      then show ?thesis using q old(2,4) [of q l] old(2,4) [of q' l'] new(1) unfolding mem by auto
    next
      case False
      then show ?thesis using q slab_invD(5) [OF si, of q l q' l'] old(2) [of q l] old(2) [of q' l'] unfolding mem by simp
    qed
  next
    fix q assume "?F q \<noteq> []"
    then show "\<exists>l. q \<in> set (kh_list ?h l)" using mem slab_invD(7) [OF si, of q] by (cases "q = pg") auto
  qed
qed

lemma heap_inv_added:
  assumes inv: "heap_inv h F" and i: "i < LIST_SIZE" and a: "alloc_page_core PAGE_SIZE (km_pmm (kh_mem h)) = Some (pg, s)"
  shows "heap_inv (slab_added i pg s h) (F(pg := slab_chunks i (page_addr pg s + KERNEL_START)))"
    "in_use (km_pmm (kh_mem (slab_added i pg s h))) = (in_use (km_pmm (kh_mem h)))(pg \<mapsto> 0)"
proof -
  let ?h = "slab_added i pg s h" and ?S = "km_pmm (kh_mem h)" and ?g = "\<lambda>p. p\<lparr>pg_flag := pg_flag p OR PG_SLAB, pg_data := page_addr pg s + KERNEL_START\<rparr>"
  note n = new_page [OF inv a]
  have pmm: "km_pmm (kh_mem ?h) = upd_page pg ?g s" by (simp add: slab_added_def Let_def)
  have "same_page (?g p) p" for p by (simp add: same_page_def page_head_bit bit_or_iff PG_SLAB_def)
  note same = pmm_same_page [where pg = pg and s = s and g = ?g, OF this, folded pmm]
  show use: "in_use (km_pmm (kh_mem ?h)) = (in_use ?S)(pg \<mapsto> 0)" unfolding same by (rule n(5))
  have conf: "ba_addr (km_pmm (kh_mem ?h)) = ba_addr ?S" "ba_npages (km_pmm (kh_mem ?h)) = ba_npages ?S" using pmm n(8,9) by simp_all
  have page: "in_use s q = Some 0 \<and> pg_data (kh_page ?h q) = page_addr q s + KERNEL_START" if q: "q \<in> set (kh_list ?h l)" for q l
  proof (cases "q = pg")
    case True
    then show ?thesis using n(5) pmm by simp
  next
    case False
    then have ql: "q \<in> set (kh_list h l)" using q by (auto simp: slab_added_def Let_def split: if_splits)
    then show ?thesis using False heap_invD(6,7) [OF inv ql] n(5,7,13) pmm by simp
  qed
  have free: "km_pt (kh_mem ?h) (unat (page_addr q s) div 4096) AND VM_PRES = 0" if q: "free_region s q 0" for q
  proof -
    have qs: "q < ba_npages s" "q \<noteq> pg" using q n(5,6) by (auto simp: free_region_def buddy_inv_def split: if_splits)
    have "\<And>e. in_use ?S pg \<noteq> Some e" using n(4) unfolding free_region_def
      by (metis add_le_same_cancel1 le_zero_eq power_not_zero zero_neq_numeral)
    then have qf: "free_region ?S q 0" using q n(5,10) unfolding free_region_def by (metis fun_upd_other)
    have "unat (ba_addr s) + 4096 * ba_npages s \<le> unat PHYS_TOP" using heap_invD(5) [OF inv] n(8,9) by simp
    then have "unat (page_addr q s) div 4096 \<noteq> unat (page_addr pg s) div 4096"
      using page_number_inject(1) qs n(3) by blast
    then show ?thesis using heap_invD(8) [OF inv qf] n(7) by (simp add: slab_added_def Let_def)
  qed
  show "heap_inv ?h (F(pg := slab_chunks i (page_addr pg s + KERNEL_START)))"
    unfolding heap_inv_def Let_def same conf
    using slab_inv_added [OF inv i a] n(6) heap_invD(3-5) [OF inv] page free by blast
qed

text \<open>A class with a partly used slab: \<^verbatim>\<open>kmalloc\<close> and \<^verbatim>\<open>kfree\<close> change only the lock of the page.\<close>

lemma kmalloc_kfree_partial:
  assumes inv: "heap_inv h F" and lk: "kh_lock h \<noteq> 1" and i: "in_class sz i" and l: "kh_list h (Slab i) = pg # rest"
  obtains c cs where "F pg = c # cs" "kmalloc sz h = Some (c, (chunk_out pg Full c cs h)\<lparr>kh_lock := 0\<rparr>)"
    "heap_inv (chunk_out pg Full c cs h) (F(pg := cs))"
    "kfree c ((chunk_out pg Full c cs h)\<lparr>kh_lock := 0\<rparr>) = Some (h\<lparr>kh_mem := kh_mem (chunk_out pg Full c cs h), kh_lock := 0\<rparr>)"
    "heap_inv (h\<lparr>kh_mem := kh_mem (chunk_out pg Full c cs h)\<rparr>) F"
proof -
  have pg: "pg \<in> set (kh_list h (Slab i))" using l by simp
  note si = heap_invD(1) [OF inv]
  obtain c cs where k: "F pg = c # cs" "kmalloc sz h = Some (c, (chunk_out pg Full c cs h)\<lparr>kh_lock := 0\<rparr>)"
    "slab_inv (chunk_out pg Full c cs h) (F(pg := cs))" "si_size (kh_slab h pg) = 2 ^ (i + 2)"
    "unat (si_n_allocated (kh_slab h pg) + 1) = unat (si_n_allocated (kh_slab h pg)) + 1"
    by (rule kmalloc_small [OF si lk i l])
  let ?h1 = "(chunk_out pg Full c cs h)\<lparr>kh_lock := 0\<rparr>" and ?h2 = "h\<lparr>kh_mem := kh_mem (chunk_out pg Full c cs h)\<rparr>"
  note lockonly = heap_inv_page_lock [OF inv, where pg = pg and lk = "\<lambda>p. (pg_rwlock p)\<lparr>rw_writelock := 0\<rparr>"]
  have sp: "slab_page h F pg" using slab_invD(3) [OF si pg] .
  have c: "PAGE_CEIL c = pg_data (kh_page h pg)" "c \<noteq> 0" "c \<notin> set cs" using sp k(1) by (auto simp: slab_page_def)
  have in1: "pg \<in> set (kh_list ?h1 (if cs = [] then Full else Slab i))" using pg by (simp add: chunk_out_def)
  have n1: "si_n_allocated (kh_slab ?h1 pg) \<noteq> 0"
    using k(5) by (simp add: chunk_out_def) (metis Suc_eq_plus1 nat.distinct(1) unat_0)
  have sz1: "si_size (kh_slab ?h1 pg) = 2 ^ (i + 2)" "kh_lock ?h1 \<noteq> 1" "i < LIST_SIZE"
    "PAGE_CEIL c = pg_data (kh_page ?h1 pg)" "c \<notin> set ((F(pg := cs)) pg)"
    using k(4) i c(1,3) by (simp_all add: chunk_out_def in_class_def)
  have s1: "slab_inv ?h1 (F(pg := cs))" using k(3) by simp
  note f = kfree_small [OF s1 in1 sz1(2,3,1,4) c(2) sz1(5) n1]
  have ci: "chunk_in pg (Slab i) c ?h1 = ?h2\<lparr>kh_lock := 0\<rparr>"
    using chunk_in_out [OF si l _ _ k(1), of Full] by simp
  have upd: "(F(pg := cs))(pg := c # (F(pg := cs)) pg) = F" using k(1) by (auto simp: fun_eq_iff)
  have f1: "kfree c ?h1 = Some (?h2\<lparr>kh_lock := 0\<rparr>)" using f(1) ci by simp
  have s2: "slab_inv ?h2 F" using f(2) unfolding upd ci by simp
  have "\<exists>k. q \<in> set (kh_list h k)" if "q \<in> set (kh_list (chunk_out pg Full c cs h) k')" for q k'
    using that pg set_remove1_subset [of pg "kh_list h k'"] by (auto simp: chunk_out_def split: if_splits intro: exI [of _ "Slab i"])
  then have "heap_inv (chunk_out pg Full c cs h) (F(pg := cs))"
    using k(3) by (intro lockonly) (auto simp: chunk_out_def)
  moreover have "heap_inv ?h2 F" using s2 by (intro lockonly) (auto simp: chunk_out_def)
  ultimately show thesis using that [OF k(1,2)] f1 by simp
qed

lemma kmalloc_needs_page:
  assumes "in_class sz i" "kh_lock h \<noteq> 1" "kh_list h (Slab i) = []" "alloc_page_core PAGE_SIZE (km_pmm (kh_mem h)) = None"
  shows "kmalloc sz h = None"
  using kmalloc_class [OF assms(1,2)] assms(3,4) by (simp add: slab_alloc_core_def add_slab_def)

text \<open>A class without one: \<^verbatim>\<open>kmalloc\<close> first adds a slab.\<close>

lemma kmalloc_fresh:
  assumes inv: "heap_inv h F" and "kh_lock h \<noteq> 1" "in_class sz i" "kh_list h (Slab i) = []"
    and a: "alloc_page_core PAGE_SIZE (km_pmm (kh_mem h)) = Some (pg, s)"
  shows "kmalloc sz h = kmalloc sz ((slab_added i pg s h)\<lparr>kh_lock := 0\<rparr>)"
proof -
  let ?h = "(slab_added i pg s h)\<lparr>kh_lock := 0\<rparr>"
  have i: "i < LIST_SIZE" using assms(3) by (simp add: in_class_def)
  have "slab_added i pg s (h\<lparr>kh_lock := 1\<rparr>) = ?h\<lparr>kh_lock := 1\<rparr>" by (simp add: slab_added_def Let_def)
  then have "add_slab (Slab i) (2 ^ (i + 2)) (h\<lparr>kh_lock := 1\<rparr>) = Some (?h\<lparr>kh_lock := 1\<rparr>)"
    using add_slab_eq [of "h\<lparr>kh_lock := 1\<rparr>" F i pg s] inv i a by simp
  moreover have "kh_list ?h (Slab i) \<noteq> []" by (simp add: slab_added_def Let_def)
  ultimately have "slab_alloc_core (Slab i) Full (2 ^ (i + 2)) (h\<lparr>kh_lock := 1\<rparr>) =
    slab_alloc_core (Slab i) Full (2 ^ (i + 2)) (?h\<lparr>kh_lock := 1\<rparr>)"
    using assms(4) by (simp add: slab_alloc_core_def del: power_add power_Suc)
  moreover have "kh_lock ?h \<noteq> 1" by simp
  ultimately show ?thesis using kmalloc_class [OF assms(3,2)] kmalloc_class [OF assms(3), of ?h] by simp
qed

lemma kmalloc_kfree_reuse:
  assumes inv: "heap_inv h F" and lk: "kh_lock h \<noteq> 1" and i: "in_class sz i" and l: "kh_list h (Slab i) = pg # rest"
    and k: "kmalloc sz h = Some (c, h1)"
  shows "\<exists>cs h2 h3. F pg = c # cs \<and> heap_inv h1 (F(pg := cs)) \<and> kfree c h1 = Some h2 \<and> heap_inv h2 F \<and> kh_lock h2 = 0 \<and>
    kmalloc sz h2 = Some (c, h3) \<and> si_size (kh_slab h2 pg) = 2 ^ (i + 2) \<and> kh_list h2 = kh_list h \<and> kh_slab h2 = kh_slab h \<and>
    km_word (kh_mem h2) = km_word (kh_mem h) \<and> km_pt (kh_mem h2) = km_pt (kh_mem h) \<and>
    in_use (km_pmm (kh_mem h2)) = in_use (km_pmm (kh_mem h)) \<and> pg_data (kh_page h2 pg) = pg_data (kh_page h pg)"
proof -
  obtain cs where r: "F pg = c # cs" "h1 = (chunk_out pg Full c cs h)\<lparr>kh_lock := 0\<rparr>"
    "heap_inv (chunk_out pg Full c cs h) (F(pg := cs))"
    "kfree c h1 = Some (h\<lparr>kh_mem := kh_mem (chunk_out pg Full c cs h), kh_lock := 0\<rparr>)"
    "heap_inv (h\<lparr>kh_mem := kh_mem (chunk_out pg Full c cs h)\<rparr>) F"
    by (rule kmalloc_kfree_partial [OF inv lk i l]) (use k in auto)
  define h2 where "h2 = h\<lparr>kh_mem := kh_mem (chunk_out pg Full c cs h), kh_lock := 0\<rparr>"
  have "heap_inv h2 F" using r(5) heap_inv_lock [where h = "h\<lparr>kh_mem := kh_mem (chunk_out pg Full c cs h)\<rparr>" and x = 0] by (simp add: h2_def)
  moreover have eq: "kh_list h2 = kh_list h" "kh_slab h2 = kh_slab h" "kh_lock h2 = 0" "km_word (kh_mem h2) = km_word (kh_mem h)"
    "km_pt (kh_mem h2) = km_pt (kh_mem h)" "pg_data (kh_page h2 pg) = pg_data (kh_page h pg)"
    by (simp_all add: h2_def chunk_out_def)
  have pmm: "km_pmm (kh_mem h2) = upd_page pg (\<lambda>p. p\<lparr>pg_rwlock := (pg_rwlock p)\<lparr>rw_writelock := 0\<rparr>\<rparr>) (km_pmm (kh_mem h))"
    by (simp add: h2_def chunk_out_def)
  have "in_use (km_pmm (kh_mem h2)) = in_use (km_pmm (kh_mem h))"
    unfolding pmm by (rule pmm_same_page) (simp add: same_page_def page_head_def)
  moreover have "kh_lock h2 \<noteq> 1" "kh_list h2 (Slab i) = pg # rest" using eq(1,3) l by simp_all
  from kmalloc_small [OF heap_invD(1) [OF \<open>heap_inv h2 F\<close>] this(1) i this(2)]
  have "\<exists>h3. kmalloc sz h2 = Some (c, h3)" "si_size (kh_slab h2 pg) = 2 ^ (i + 2)" using r(1) by (metis list.inject)+
  ultimately show ?thesis using r(1-4) eq unfolding h2_def [symmetric] by (metis heap_inv_lock)
qed

section \<open>Properties\<close>

text \<open>
  C9. The kernel heap. A request of at most 2048 bytes for which \<^verbatim>\<open>kmalloc\<close> returns \<open>c\<close> has taken
  exactly that chunk from the free chunks of one slab of the least fitting power of two, and
  \<^verbatim>\<open>kfree\<close> of \<open>c\<close> returns and makes it free again; both leave the heap well-formed (each slab page is
  in the list of its size and kind, its chain and its counter agree, no free chunk is lost, the page
  allocator is well-formed). When the size class had a partly used slab, \<^verbatim>\<open>kfree\<close> has restored all
  lists, slab descriptors, words of memory, page tables and blocks in use. When it had none, exactly one free page
  has become a slab of that class, all of whose chunks are free. In both cases the next request of
  the class gets \<open>c\<close> again.
\<close>

theorem kmalloc_kfree_roundtrip:
  assumes "heap_inv h F" "kh_lock h \<noteq> 1" "in_class sz i" "kmalloc sz h = Some (c, h1)"
  shows "\<exists>pg cs F' h2 h3. F' pg = c # cs \<and> heap_inv h1 (F'(pg := cs)) \<and>
    kfree c h1 = Some h2 \<and> heap_inv h2 F' \<and> kh_lock h2 = 0 \<and> kmalloc sz h2 = Some (c, h3) \<and>
    si_size (kh_slab h2 pg) = 2 ^ (i + 2) \<and>
    (if kh_list h (Slab i) \<noteq> [] then
       pg = hd (kh_list h (Slab i)) \<and> F' = F \<and> kh_list h2 = kh_list h \<and> kh_slab h2 = kh_slab h \<and>
       km_word (kh_mem h2) = km_word (kh_mem h) \<and> km_pt (kh_mem h2) = km_pt (kh_mem h) \<and>
       in_use (km_pmm (kh_mem h2)) = in_use (km_pmm (kh_mem h))
     else
       free_region (km_pmm (kh_mem h)) pg 0 \<and> in_use (km_pmm (kh_mem h2)) = (in_use (km_pmm (kh_mem h)))(pg \<mapsto> 0) \<and>
       F' = F(pg := slab_chunks i (pg_data (kh_page h2 pg))) \<and> kh_list h2 = (kh_list h)(Slab i := [pg]) \<and>
       kh_slab h2 = (kh_slab h)(pg := kh_slab h2 pg) \<and> si_n_allocated (kh_slab h2 pg) = 0)"
proof (cases "kh_list h (Slab i)")
  case (Cons pg rest)
  show ?thesis
    using kmalloc_kfree_reuse [OF assms(1-3) Cons assms(4)] Cons by auto
next
  case Nil
  obtain pg s where a: "alloc_page_core PAGE_SIZE (km_pmm (kh_mem h)) = Some (pg, s)"
    using kmalloc_needs_page [OF assms(3,2) Nil] assms(4)
    by (cases "alloc_page_core PAGE_SIZE (km_pmm (kh_mem h))") auto
  let ?h = "(slab_added i pg s h)\<lparr>kh_lock := 0\<rparr>" and ?va = "page_addr pg s + KERNEL_START"
  have i: "i < LIST_SIZE" using assms(3) by (simp add: in_class_def)
  note n = heap_inv_added [OF assms(1) i a]
  have h: "kh_list ?h = (kh_list h)(Slab i := [pg])" "kh_slab ?h = (kh_slab h)(pg := kh_slab ?h pg)"
    "si_n_allocated (kh_slab ?h pg) = 0" "pg_data (kh_page ?h pg) = ?va"
    using Nil by (simp_all add: slab_added_def Let_def)
  have "heap_inv ?h (F(pg := slab_chunks i ?va))" "kh_lock ?h \<noteq> 1" "kh_list ?h (Slab i) = pg # []"
    "kmalloc sz ?h = Some (c, h1)"
    using n(1) h(1) kmalloc_fresh [OF assms(1-3) Nil a] assms(4) by simp_all
  from kmalloc_kfree_reuse [OF this(1,2) assms(3) this(3,4)]
  obtain cs h2 h3 where r: "(F(pg := slab_chunks i ?va)) pg = c # cs" "heap_inv h1 ((F(pg := slab_chunks i ?va))(pg := cs))"
    "kfree c h1 = Some h2" "heap_inv h2 (F(pg := slab_chunks i ?va))" "kh_lock h2 = 0" "kmalloc sz h2 = Some (c, h3)"
    "si_size (kh_slab h2 pg) = 2 ^ (i + 2)" "kh_list h2 = kh_list ?h" "kh_slab h2 = kh_slab ?h"
    "in_use (km_pmm (kh_mem h2)) = in_use (km_pmm (kh_mem ?h))" "pg_data (kh_page h2 pg) = pg_data (kh_page ?h pg)"
    by blast
  have e: "in_use (km_pmm (kh_mem h2)) = (in_use (km_pmm (kh_mem h)))(pg \<mapsto> 0)"
    "kh_slab h2 = (kh_slab h)(pg := kh_slab h2 pg)" "si_n_allocated (kh_slab h2 pg) = 0"
    "kh_list h2 = (kh_list h)(Slab i := [pg])" "F(pg := slab_chunks i ?va) = F(pg := slab_chunks i (pg_data (kh_page h2 pg)))"
    using r(8-11) n(2) h by simp_all
  have nil: "\<not> kh_list h (Slab i) \<noteq> []" using Nil by simp
  show ?thesis
    unfolding if_not_P [OF nil] using r(1-7) e new_page(4) [OF assms(1) a] by blast
qed

text \<open>A heap for the witness: four free pages from 1 MB on, no slab.\<close>

lemma demo_heap:
  obtains h c h1 where "heap_inv h (\<lambda>_. [])" "kh_lock h = 0" "in_class 700 8" "kh_list h (Slab 8) = []"
    "kmalloc 700 h = Some (c, h1)"
proof (rule small_buddy)
  fix s :: buddyAllocator and h0 :: kheap and k0 :: kmem
  assume s: "buddy_inv s" "in_use s = (\<lambda>_. None)" "free_region s 0 0" "ba_npages s = 4" "ba_addr s = 0x100000"
  define h where "h = h0\<lparr>kh_mem := k0\<lparr>km_pmm := s, km_pt := \<lambda>_. 0\<rparr>, kh_list := (\<lambda>_. []), kh_lock := 0\<rparr>"
  have inv: "heap_inv h (\<lambda>_. [])"
    using s by (simp add: heap_inv_def slab_inv_def h_def PHYS_TOP_def DEVSP_SIZE_def)
  have cls: "in_class 700 8" "kh_lock h \<noteq> 1" "kh_list h (Slab 8) = []" by (simp_all add: in_class_def LIST_SIZE_def h_def)
  have "fixSize PAGE_SIZE = ORDER_SIZE 0" "0 \<le> MAX_ORDER" by (simp_all add: fixSize_PAGE_SIZE)
  from alloc_page_cases [OF s(1) this] obtain pg s' where a: "alloc_page_core PAGE_SIZE (km_pmm (kh_mem h)) = Some (pg, s')"
    using s(3) by (auto simp: h_def split: option.splits)
  let ?h = "(slab_added 8 pg s' h)\<lparr>kh_lock := 0\<rparr>"
  have "heap_inv ?h ((\<lambda>_. [])(pg := slab_chunks 8 (page_addr pg s' + KERNEL_START)))" "kh_list ?h (Slab 8) = pg # []" "kh_lock ?h \<noteq> 1"
    using heap_inv_added(1) [OF inv _ a, of 8] by (simp_all add: LIST_SIZE_def) (simp add: slab_added_def Let_def h_def)
  from kmalloc_small [OF heap_invD(1) [OF this(1)] this(3) cls(1) this(2)] obtain c h1 where "kmalloc 700 ?h = Some (c, h1)" by metis
  then show thesis using that [OF inv _ cls(1,3)] kmalloc_fresh [OF inv cls(2,1,3) a] by (simp add: h_def)
qed

theorem kmalloc_kfree_roundtrip_witness:
  "\<exists>h c h1 h2 h3 h4 F. heap_inv h (\<lambda>_. []) \<and> kh_list h (Slab 8) = [] \<and> kmalloc 700 h = Some (c, h1) \<and> kfree c h1 = Some h2 \<and>
     heap_inv h2 F \<and> kmalloc 700 h2 = Some (c, h3) \<and> kfree c h3 = Some h4 \<and> kh_list h4 = kh_list h2 \<and> kh_list h2 (Slab 8) \<noteq> []"
proof (rule demo_heap)
  fix h c h1 assume h: "heap_inv h (\<lambda>_. [])" "kh_lock h = 0" "in_class 700 8" "kh_list h (Slab 8) = []" "kmalloc 700 h = Some (c, h1)"
  obtain pg F h2 h3 where r: "kfree c h1 = Some h2" "heap_inv h2 F" "kh_lock h2 = 0" "kmalloc 700 h2 = Some (c, h3)"
    "kh_list h2 = (kh_list h)(Slab 8 := [pg])"
    using kmalloc_kfree_roundtrip [OF h(1) _ h(3,5)] h(2,4) by auto
  then have "kh_list h2 (Slab 8) \<noteq> []" by simp
  moreover from this obtain h4 where "kfree c h3 = Some h4" "kh_list h4 = kh_list h2"
    using kmalloc_kfree_roundtrip [OF r(2) _ h(3) r(4)] r(3) by auto
  ultimately show ?thesis using h r by blast
qed

text \<open>
  Recycling blocks. \<^verbatim>\<open>recycle\<close> holds the write lock of a page when it calls \<^verbatim>\<open>__free_page\<close>, which
  takes the same lock: as soon as the first slab of the list has no chunk in use, \<^verbatim>\<open>recycle\<close> of that
  list never returns.
\<close>

theorem recycle_never_returns:
  assumes "kh_list h l = pg # rest" "si_n_allocated (kh_slab h pg) = 0"
  shows "recycle l h = None"
  using assms by (simp add: recycle_def free_page_core_def wlock_lock_eq Let_def)

theorem recycle_never_returns_witness:
  "\<exists>h. kh_list h (Slab 0) = [2] \<and> si_n_allocated (kh_slab h 2) = 0 \<and> recycle (Slab 0) h = None"
proof -
  fix h0 :: kheap and i0 :: slabInfo
  let ?h = "h0\<lparr>kh_list := (\<lambda>_. [2]), kh_slab := (\<lambda>_. i0\<lparr>si_n_allocated := 0\<rparr>)\<rparr>"
  have "recycle (Slab 0) ?h = None" by (rule recycle_never_returns) simp_all
  then show ?thesis by (intro exI [of _ ?h]) simp
qed

end
