(* ===== verification/FdTable.thy ===== *)
theory FdTable
  imports Kvm
begin

text \<open>
  The table of open files, \<^verbatim>\<open>fs/hash.c\<close>: \<^verbatim>\<open>file_table\<close> maps file descriptors to inodes, and a hash
  table with quadratic probing maps inodes back to descriptors. An inode is the address of its
  structure. An access outside \<^verbatim>\<open>file_table\<close> is undefined in C, \<open>None\<close> here.
\<close>

section \<open>Definitions\<close>

definition FILE_TABLE_SIZE :: int where "FILE_TABLE_SIZE = 1024"
definition FILE_HASH_SIZE :: u32 where "FILE_HASH_SIZE = 1031"
definition FILE_HASH_SQRT :: int where "FILE_HASH_SQRT = 32"

record hash_entry =
  he_key :: ptr_t
  he_value :: int

record fd_hash =
  fh_entry :: "u32 \<Rightarrow> hash_entry"
  fh_file_table :: "int \<Rightarrow> ptr_t"

definition hash_start :: fd_hash where
  "hash_start = \<lparr>fh_entry = (\<lambda>_. \<lparr>he_key = 0, he_value = 0\<rparr>), fh_file_table = (\<lambda>_. 0)\<rparr>"

definition hash_generate :: "ptr_t \<Rightarrow> u32 option" where
  "hash_generate inode = do {
     assertk (inode > KERNEL_START);
     Some ((inode - KERNEL_START) mod FILE_HASH_SIZE)
   }"

definition hash_conflict :: "u32 \<Rightarrow> int \<Rightarrow> u32" where
  "hash_conflict index i = (index + of_int (i * i)) mod FILE_HASH_SIZE"

text \<open>The positions the loops of \<^verbatim>\<open>hash_insert\<close> and \<^verbatim>\<open>hash_findf\<close> try, in order.\<close>

definition hash_probes :: "u32 \<Rightarrow> u32 list" where
  "hash_probes h = map (hash_conflict h) [0..FILE_HASH_SQRT]"

fun insert_loop :: "u32 list \<Rightarrow> ptr_t \<Rightarrow> int \<Rightarrow> fd_hash \<Rightarrow> fd_hash option" where
  "insert_loop [] inode fd t = None"
| "insert_loop (index # rest) inode fd t =
     (if he_key (fh_entry t index) = 0
      then Some (t\<lparr>fh_entry := (fh_entry t)(index := \<lparr>he_key = inode, he_value = fd\<rparr>)\<rparr>)
      else insert_loop rest inode fd t)"

definition hash_insert :: "ptr_t \<Rightarrow> int \<Rightarrow> fd_hash \<Rightarrow> fd_hash option" where
  "hash_insert inode fd t = do { h \<leftarrow> hash_generate inode; insert_loop (hash_probes h) inode fd t }"

text \<open>\<^verbatim>\<open>hash_findf\<close> returns the position of the entry, or no position for NULL.\<close>

fun findf_loop :: "u32 list \<Rightarrow> ptr_t \<Rightarrow> fd_hash \<Rightarrow> u32 option" where
  "findf_loop [] inode t = None"
| "findf_loop (index # rest) inode t =
     (if he_key (fh_entry t index) = inode then Some index else findf_loop rest inode t)"

definition hash_findf :: "ptr_t \<Rightarrow> fd_hash \<Rightarrow> u32 option option" where
  "hash_findf inode t = do { h \<leftarrow> hash_generate inode; Some (findf_loop (hash_probes h) inode t) }"

definition hash_findi :: "int \<Rightarrow> fd_hash \<Rightarrow> ptr_t option" where
  "hash_findi fd t = do { assertk (0 \<le> fd \<and> fd < FILE_TABLE_SIZE); Some (fh_file_table t fd) }"

definition hash_del :: "ptr_t \<Rightarrow> fd_hash \<Rightarrow> fd_hash option" where
  "hash_del inode t = do {
     e \<leftarrow> hash_findf inode t;
     index \<leftarrow> e;
     Some (t\<lparr>fh_entry := (fh_entry t)(index := (fh_entry t index)\<lparr>he_key := 0\<rparr>)\<rparr>)
   }"

definition free_fd :: "int \<Rightarrow> fd_hash \<Rightarrow> fd_hash option" where
  "free_fd fd t = do {
     assertk (fd \<ge> 0);
     inode \<leftarrow> hash_findi fd t;
     assertk (inode \<noteq> 0);
     hash_del inode (t\<lparr>fh_file_table := (fh_file_table t)(fd := 0)\<rparr>)
   }"

fun alloc_loop :: "int list \<Rightarrow> ptr_t \<Rightarrow> fd_hash \<Rightarrow> (int \<times> fd_hash) option" where
  "alloc_loop [] inode t = None"
| "alloc_loop (i # rest) inode t =
     (if fh_file_table t i = 0 then do {
        t \<leftarrow> hash_insert inode i (t\<lparr>fh_file_table := (fh_file_table t)(i := inode)\<rparr>);
        Some (i, t)
      } else alloc_loop rest inode t)"

definition alloc_fd :: "ptr_t \<Rightarrow> fd_hash \<Rightarrow> (int \<times> fd_hash) option" where
  "alloc_fd inode t = do {
     assertk (inode \<noteq> 0);
     e \<leftarrow> hash_findf inode t;
     case e of
       Some index \<Rightarrow> Some (he_value (fh_entry t index), t)
     | None \<Rightarrow> alloc_loop [0..FILE_TABLE_SIZE - 1] inode t
   }"

definition get_inode :: "int \<Rightarrow> fd_hash \<Rightarrow> ptr_t option" where
  "get_inode fd t = hash_findi fd t"

section \<open>The table as a map\<close>

text \<open>The inode of every descriptor in use.\<close>

definition fd_map :: "fd_hash \<Rightarrow> int \<Rightarrow> ptr_t option" where
  "fd_map t fd = (if 0 \<le> fd \<and> fd < FILE_TABLE_SIZE \<and> fh_file_table t fd \<noteq> 0
     then Some (fh_file_table t fd) else None)"

text \<open>
  The two tables agree: every used entry of the hash table is on the probe sequence of its key and
  names the descriptor of its key, no key occurs twice, and every inode of \<^verbatim>\<open>file_table\<close> has an entry.
\<close>

definition probes_of :: "ptr_t \<Rightarrow> u32 list" where
  "probes_of inode = hash_probes ((inode - KERNEL_START) mod FILE_HASH_SIZE)"

definition fd_ok :: "fd_hash \<Rightarrow> bool" where
  "fd_ok t \<longleftrightarrow>
     (\<forall>x. he_key (fh_entry t x) \<noteq> 0 \<longrightarrow> fd_map t (he_value (fh_entry t x)) = Some (he_key (fh_entry t x))) \<and>
     (\<forall>x y. he_key (fh_entry t x) \<noteq> 0 \<longrightarrow> he_key (fh_entry t x) = he_key (fh_entry t y) \<longrightarrow> x = y) \<and>
     (\<forall>fd i. fd_map t fd = Some i \<longrightarrow>
        i > KERNEL_START \<and> (\<exists>x\<in>set (probes_of i). fh_entry t x = \<lparr>he_key = i, he_value = fd\<rparr>))"

lemma hash_generate_eq: "hash_generate i = (if i > KERNEL_START then Some ((i - KERNEL_START) mod FILE_HASH_SIZE) else None)"
  by (simp add: hash_generate_def)

lemma hash_findf_eq: "hash_findf i t = (if i > KERNEL_START then Some (findf_loop (probes_of i) i t) else None)"
  by (simp add: hash_findf_def hash_generate_eq probes_of_def)

lemma hash_insert_eq: "hash_insert i fd t = (if i > KERNEL_START then insert_loop (probes_of i) i fd t else None)"
  by (simp add: hash_insert_def hash_generate_eq probes_of_def)

lemma findf_loop_Some: "findf_loop xs i t = Some x \<Longrightarrow> x \<in> set xs \<and> he_key (fh_entry t x) = i"
  by (induction xs) (auto split: if_splits)

lemma findf_loop_None: "findf_loop xs i t = None \<longleftrightarrow> (\<forall>x\<in>set xs. he_key (fh_entry t x) \<noteq> i)"
  by (induction xs) auto

lemma insert_loop_cases:
  "insert_loop xs i fd t = Some t' \<Longrightarrow> \<exists>x\<in>set xs. he_key (fh_entry t x) = 0 \<and>
     t' = t\<lparr>fh_entry := (fh_entry t)(x := \<lparr>he_key = i, he_value = fd\<rparr>)\<rparr>"
  by (induction xs) (auto split: if_splits)

lemma insert_loop_None: "insert_loop xs i fd t = None \<longleftrightarrow> (\<forall>x\<in>set xs. he_key (fh_entry t x) \<noteq> 0)"
  by (induction xs) auto

lemma alloc_loop_cases:
  "alloc_loop xs i t = (case find (\<lambda>fd. fh_file_table t fd = 0) xs of None \<Rightarrow> None
     | Some fd \<Rightarrow> map_option (Pair fd) (hash_insert i fd (t\<lparr>fh_file_table := (fh_file_table t)(fd := i)\<rparr>)))"
  by (induction xs) (auto simp: map_option_case split: Option.bind_splits option.splits)

text \<open>The entry of an open inode is found, and an inode that is not open has no entry.\<close>

lemma fd_ok_find:
  assumes "fd_ok t" "fd_map t fd = Some i"
  shows "\<exists>x. hash_findf i t = Some (Some x) \<and> fh_entry t x = \<lparr>he_key = i, he_value = fd\<rparr>"
proof -
  obtain x where x: "KERNEL_START < i" "x \<in> set (probes_of i)" "fh_entry t x = \<lparr>he_key = i, he_value = fd\<rparr>"
    using assms unfolding fd_ok_def by blast
  have i: "i \<noteq> 0" using assms(2) by (auto simp: fd_map_def split: if_splits)
  have "findf_loop (probes_of i) i t \<noteq> None" unfolding findf_loop_None using x(2,3) by (auto intro!: bexI [of _ x])
  then obtain y where y: "findf_loop (probes_of i) i t = Some y" by blast
  then have "he_key (fh_entry t y) = i" using findf_loop_Some by blast
  then have "y = x" using assms(1) x(3) i unfolding fd_ok_def by (metis hash_entry.select_convs(1))
  then show ?thesis using x y by (simp add: hash_findf_eq)
qed

lemma fd_ok_find_conv:
  assumes "fd_ok t" "i \<noteq> 0" "hash_findf i t = Some e"
  shows "(case e of None \<Rightarrow> i \<notin> ran (fd_map t) | Some x \<Rightarrow> fd_map t (he_value (fh_entry t x)) = Some i)"
proof (cases e)
  case None
  then show ?thesis using fd_ok_find [OF assms(1)] assms(3) by (force simp: ran_def)
next
  case (Some x)
  then have "he_key (fh_entry t x) = i" using assms(3) findf_loop_Some by (auto simp: hash_findf_eq split: if_splits)
  then show ?thesis using assms(1,2) Some unfolding fd_ok_def by auto
qed

lemma fd_map_inj: "fd_ok t \<Longrightarrow> fd_map t a = Some i \<Longrightarrow> fd_map t b = Some i \<Longrightarrow> a = b"
  using fd_ok_find [of t a i] fd_ok_find [of t b i] by auto

lemma alloc_fd_ok:
  assumes ok: "fd_ok t" and alloc: "alloc_fd i t = Some (fd, t')"
  shows "fd_ok t' \<and> fd_map t' = (fd_map t)(fd \<mapsto> i) \<and> (fd_map t fd = None \<or> fd_map t fd = Some i)"
proof -
  have i: "i \<noteq> 0" "KERNEL_START < i" using alloc by (auto simp: alloc_fd_def hash_findf_eq split: if_splits)
  obtain e where e: "hash_findf i t = Some e" by (simp add: hash_findf_eq i)
  note conv = fd_ok_find_conv [OF ok i(1) e]
  show ?thesis
  proof (cases e)
    case (Some x)
    then show ?thesis using alloc e i(1) conv ok by (auto simp: alloc_fd_def)
  next
    case None
    have new: "i \<notin> ran (fd_map t)" using conv None by simp
    let ?t = "t\<lparr>fh_file_table := (fh_file_table t)(fd := i)\<rparr>"
    have fd: "fd \<in> set [0..FILE_TABLE_SIZE - 1]" "fh_file_table t fd = 0" "insert_loop (probes_of i) i fd ?t = Some t'"
      using alloc e i None
      by (auto simp: alloc_fd_def alloc_loop_cases hash_insert_eq find_Some_iff in_set_conv_nth split: option.splits)
    then have fdb: "0 \<le> fd" "fd < FILE_TABLE_SIZE" by simp_all
    obtain x where x: "x \<in> set (probes_of i)" "he_key (fh_entry t x) = 0"
      and t': "t' = ?t\<lparr>fh_entry := (fh_entry t)(x := \<lparr>he_key = i, he_value = fd\<rparr>)\<rparr>"
      using insert_loop_cases [OF fd(3)] by auto
    have none: "fd_map t fd = None" using fd(2) by (simp add: fd_map_def)
    have map: "fd_map t' = (fd_map t)(fd \<mapsto> i)" using i(1) fdb by (auto simp: fd_map_def t')
    have key: "he_key (fh_entry t y) \<noteq> i" for y using ok new i(1) unfolding fd_ok_def ran_def by blast
    have val: "he_value (fh_entry t y) \<noteq> fd" if "he_key (fh_entry t y) \<noteq> 0" for y
      using ok that none unfolding fd_ok_def by fastforce
    have "fd_ok t'"
      unfolding fd_ok_def map
    proof (intro conjI allI impI)
      fix y assume "he_key (fh_entry t' y) \<noteq> 0"
      then show "((fd_map t)(fd \<mapsto> i)) (he_value (fh_entry t' y)) = Some (he_key (fh_entry t' y))"
        using ok val [of y] by (auto simp: t' fd_ok_def)
    next
      fix y z assume "he_key (fh_entry t' y) \<noteq> 0" "he_key (fh_entry t' y) = he_key (fh_entry t' z)"
      then show "y = z" using ok key [of y] key [of z] by (auto simp: t' fd_ok_def split: if_splits)
    next
      fix d j assume dj: "((fd_map t)(fd \<mapsto> i)) d = Some j"
      show "KERNEL_START < j" using ok dj i(2) by (auto simp: fd_ok_def split: if_splits)
      show "\<exists>y\<in>set (probes_of j). fh_entry t' y = \<lparr>he_key = j, he_value = d\<rparr>"
      proof (cases "d = fd")
        case True
        then show ?thesis using dj x(1) by (auto simp: t' intro: bexI [of _ x])
      next
        case False
        then obtain y where "y \<in> set (probes_of j)" "fh_entry t y = \<lparr>he_key = j, he_value = d\<rparr>" "j \<noteq> 0"
          using ok dj by (auto simp: fd_ok_def fd_map_def split: if_splits)
        then show ?thesis using x(2) by (auto simp: t' intro!: bexI [of _ y])
      qed
    qed
    then show ?thesis using map none by simp
  qed
qed

lemma free_fd_ok:
  assumes ok: "fd_ok t" and fd: "fd_map t fd = Some i"
  shows "\<exists>t'. free_fd fd t = Some t' \<and> fd_ok t' \<and> fd_map t' = (fd_map t)(fd := None)"
proof -
  obtain x where x: "hash_findf i t = Some (Some x)" "fh_entry t x = \<lparr>he_key = i, he_value = fd\<rparr>"
    using fd_ok_find [OF ok fd] by blast
  let ?t = "t\<lparr>fh_file_table := (fh_file_table t)(fd := 0)\<rparr>"
  let ?t' = "?t\<lparr>fh_entry := (fh_entry t)(x := (fh_entry t x)\<lparr>he_key := 0\<rparr>)\<rparr>"
  have f: "fh_file_table t fd = i" "i \<noteq> 0" "0 \<le> fd" "fd < FILE_TABLE_SIZE"
    using fd by (auto simp: fd_map_def split: if_splits)
  have same: "findf_loop xs j ?t = findf_loop xs j t" for xs j by (induction xs) simp_all
  have call: "free_fd fd t = Some ?t'"
    using f x(1) same by (auto simp: free_fd_def hash_findi_def hash_del_def hash_findf_eq split: if_splits)
  have map: "fd_map ?t' = (fd_map t)(fd := None)" by (auto simp: fd_map_def)
  have val: "he_value (fh_entry t y) \<noteq> fd" if "y \<noteq> x" "he_key (fh_entry t y) \<noteq> 0" for y
    using ok that fd x(2) unfolding fd_ok_def by (metis hash_entry.select_convs(1) option.inject)
  have "fd_ok ?t'"
    unfolding fd_ok_def map
  proof (intro conjI allI impI)
    fix y assume "he_key (fh_entry ?t' y) \<noteq> 0"
    then show "((fd_map t)(fd := None)) (he_value (fh_entry ?t' y)) = Some (he_key (fh_entry ?t' y))"
      using ok val [of y] by (auto simp: fd_ok_def split: if_splits)
  next
    fix y z assume "he_key (fh_entry ?t' y) \<noteq> 0" "he_key (fh_entry ?t' y) = he_key (fh_entry ?t' z)"
    then show "y = z" using ok by (auto simp: fd_ok_def split: if_splits)
  next
    fix d j assume dj: "((fd_map t)(fd := None)) d = Some j"
    then have d: "d \<noteq> fd" "fd_map t d = Some j" by (auto split: if_splits)
    show "KERNEL_START < j" using ok d(2) by (auto simp: fd_ok_def)
    obtain y where y: "y \<in> set (probes_of j)" "fh_entry t y = \<lparr>he_key = j, he_value = d\<rparr>"
      using ok d(2) unfolding fd_ok_def by blast
    then have "y \<noteq> x" using x(2) d(1) by auto
    then show "\<exists>y\<in>set (probes_of j). fh_entry ?t' y = \<lparr>he_key = j, he_value = d\<rparr>"
      using y by (intro bexI [of _ y]) simp_all
  qed
  then show ?thesis using call map by blast
qed

text \<open>\<^verbatim>\<open>alloc_fd\<close> fails only when the inode is not open and one of the tables has no room for it.\<close>

lemma alloc_fd_None:
  assumes "fd_ok t" "i > KERNEL_START"
  shows "alloc_fd i t = None \<longleftrightarrow> i \<notin> ran (fd_map t) \<and>
    ((\<forall>fd. 0 \<le> fd \<and> fd < FILE_TABLE_SIZE \<longrightarrow> fd_map t fd \<noteq> None) \<or> (\<forall>x\<in>set (probes_of i). he_key (fh_entry t x) \<noteq> 0))"
proof -
  have i: "i \<noteq> 0" using assms(2) by (metis word_not_simps(1))
  obtain e where e: "hash_findf i t = Some e" by (simp add: hash_findf_eq assms)
  note conv = fd_ok_find_conv [OF assms(1) i e]
  have full: "find (\<lambda>fd. fh_file_table t fd = 0) [0..FILE_TABLE_SIZE - 1] = None \<longleftrightarrow>
      (\<forall>fd. 0 \<le> fd \<and> fd < FILE_TABLE_SIZE \<longrightarrow> fd_map t fd \<noteq> None)"
    by (auto simp: find_None_iff fd_map_def)
  have ins: "insert_loop xs i d (t\<lparr>fh_file_table := g\<rparr>) = None \<longleftrightarrow> (\<forall>x\<in>set xs. he_key (fh_entry t x) \<noteq> 0)" for xs d g
    by (simp add: insert_loop_None)
  show ?thesis
  proof (cases e)
    case (Some x)
    then show ?thesis using conv e i by (auto simp: alloc_fd_def intro: ranI)
  next
    case None
    then have "alloc_fd i t = alloc_loop [0..FILE_TABLE_SIZE - 1] i t" using e i by (simp add: alloc_fd_def)
    then show ?thesis using conv None full
      by (auto simp: alloc_loop_cases hash_insert_eq assms(2) ins split: option.splits)
  qed
qed

section \<open>The interface of a descriptor table\<close>

text \<open>
  What the file system relies on: allocation enters the object under a descriptor that was free or
  already stood for it, release removes a descriptor, and an object has one descriptor.
\<close>

locale descriptor_table =
  fixes alloc :: "'i \<Rightarrow> 't \<Rightarrow> (int \<times> 't) option"
    and free :: "int \<Rightarrow> 't \<Rightarrow> 't option"
    and table_ok :: "'t \<Rightarrow> bool"
    and table :: "'t \<Rightarrow> int \<Rightarrow> 'i option"
  assumes alloc_law: "table_ok t \<Longrightarrow> alloc i t = Some (fd, t') \<Longrightarrow>
      table_ok t' \<and> table t' = (table t)(fd \<mapsto> i) \<and> (table t fd = None \<or> table t fd = Some i)"
    and free_law: "table_ok t \<Longrightarrow> table t fd = Some i \<Longrightarrow>
      \<exists>t'. free fd t = Some t' \<and> table_ok t' \<and> table t' = (table t)(fd := None)"
    and inj_law: "table_ok t \<Longrightarrow> table t a = Some i \<Longrightarrow> table t b = Some i \<Longrightarrow> a = b"
begin

lemma alloc_again:
  assumes "table_ok t" "alloc i t = Some (fd, t')" "alloc i t' = Some (fd', t'')"
  shows "fd' = fd \<and> table t'' = table t'"
proof -
  have 1: "table_ok t'" "table t' = (table t)(fd \<mapsto> i)" using alloc_law [OF assms(1,2)] by auto
  have 2: "table_ok t''" "table t'' = (table t')(fd' \<mapsto> i)" using alloc_law [OF 1(1) assms(3)] by auto
  have "table t'' fd = Some i" "table t'' fd' = Some i" using 1(2) 2(2) by auto
  then have "fd = fd'" using inj_law [OF 2(1)] by blast
  then show ?thesis using 1(2) 2(2) by simp
qed

lemma alloc_free:
  assumes "table_ok t" "alloc i t = Some (fd, t')" "i \<notin> ran (table t)"
  shows "\<exists>t''. free fd t' = Some t'' \<and> table_ok t'' \<and> table t'' = table t"
proof -
  have 1: "table_ok t'" "table t' = (table t)(fd \<mapsto> i)" "table t fd = None"
    using alloc_law [OF assms(1,2)] assms(3) by (auto intro: ranI)
  have "table t' fd = Some i" using 1(2) by simp
  then obtain t'' where "free fd t' = Some t''" "table_ok t''" "table t'' = (table t')(fd := None)"
    using free_law [OF 1(1)] by blast
  then show ?thesis using 1(2,3) by (auto simp: fun_upd_idem)
qed

end

interpretation fdt: descriptor_table alloc_fd free_fd fd_ok fd_map
  by unfold_locales (fact alloc_fd_ok, fact free_fd_ok, fact fd_map_inj)

section \<open>Properties\<close>

lemma fd_ok_start: "fd_ok hash_start" "fd_map hash_start = (\<lambda>_. None)"
  by (auto simp: fd_ok_def fd_map_def hash_start_def)

text \<open>
  C10. The descriptor table is an injective map. Starting from the empty table, \<^verbatim>\<open>alloc_fd\<close> enters the
  inode under a descriptor that was free, or returns the descriptor it already has; it panics only
  for an inode that is not open, when all 1024 descriptors are used or the 33 probed positions of the
  hash table are occupied. \<^verbatim>\<open>free_fd\<close> of a descriptor in use returns and removes exactly this one; no
  entry is lost although a release leaves holes in the probe sequences.
\<close>

theorem fd_table_is_a_map:
  assumes "fd_ok t"
  shows "(i > KERNEL_START \<longrightarrow> (case alloc_fd i t of
      Some (fd, t') \<Rightarrow> fd_ok t' \<and> fd_map t' = (fd_map t)(fd \<mapsto> i) \<and> (fd_map t fd = None \<or> fd_map t fd = Some i) \<and>
        get_inode fd t' = Some i
    | None \<Rightarrow> i \<notin> ran (fd_map t) \<and> ((\<forall>fd. 0 \<le> fd \<and> fd < FILE_TABLE_SIZE \<longrightarrow> fd_map t fd \<noteq> None) \<or>
        (\<forall>x\<in>set (probes_of i). he_key (fh_entry t x) \<noteq> 0)))) \<and>
    (fd_map t fd = Some i \<longrightarrow> (\<exists>t'. free_fd fd t = Some t' \<and> fd_ok t' \<and> fd_map t' = (fd_map t)(fd := None)))"
proof -
  have get: "get_inode d s = Some j" if "fd_map s d = Some j" for d s j
    using that by (auto simp: fd_map_def get_inode_def hash_findi_def split: if_splits)
  have "case alloc_fd i t of
      Some (fd, t') \<Rightarrow> fd_ok t' \<and> fd_map t' = (fd_map t)(fd \<mapsto> i) \<and> (fd_map t fd = None \<or> fd_map t fd = Some i) \<and>
        get_inode fd t' = Some i
    | None \<Rightarrow> i \<notin> ran (fd_map t) \<and> ((\<forall>fd. 0 \<le> fd \<and> fd < FILE_TABLE_SIZE \<longrightarrow> fd_map t fd \<noteq> None) \<or>
        (\<forall>x\<in>set (probes_of i). he_key (fh_entry t x) \<noteq> 0))" if "i > KERNEL_START"
    using alloc_fd_None [OF assms that] alloc_fd_ok [OF assms] get by (auto split: option.split)
  then show ?thesis using free_fd_ok [OF assms] by blast
qed

theorem fd_table_is_a_map_witness:
  "\<exists>fd t' t''. alloc_fd 0xc0200000 hash_start = Some (fd, t') \<and> get_inode fd t' = Some 0xc0200000 \<and>
     free_fd fd t' = Some t'' \<and> fd_map t'' = (\<lambda>_. None)"
proof -
  have i: "KERNEL_START < (0xc0200000 :: ptr_t)" by (simp add: KERNEL_START_def)
  have "set (probes_of i) \<noteq> {}" for i by (simp add: probes_of_def hash_probes_def FILE_HASH_SQRT_def)
  then have "\<not> (\<forall>x\<in>set (probes_of i). he_key (fh_entry hash_start x) \<noteq> 0)" for i by (auto simp: hash_start_def)
  moreover have "\<not> (\<forall>fd. 0 \<le> fd \<and> fd < FILE_TABLE_SIZE \<longrightarrow> fd_map hash_start fd \<noteq> None)"
    by (auto simp: fd_ok_start FILE_TABLE_SIZE_def)
  ultimately obtain fd t' where a: "alloc_fd 0xc0200000 hash_start = Some (fd, t')" "get_inode fd t' = Some 0xc0200000"
    "fd_ok t'" "fd_map t' = [fd \<mapsto> 0xc0200000]"
    using fd_table_is_a_map [OF fd_ok_start(1), where i = "0xc0200000"] i by (auto simp: fd_ok_start split: option.splits)
  then show ?thesis using fd_table_is_a_map [OF a(3), where i = "0xc0200000" and fd = fd] by auto
qed

end
