(* ===== verification/Kstring.thy ===== *)
theory Kstring
  imports Slab
begin

text \<open>
  Strings and byte memory, \<^verbatim>\<open>lib/qstring.c\<close>. Memory is a function from addresses to bytes; an index
  added to a pointer wraps at 32 bits. A loop that counts up to \<open>n\<close> is a recursion over the number of
  iterations done; the search for the end of a string may not end, so it is a partial function.
\<close>

type_synonym mem8 = "ptr_t \<Rightarrow> u8"

section \<open>Definitions\<close>

partial_function (option) strlen_loop :: "mem8 \<Rightarrow> ptr_t \<Rightarrow> u32 \<Rightarrow> u32 option" where
  "strlen_loop m str len = (if m (str + len) \<noteq> 0 then strlen_loop m str (len + 1) else Some len)"

definition strlen :: "mem8 \<Rightarrow> ptr_t \<Rightarrow> u32 option" where
  "strlen m str = do { assertk (str \<noteq> 0); strlen_loop m str 0 }"

text \<open>The loop of \<^verbatim>\<open>strncat\<close>; \<open>k\<close> iterations are left before \<^verbatim>\<open>is\<close> reaches \<^verbatim>\<open>n\<close>.\<close>

fun strncat_loop :: "nat \<Rightarrow> ptr_t \<Rightarrow> ptr_t \<Rightarrow> u32 \<Rightarrow> u32 \<Rightarrow> mem8 \<Rightarrow> mem8" where
  "strncat_loop 0 dest src di si m = m(dest + di := 0)"
| "strncat_loop (Suc k) dest src di si m =
     (if m (src + si) = 0 then m(dest + di := 0)
      else strncat_loop k dest src (di + 1) (si + 1) (m(dest + di := m (src + si))))"

definition strncat :: "ptr_t \<Rightarrow> ptr_t \<Rightarrow> u32 \<Rightarrow> mem8 \<Rightarrow> mem8 option" where
  "strncat dest src n m = do {
     assertk (dest \<noteq> 0 \<and> src \<noteq> 0);
     di \<leftarrow> strlen m dest;
     Some (strncat_loop (unat n) dest src di 0 m)
   }"

definition strcat :: "ptr_t \<Rightarrow> ptr_t \<Rightarrow> mem8 \<Rightarrow> mem8 option" where
  "strcat dest src m = do {
     assertk (dest \<noteq> 0 \<and> src \<noteq> 0);
     n \<leftarrow> strlen m src;
     strncat dest src n m
   }"

text \<open>\<^verbatim>\<open>memcmp\<close> and \<^verbatim>\<open>strcmp\<close> return true on equality, unlike the functions of the C library.\<close>

fun memcmp_loop :: "nat \<Rightarrow> mem8 \<Rightarrow> ptr_t \<Rightarrow> ptr_t \<Rightarrow> bool" where
  "memcmp_loop 0 m s1 s2 = True"
| "memcmp_loop (Suc k) m s1 s2 = (if m s1 \<noteq> m s2 then False else memcmp_loop k m (s1 + 1) (s2 + 1))"

definition memcmp :: "mem8 \<Rightarrow> ptr_t \<Rightarrow> ptr_t \<Rightarrow> u32 \<Rightarrow> bool option" where
  "memcmp m s1 s2 len = do { assertk (s1 \<noteq> 0 \<and> s2 \<noteq> 0); Some (memcmp_loop (unat len) m s1 s2) }"

definition strcmp :: "mem8 \<Rightarrow> ptr_t \<Rightarrow> ptr_t \<Rightarrow> bool option" where
  "strcmp m s1 s2 = do {
     assertk (s1 \<noteq> 0 \<and> s2 \<noteq> 0);
     len \<leftarrow> strlen m s1;
     memcmp m s1 s2 (len + 1)
   }"

primrec memcpy_loop :: "nat \<Rightarrow> ptr_t \<Rightarrow> ptr_t \<Rightarrow> mem8 \<Rightarrow> mem8" where
  "memcpy_loop 0 cd cs m = m"
| "memcpy_loop (Suc i) cd cs m =
     (let m = memcpy_loop i cd cs m in m(cd + of_nat i := m (cs + of_nat i)))"

definition memcpy :: "ptr_t \<Rightarrow> ptr_t \<Rightarrow> u32 \<Rightarrow> mem8 \<Rightarrow> mem8" where
  "memcpy dest src n m = memcpy_loop (unat n) dest src m"

primrec memset_loop :: "nat \<Rightarrow> ptr_t \<Rightarrow> u8 \<Rightarrow> mem8 \<Rightarrow> mem8" where
  "memset_loop 0 s c m = m"
| "memset_loop (Suc i) s c m = (memset_loop i s c m)(s + of_nat i := c)"

definition memset :: "ptr_t \<Rightarrow> u32 \<Rightarrow> u32 \<Rightarrow> mem8 \<Rightarrow> mem8 option" where
  "memset s c n m = do { assertk (s \<noteq> 0); Some (memset_loop (unat n) s (ucast c) m) }"

text \<open>\<^verbatim>\<open>memset16\<close> stores 16-bit values, low byte first.\<close>

primrec memset16_loop :: "nat \<Rightarrow> ptr_t \<Rightarrow> u16 \<Rightarrow> mem8 \<Rightarrow> mem8" where
  "memset16_loop 0 s c m = m"
| "memset16_loop (Suc i) s c m =
     (memset16_loop i s c m)(s + 2 * of_nat i := ucast c, s + 2 * of_nat i + 1 := ucast (drop_bit 8 c))"

definition memset16 :: "ptr_t \<Rightarrow> u16 \<Rightarrow> u32 \<Rightarrow> mem8 \<Rightarrow> mem8 option" where
  "memset16 s c n m = do { assertk (s \<noteq> 0); Some (memset16_loop (unat n) s c m) }"

definition bzero :: "ptr_t \<Rightarrow> u32 \<Rightarrow> mem8 \<Rightarrow> mem8 option" where
  "bzero s n m = memset s 0 n m"

function str_reverse_loop :: "ptr_t \<Rightarrow> u32 \<Rightarrow> u32 \<Rightarrow> mem8 \<Rightarrow> mem8" where
  "str_reverse_loop s i j m =
     (if i < j then str_reverse_loop s (i + 1) (j - 1) (m(s + i := m (s + j), s + j := m (s + i))) else m)"
  by pat_completeness auto
termination
proof (relation "measure (\<lambda>(s, i, j, m). unat j - unat i)", goal_cases)
  case (2 s i j m)
  then have "unat i < unat j" by (simp add: word_less_nat_alt)
  moreover have "unat (i + 1) = unat i + 1" using calculation unat_u32_lt [of j] by (subst unat_add_no_wrap) simp_all
  moreover have "unat (j - 1) = unat j - 1" using calculation by (subst unat_sub_no_wrap) simp_all
  ultimately show ?case by simp
qed simp

declare str_reverse_loop.simps [simp del]

definition str_reverse :: "ptr_t \<Rightarrow> u32 \<Rightarrow> mem8 \<Rightarrow> mem8 option" where
  "str_reverse s li m = do { assertk (s \<noteq> 0); Some (str_reverse_loop s 0 li m) }"

text \<open>
  The digit loops of \<^verbatim>\<open>utoa\<close> and \<^verbatim>\<open>hex\<close>, which differ in the base and the digit characters: they store
  the digits of the value from the last one on and return the number of digits, a \<^verbatim>\<open>uint8_t\<close>. (A
  base below 2, which no caller passes, ends the loop at once.)
\<close>

function digits_loop :: "u64 \<Rightarrow> (u64 \<Rightarrow> u8) \<Rightarrow> ptr_t \<Rightarrow> u64 \<Rightarrow> u8 \<Rightarrow> mem8 \<Rightarrow> u8 \<times> mem8" where
  "digits_loop b dig str v i m =
     (let m = m(str + ucast i := dig (v mod b)); v' = v div b; i = i + 1
      in if v' = 0 \<or> b \<le> 1 then (i, m) else digits_loop b dig str v' i m)"
  by pat_completeness auto
termination
proof (relation "measure (\<lambda>(b, dig, str, v, i, m). unat v)", goal_cases)
  case (2 b dig str v i m m' v' i')
  then have "v div b \<noteq> 0" "1 < unat b" by (auto simp: word_le_nat_alt)
  then have "0 < unat v" by (auto simp: unat_gt_0)
  then have "unat v div unat b < unat v" using \<open>1 < unat b\<close> by simp
  then show ?case using 2 by (simp add: unat_div)
qed simp

declare digits_loop.simps [simp del]

definition utoa :: "u64 \<Rightarrow> ptr_t \<Rightarrow> mem8 \<Rightarrow> mem8 option" where
  "utoa value str m = do {
     assertk (str \<noteq> 0);
     let (i, m) = digits_loop 10 (\<lambda>r. ucast r + 48) str value 0 m;
     let m = m(str + ucast i := 0);
     str_reverse str (ucast i - 1) m
   }"

definition hex_base :: "u8 list" where
  "hex_base = [48, 49, 50, 51, 52, 53, 54, 55, 56, 57, 97, 98, 99, 100, 101, 102]"

definition hex :: "u64 \<Rightarrow> ptr_t \<Rightarrow> mem8 \<Rightarrow> mem8 option" where
  "hex n str m = do {
     assertk (str \<noteq> 0);
     let (i, m) = digits_loop 16 (\<lambda>r. hex_base ! unat r) str n 0 m;
     let m = m(str + ucast i := 0);
     str_reverse str (ucast i - 1) m
   }"

text \<open>
  \<^verbatim>\<open>strdup\<close>: the characters are bytes of \<open>m\<close>; the allocator's own words are those of the heap.
\<close>

definition strdup :: "ptr_t \<Rightarrow> kheap \<Rightarrow> mem8 \<Rightarrow> (ptr_t \<times> kheap \<times> mem8) option" where
  "strdup str h m = do {
     assertk (str \<noteq> 0);
     len \<leftarrow> strlen m str;
     let len = len + 1;
     (new, h) \<leftarrow> kmalloc len h;
     Some (new, h, memcpy new str (len + 1) m)
   }"

lemma unat_ucast_le:
  assumes "LENGTH('a) \<le> LENGTH('b)"
  shows "unat (ucast (x :: 'a::len word) :: 'b::len word) = unat x"
proof -
  have "(2::nat) ^ LENGTH('a) \<le> 2 ^ LENGTH('b)" using assms by (intro power_increasing) simp_all
  then have "unat x < 2 ^ LENGTH('b)" by (rule order_less_le_trans [OF unat_lt])
  then show ?thesis by (simp add: unsigned_ucast_eq take_bit_nat_eq_self)
qed

section \<open>Strings in memory\<close>

text \<open>The string at address \<open>p\<close>: the bytes up to the first zero byte.\<close>

definition cstr :: "mem8 \<Rightarrow> ptr_t \<Rightarrow> u8 list \<Rightarrow> bool" where
  "cstr m p cs \<longleftrightarrow> 0 \<notin> set cs \<and> Suc (length cs) < 2 ^ 32 \<and> m (p + of_nat (length cs)) = 0 \<and>
     (\<forall>k<length cs. m (p + of_nat k) = cs ! k)"

lemma strlen_loop_cstr:
  assumes "cstr m p cs" "k \<le> length cs"
  shows "strlen_loop m p (of_nat k) = Some (of_nat (length cs))"
  using assms(2)
proof (induction "length cs - k" arbitrary: k)
  case 0
  then have "k = length cs" by simp
  then show ?case using assms(1) by (subst strlen_loop.simps) (simp add: cstr_def)
next
  case (Suc d)
  then have k: "k < length cs" by simp
  have "m (p + of_nat k) = cs ! k" "cs ! k \<in> set cs" using assms(1) k by (auto simp: cstr_def)
  then have "m (p + of_nat k) \<noteq> 0" using assms(1) by (auto simp: cstr_def)
  moreover have "strlen_loop m p (of_nat (Suc k)) = Some (of_nat (length cs))" using Suc k by (intro Suc.hyps(1)) auto
  ultimately show ?case by (subst strlen_loop.simps) (simp add: add.commute)
qed

lemma strlen_cstr: "cstr m p cs \<Longrightarrow> p \<noteq> 0 \<Longrightarrow> strlen m p = Some (of_nat (length cs))"
  using strlen_loop_cstr [of m p cs 0] by (simp add: strlen_def)

lemma cstr_unique:
  assumes "cstr m p cs" "cstr m p ds"
  shows "cs = ds"
proof -
  have "(of_nat (length cs) :: u32) = of_nat (length ds)"
    using strlen_loop_cstr [OF assms(1), of 0] strlen_loop_cstr [OF assms(2), of 0] by simp
  moreover have "unat (of_nat (length cs) :: u32) = length cs" "unat (of_nat (length ds) :: u32) = length ds"
    using assms by (simp_all add: cstr_def unat_of_nat)
  ultimately have "length cs = length ds" by metis
  then show ?thesis using assms by (intro nth_equalityI) (simp_all add: cstr_def)
qed

lemma memcmp_loop_iff: "memcmp_loop n m a b \<longleftrightarrow> (\<forall>k<n. m (a + of_nat k) = m (b + of_nat k))"
proof (induction n arbitrary: a b)
  case (Suc n)
  have "(\<forall>k<Suc n. m (a + of_nat k) = m (b + of_nat k)) \<longleftrightarrow>
      m a = m b \<and> (\<forall>k<n. m (a + 1 + of_nat k) = m (b + 1 + of_nat k))"
    by (simp add: All_less_Suc2 algebra_simps)
  then show ?case using Suc.IH by simp
qed simp

lemma strcmp_cstr:
  assumes "cstr m a cs" "cstr m b ds" "a \<noteq> 0" "b \<noteq> 0"
  shows "strcmp m a b = Some (cs = ds)"
proof -
  have len: "unat (of_nat (length cs) + 1 :: u32) = Suc (length cs)"
    using assms(1) by (simp add: cstr_def unat_word_ariths unat_of_nat)
  have "(\<forall>k<Suc (length cs). m (a + of_nat k) = m (b + of_nat k)) \<longleftrightarrow> cs = ds"
  proof
    assume eq: "\<forall>k<Suc (length cs). m (a + of_nat k) = m (b + of_nat k)"
    have "m (b + of_nat k) = cs ! k" if "k < length cs" for k using that eq assms(1) by (simp add: cstr_def)
    moreover have "m (b + of_nat (length cs)) = 0" using eq assms(1) by (auto simp: cstr_def)
    ultimately have "cstr m b cs" using assms(1) by (simp add: cstr_def)
    then show "cs = ds" using cstr_unique assms(2) by blast
  next
    assume "cs = ds"
    then show "\<forall>k<Suc (length cs). m (a + of_nat k) = m (b + of_nat k)"
      using assms(1,2) by (auto simp: cstr_def less_Suc_eq)
  qed
  then show ?thesis using assms len strlen_cstr [OF assms(1,3)] by (simp add: strcmp_def memcmp_def memcmp_loop_iff)
qed

text \<open>Copying a range that does not overlap its target.\<close>

lemma memcpy_loop_eq:
  assumes "\<And>i j. i < n \<Longrightarrow> j < n \<Longrightarrow> src + of_nat i \<noteq> dest + of_nat j" "n < 2 ^ 32"
  shows "memcpy_loop n dest src m a = (if unat (a - dest) < n then m (src + (a - dest)) else m a)"
  using assms
proof (induction n arbitrary: a)
  case (Suc n)
  have IH: "memcpy_loop n dest src m x = (if unat (x - dest) < n then m (src + (x - dest)) else m x)" for x
    using Suc by simp
  have src: "memcpy_loop n dest src m (src + of_nat n) = m (src + of_nat n)"
  proof -
    let ?k = "unat (src + of_nat n - dest)"
    have "\<not> ?k < n"
    proof
      assume "?k < n"
      then have "src + of_nat n \<noteq> dest + of_nat ?k" using Suc.prems(1) [of n ?k] by simp
      then show False by simp
    qed
    then show ?thesis using IH by simp
  qed
  have "a = dest + of_nat n \<longleftrightarrow> unat (a - dest) = n"
  proof
    assume "unat (a - dest) = n"
    then have "a - dest = of_nat n" using u32_of_nat_unat by metis
    then show "a = dest + of_nat n" by (simp add: algebra_simps)
  qed (use Suc.prems(2) in \<open>simp add: unat_of_nat\<close>)
  then show ?case using IH [of a] src by (auto simp: Let_def less_Suc_eq)
qed simp

section \<open>Printing numbers\<close>

text \<open>The digits of a value, the last one first.\<close>

function digs :: "u64 \<Rightarrow> u64 \<Rightarrow> u64 list" where
  "digs b v = v mod b # (if v div b = 0 \<or> b \<le> 1 then [] else digs b (v div b))"
  by pat_completeness auto
termination
proof (relation "measure (\<lambda>(b, v). unat v)", goal_cases)
  case (2 b v)
  then have "v div b \<noteq> 0" "1 < unat b" by (auto simp: word_le_nat_alt)
  moreover have "0 < unat v" using calculation by (auto simp: unat_gt_0)
  ultimately show ?case by (simp add: unat_div)
qed simp

declare digs.simps [simp del]

definition store :: "mem8 \<Rightarrow> ptr_t \<Rightarrow> u8 list \<Rightarrow> mem8" where
  "store m p cs = (\<lambda>a. if unat (a - p) < length cs then cs ! unat (a - p) else m a)"

lemma store_Cons:
  assumes "length cs < 2 ^ 32 - 1"
  shows "store (m(p := c)) (p + 1) cs = store m p (c # cs)"
proof (rule ext)
  fix a
  show "store (m(p := c)) (p + 1) cs a = store m p (c # cs) a"
  proof (cases "a = p")
    case True
    have "unat (- 1 :: u32) = 2 ^ 32 - 1" by (simp add: unsigned_minus_1_eq_mask mask_eq_exp_minus_1)
    then show ?thesis using True assms by (simp add: store_def)
  next
    case False
    then have "a - p \<noteq> 0" by simp
    then have "unat (a - p) = Suc (unat (a - (p + 1)))"
      by (metis diff_diff_eq Suc_pred' unat_gt_0 unat_minus_one)
    then show ?thesis using False by (simp add: store_def)
  qed
qed

lemma digs_pos: "0 < length (digs b v)"
  by (subst digs.simps) simp

lemma store_single: "store m p [c] = m(p := c)"
  by (rule ext) (simp add: store_def unsigned_eq_0_iff)

lemma digits_loop_eq:
  "unat i + length (digs b v) < 256 \<Longrightarrow>
   digits_loop b dig str v i m = (i + of_nat (length (digs b v)), store m (str + ucast i) (map dig (digs b v)))"
proof (induction b v arbitrary: i m rule: digs.induct)
  case (1 b v)
  have "unat i < 255" using "1.prems" digs_pos [of b v] by linarith
  then have i: "unat (i + 1) = unat i + 1" by (subst unat_add_no_wrap) simp_all
  have next_addr: "str + ucast (i + 1) = str + ucast i + (1 :: u32)"
  proof -
    have "unat (ucast (i + 1) :: u32) = unat (ucast i + 1 :: u32)"
      using i unat_lt [of i] by (simp add: unat_ucast_le unat_word_ariths)
    then have "ucast (i + 1) = (ucast i + 1 :: u32)" by (simp only: word_unat_eq_iff)
    then show ?thesis by (simp add: algebra_simps)
  qed
  show ?case
  proof (cases "v div b = 0 \<or> b \<le> 1")
    case True
    then have "digs b v = [v mod b]" by (subst digs.simps) simp
    then show ?thesis using True by (subst digits_loop.simps) (simp add: Let_def store_single)
  next
    case False
    then have d: "digs b v = v mod b # digs b (v div b)" by (subst digs.simps) simp
    let ?m = "m(str + ucast i := dig (v mod b))"
    have "digits_loop b dig str v i m = digits_loop b dig str (v div b) (i + 1) ?m"
      using False by (subst digits_loop.simps) (simp add: Let_def)
    also have "\<dots> = (i + 1 + of_nat (length (digs b (v div b))), store ?m (str + ucast i + 1) (map dig (digs b (v div b))))"
    proof -
      have "unat (i + 1) + length (digs b (v div b)) < 256" using "1.prems" i d by simp
      from "1.IH" [OF False this, of ?m] show ?thesis unfolding next_addr .
    qed
    finally show ?thesis using "1.prems" d by (subst (asm) store_Cons) (simp_all add: algebra_simps)
  qed
qed

lemma digs_length: "unat v < unat b ^ n \<Longrightarrow> 1 < unat b \<Longrightarrow> 0 < n \<Longrightarrow> length (digs b v) \<le> n"
proof (induction n arbitrary: v)
  case (Suc n)
  show ?case
  proof (cases "v div b = 0")
    case True
    then show ?thesis by (subst digs.simps) simp
  next
    case False
    then have "unat b \<le> unat v" using Suc.prems(2) by (metis div_less not_le unat_div unat_eq_zero)
    then have "0 < n" using Suc.prems(1) by (cases n) auto
    moreover have "unat (v div b) < unat b ^ n" using Suc.prems by (simp add: unat_div less_mult_imp_div_less mult.commute)
    ultimately show ?thesis using Suc.IH Suc.prems(2) by (subst digs.simps) simp
  qed
qed simp

lemma digs_value: "1 < unat b \<Longrightarrow> foldr (\<lambda>d acc. unat d + unat b * acc) (digs b v) 0 = unat v"
proof (induction b v rule: digs.induct)
  case (1 b v)
  have "unat v = unat (v mod b) + unat b * unat (v div b)" by (simp add: unat_div unat_mod)
  then show ?case using 1 by (subst digs.simps) (auto simp: word_le_nat_alt)
qed

lemma digs_less: "1 < unat b \<Longrightarrow> d \<in> set (digs b v) \<Longrightarrow> unat d < unat b"
proof (induction b v rule: digs.induct)
  case (1 b v)
  then show ?case using digs.simps [of b v] by (auto simp: unat_mod split: if_splits)
qed

lemma str_reverse_loop_eq:
  "b < 2 ^ 32 \<Longrightarrow> a < 2 ^ 32 \<Longrightarrow> str_reverse_loop s (of_nat a) (of_nat b) m x =
     (if a \<le> unat (x - s) \<and> unat (x - s) \<le> b then m (s + of_nat (a + b - unat (x - s))) else m x)"
proof (induction "b - a" arbitrary: a b m rule: less_induct)
  case less
  let ?k = "unat (x - s)"
  have x: "x = s + of_nat ?k" by simp
  have u: "unat (of_nat j :: u32) = j" if "j < 2 ^ 32" for j using that by (simp add: unat_of_nat)
  show ?case
  proof (cases "a < b")
    case True
    let ?m = "m(s + of_nat a := m (s + of_nat b), s + of_nat b := m (s + of_nat a))"
    have ne: "(of_nat i :: u32) \<noteq> of_nat j" if "i < 2 ^ 32" "j < 2 ^ 32" "i \<noteq> j" for i j
      using that u by metis
    have "(of_nat a :: u32) < of_nat b" using True less.prems(1) by (simp add: word_less_nat_alt u)
    then have "str_reverse_loop s (of_nat a) (of_nat b) m x = str_reverse_loop s (of_nat (a + 1)) (of_nat (b - 1)) ?m x"
      using True by (subst str_reverse_loop.simps) (simp add: of_nat_diff add.commute)
    also have "\<dots> = (if a + 1 \<le> ?k \<and> ?k \<le> b - 1 then ?m (s + of_nat (a + 1 + (b - 1) - ?k)) else ?m x)"
      using True less.prems by (intro less.hyps) auto
    also have "\<dots> = (if a \<le> ?k \<and> ?k \<le> b then m (s + of_nat (a + b - ?k)) else m x)"
    proof (cases "a < ?k \<and> ?k < b")
      case True
      define r where "r = a + b - ?k"
      have r: "a + 1 + (b - 1) - ?k = r" "a + b - ?k = r" using True by (simp_all add: r_def)
      have "(of_nat r :: u32) \<noteq> of_nat a" "(of_nat r :: u32) \<noteq> of_nat b"
        using less.prems(1) \<open>a < b\<close> True by (intro ne; simp add: r_def; linarith)+
      moreover have k: "a + 1 \<le> ?k \<and> ?k \<le> b - 1" "a \<le> ?k \<and> ?k \<le> b" using True by linarith+
      ultimately show ?thesis by (simp only: r if_P [OF k(1)] if_P [OF k(2)]) simp
    next
      case False
      have "x = s + of_nat a \<longleftrightarrow> ?k = a" "x = s + of_nat b \<longleftrightarrow> ?k = b"
        using x u less.prems(1) \<open>a < b\<close> by (metis add_diff_cancel_left' dual_order.strict_trans)+
      then show ?thesis using False \<open>a < b\<close> by auto
    qed
    finally show ?thesis .
  next
    case False
    then have "\<not> (of_nat a :: u32) < of_nat b" using less.prems by (simp add: word_less_nat_alt u)
    then have "str_reverse_loop s (of_nat a) (of_nat b) m x = m x" by (subst str_reverse_loop.simps) simp
    moreover have "a + b - ?k = ?k" if "a \<le> ?k \<and> ?k \<le> b" using that False by linarith
    ultimately show ?thesis using x by simp
  qed
qed

lemma number_string:
  assumes "1 < unat b" "unat v < unat b ^ n" "0 < n" "n < 255" "str \<noteq> 0"
    "\<And>d. unat d < unat b \<Longrightarrow> dig d \<noteq> 0"
  shows "\<exists>m'. (case digits_loop b dig str v 0 m of (i, m) \<Rightarrow> str_reverse str (ucast i - 1) (m(str + ucast i := 0))) = Some m' \<and>
    cstr m' str (rev (map dig (digs b v))) \<and> length (digs b v) \<le> n \<and>
    (\<forall>a. n < unat (a - str) \<longrightarrow> m' a = m a)"
proof -
  let ?ds = "map dig (digs b v)"
  obtain l where len: "length (digs b v) = Suc l" using digs_pos [of b v] gr0_implies_Suc by blast
  have l: "Suc l \<le> n" "Suc l < 255" using len digs_length [OF assms(2,1,3)] assms(4) by auto
  define M where "M = (store m str ?ds)(str + of_nat (Suc l) := 0)"
  define M' where "M' = str_reverse_loop str 0 (of_nat l) M"
  have "(ucast (of_nat (Suc l) :: u8) :: u32) = of_nat (Suc l)"
    using l by (simp add: word_unat_eq_iff unat_ucast_le unat_of_nat del: of_nat_Suc)
  moreover have "of_nat (Suc l) - 1 = (of_nat l :: u32)" by simp
  ultimately have i: "(ucast (of_nat (Suc l) :: u8) :: u32) = of_nat (Suc l)" "of_nat (Suc l) - 1 = (of_nat l :: u32)" .
  have call: "(case digits_loop b dig str v 0 m of (i, m) \<Rightarrow> str_reverse str (ucast i - 1) (m(str + ucast i := 0))) = Some M'"
    using digits_loop_eq [of 0 b v dig str m] l assms(5) i len by (simp add: str_reverse_def M_def M'_def del: of_nat_Suc)
  have u: "unat (of_nat k :: u32) = k" if "k < 2 ^ 32" for k using that by (simp add: unat_of_nat)
  have m': "M' x = (if unat (x - str) \<le> l then M (str + of_nat (l - unat (x - str))) else M x)" for x
    using str_reverse_loop_eq [of l 0 str M x] l by (simp add: M'_def)
  have st: "M (str + of_nat k) = (if k = Suc l then 0 else if k < Suc l then ?ds ! k else m (str + of_nat k))" if "k < 2 ^ 32" for k
  proof -
    have "(of_nat k :: u32) = of_nat (Suc l) \<longleftrightarrow> k = Suc l" using u [OF that] u [of "Suc l"] l by fastforce
    then show ?thesis using u [OF that] len by (simp add: store_def M_def del: of_nat_Suc)
  qed
  have nth: "M' (str + of_nat k) = rev ?ds ! k" if k: "k < Suc l" for k
  proof -
    have "M' (str + of_nat k) = M (str + of_nat (l - k))" using k l u [of k] m' [of "str + of_nat k"] by simp
    moreover have lk: "l - k < Suc l" by (rule diff_less_Suc)
    moreover from lk have "l - k < 2 ^ 32" "l - k \<noteq> Suc l" using l by simp_all
    ultimately have "M' (str + of_nat k) = ?ds ! (l - k)" using st [of "l - k"] by presburger
    then show ?thesis using k len by (simp add: rev_nth)
  qed
  have nul: "M' (str + of_nat (Suc l)) = 0"
    using m' [of "str + of_nat (Suc l)"] st [of "Suc l"] u [of "Suc l"] l by (simp del: of_nat_Suc)
  have "0 \<notin> set ?ds" using digs_less [OF assms(1)] assms(6) by fastforce
  then have "cstr M' str (rev ?ds)" using nth nul l len by (simp add: cstr_def del: of_nat_Suc)
  moreover have "M' a = m a" if "n < unat (a - str)" for a
    using m' [of a] that l st [of "unat (a - str)"] unat_u32_lt [of "a - str"] by simp
  ultimately show ?thesis using call l(1) len by auto
qed

lemma digs_read:
  assumes "1 < unat b" "\<And>d. unat d < unat b \<Longrightarrow> val (dig d) = unat d"
  shows "foldl (\<lambda>acc c. acc * unat b + val c) 0 (rev (map dig (digs b v))) = unat v"
proof -
  have "foldr (\<lambda>c acc. acc * unat b + val c) (map dig ds) 0 = foldr (\<lambda>d acc. unat d + unat b * acc) ds 0"
    if "\<And>d. d \<in> set ds \<Longrightarrow> unat d < unat b" for ds
    using that assms(2) by (induction ds) (simp_all add: algebra_simps)
  then show ?thesis using digs_less [OF assms(1)] digs_value [OF assms(1)] by (simp add: foldr_conv_foldl [symmetric] foldl_conv_foldr)
qed

section \<open>Numerals\<close>

text \<open>The number a decimal or hexadecimal string stands for.\<close>

definition dec_value :: "u8 list \<Rightarrow> nat" where
  "dec_value cs = foldl (\<lambda>acc c. acc * 10 + (unat c - 48)) 0 cs"

definition hex_value :: "u8 list \<Rightarrow> nat" where
  "hex_value cs = foldl (\<lambda>acc c. acc * 16 + (if unat c \<le> 57 then unat c - 48 else unat c - 87)) 0 cs"

lemma utoa_string:
  assumes "str \<noteq> 0"
  shows "\<exists>m' cs. utoa v str m = Some m' \<and> cstr m' str cs \<and> dec_value cs = unat v \<and> length cs \<le> 20 \<and>
    (\<forall>c \<in> set cs. 48 \<le> unat c \<and> unat c < 58) \<and> (\<forall>a. 20 < unat (a - str) \<longrightarrow> m' a = m a)"
proof -
  let ?cs = "rev (map (\<lambda>r. ucast r + 48) (digs 10 v)) :: u8 list"
  have d: "unat (ucast d + 48 :: u8) = unat d + 48" if "unat d < 10" for d :: u64
    using that by (subst unat_add_no_wrap) (simp_all add: unsigned_ucast_eq take_bit_nat_eq_self)
  have nz: "(ucast d + 48 :: u8) \<noteq> 0" if "unat d < 10" for d :: u64 using d [OF that] by (metis add_is_0 unat_0 zero_neq_numeral)
  obtain m' where m': "utoa v str m = Some m'" "cstr m' str ?cs" "length (digs 10 v) \<le> 20" "\<forall>a. 20 < unat (a - str) \<longrightarrow> m' a = m a"
    using number_string [of 10 v 20 str "\<lambda>r. ucast r + 48" m] unat_lt [of v] assms nz
    by (auto simp: utoa_def case_prod_unfold Let_def)
  have "dec_value ?cs = unat v"
    using digs_read [of 10 "\<lambda>c. unat c - 48" "\<lambda>r. ucast r + 48 :: u8" v] d by (simp add: dec_value_def)
  moreover have "\<forall>c \<in> set ?cs. 48 \<le> unat c \<and> unat c < 58" using digs_less [of 10 _ v] d by fastforce
  ultimately show ?thesis using m' by (intro exI [of _ m'] exI [of _ ?cs]) simp
qed

lemma hex_string:
  assumes "str \<noteq> 0"
  shows "\<exists>m' cs. hex v str m = Some m' \<and> cstr m' str cs \<and> hex_value cs = unat v \<and> length cs \<le> 16 \<and>
    (\<forall>a. 16 < unat (a - str) \<longrightarrow> m' a = m a)"
proof -
  let ?cs = "rev (map (\<lambda>r. hex_base ! unat r) (digs 16 v))"
  have all: "hex_base ! k \<noteq> 0 \<and>
      (if unat (hex_base ! k) \<le> 57 then unat (hex_base ! k) - 48 else unat (hex_base ! k) - 87) = k" if "k < 16" for k
  proof -
    have "k \<in> {0, 1, 2, 3, 4, 5, 6, 7, 8, 9, 10, 11, 12, 13, 14, 15}" using that by simp presburger
    then show ?thesis by (elim insertE emptyE) (simp_all add: hex_base_def)
  qed
  obtain m' where m': "hex v str m = Some m'" "cstr m' str ?cs" "length (digs 16 v) \<le> 16" "\<forall>a. 16 < unat (a - str) \<longrightarrow> m' a = m a"
    using number_string [of 16 v 16 str "\<lambda>r. hex_base ! unat r" m] unat_lt [of v] assms all
    by (auto simp: hex_def case_prod_unfold Let_def)
  have "hex_value ?cs = unat v"
    using digs_read [of 16 "\<lambda>c. if unat c \<le> 57 then unat c - 48 else unat c - 87" "\<lambda>r. hex_base ! unat r" v] all
    by (simp add: hex_value_def)
  then show ?thesis using m' by (intro exI [of _ m'] exI [of _ ?cs]) simp
qed

section \<open>Properties\<close>

text \<open>
  C34. Printing and reading numbers. \<^verbatim>\<open>utoa\<close> and \<^verbatim>\<open>hex\<close> return for every 64-bit value and leave a
  string in the buffer that reads back as the value, of at most 20 decimal or 16 hexadecimal digits;
  no byte beyond the terminator is changed.
\<close>

theorem utoa_hex_roundtrip:
  assumes "str \<noteq> 0"
  shows "(\<exists>m' cs. utoa v str m = Some m' \<and> cstr m' str cs \<and> dec_value cs = unat v \<and> length cs \<le> 20 \<and>
      (\<forall>a. 20 < unat (a - str) \<longrightarrow> m' a = m a)) \<and>
    (\<exists>m' cs. hex v str m = Some m' \<and> cstr m' str cs \<and> hex_value cs = unat v \<and> length cs \<le> 16 \<and>
      (\<forall>a. 16 < unat (a - str) \<longrightarrow> m' a = m a))"
  using utoa_string [OF assms, of v m] hex_string [OF assms, of v m] by blast

theorem utoa_hex_roundtrip_witness:
  "\<exists>m' cs. utoa 18446744073709551615 0xc0000000 (\<lambda>_. 0) = Some m' \<and> cstr m' 0xc0000000 cs \<and>
     dec_value cs = 18446744073709551615"
  using utoa_hex_roundtrip [of "0xc0000000" "18446744073709551615" "\<lambda>_. 0"] by auto

text \<open>
  Comparing strings. \<^verbatim>\<open>strcmp\<close> of two strings in memory returns, and returns true exactly when
  the strings are equal, although it compares as many bytes as the first string has.
\<close>

theorem strcmp_decides_equality:
  assumes "cstr m a cs" "cstr m b ds" "a \<noteq> 0" "b \<noteq> 0"
  shows "strcmp m a b = Some (cs = ds)"
  using assms by (rule strcmp_cstr)

theorem strcmp_decides_equality_witness:
  "strcmp (\<lambda>a. if a = 100 \<or> a = 200 \<or> a = 201 then 65 else 0) 100 200 = Some ([65] = [65, 65 :: u8])"
  by (rule strcmp_decides_equality) (simp_all add: cstr_def less_Suc_eq)

end
