(* ===== verification/BlockAlloc.thy ===== *)
theory BlockAlloc
  imports Kstring
begin

text \<open>
  The boot-time memory allocator, \<^verbatim>\<open>mm/block_alloc.c\<close>: it takes the available regions of the memory map
  that the boot loader passes, keeps one \<^verbatim>\<open>blockInfo\<close> structure per region, and hands out memory from
  the front of the first region that is large enough.

  The memory map is the list of its entries; the list of \<^verbatim>\<open>blockInfo\<close> structures is a HOL list whose
  elements know the address \<open>bi_self\<close> of their structure.
\<close>

section \<open>Definitions\<close>

definition c_M :: u32 where "c_M = 0x100000"

record mmap_entry =
  me_addr :: u64
  me_len :: u64
  me_type :: u32
  me_zero :: u32

definition MULTIBOOT_MEMORY_AVAILABLE :: u32 where "MULTIBOOT_MEMORY_AVAILABLE = 1"
definition MULTIBOOT_MEMORY_RESERVED :: u32 where "MULTIBOOT_MEMORY_RESERVED = 2"

record blockInfo =
  bi_self :: ptr_t
  bi_addr :: u32
  bi_size :: u32

record string_table =
  st_addr :: ptr_t
  st_size :: u32

record boot_tables =
  bt_shstrtab :: string_table
  bt_strtab :: string_table
  bt_symtab :: string_table

record block_allocator =
  bl_blocks :: "blockInfo list"
  bl_addr :: u32
  bl_size :: u32

subsection \<open>Allocation\<close>

definition block_align_size :: "ptr_t \<Rightarrow> ptr_t \<Rightarrow> ptr_t" where
  "block_align_size addr sz = PAGE_CEIL (sz - (PAGE_FLOOR addr - addr))"

text \<open>The search of \<^verbatim>\<open>block_alloc\<close>: the first block that is large enough is cut at its front.\<close>

fun block_find :: "u32 \<Rightarrow> blockInfo list \<Rightarrow> (ptr_t \<times> blockInfo list) option" where
  "block_find sz [] = None"
| "block_find sz (b # bs) =
     (if bi_size b \<ge> sz then Some (bi_addr b, b\<lparr>bi_addr := bi_addr b + sz, bi_size := bi_size b - sz\<rparr> # bs)
      else case block_find sz bs of None \<Rightarrow> None | Some (a, bs') \<Rightarrow> Some (a, b # bs'))"

definition block_alloc :: "u32 \<Rightarrow> block_allocator \<Rightarrow> (ptr_t \<times> block_allocator) option" where
  "block_alloc sz s = do {
     assertk (bl_size s \<ge> sz);
     let sz = MEM_ALIGN sz 4;
     (addr, bs) \<leftarrow> block_find sz (bl_blocks s);
     let s = s\<lparr>bl_size := bl_size s - sz,
       bl_addr := (if bi_size (hd (bl_blocks s)) \<ge> sz then bi_addr (hd bs) else bl_addr s), bl_blocks := bs\<rparr>;
     assertk (addr \<noteq> 0);
     Some (addr, s)
   }"

definition block_alloc_align :: "u32 \<Rightarrow> u32 \<Rightarrow> block_allocator \<Rightarrow> (ptr_t \<times> block_allocator) option" where
  "block_alloc_align sz align s = do {
     assertk (align > 4 \<and> align AND 3 = 0);
     (addr, s) \<leftarrow> block_alloc (sz + align - 1) s;
     Some (MEM_ALIGN addr align, s)
   }"

definition block_start :: "block_allocator \<Rightarrow> u32" where
  "block_start s = bl_addr s"

definition block_end :: "block_allocator \<Rightarrow> u32 option" where
  "block_end s = do {
     assertk (bl_blocks s \<noteq> []);
     let info = last (bl_blocks s);
     Some (bi_addr info + bi_size info)
   }"

definition block_size :: "block_allocator \<Rightarrow> u32" where
  "block_size s = bl_size s"

subsection \<open>Moving the tables of the boot loader\<close>

definition move :: "ptr_t \<Rightarrow> u32 \<Rightarrow> block_allocator \<Rightarrow> mem8 \<Rightarrow> (ptr_t \<times> block_allocator \<times> mem8) option" where
  "move addr sz s m = do {
     assertk (addr < KERNEL_START + 4 * c_M);
     if addr > 1 * c_M then do {
       (a, s) \<leftarrow> block_alloc sz s;
       let new = a + KERNEL_START;
       assertk (new \<noteq> 0 \<and> new < KERNEL_START + 4 * c_M);
       Some (new, s, memcpy new addr sz m)
     } else Some (addr, s, m)
   }"

text \<open>One step of the exchange sort of \<^verbatim>\<open>reload\<close>, and its loops over three addresses.\<close>

definition swap_less :: "nat \<Rightarrow> nat \<Rightarrow> ptr_t list \<Rightarrow> ptr_t list" where
  "swap_less j i xs = (if xs ! i < xs ! j then xs[i := xs ! j, j := xs ! i] else xs)"

definition sort_addrs :: "ptr_t list \<Rightarrow> ptr_t list" where
  "sort_addrs xs = swap_less 1 2 (swap_less 0 2 (swap_less 0 1 xs))"

fun reload_loop :: "ptr_t list \<Rightarrow> boot_tables \<Rightarrow> block_allocator \<Rightarrow> mem8 \<Rightarrow>
    (boot_tables \<times> block_allocator \<times> mem8) option" where
  "reload_loop [] t s m = Some (t, s, m)"
| "reload_loop (a # as) t s m =
     (if a = st_addr (bt_shstrtab t) then do {
        (new, s, m) \<leftarrow> move (st_addr (bt_shstrtab t)) (st_size (bt_shstrtab t)) s m;
        assertk (new \<noteq> 0);
        reload_loop as (t\<lparr>bt_shstrtab := (bt_shstrtab t)\<lparr>st_addr := new\<rparr>\<rparr>) s m
      } else if a = st_addr (bt_strtab t) then do {
        (new, s, m) \<leftarrow> move (st_addr (bt_strtab t)) (st_size (bt_strtab t)) s m;
        assertk (new \<noteq> 0);
        reload_loop as (t\<lparr>bt_strtab := (bt_strtab t)\<lparr>st_addr := new\<rparr>\<rparr>) s m
      } else do {
        (new, s, m) \<leftarrow> move (st_addr (bt_symtab t)) (st_size (bt_symtab t)) s m;
        assertk (new \<noteq> 0);
        reload_loop as (t\<lparr>bt_symtab := (bt_symtab t)\<lparr>st_addr := new\<rparr>\<rparr>) s m
      })"

definition reload :: "boot_tables \<Rightarrow> block_allocator \<Rightarrow> mem8 \<Rightarrow> (boot_tables \<times> block_allocator \<times> mem8) option" where
  "reload t s m =
     reload_loop (sort_addrs [st_addr (bt_shstrtab t), st_addr (bt_strtab t), st_addr (bt_symtab t)]) t s m"

subsection \<open>Set-up\<close>

text \<open>
  The first pass over the memory map: memory below the end of the kernel is cut off, the available
  regions are counted, and the one with the lowest address is remembered (its index and address).
\<close>

fun trim_loop :: "u32 \<Rightarrow> mmap_entry list \<Rightarrow> nat \<Rightarrow> (nat \<times> u64) option \<Rightarrow> u32 \<Rightarrow>
    (mmap_entry list \<times> (nat \<times> u64) option \<times> u32) option" where
  "trim_loop K_END [] i firstMem cnt = Some ([], firstMem, cnt)"
| "trim_loop K_END (e # es) i firstMem cnt = do {
     assertk (me_zero e = 0);
     if me_type e = MULTIBOOT_MEMORY_AVAILABLE then do {
       let end_addr = me_addr e + me_len e;
       if me_addr e < ucast K_END \<and> end_addr < ucast K_END then do {
         (es, firstMem, cnt) \<leftarrow> trim_loop K_END es (i + 1) firstMem cnt;
         Some (e\<lparr>me_type := MULTIBOOT_MEMORY_RESERVED\<rparr> # es, firstMem, cnt)
       } else do {
         let e = (if me_addr e < ucast K_END then e\<lparr>me_addr := ucast K_END, me_len := end_addr - ucast K_END\<rparr> else e);
         let firstMem = (case firstMem of None \<Rightarrow> Some (i, me_addr e)
           | Some (j, a) \<Rightarrow> if a > me_addr e then Some (i, me_addr e) else Some (j, a));
         (es, firstMem, cnt) \<leftarrow> trim_loop K_END es (i + 1) firstMem (cnt + 1);
         Some (e # es, firstMem, cnt)
       }
     } else do {
       (es, firstMem, cnt) \<leftarrow> trim_loop K_END es (i + 1) firstMem cnt;
       Some (e # es, firstMem, cnt)
     }
   }"

text \<open>The second pass: one \<^verbatim>\<open>blockInfo\<close> per available region, 16 bytes apart, appended to the list.\<close>

fun fill_loop :: "mmap_entry list \<Rightarrow> ptr_t \<Rightarrow> u32 \<Rightarrow> blockInfo list \<Rightarrow> (ptr_t \<times> u32 \<times> blockInfo list) option" where
  "fill_loop [] info sz bs = Some (info, sz, bs)"
| "fill_loop (e # es) info sz bs = do {
     assertk (me_zero e = 0);
     if me_type e = MULTIBOOT_MEMORY_AVAILABLE
     then fill_loop es (info + 16) (sz + ucast (me_len e))
       (bs @ [\<lparr>bi_self = info, bi_addr = ucast (me_addr e), bi_size = ucast (me_len e)\<rparr>])
     else fill_loop es info sz bs
   }"

text \<open>
  \<^verbatim>\<open>sort_block_info\<close>: every element moves back over the elements before it (here in reverse) whose
  structure lies at a higher address.
\<close>

fun insert_back :: "blockInfo \<Rightarrow> blockInfo list \<Rightarrow> blockInfo list" where
  "insert_back hdr [] = [hdr]"
| "insert_back hdr (tmp # ts) = (if bi_self hdr < bi_self tmp then tmp # insert_back hdr ts else hdr # tmp # ts)"

fun sort_loop :: "blockInfo list \<Rightarrow> blockInfo list \<Rightarrow> blockInfo list" where
  "sort_loop prevs [] = rev prevs"
| "sort_loop prevs (hdr # hs) = sort_loop (insert_back hdr prevs) hs"

definition sort_block_info :: "blockInfo list \<Rightarrow> blockInfo list" where
  "sort_block_info bs = sort_loop [] bs"

definition memBlock_init :: "u32 \<Rightarrow> mmap_entry list \<Rightarrow> boot_tables \<Rightarrow> mem8 \<Rightarrow>
    (boot_tables \<times> block_allocator \<times> mem8) option" where
  "memBlock_init K_END mmap t m = do {
     (mmap, firstMem, cnt) \<leftarrow> trim_loop K_END mmap 0 None 0;
     (f, _) \<leftarrow> firstMem;
     assertk (me_addr (mmap ! f) < ucast (4 * c_M));
     assertk (cnt \<noteq> 0);
     let alloc = 16 * cnt;
     let infos = ucast (me_addr (mmap ! f)) + KERNEL_START;
     assertk (me_len (mmap ! f) > ucast alloc);
     let mmap = mmap[f := (mmap ! f)\<lparr>me_len := me_len (mmap ! f) - ucast alloc, me_addr := me_addr (mmap ! f) + ucast alloc\<rparr>];
     (info, sz, bs) \<leftarrow> fill_loop mmap infos 0 [];
     assertk (info = infos + alloc);
     let bs = sort_block_info bs;
     reload t \<lparr>bl_blocks = bs, bl_addr = bi_addr (hd bs), bl_size = sz\<rparr> m
   }"

text \<open>
  \<^verbatim>\<open>pmm_init_mm\<close> of \<^verbatim>\<open>page_alloc.c\<close>: room for one 64-byte page structure per page between the first and
  the last block.
\<close>

definition pmm_init_mm :: "block_allocator \<Rightarrow> (u32 \<times> ptr_t \<times> block_allocator) option" where
  "pmm_init_mm s = do {
     e \<leftarrow> block_end s;
     let pageCnt = drop_bit 12 (e - block_start s);
     (a, s) \<leftarrow> block_alloc_align (pageCnt * 64) 64 s;
     Some (pageCnt, a + KERNEL_START, s)
   }"

section \<open>Free memory as a set of addresses\<close>

definition block_range :: "blockInfo \<Rightarrow> nat set" where
  "block_range b = {unat (bi_addr b) ..< unat (bi_addr b) + unat (bi_size b)}"

definition free_bytes :: "blockInfo list \<Rightarrow> nat set" where
  "free_bytes bs = (\<Union>b\<in>set bs. block_range b)"

definition blocks_wf :: "blockInfo list \<Rightarrow> bool" where
  "blocks_wf bs \<longleftrightarrow> (\<forall>b\<in>set bs. unat (bi_addr b) + unat (bi_size b) < 2 ^ 32) \<and>
     sorted_wrt (\<lambda>b c. block_range b \<inter> block_range c = {}) bs"

lemma free_bytes_simps [simp]:
  "free_bytes [] = {}" "free_bytes (b # bs) = block_range b \<union> free_bytes bs"
  by (simp_all add: free_bytes_def)

lemma blocks_wf_Cons: "blocks_wf (b # bs) \<longleftrightarrow> unat (bi_addr b) + unat (bi_size b) < 2 ^ 32 \<and>
    block_range b \<inter> free_bytes bs = {} \<and> blocks_wf bs"
  by (auto simp: blocks_wf_def free_bytes_def)

lemma block_find_ok:
  assumes "blocks_wf bs" "block_find sz bs = Some (a, bs')"
  shows "{unat a ..< unat a + unat sz} \<subseteq> free_bytes bs \<and> unat a + unat sz < 2 ^ 32 \<and>
    free_bytes bs' = free_bytes bs - {unat a ..< unat a + unat sz} \<and> blocks_wf bs' \<and> length bs' = length bs"
  using assms
proof (induction bs arbitrary: bs')
  case (Cons b bs)
  show ?case
  proof (cases "bi_size b \<ge> sz")
    case True
    let ?b = "b\<lparr>bi_addr := bi_addr b + sz, bi_size := bi_size b - sz\<rparr>"
    have r: "a = bi_addr b" "bs' = ?b # bs" using True Cons.prems(2) by auto
    have le: "unat sz \<le> unat (bi_size b)" using True by (simp add: word_le_nat_alt)
    have wf: "unat (bi_addr b) + unat (bi_size b) < 2 ^ 32" "block_range b \<inter> free_bytes bs = {}" "blocks_wf bs"
      using Cons.prems(1) by (auto simp: blocks_wf_Cons)
    have u: "unat (bi_addr b + sz) = unat (bi_addr b) + unat sz" "unat (bi_size b - sz) = unat (bi_size b) - unat sz"
      using wf(1) le by (simp_all add: unat_add_no_wrap unat_sub_no_wrap)
    have range: "block_range ?b = block_range b - {unat a ..< unat a + unat sz}"
      "{unat a ..< unat a + unat sz} \<subseteq> block_range b" "block_range ?b \<subseteq> block_range b"
      using le by (auto simp: block_range_def u r(1))
    have "unat (bi_addr ?b) + unat (bi_size ?b) < 2 ^ 32" using wf(1) le by (simp add: u)
    then have "blocks_wf bs'" using wf range(3) by (auto simp: r(2) blocks_wf_Cons simp del: blockInfo.simps)
    then show ?thesis using range wf le r by (auto simp del: blockInfo.simps)
  next
    case False
    then obtain cs where cs: "block_find sz bs = Some (a, cs)" "bs' = b # cs"
      using Cons.prems(2) by (auto split: option.splits)
    have wf: "block_range b \<inter> free_bytes bs = {}" "blocks_wf bs" using Cons.prems(1) by (auto simp: blocks_wf_Cons)
    note IH = Cons.IH [OF wf(2) cs(1)]
    then have "blocks_wf bs'" using Cons.prems(1) wf by (auto simp: cs(2) blocks_wf_Cons)
    then show ?thesis using IH wf by (auto simp: cs(2))
  qed
qed simp

lemma block_find_None: "block_find sz bs = None \<longleftrightarrow> (\<forall>b\<in>set bs. bi_size b < sz)"
  by (induction bs) (auto split: option.splits)

lemma block_find_aligned:
  "block_find sz bs = Some (a, bs') \<Longrightarrow> \<forall>b\<in>set bs. 4 dvd unat (bi_addr b) \<Longrightarrow> 4 dvd unat sz \<Longrightarrow>
   4 dvd unat a \<and> (\<forall>b\<in>set bs'. 4 dvd unat (bi_addr b))"
proof (induction bs arbitrary: bs')
  case (Cons b bs)
  have "4 dvd (x mod 4294967296 :: nat)" if "4 dvd x" for x using that by (simp add: dvd_mod)
  then have "4 dvd unat (bi_addr b + sz)" using Cons.prems(2,3) by (simp add: unat_word_ariths)
  then show ?case using Cons by (auto split: if_splits option.splits)
qed simp

section \<open>Properties\<close>

text \<open>
  C28. Boot-time allocation. On disjoint blocks, \<^verbatim>\<open>block_alloc\<close> returns the start of a range of the
  size rounded up to a multiple of four that was free and non-null, and removes exactly this range
  from the free memory; the blocks stay disjoint and the size counter stays exact. Where all blocks
  start at multiples of four, so does the range, and so do the blocks afterwards. It panics exactly when the
  request exceeds the counter, no single block is large enough, or the chosen block starts at 0.
\<close>

theorem block_alloc_correct:
  assumes "blocks_wf (bl_blocks s)" "unat sz + 3 < 2 ^ 32"
  shows "case block_alloc sz s of
      Some (a, s') \<Rightarrow> a \<noteq> 0 \<and> {unat a ..< unat a + (unat sz + 3) div 4 * 4} \<subseteq> free_bytes (bl_blocks s) \<and>
        free_bytes (bl_blocks s') = free_bytes (bl_blocks s) - {unat a ..< unat a + (unat sz + 3) div 4 * 4} \<and>
        blocks_wf (bl_blocks s') \<and> bl_size s' = bl_size s - MEM_ALIGN sz 4 \<and>
        ((\<forall>b\<in>set (bl_blocks s). 4 dvd unat (bi_addr b)) \<longrightarrow>
           4 dvd unat a \<and> (\<forall>b\<in>set (bl_blocks s'). 4 dvd unat (bi_addr b)))
    | None \<Rightarrow> bl_size s < sz \<or> (\<forall>b\<in>set (bl_blocks s). unat (bi_size b) < (unat sz + 3) div 4 * 4) \<or>
        (\<exists>bs. block_find (MEM_ALIGN sz 4) (bl_blocks s) = Some (0, bs))"
proof (cases "block_alloc sz s")
  case None
  then have "bl_size s < sz \<or> block_find (MEM_ALIGN sz 4) (bl_blocks s) = None \<or>
      (\<exists>bs. block_find (MEM_ALIGN sz 4) (bl_blocks s) = Some (0, bs))"
    by (cases "block_find (MEM_ALIGN sz 4) (bl_blocks s)") (auto simp: block_alloc_def Let_def not_le split: if_splits)
  then show ?thesis
    using None by (auto simp: block_find_None word_less_nat_alt unat_MEM_ALIGN_4 [OF assms(2)])
next
  case (Some r)
  obtain a s' where r: "r = (a, s')" by (cases r)
  then have f: "block_find (MEM_ALIGN sz 4) (bl_blocks s) = Some (a, bl_blocks s')" "a \<noteq> 0"
      "bl_size s' = bl_size s - MEM_ALIGN sz 4"
    using Some by (auto simp: block_alloc_def Let_def returned split: if_splits)
  moreover have "4 dvd unat (MEM_ALIGN sz 4)" by (simp add: unat_MEM_ALIGN_4 [OF assms(2)])
  ultimately show ?thesis
    using Some r block_find_ok [OF assms(1) f(1)] block_find_aligned [OF f(1)] by (simp add: unat_MEM_ALIGN_4 [OF assms(2)])
qed

theorem block_alloc_correct_witness:
  "case block_alloc 5 \<lparr>bl_blocks = [\<lparr>bi_self = 0xc0100000, bi_addr = 0x100020, bi_size = 0x1000\<rparr>], bl_addr = 0x100020, bl_size = 0x1000\<rparr> of
     Some (a, s') \<Rightarrow> a = 0x100020 \<and> free_bytes (bl_blocks s') = {0x100028 ..< 0x101020} \<and>
       (\<forall>b\<in>set (bl_blocks s'). 4 dvd unat (bi_addr b)) | None \<Rightarrow> False"
proof -
  let ?s = "\<lparr>bl_blocks = [\<lparr>bi_self = 0xc0100000, bi_addr = 0x100020, bi_size = 0x1000\<rparr>], bl_addr = 0x100020, bl_size = 0x1000\<rparr>"
  have a: "MEM_ALIGN 5 4 = 8" by (simp add: MEM_ALIGN_def)
  obtain s' where "block_alloc 5 ?s = Some (0x100020, s')" by (simp add: block_alloc_def a)
  moreover have "blocks_wf (bl_blocks ?s)" by (simp add: blocks_wf_def)
  ultimately show ?thesis using block_alloc_correct [of ?s 5] by (auto simp: block_range_def)
qed

end
