(* ===== verification/Elf.thy ===== *)
theory Elf
  imports BlockAlloc
begin

text \<open>
  ELF structures (\<^verbatim>\<open>include/elf.h\<close>) as records decoded from memory, the checks of \<^verbatim>\<open>loader.c\<close> on
  headers, and the symbol lookup and frame walk of \<^verbatim>\<open>lib/qlib.c\<close> that \<^verbatim>\<open>panic\<close> uses. Multi-byte fields
  are stored low byte first.
\<close>

section \<open>Definitions\<close>

definition ld16 :: "mem8 \<Rightarrow> ptr_t \<Rightarrow> u16" where
  "ld16 m a = ucast (m a) OR push_bit 8 (ucast (m (a + 1)))"

definition ld32 :: "mem8 \<Rightarrow> ptr_t \<Rightarrow> u32" where
  "ld32 m a = ucast (m a) OR push_bit 8 (ucast (m (a + 1))) OR push_bit 16 (ucast (m (a + 2))) OR
     push_bit 24 (ucast (m (a + 3)))"

record elf32_header =
  e_ident :: "nat \<Rightarrow> u8"
  e_type :: u16
  e_machine :: u16
  e_version :: u32
  e_entry :: u32
  e_phoff :: u32
  e_shoff :: u32
  e_flags :: u32
  e_ehsize :: u16
  e_phentsize :: u16
  e_phnum :: u16
  e_shentsize :: u16
  e_shnum :: u16
  e_shstrndx :: u16

definition elf32_header_at :: "mem8 \<Rightarrow> ptr_t \<Rightarrow> elf32_header" where
  "elf32_header_at m a = \<lparr>e_ident = (\<lambda>i. m (a + of_nat i)), e_type = ld16 m (a + 16), e_machine = ld16 m (a + 18),
     e_version = ld32 m (a + 20), e_entry = ld32 m (a + 24), e_phoff = ld32 m (a + 28), e_shoff = ld32 m (a + 32),
     e_flags = ld32 m (a + 36), e_ehsize = ld16 m (a + 40), e_phentsize = ld16 m (a + 42), e_phnum = ld16 m (a + 44),
     e_shentsize = ld16 m (a + 46), e_shnum = ld16 m (a + 48), e_shstrndx = ld16 m (a + 50)\<rparr>"

record elf32_sh =
  sh_name :: u32
  sh_type :: u32
  sh_flags :: u32
  sh_addr :: u32
  sh_offset :: u32
  sh_size :: u32
  sh_link :: u32
  sh_info :: u32
  sh_addralign :: u32
  sh_entsize :: u32

definition sizeof_elf32_sh :: u32 where "sizeof_elf32_sh = 40"

definition elf32_sh_at :: "mem8 \<Rightarrow> ptr_t \<Rightarrow> elf32_sh" where
  "elf32_sh_at m a = \<lparr>sh_name = ld32 m a, sh_type = ld32 m (a + 4), sh_flags = ld32 m (a + 8), sh_addr = ld32 m (a + 12),
     sh_offset = ld32 m (a + 16), sh_size = ld32 m (a + 20), sh_link = ld32 m (a + 24), sh_info = ld32 m (a + 28),
     sh_addralign = ld32 m (a + 32), sh_entsize = ld32 m (a + 36)\<rparr>"

definition SHT_NULL :: u32 where "SHT_NULL = 0"
definition SHT_SYMTAB :: u32 where "SHT_SYMTAB = 2"
definition SHT_STRTAB :: u32 where "SHT_STRTAB = 3"

record elf32_symbol =
  sy_name :: u32
  sy_value :: u32
  sy_size :: u32
  sy_info :: u8
  sy_other :: u8
  sy_shndx :: u16

definition sizeof_elf32_symbol :: u32 where "sizeof_elf32_symbol = 16"

definition elf32_symbol_at :: "mem8 \<Rightarrow> ptr_t \<Rightarrow> elf32_symbol" where
  "elf32_symbol_at m a = \<lparr>sy_name = ld32 m a, sy_value = ld32 m (a + 4), sy_size = ld32 m (a + 8), sy_info = m (a + 12),
     sy_other = m (a + 13), sy_shndx = ld16 m (a + 14)\<rparr>"

record elf32_symbol_table =
  sy_header :: ptr_t
  sy_tsize :: u32
  sy_entry_size :: u32

definition ELF32_ST_TYPE :: "u8 \<Rightarrow> u8" where "ELF32_ST_TYPE info = info AND BIT_MASK 4"
definition STT_FUNC :: u8 where "STT_FUNC = 2"

record elf32_phdr =
  p_type :: u32
  p_offset :: u32
  p_vaddr :: u32
  p_paddr :: u32
  p_filesz :: u32
  p_memsz :: u32
  p_flags :: u32
  p_align :: u32

definition sizeof_elf32_phdr :: u32 where "sizeof_elf32_phdr = 32"

definition elf32_phdr_at :: "mem8 \<Rightarrow> ptr_t \<Rightarrow> elf32_phdr" where
  "elf32_phdr_at m a = \<lparr>p_type = ld32 m a, p_offset = ld32 m (a + 4), p_vaddr = ld32 m (a + 8), p_paddr = ld32 m (a + 12),
     p_filesz = ld32 m (a + 16), p_memsz = ld32 m (a + 20), p_flags = ld32 m (a + 24), p_align = ld32 m (a + 28)\<rparr>"

definition PT_NULL :: u32 where "PT_NULL = 0"
definition PT_LOAD :: u32 where "PT_LOAD = 1"
definition PF_X :: u32 where "PF_X = 1"
definition PF_W :: u32 where "PF_W = 2"
definition PF_MASKPROC :: u32 where "PF_MASKPROC = 0xf0000000"

definition ELF_MAG0 :: u8 where "ELF_MAG0 = 0x7F"
definition ELF_MAG1 :: u8 where "ELF_MAG1 = 69"
definition ELF_MAG2 :: u8 where "ELF_MAG2 = 76"
definition ELF_MAG3 :: u8 where "ELF_MAG3 = 70"
definition ELF_DATA2LSB :: u8 where "ELF_DATA2LSB = 1"
definition ELF_CLASS32 :: u8 where "ELF_CLASS32 = 1"
definition EM_386 :: u16 where "EM_386 = 3"
definition EV_CURRENT :: u8 where "EV_CURRENT = 1"
definition ET_REL :: u16 where "ET_REL = 1"
definition ET_EXEC :: u16 where "ET_EXEC = 2"
definition SHN_UNDEF :: u16 where "SHN_UNDEF = 0"

definition elf_check_header :: "elf32_header \<Rightarrow> bool option" where
  "elf_check_header h =
     (if e_ident h 0 \<noteq> ELF_MAG0 then Some False
      else if e_ident h 1 \<noteq> ELF_MAG1 then Some False
      else if e_ident h 2 \<noteq> ELF_MAG2 then Some False
      else if e_ident h 3 \<noteq> ELF_MAG3 then Some False
      else if e_ident h 4 \<noteq> ELF_CLASS32 then Some False
      else if e_ident h 5 \<noteq> ELF_DATA2LSB then Some False
      else if e_ident h 6 \<noteq> EV_CURRENT then Some False
      else if e_machine h \<noteq> EM_386 then Some False
      else if e_type h \<noteq> ET_REL \<and> e_type h \<noteq> ET_EXEC then Some False
      else do {
        assertk (e_shentsize h = ucast sizeof_elf32_sh);
        assertk (e_phentsize h = ucast sizeof_elf32_phdr);
        Some True
      })"

definition get_flags :: "elf32_phdr \<Rightarrow> u32 option" where
  "get_flags pgh = do {
     assertk (p_flags pgh AND PF_MASKPROC = 0);
     Some (if p_flags pgh AND PF_W \<noteq> 0 then VM_URW else VM_UR)
   }"

subsection \<open>Symbols and stack frames\<close>

text \<open>\<^verbatim>\<open>cur_func_name\<close>: \<open>n\<close> symbols are left from address \<open>a\<close> on; 0 is NULL.\<close>

fun func_name_loop :: "nat \<Rightarrow> mem8 \<Rightarrow> ptr_t \<Rightarrow> ptr_t \<Rightarrow> ptr_t \<Rightarrow> ptr_t" where
  "func_name_loop 0 m a strtab addr = 0"
| "func_name_loop (Suc n) m a strtab addr =
     (let entry = elf32_symbol_at m a in
      if ELF32_ST_TYPE (sy_info entry) = STT_FUNC \<and> addr \<ge> sy_value entry \<and> addr \<le> sy_value entry + sy_size entry
      then strtab + sy_name entry
      else func_name_loop n m (a + sizeof_elf32_symbol) strtab addr)"

definition cur_func_name :: "mem8 \<Rightarrow> elf32_symbol_table \<Rightarrow> ptr_t \<Rightarrow> ptr_t \<Rightarrow> ptr_t option" where
  "cur_func_name m symtab strtab addr = do {
     assertk (sy_entry_size symtab \<noteq> 0);
     Some (func_name_loop (unat (sy_tsize symtab div sy_entry_size symtab)) m (sy_header symtab) strtab addr)
   }"

text \<open>
  \<^verbatim>\<open>stack_trace\<close> as the list of (instruction address, function name) it prints, starting from the
  frame pointer \<open>stk\<close>; the frames may form a cycle.
\<close>

partial_function (option) stack_trace ::
  "mem8 \<Rightarrow> elf32_symbol_table \<Rightarrow> ptr_t \<Rightarrow> ptr_t \<Rightarrow> (ptr_t \<times> ptr_t) list option" where
  "stack_trace m symtab strtab stk =
     (if ld32 m stk \<noteq> 0 then do {
        name \<leftarrow> cur_func_name m symtab strtab (ld32 m (stk + 4));
        if name = 0 then Some []
        else do {
          rest \<leftarrow> stack_trace m symtab strtab (ld32 m stk);
          Some ((ld32 m (stk + 4), name) # rest)
        }
      } else Some [])"

primrec nth_frame :: "nat \<Rightarrow> mem8 \<Rightarrow> ptr_t \<Rightarrow> ptr_t" where
  "nth_frame 0 m stk = stk"
| "nth_frame (Suc n) m stk = (if ld32 m stk \<noteq> 0 then nth_frame n m (ld32 m stk) else stk)"

definition func_name :: "mem8 \<Rightarrow> elf32_symbol_table \<Rightarrow> ptr_t \<Rightarrow> ptr_t \<Rightarrow> u8 \<Rightarrow> ptr_t option" where
  "func_name m symtab strtab stk n = cur_func_name m symtab strtab (ld32 m (nth_frame (unat n) m stk + 4))"

section \<open>Correctness of the symbol lookup\<close>

text \<open>The \<open>i\<close>-th symbol and whether it is a function whose range, end included, has the address.\<close>

definition symbol_nth :: "mem8 \<Rightarrow> ptr_t \<Rightarrow> nat \<Rightarrow> elf32_symbol" where
  "symbol_nth m a i = elf32_symbol_at m (a + of_nat i * sizeof_elf32_symbol)"

definition covers :: "elf32_symbol \<Rightarrow> ptr_t \<Rightarrow> bool" where
  "covers e addr \<longleftrightarrow> ELF32_ST_TYPE (sy_info e) = STT_FUNC \<and> addr \<ge> sy_value e \<and> addr \<le> sy_value e + sy_size e"

lemma symbol_nth_Suc: "symbol_nth m a (Suc i) = symbol_nth m (a + sizeof_elf32_symbol) i"
  by (simp add: symbol_nth_def algebra_simps)

lemma func_name_loop_find:
  "func_name_loop n m a strtab addr =
     (case find (\<lambda>i. covers (symbol_nth m a i) addr) [0..<n] of None \<Rightarrow> 0 | Some i \<Rightarrow> strtab + sy_name (symbol_nth m a i))"
proof (induction n arbitrary: a)
  case (Suc n)
  have upt: "[0..<Suc n] = 0 # map Suc [0..<n]" by (simp add: map_Suc_upt upt_conv_Cons del: upt_Suc)
  have find_map: "find P (map f xs) = map_option f (find (P \<circ> f) xs)" for P :: "nat \<Rightarrow> bool" and f :: "nat \<Rightarrow> nat" and xs
    by (induction xs) auto
  have zero: "symbol_nth m a 0 = elf32_symbol_at m a" by (simp add: symbol_nth_def)
  have step: "func_name_loop (Suc n) m a strtab addr = (if covers (symbol_nth m a 0) addr
      then strtab + sy_name (symbol_nth m a 0) else func_name_loop n m (a + sizeof_elf32_symbol) strtab addr)"
    by (simp add: covers_def zero Let_def)
  show ?case
    unfolding step upt Suc.IH by (simp add: find_map symbol_nth_Suc comp_def split: option.splits)
qed simp

text \<open>
  \<^verbatim>\<open>cur_func_name\<close> returns the name of the first function symbol of the table whose
  range contains the address, both ends included, and NULL when there is none.
\<close>

lemma cur_func_name_first_match:
  assumes "sy_entry_size t = sizeof_elf32_symbol"
  shows "cur_func_name m t strtab addr = Some (case find (\<lambda>i. covers (symbol_nth m (sy_header t) i) addr)
      [0..<unat (sy_tsize t) div 16] of None \<Rightarrow> 0 | Some i \<Rightarrow> strtab + sy_name (symbol_nth m (sy_header t) i))"
  using assms by (simp add: cur_func_name_def func_name_loop_find sizeof_elf32_symbol_def unat_div)

end
