(* ===== verification/Multiboot.thy ===== *)
theory Multiboot
  imports Elf
begin

text \<open>
  The information the boot loader passes, \<^verbatim>\<open>multiboot2.c\<close> and the structures of \<^verbatim>\<open>multiboot2.h\<close> it reads,
  and the temporary page tables of \<^verbatim>\<open>kernel.c\<close>. The tags are read from memory; \<^verbatim>\<open>bInfo\<close> holds their
  addresses, 0 for NULL.
\<close>

section \<open>Definitions\<close>

definition MULTIBOOT_TAG_TYPE_MMAP :: u32 where "MULTIBOOT_TAG_TYPE_MMAP = 6"
definition MULTIBOOT_TAG_TYPE_ELF_SECTIONS :: u32 where "MULTIBOOT_TAG_TYPE_ELF_SECTIONS = 9"
definition MULTIBOOT_TAG_TYPE_APM :: u32 where "MULTIBOOT_TAG_TYPE_APM = 10"
definition MULTIBOOT_TAG_TYPE_ACPI_OLD :: u32 where "MULTIBOOT_TAG_TYPE_ACPI_OLD = 14"

record multiboot_tag =
  tag_type :: u32
  tag_size :: u32

definition multiboot_tag_at :: "mem8 \<Rightarrow> ptr_t \<Rightarrow> multiboot_tag" where
  "multiboot_tag_at m a = \<lparr>tag_type = ld32 m a, tag_size = ld32 m (a + 4)\<rparr>"

record multiboot_tag_elf_sections =
  es_num :: u32
  es_entsize :: u32
  es_shndx :: u32
  es_sections :: ptr_t

definition elf_sections_at :: "mem8 \<Rightarrow> ptr_t \<Rightarrow> multiboot_tag_elf_sections" where
  "elf_sections_at m a = \<lparr>es_num = ld32 m (a + 8), es_entsize = ld32 m (a + 12), es_shndx = ld32 m (a + 16),
     es_sections = a + 20\<rparr>"

definition mmap_entry_version :: "mem8 \<Rightarrow> ptr_t \<Rightarrow> u32" where
  "mmap_entry_version m a = ld32 m (a + 12)"

text \<open>\<^verbatim>\<open>for_each_mmap\<close>: the entries, 24 bytes each, from the end of the header of the tag to its end.\<close>

definition ld64 :: "mem8 \<Rightarrow> ptr_t \<Rightarrow> u64" where
  "ld64 m a = ucast (ld32 m a) OR push_bit 32 (ucast (ld32 m (a + 4)))"

definition mmap_entry_at :: "mem8 \<Rightarrow> ptr_t \<Rightarrow> mmap_entry" where
  "mmap_entry_at m a = \<lparr>me_addr = ld64 m a, me_len = ld64 m (a + 8), me_type = ld32 m (a + 16), me_zero = ld32 m (a + 20)\<rparr>"

partial_function (option) for_each_mmap :: "mem8 \<Rightarrow> ptr_t \<Rightarrow> ptr_t \<Rightarrow> mmap_entry list option" where
  "for_each_mmap m a stop =
     (if a < stop then do { es \<leftarrow> for_each_mmap m (a + 24) stop; Some (mmap_entry_at m a # es) } else Some [])"

definition mmap_entries :: "mem8 \<Rightarrow> ptr_t \<Rightarrow> mmap_entry list option" where
  "mmap_entries m mmap = for_each_mmap m (mmap + 16) (mmap + ld32 m (mmap + 4))"

record bootInfo =
  bo_elf_symbols :: ptr_t
  bo_mmap :: ptr_t
  bo_apm :: ptr_t
  bo_shstrtab :: string_table
  bo_strtab :: string_table
  bo_symtab :: elf32_symbol_table
  bo_rsdp :: ptr_t

definition bInfo_start :: bootInfo where
  "bInfo_start = \<lparr>bo_elf_symbols = 0, bo_mmap = 0, bo_apm = 0, bo_shstrtab = \<lparr>st_addr = 0, st_size = 0\<rparr>,
     bo_strtab = \<lparr>st_addr = 0, st_size = 0\<rparr>, bo_symtab = \<lparr>sy_header = 0, sy_tsize = 0, sy_entry_size = 0\<rparr>, bo_rsdp = 0\<rparr>"

subsection \<open>Sections\<close>

text \<open>
  The loop of \<^verbatim>\<open>parse_elf_section\<close>. The symbol table address is computed on a pointer to 16-byte
  structures: adding \<^verbatim>\<open>KERNEL_START\<close> advances it by 16 times that many bytes.
\<close>

fun section_loop :: "nat \<Rightarrow> mem8 \<Rightarrow> ptr_t \<Rightarrow> bootInfo \<Rightarrow> bootInfo option" where
  "section_loop 0 m sh b = Some b"
| "section_loop (Suc num) m sh b = (let s = elf32_sh_at m sh in do {
     b \<leftarrow> (if sh_type s = SHT_STRTAB then
            (if sh_addr s \<noteq> st_addr (bo_shstrtab b) then do {
               assertk (sh_addr s + sh_size s < 4 * c_M);
               Some (b\<lparr>bo_strtab := \<lparr>st_addr = sh_addr s + KERNEL_START, st_size = sh_size s\<rparr>\<rparr>)
             } else Some b)
          else if sh_type s = SHT_SYMTAB then do {
             assertk (sh_addr s + sh_size s < 4 * c_M);
             Some (b\<lparr>bo_symtab := \<lparr>sy_header = sh_addr s + sizeof_elf32_symbol * KERNEL_START, sy_tsize = sh_size s,
               sy_entry_size = sizeof_elf32_symbol\<rparr>\<rparr>)
           }
          else Some b);
     section_loop num m (sh + sizeof_elf32_sh) b
   })"

definition parse_elf_section :: "mem8 \<Rightarrow> bootInfo \<Rightarrow> bootInfo option" where
  "parse_elf_section m b = do {
     let elf_symbols = elf_sections_at m (bo_elf_symbols b);
     let sh = es_sections elf_symbols;
     assertk (sh_type (elf32_sh_at m sh) = SHT_NULL);
     let string_table = elf32_sh_at m (sh + es_shndx elf_symbols * sizeof_elf32_sh);
     let b = b\<lparr>bo_shstrtab := \<lparr>st_addr = sh_addr string_table, st_size = sh_size string_table\<rparr>\<rparr>;
     assertk (m (st_addr (bo_shstrtab b)) = 0);
     assertk (sh + es_num elf_symbols * sizeof_elf32_sh * sizeof_elf32_sh < KERNEL_START + 4 * c_M);
     b \<leftarrow> section_loop (unat (es_num elf_symbols)) m sh b;
     assertk (sy_size (elf32_symbol_at m (sy_header (bo_symtab b))) = 0);
     assertk (m (st_addr (bo_strtab b)) = 0);
     Some b
   }"

subsection \<open>Tags\<close>

definition note_tag :: "u32 \<Rightarrow> ptr_t \<Rightarrow> bootInfo \<Rightarrow> bootInfo" where
  "note_tag ty tag b =
     (if ty = MULTIBOOT_TAG_TYPE_MMAP then b\<lparr>bo_mmap := tag\<rparr>
      else if ty = MULTIBOOT_TAG_TYPE_APM then b\<lparr>bo_apm := tag\<rparr>
      else if ty = MULTIBOOT_TAG_TYPE_ELF_SECTIONS then b\<lparr>bo_elf_symbols := tag\<rparr>
      else if ty = MULTIBOOT_TAG_TYPE_ACPI_OLD then b\<lparr>bo_rsdp := tag + 8\<rparr>
      else b)"

partial_function (option) tag_loop :: "mem8 \<Rightarrow> ptr_t \<Rightarrow> ptr_t \<Rightarrow> bootInfo \<Rightarrow> bootInfo option" where
  "tag_loop m tag tail b =
     (if tag < tail then do {
        assertk (tag < KERNEL_START + 4 * c_M);
        let b = note_tag (tag_type (multiboot_tag_at m tag)) tag b;
        tag_loop m (tag + 8 * DIV_CEIL (tag_size (multiboot_tag_at m tag)) 8) tail b
      } else Some b)"

definition multiboot_init :: "mem8 \<Rightarrow> ptr_t \<Rightarrow> bootInfo \<Rightarrow> bootInfo option" where
  "multiboot_init m bia b = do {
     let tail = bia + ld32 m bia;
     b \<leftarrow> tag_loop m (bia + 8) tail b;
     assertk (mmap_entry_version m (bo_mmap b) = 0);
     assertk (tag_type (multiboot_tag_at m (bo_apm b)) = MULTIBOOT_TAG_TYPE_APM);
     parse_elf_section m b
   }"

subsection \<open>Temporary page tables\<close>

text \<open>
  \<^verbatim>\<open>map_tmp_page\<close>: the directory and the two tables, given the addresses of the tables.
\<close>

definition map_tmp_page :: "ptr_t \<Rightarrow> ptr_t \<Rightarrow> (nat \<Rightarrow> u32) \<times> (nat \<Rightarrow> u32) \<times> (nat \<Rightarrow> u32)" where
  "map_tmp_page table1 table2 =
     ((\<lambda>_. VM_NPRES)(0 := table1 OR VM_PRES OR VM_KRW, unat (PDE_INDEX KERNEL_START) := table2 OR VM_PRES OR VM_KRW),
      (\<lambda>i. if i < 1024 then push_bit 12 (of_nat i) OR VM_PRES OR VM_KRW else VM_NPRES),
      (\<lambda>i. if i < 1024 then push_bit 12 (of_nat i) OR VM_PRES OR VM_KRW else VM_NPRES))"

section \<open>Lemmas\<close>

text \<open>The tags at an address: their places and types, each at least 8 bytes long.\<close>

fun tags_at :: "mem8 \<Rightarrow> ptr_t \<Rightarrow> (ptr_t \<times> u32) list \<Rightarrow> ptr_t \<Rightarrow> bool" where
  "tags_at m tag [] tail \<longleftrightarrow> \<not> tag < tail"
| "tags_at m tag ((t, ty) # ts) tail \<longleftrightarrow> t = tag \<and> tag < tail \<and> tag < KERNEL_START + 4 * c_M \<and>
     ty = ld32 m tag \<and> tags_at m (tag + 8 * DIV_CEIL (ld32 m (tag + 4)) 8) ts tail"

lemma tag_loop_tags:
  "tags_at m tag ts tail \<Longrightarrow> tag_loop m tag tail b = Some (foldl (\<lambda>b (t, ty). note_tag ty t b) b ts)"
proof (induction ts arbitrary: tag b)
  case Nil
  then show ?case by (subst tag_loop.simps) simp
next
  case (Cons t ts)
  obtain p ty where t: "t = (p, ty)" by (cases t)
  then have c: "tag < tail" "tag < KERNEL_START + 4 * c_M" "p = tag" "ty = ld32 m tag"
    "tags_at m (tag + 8 * DIV_CEIL (ld32 m (tag + 4)) 8) ts tail" using Cons.prems by auto
  show ?case using Cons.IH [OF c(5)] c(1-4) by (subst tag_loop.simps) (simp add: t multiboot_tag_at_def Let_def)
qed

text \<open>A tag of size 0 is never left: the loop does not return.\<close>

lemma tag_loop_size_zero:
  assumes "tag < tail" "tag < KERNEL_START + 4 * c_M" "ld32 m (tag + 4) = 0"
  shows "tag_loop m tag tail b = None"
proof (rule ccontr)
  assume "tag_loop m tag tail b \<noteq> None"
  then obtain r where r: "tag_loop m tag tail b = Some r" by blast
  have stuck: "tag + 8 * DIV_CEIL (ld32 m (tag + 4)) 8 = tag" using assms(3) by (simp add: DIV_CEIL_def)
  have "\<not> (m = m \<and> tag = tag \<and> tail = tail)"
  proof (rule tag_loop.raw_induct [where P = "\<lambda>m' t s b r. \<not> (m' = m \<and> t = tag \<and> s = tail)", OF _ r])
    fix f :: "mem8 \<Rightarrow> ptr_t \<Rightarrow> ptr_t \<Rightarrow> bootInfo \<Rightarrow> bootInfo option" and m' t s b' r'
    assume IH: "\<And>m' t s b r. f m' t s b = Some r \<Longrightarrow> \<not> (m' = m \<and> t = tag \<and> s = tail)"
      and step: "(if t < s then do {
        assertk (t < KERNEL_START + 4 * c_M);
        let b = note_tag (tag_type (multiboot_tag_at m' t)) t b';
        f m' (t + 8 * DIV_CEIL (tag_size (multiboot_tag_at m' t)) 8) s b
      } else Some b') = Some r'"
    show "\<not> (m' = m \<and> t = tag \<and> s = tail)"
      using step stuck assms(1,2) by (auto simp: multiboot_tag_at_def Let_def dest: IH)
  qed
  then show False by simp
qed

end
