(* ===== verification/Uvm.thy ===== *)
theory Uvm
  imports Kstring
begin

text \<open>
  The virtual memory of user tasks, \<^verbatim>\<open>mm/uvm.c\<close>, \<^verbatim>\<open>mm/uvm.h\<close>. Page directories and page tables are
  words of kernel memory; a pointer to an entry is its address. The contents of user pages are kept
  per page structure (\<open>um_bytes\<close>); copying a page through a virtual address goes through the page
  tables (\<open>translate\<close>), and an address that is not mapped is a page fault in the kernel, \<open>None\<close>.

  The current task's \<^verbatim>\<open>mm\<close> is an argument; reloading \<^verbatim>\<open>cr3\<close> and flushing the TLB have no effect on the
  modelled state.
\<close>

section \<open>Definitions\<close>

record vm_area =
  ar_va :: ptr_t
  ar_size :: u32
  ar_flag :: u32

record mm_struct =
  mm_text :: vm_area
  mm_rodata :: vm_area
  mm_data :: vm_area
  mm_bss :: vm_area
  mm_brk :: vm_area
  mm_stack :: vm_area
  mm_size :: u32
  mm_pgdir :: ptr_t

record mm_args =
  ma_text :: ptr_t
  ma_pa1 :: ptr_t
  ma_size1 :: u32
  ma_rodata :: ptr_t
  ma_pa2 :: ptr_t
  ma_size2 :: u32
  ma_data :: ptr_t
  ma_pa3 :: ptr_t
  ma_size3 :: u32
  ma_bss :: ptr_t
  ma_pa4 :: ptr_t
  ma_size4 :: u32

record umem =
  um_heap :: kheap
  um_bytes :: "nat \<Rightarrow> nat \<Rightarrow> u8"

abbreviation um_word :: "umem \<Rightarrow> ptr_t \<Rightarrow> u32" where
  "um_word u a \<equiv> kh_word (um_heap u) a"

abbreviation um_pmm :: "umem \<Rightarrow> buddyAllocator" where
  "um_pmm u \<equiv> km_pmm (kh_mem (um_heap u))"

abbreviation upd_um_pmm :: "buddyAllocator \<Rightarrow> umem \<Rightarrow> umem" where
  "upd_um_pmm s u \<equiv> u\<lparr>um_heap := (um_heap u)\<lparr>kh_mem := (kh_mem (um_heap u))\<lparr>km_pmm := s\<rparr>\<rparr>\<rparr>"

abbreviation upd_um_mem :: "kmem \<Rightarrow> umem \<Rightarrow> umem" where
  "upd_um_mem k u \<equiv> u\<lparr>um_heap := (um_heap u)\<lparr>kh_mem := k\<rparr>\<rparr>"

abbreviation um_store :: "ptr_t \<Rightarrow> u32 \<Rightarrow> umem \<Rightarrow> umem" where
  "um_store a v u \<equiv> u\<lparr>um_heap := store_word a v (um_heap u)\<rparr>"

subsection \<open>Page tables\<close>

definition vm_map_init :: "mm_struct \<Rightarrow> umem \<Rightarrow> (mm_struct \<times> umem) option" where
  "vm_map_init mm u = do {
     (a, h) \<leftarrow> kcalloc PAGE_SIZE (um_heap u);
     Some (mm\<lparr>mm_pgdir := a\<rparr>, u\<lparr>um_heap := h\<rparr>)
   }"

definition vm_page_iter :: "ptr_t \<Rightarrow> ptr_t \<Rightarrow> bool \<Rightarrow> umem \<Rightarrow> (ptr_t \<times> umem) option" where
  "vm_page_iter va pgdir new u = do {
     let pde = pgdir + 4 * PDE_INDEX va;
     if new \<and> um_word u pde AND VM_PRES = 0 then do {
       (pte, h) \<leftarrow> kcalloc PAGE_SIZE (um_heap u);
       pa \<leftarrow> v2p pte (kh_mem h);
       Some (pte + 4 * PTE_INDEX va, um_store pde (pa OR VM_PRES OR VM_URW) (u\<lparr>um_heap := h\<rparr>))
     } else do {
       r \<leftarrow> get_page (PAGE_CEIL (um_word u pde)) (um_pmm u);
       pg \<leftarrow> r;
       Some (pg_data (ba_pages (um_pmm u) pg) + 4 * PTE_INDEX va, u)
     }
   }"

text \<open>The page a virtual address is mapped to, for kernel addresses and for those of a directory.\<close>

definition translate :: "ptr_t \<Rightarrow> ptr_t \<Rightarrow> umem \<Rightarrow> nat option" where
  "translate va pgdir u =
     (if va \<ge> KERNEL_START then do {
        i \<leftarrow> getPageTableEntry va;
        assertk (km_pt (kh_mem (um_heap u)) i AND VM_PRES \<noteq> 0);
        r \<leftarrow> get_page (PAGE_CEIL (km_pt (kh_mem (um_heap u)) i)) (um_pmm u);
        r
      } else do {
        assertk (um_word u (pgdir + 4 * PDE_INDEX va) AND VM_PRES \<noteq> 0);
        (pte, _) \<leftarrow> vm_page_iter va pgdir False u;
        assertk (um_word u pte AND VM_PRES \<noteq> 0);
        r \<leftarrow> get_page (PAGE_CEIL (um_word u pte)) (um_pmm u);
        r
      })"

text \<open>\<^verbatim>\<open>memcpy(dst, src, PAGE_SIZE)\<close> for page-aligned addresses.\<close>

definition copy_page :: "ptr_t \<Rightarrow> ptr_t \<Rightarrow> ptr_t \<Rightarrow> umem \<Rightarrow> umem option" where
  "copy_page dst src pgdir u = do {
     s \<leftarrow> translate src pgdir u;
     d \<leftarrow> translate dst pgdir u;
     Some (u\<lparr>um_bytes := (um_bytes u)(d := um_bytes u s)\<rparr>)
   }"

function vm_map_area_loop :: "int \<Rightarrow> ptr_t \<Rightarrow> ptr_t \<Rightarrow> u32 \<Rightarrow> ptr_t \<Rightarrow> umem \<Rightarrow> umem option" where
  "vm_map_area_loop sz va pa flag pgdir u =
     (if sz > 0 then do {
        (pte, u) \<leftarrow> vm_page_iter va pgdir True u;
        assertk (um_word u pte AND VM_PRES = 0);
        let u = um_store pte (pa OR flag) u;
        vm_map_area_loop (sz - 4096) (va + PAGE_SIZE) (pa + PAGE_SIZE) flag pgdir u
      } else Some u)"
  by pat_completeness auto
termination by (relation "measure (\<lambda>(sz, va, pa, flag, pgdir, u). nat sz)") auto

definition vm_map_area :: "vm_area \<Rightarrow> ptr_t \<Rightarrow> ptr_t \<Rightarrow> umem \<Rightarrow> umem option" where
  "vm_map_area area pa pgdir u = vm_map_area_loop (uint (ar_size area)) (ar_va area) pa (ar_flag area) pgdir u"

function vm_maps_loop :: "int \<Rightarrow> ptr_t \<Rightarrow> ptr_t \<Rightarrow> u32 \<Rightarrow> ptr_t \<Rightarrow> umem \<Rightarrow> umem option" where
  "vm_maps_loop sz va pa flag pgdir u =
     (if sz > 0 then do {
        (pte, u) \<leftarrow> vm_page_iter va pgdir True u;
        let u = (if um_word u pte AND VM_PRES = 0 then um_store pte (pa OR flag) u else u);
        vm_maps_loop (sz - 4096) (va + PAGE_SIZE) (pa + PAGE_SIZE) flag pgdir u
      } else Some u)"
  by pat_completeness auto
termination by (relation "measure (\<lambda>(sz, va, pa, flag, pgdir, u). nat sz)") auto

text \<open>\<^verbatim>\<open>vm_maps\<close> for the current task's memory, \<open>None\<close> standing for a task without.\<close>

definition vm_maps :: "mm_struct option \<Rightarrow> ptr_t \<Rightarrow> ptr_t \<Rightarrow> u32 \<Rightarrow> u32 \<Rightarrow> umem \<Rightarrow> umem option" where
  "vm_maps cur va pa flag sz u = do {
     mm \<leftarrow> cur;
     assertk (pa AND PAGE_MASK = 0);
     vm_maps_loop (uint sz) (PAGE_CEIL va) pa flag (mm_pgdir mm) u
   }"

function vm_unmap_loop :: "int \<Rightarrow> ptr_t \<Rightarrow> ptr_t \<Rightarrow> umem \<Rightarrow> umem option" where
  "vm_unmap_loop sz addr pgdir u =
     (if sz > 0 then do {
        (pte, u) \<leftarrow> vm_page_iter addr pgdir False u;
        assertk (um_word u pte AND VM_PRES \<noteq> 0);
        (errno, s) \<leftarrow> free_page (PAGE_CEIL (um_word u pte)) (um_pmm u);
        let u = upd_um_pmm s u;
        if errno \<noteq> 0 then Some u
        else vm_unmap_loop (sz - 4096) (addr + PAGE_SIZE) pgdir (um_store pte VM_NPRES u)
      } else Some u)"
  by pat_completeness auto
termination by (relation "measure (\<lambda>(sz, addr, pgdir, u). nat sz)") auto

definition vm_unmap :: "vm_area \<Rightarrow> ptr_t \<Rightarrow> umem \<Rightarrow> umem option" where
  "vm_unmap area pgdir u = vm_unmap_loop (uint (ar_size area)) (ar_va area) pgdir u"

definition vm_vm2pm :: "ptr_t \<Rightarrow> ptr_t \<Rightarrow> umem \<Rightarrow> ptr_t option" where
  "vm_vm2pm addr pgdir u = do {
     (pte, u) \<leftarrow> vm_page_iter addr pgdir False u;
     Some (PAGE_CEIL (um_word u pte))
   }"

text \<open>\<^verbatim>\<open>vm_remap_page\<close>: a private copy of a page; the result is -1 when the page is not mapped.\<close>

definition vm_remap_page :: "ptr_t \<Rightarrow> ptr_t \<Rightarrow> umem \<Rightarrow> (int \<times> umem) option" where
  "vm_remap_page va pgdir u = do {
     (pte, u) \<leftarrow> vm_page_iter va pgdir True u;
     if um_word u pte AND VM_PRES = 0 then Some (-1, u)
     else do {
       r \<leftarrow> get_page (PAGE_CEIL (um_word u pte)) (um_pmm u);
       old \<leftarrow> r;
       (new, s) \<leftarrow> alloc_page_core PAGE_SIZE (um_pmm u);
       let u = upd_um_pmm s u;
       k \<leftarrow> kvm_map new (VM_PRES OR VM_KRW) (kh_mem (um_heap u));
       let u = upd_um_mem k u;
       u \<leftarrow> copy_page (pg_data (ba_pages (um_pmm u) new)) va pgdir u;
       k \<leftarrow> kvm_unmap new (kh_mem (um_heap u));
       let u = upd_um_mem k u;
       let u = um_store pte ((um_word u pte AND PAGE_MASK) OR page_addr new (um_pmm u)) u;
       s \<leftarrow> free_page_core old (um_pmm u);
       Some (0, upd_um_pmm s u)
     }
   }"

subsection \<open>Address spaces\<close>

definition vm_brk_init :: "mm_struct \<Rightarrow> mm_struct option" where
  "vm_brk_init mm = do {
     let brk = c_MAX (ar_va (mm_bss mm)) (ar_va (mm_text mm));
     let brk = c_MAX brk (ar_va (mm_data mm));
     let brk = c_MAX brk (ar_va (mm_rodata mm));
     let brk = PAGE_CEIL brk + PAGE_SIZE;
     assertk (brk < KERNEL_START - 2 * PAGE_SIZE);
     Some (mm\<lparr>mm_brk := \<lparr>ar_va = brk, ar_size = 0, ar_flag = VM_PRES OR VM_URW\<rparr>\<rparr>)
   }"

definition vm_stack_init :: "mm_struct \<Rightarrow> umem \<Rightarrow> (mm_struct \<times> umem) option" where
  "vm_stack_init mm u = do {
     let mm = mm\<lparr>mm_stack := \<lparr>ar_va = KERNEL_START - 2 * PAGE_SIZE, ar_size = PAGE_SIZE, ar_flag = VM_PRES OR VM_URW\<rparr>,
       mm_size := mm_size mm + PAGE_SIZE\<rparr>;
     (pg, s) \<leftarrow> alloc_page_core PAGE_SIZE (um_pmm u);
     let s = upd_page pg (\<lambda>p. p\<lparr>pg_data := ar_va (mm_stack mm)\<rparr>) s;
     u \<leftarrow> vm_map_area (mm_stack mm) (page_addr pg s) (mm_pgdir mm) (upd_um_pmm s u);
     Some (mm, u)
   }"

definition mm_struct_init :: "mm_struct \<Rightarrow> mm_args \<Rightarrow> umem \<Rightarrow> (mm_struct \<times> umem) option" where
  "mm_struct_init mm args u = do {
     assertk (ucast (ma_text args + ma_size1 args) < (3 * 0x40000000 :: u64));
     assertk (ucast (ma_rodata args + ma_size2 args) < (3 * 0x40000000 :: u64));
     assertk (ucast (ma_data args + ma_size3 args) < (3 * 0x40000000 :: u64));
     assertk (ma_size1 args > 0);
     let size1 = PAGE_FLOOR (ma_size1 args);
     let size2 = PAGE_FLOOR (ma_size2 args);
     let size3 = PAGE_FLOOR (ma_size3 args);
     let size4 = PAGE_FLOOR (ma_size4 args);
     let mm = mm\<lparr>mm_size := size1 + size2 + size3 + size4\<rparr>;
     let mm = mm\<lparr>mm_text := \<lparr>ar_va = ma_text args, ar_size = size1, ar_flag = VM_PRES OR VM_UR\<rparr>\<rparr>;
     u \<leftarrow> vm_map_area (mm_text mm) (ma_pa1 args) (mm_pgdir mm) u;
     let mm = mm\<lparr>mm_rodata := (mm_rodata mm)\<lparr>ar_size := size2\<rparr>\<rparr>;
     (mm, u) \<leftarrow> (if size2 > 0 then do {
         let mm = mm\<lparr>mm_rodata := \<lparr>ar_va = ma_rodata args, ar_size = size2, ar_flag = VM_PRES OR VM_UR\<rparr>\<rparr>;
         u \<leftarrow> vm_map_area (mm_rodata mm) (ma_pa2 args) (mm_pgdir mm) u;
         Some (mm, u)
       } else Some (mm, u));
     let mm = mm\<lparr>mm_data := (mm_data mm)\<lparr>ar_size := size3\<rparr>\<rparr>;
     (mm, u) \<leftarrow> (if size3 > 0 then do {
         let mm = mm\<lparr>mm_data := \<lparr>ar_va = ma_data args, ar_size = size3, ar_flag = VM_PRES OR VM_URW\<rparr>\<rparr>;
         u \<leftarrow> vm_map_area (mm_data mm) (ma_pa3 args) (mm_pgdir mm) u;
         Some (mm, u)
       } else Some (mm, u));
     let mm = mm\<lparr>mm_bss := (mm_bss mm)\<lparr>ar_size := size3\<rparr>\<rparr>;
     (mm, u) \<leftarrow> (if size4 > 0 then do {
         let mm = mm\<lparr>mm_bss := (mm_bss mm)\<lparr>ar_va := ma_data args, ar_flag := VM_PRES OR VM_URW\<rparr>\<rparr>;
         u \<leftarrow> vm_map_area (mm_bss mm) (ma_pa4 args) (mm_pgdir mm) u;
         Some (mm, u)
       } else Some (mm, u));
     mm \<leftarrow> vm_brk_init mm;
     vm_stack_init mm u
   }"

fun unmap_tables :: "nat list \<Rightarrow> ptr_t \<Rightarrow> umem \<Rightarrow> umem option" where
  "unmap_tables [] pgdir u = Some u"
| "unmap_tables (i # is) pgdir u = (let pde = um_word u (pgdir + 4 * of_nat i) in
     if pde AND VM_PRES \<noteq> 0 then do {
       r \<leftarrow> get_page (PAGE_CEIL pde) (um_pmm u);
       pg \<leftarrow> r;
       k \<leftarrow> kvm_unmap pg (kh_mem (um_heap u));
       s \<leftarrow> free_page_core pg (km_pmm k);
       unmap_tables is pgdir (upd_um_mem (k\<lparr>km_pmm := s\<rparr>) u)
     } else unmap_tables is pgdir u)"

definition vm_struct_unmaps :: "mm_struct \<Rightarrow> umem \<Rightarrow> umem option" where
  "vm_struct_unmaps mm u = do {
     u \<leftarrow> vm_unmap (mm_text mm) (mm_pgdir mm) u;
     u \<leftarrow> vm_unmap (mm_data mm) (mm_pgdir mm) u;
     u \<leftarrow> vm_unmap (mm_bss mm) (mm_pgdir mm) u;
     u \<leftarrow> vm_unmap (mm_rodata mm) (mm_pgdir mm) u;
     u \<leftarrow> vm_unmap (mm_brk mm) (mm_pgdir mm) u;
     u \<leftarrow> vm_unmap (mm_stack mm) (mm_pgdir mm) u;
     unmap_tables [0..<N_PDE div 4 * 3] (mm_pgdir mm) u
   }"

text \<open>\<open>self\<close> is the address of the structure \<open>mm\<close>.\<close>

definition vm_struct_destroy :: "ptr_t \<Rightarrow> mm_struct \<Rightarrow> umem \<Rightarrow> umem option" where
  "vm_struct_destroy self mm u = do {
     u \<leftarrow> vm_struct_unmaps mm u;
     h \<leftarrow> kfree (mm_pgdir mm) (um_heap u);
     h \<leftarrow> kfree self h;
     Some (u\<lparr>um_heap := h\<rparr>)
   }"

subsection \<open>Copying an address space\<close>

function vm_area_copy :: "ptr_t \<Rightarrow> int \<Rightarrow> ptr_t \<Rightarrow> ptr_t \<Rightarrow> umem \<Rightarrow> umem option" where
  "vm_area_copy addr sz sPgdir dPgdir u =
     (if sz > 0 then do {
        (pte, u) \<leftarrow> vm_page_iter addr sPgdir False u;
        (new, u) \<leftarrow> vm_page_iter addr dPgdir True u;
        let u = (if um_word u pte AND VM_URW = VM_URW
                 then um_store pte (CLEAR_BIT (um_word u pte AND VM_IGNORE_BIT1) VM_RW_BIT) u else u);
        let u = um_store new (um_word u pte) u;
        r \<leftarrow> get_page (PAGE_CEIL (um_word u pte)) (um_pmm u);
        let u = (case r of None \<Rightarrow> u
           | Some pg \<Rightarrow> upd_um_pmm (upd_page pg (\<lambda>p. p\<lparr>pg_ref_cnt := pg_ref_cnt p + 1\<rparr>) (um_pmm u)) u);
        vm_area_copy (addr + PAGE_SIZE) (sz - 4096) sPgdir dPgdir u
      } else Some u)"
  by pat_completeness auto
termination by (relation "measure (\<lambda>(addr, sz, sPgdir, dPgdir, u). nat sz)") auto

definition vm_area_copy_stack :: "vm_area \<Rightarrow> ptr_t \<Rightarrow> ptr_t \<Rightarrow> umem \<Rightarrow> umem option" where
  "vm_area_copy_stack src sPgdir dPgdir u = do {
     let addr = ar_va src;
     let kStart = addr + ar_size src - PAGE_SIZE;
     (pde, u) \<leftarrow> vm_page_iter kStart sPgdir False u;
     (new, u) \<leftarrow> vm_page_iter kStart dPgdir True u;
     assertk (um_word u pde \<noteq> 0 \<and> um_word u new = 0);
     (stack, h) \<leftarrow> kmalloc PAGE_SIZE (um_heap u);
     let u = u\<lparr>um_heap := h\<rparr>;
     pa \<leftarrow> v2p stack (kh_mem (um_heap u));
     let u = um_store new (pa OR VM_PRES OR VM_URW) u;
     s \<leftarrow> p2v (PAGE_CEIL (um_word u pde)) (kh_mem (um_heap u));
     u \<leftarrow> copy_page stack s sPgdir u;
     k \<leftarrow> kvm_unmap2 stack (kh_mem (um_heap u));
     vm_area_copy addr (uint (ar_size src) - 4096) sPgdir dPgdir (upd_um_mem k u)
   }"

text \<open>
  \<^verbatim>\<open>vm_struct_copy\<close>, with the kernel's page directory \<open>pageDir\<close>; the 80-byte structure itself is
  allocated and its value returned with its address.
\<close>

definition copy_kernel_pdes :: "pgtab \<Rightarrow> ptr_t \<Rightarrow> umem \<Rightarrow> umem" where
  "copy_kernel_pdes pageDir pgdir u =
     foldl (\<lambda>u i. if pageDir i AND VM_PRES \<noteq> 0 then um_store (pgdir + 4 * of_nat i) (pageDir i) u else u) u
       [N_PDE div 4 * 3 ..< N_PDE div 4 * 3 + N_PDE div 4]"

definition vm_struct_copy :: "pgtab \<Rightarrow> mm_struct \<Rightarrow> umem \<Rightarrow> (ptr_t \<times> mm_struct \<times> umem) option" where
  "vm_struct_copy pageDir src u = do {
     (self, h) \<leftarrow> kmalloc 80 (um_heap u);
     (new, u) \<leftarrow> vm_map_init src (u\<lparr>um_heap := h\<rparr>);
     let copy = (\<lambda>a. vm_area_copy (ar_va a) (uint (ar_size a)) (mm_pgdir src) (mm_pgdir new));
     u \<leftarrow> copy (mm_text src) u;
     u \<leftarrow> copy (mm_rodata src) u;
     u \<leftarrow> copy (mm_data src) u;
     u \<leftarrow> copy (mm_bss src) u;
     u \<leftarrow> copy (mm_brk src) u;
     u \<leftarrow> vm_area_copy_stack (mm_stack src) (mm_pgdir src) (mm_pgdir new) u;
     Some (self, new, copy_kernel_pdes pageDir (mm_pgdir new) u)
   }"

definition sbrk :: "u32 \<Rightarrow> mm_struct option \<Rightarrow> umem \<Rightarrow> (u32 \<times> mm_struct \<times> umem) option" where
  "sbrk sz cur u = do {
     mm \<leftarrow> cur;
     let sz = PAGE_CEIL sz;
     (pg, s) \<leftarrow> alloc_page_core sz (um_pmm u);
     u \<leftarrow> vm_maps (Some mm) (ar_va (mm_brk mm)) (page_addr pg s) (VM_PRES OR VM_URW) sz (upd_um_pmm s u);
     let u = upd_um_pmm (upd_page pg (\<lambda>p. p\<lparr>pg_data := ar_va (mm_brk mm)\<rparr>) (um_pmm u)) u;
     let mm = mm\<lparr>mm_brk := (mm_brk mm)\<lparr>ar_va := ar_va (mm_brk mm) + sz, ar_size := ar_size (mm_brk mm) + sz\<rparr>\<rparr>;
     Some (ar_va (mm_brk mm) - sz, mm, u)
   }"

declare vm_map_area_loop.simps [simp del] vm_maps_loop.simps [simp del] vm_unmap_loop.simps [simp del] vm_area_copy.simps [simp del]

section \<open>Entries of a page table\<close>

text \<open>The virtual address of entry \<open>j\<close> of the page table \<open>d\<close>.\<close>

definition vaddr :: "nat \<Rightarrow> nat \<Rightarrow> ptr_t" where
  "vaddr d j = of_nat (d * 4194304 + j * 4096)"

lemma unat_vaddr: "d < 1024 \<Longrightarrow> j < 1024 \<Longrightarrow> unat (vaddr d j) = d * 4194304 + j * 4096"
  unfolding vaddr_def unat_of_nat by (rule mod_less) simp

lemma vaddr_index:
  assumes "d < 1024" "j < 1024"
  shows "PDE_INDEX (vaddr d j) = of_nat d" "PTE_INDEX (vaddr d j) = of_nat j"
proof -
  have "unat (PDE_INDEX (vaddr d j)) = d"
    unfolding PDE_INDEX_def using assms by (simp only: unat_drop_bit_eq) (simp only: drop_bit_eq_div unat_vaddr, simp)
  then show "PDE_INDEX (vaddr d j) = of_nat d" by (metis u32_of_nat_unat)
  have "unat (drop_bit 12 (vaddr d j)) = d * 1024 + j"
    using assms by (simp only: unat_drop_bit_eq) (simp only: drop_bit_eq_div unat_vaddr, simp)
  then have "unat (PTE_INDEX (vaddr d j)) = j"
    using assms by (simp add: PTE_INDEX_def BIT_MASK_eq_mask unat_and_mask)
  then show "PTE_INDEX (vaddr d j) = of_nat j" by (metis u32_of_nat_unat)
qed

lemma vaddr_Suc: "vaddr d j + PAGE_SIZE = vaddr d (Suc j)"
  by (simp add: vaddr_def PAGE_SIZE_def algebra_simps)

text \<open>Page table \<open>d\<close> of the directory exists and its entries are the words from \<open>D\<close> on.\<close>

definition table_at :: "umem \<Rightarrow> ptr_t \<Rightarrow> nat \<Rightarrow> ptr_t \<Rightarrow> bool" where
  "table_at u pgdir d D \<longleftrightarrow> um_word u (pgdir + 4 * of_nat d) AND VM_PRES \<noteq> 0 \<and>
     (\<exists>pg. get_page (PAGE_CEIL (um_word u (pgdir + 4 * of_nat d))) (um_pmm u) = Some (Some pg) \<and>
       pg_data (ba_pages (um_pmm u) pg) = D)"

lemma vm_page_iter_table:
  assumes "table_at u pgdir d D" "d < 1024" "j < 1024"
  shows "vm_page_iter (vaddr d j) pgdir new u = Some (D + 4 * of_nat j, u)"
  using assms by (auto simp: vm_page_iter_def table_at_def vaddr_index)

lemma entry_eq: "i < 1024 \<Longrightarrow> j < 1024 \<Longrightarrow> D + 4 * of_nat i = D + (4 * of_nat j :: u32) \<longleftrightarrow> i = j"
proof
  assume ij: "i < 1024" "j < 1024" "D + 4 * of_nat i = D + (4 * of_nat j :: u32)"
  then have "unat (of_nat (4 * i) :: u32) = unat (of_nat (4 * j) :: u32)" by simp
  moreover have "unat (of_nat (4 * k) :: u32) = 4 * k" if "k < 1024" for k
    unfolding unat_of_nat using that by (intro mod_less) simp
  ultimately show "i = j" using ij(1,2) by simp
qed simp

lemma table_at_store:
  "table_at u pgdir d D \<Longrightarrow> pgdir + 4 * of_nat d \<noteq> a \<Longrightarrow> table_at (um_store a v u) pgdir d D"
  by (auto simp: table_at_def)

lemma vm_map_area_step:
  "sz > 0 \<Longrightarrow> vm_page_iter va pgdir True u = Some (pte, u1) \<Longrightarrow> um_word u1 pte AND VM_PRES = 0 \<Longrightarrow>
   vm_map_area_loop sz va pa flag pgdir u =
     vm_map_area_loop (sz - 4096) (va + PAGE_SIZE) (pa + PAGE_SIZE) flag pgdir (um_store pte (pa OR flag) u1)"
  by (subst vm_map_area_loop.simps) simp

lemma vm_map_area_loop_table:
  assumes "table_at u pgdir d D" "d < 1024" "j + n \<le> 1024" "\<And>i. i < 1024 \<Longrightarrow> pgdir + 4 * of_nat d \<noteq> D + 4 * of_nat i"
    "\<And>k. k < n \<Longrightarrow> um_word u (D + 4 * of_nat (j + k)) AND VM_PRES = 0"
  shows "\<exists>u'. vm_map_area_loop (int (4096 * n)) (vaddr d j) pa flag pgdir u = Some u' \<and> table_at u' pgdir d D \<and>
    (\<forall>k<n. um_word u' (D + 4 * of_nat (j + k)) = (pa + 4096 * of_nat k) OR flag) \<and>
    (\<forall>a. (\<forall>k<n. a \<noteq> D + 4 * of_nat (j + k)) \<longrightarrow> um_word u' a = um_word u a)"
  using assms(1,3,5)
proof (induction n arbitrary: u j pa)
  case 0
  then show ?case by (subst vm_map_area_loop.simps) simp
next
  case (Suc n)
  let ?u = "um_store (D + 4 * of_nat j) (pa OR flag) u"
  have j: "j < 1024" using Suc.prems(2) by simp
  have t: "table_at ?u pgdir d D" using Suc.prems(1) assms(4) [OF j] by (rule table_at_store)
  have ne: "D + 4 * of_nat (Suc j + k) \<noteq> (D + 4 * of_nat j :: u32)" if "k < n" for k
    using entry_eq [of "Suc j + k" j D] that Suc.prems(2) by simp
  have free: "um_word ?u (D + 4 * of_nat (Suc j + k)) AND VM_PRES = 0" if "k < n" for k
    using Suc.prems(3) [of "Suc k"] ne [OF that] that by simp
  have "Suc j + n \<le> 1024" using Suc.prems(2) by simp
  from Suc.IH [OF t this free, of "pa + PAGE_SIZE"]
  obtain u' where u': "vm_map_area_loop (int (4096 * n)) (vaddr d (Suc j)) (pa + PAGE_SIZE) flag pgdir ?u = Some u'"
    "table_at u' pgdir d D" "\<forall>k<n. um_word u' (D + 4 * of_nat (Suc j + k)) = (pa + PAGE_SIZE + 4096 * of_nat k) OR flag"
    "\<forall>a. (\<forall>k<n. a \<noteq> D + 4 * of_nat (Suc j + k)) \<longrightarrow> um_word u' a = um_word ?u a" by blast
  have "um_word u (D + 4 * of_nat j) AND VM_PRES = 0" using Suc.prems(3) [of 0] by simp
  then have "vm_map_area_loop (int (4096 * Suc n)) (vaddr d j) pa flag pgdir u =
      vm_map_area_loop (int (4096 * Suc n) - 4096) (vaddr d j + PAGE_SIZE) (pa + PAGE_SIZE) flag pgdir ?u"
    using vm_page_iter_table [OF Suc.prems(1) assms(2) j] by (intro vm_map_area_step) simp_all
  also have "int (4096 * Suc n) - 4096 = int (4096 * n)" by simp
  finally have call: "vm_map_area_loop (int (4096 * Suc n)) (vaddr d j) pa flag pgdir u = Some u'"
    using u'(1) by (simp only: vaddr_Suc)
  have first: "um_word u' (D + 4 * of_nat j) = pa OR flag" using u'(4) ne by auto
  have "um_word u' (D + 4 * of_nat (j + k)) = (pa + 4096 * of_nat k) OR flag" if "k < Suc n" for k
  proof (cases k)
    case (Suc k')
    then have "pa + PAGE_SIZE + 4096 * of_nat k' = pa + 4096 * of_nat k" by (simp add: PAGE_SIZE_def algebra_simps)
    then show ?thesis using Suc that u'(3) by (metis add_Suc_right add_Suc_shift Suc_less_eq)
  qed (use first in simp)
  moreover have "um_word u' a = um_word u a" if a: "\<forall>k<Suc n. a \<noteq> D + 4 * of_nat (j + k)" for a
  proof -
    have "a \<noteq> D + 4 * of_nat j" using a [rule_format, of 0] by simp
    moreover have "a \<noteq> D + 4 * of_nat (Suc j + k)" if "k < n" for k using a [rule_format, of "Suc k"] that by simp
    ultimately show ?thesis using u'(4) by simp
  qed
  ultimately show ?case using call u'(2) by blast
qed

lemma PAGE_MASK_or_flags:
  assumes "4096 dvd unat pa" "unat flags < 4096"
  shows "(pa OR flags) AND PAGE_MASK = flags"
proof -
  have "pa AND PAGE_MASK = 0" using assms(1) by (simp add: page_aligned_iff)
  moreover have "flags AND PAGE_MASK = flags"
    using assms(2) unat_and_mask [of flags 12] by (simp add: PAGE_MASK_eq word_unat_eq_iff)
  ultimately show ?thesis by (simp add: bit.conj_disj_distrib2)
qed

section \<open>Properties\<close>

text \<open>
  A small address space for the witnesses: the page directory at \<open>0xc0200000\<close>, its table 8 in page 1
  with the entries from \<open>0xc0101000\<close> on, another directory at \<open>0xc0300000\<close> with table 8 in page 2.
\<close>

lemma demo_umem:
  obtains u where "table_at u 0xc0200000 8 0xc0101000" "table_at u 0xc0300000 8 0xc0102000"
    "um_word u (0xc0101000 + 4 * of_nat 5) = 0x103007" "um_word u (0xc0101000 + 4 * of_nat 6) = 0"
    "ba_addr (um_pmm u) = 0x100000"
proof -
  fix u0 :: umem and h0 :: kheap and k0 :: kmem and s0 :: buddyAllocator
  define u where "u = u0\<lparr>um_heap := h0\<lparr>kh_mem := k0\<lparr>km_pmm := s0\<lparr>ba_addr := 0x100000, ba_npages := 4,
      ba_pages := \<lambda>i. \<lparr>pg_size = ORDER_SIZE 0, pg_flag = 1, pg_ref_cnt = 1, pg_data = 0xc0100000 + of_nat i * 4096,
        pg_rwlock = rwlock_init\<rparr>\<rparr>,
      km_word := (\<lambda>_. 0)(0xc0200020 := 0x101007, 0xc0300020 := 0x102007, 0xc0101014 := 0x103007)\<rparr>\<rparr>\<rparr>"
  show thesis
    by (rule that [of u]) (simp_all add: u_def table_at_def VM_PRES_def get_page_def PAGE_CEIL_eq PAGE_MASK_eq
      mask_eq_exp_minus_1)
qed

text \<open>
  C26. Mapping an area. When the page table of the area exists and its entries for the area are free,
  \<^verbatim>\<open>vm_map_area\<close> returns; the entry of every page of the area then holds the address of its physical
  page, the pages being consecutive, and exactly the area's flags, \<^verbatim>\<open>vm_vm2pm\<close> translates the page
  to that address, and no other word of memory changes.
\<close>

theorem vm_map_area_maps:
  assumes "table_at u pgdir d D" "d < 1024" "j + n \<le> 1024" "n < 1024"
    "\<And>i. i < 1024 \<Longrightarrow> pgdir + 4 * of_nat d \<noteq> D + 4 * of_nat i"
    "\<And>k. k < n \<Longrightarrow> um_word u (D + 4 * of_nat (j + k)) AND VM_PRES = 0" "4096 dvd unat pa"
    "unat pa + 4096 * n < 2 ^ 32" "unat flag < 4096"
  shows "\<exists>u'. vm_map_area \<lparr>ar_va = vaddr d j, ar_size = of_nat (4096 * n), ar_flag = flag\<rparr> pa pgdir u = Some u' \<and>
    (\<forall>k<n. um_word u' (D + 4 * of_nat (j + k)) = (pa + 4096 * of_nat k) OR flag \<and>
       PAGE_CEIL (um_word u' (D + 4 * of_nat (j + k))) = pa + 4096 * of_nat k \<and>
       um_word u' (D + 4 * of_nat (j + k)) AND PAGE_MASK = flag \<and>
       vm_vm2pm (vaddr d (j + k)) pgdir u' = Some (pa + 4096 * of_nat k)) \<and>
    (\<forall>a. (\<forall>k<n. a \<noteq> D + 4 * of_nat (j + k)) \<longrightarrow> um_word u' a = um_word u a)"
proof -
  have "unat (of_nat (4096 * n) :: u32) = 4096 * n" unfolding unat_of_nat using assms(4) by (intro mod_less) simp
  then have sz: "uint (of_nat (4096 * n) :: u32) = int (4096 * n)" by (metis uint_nat)
  obtain u' where u': "vm_map_area_loop (int (4096 * n)) (vaddr d j) pa flag pgdir u = Some u'" "table_at u' pgdir d D"
    "\<forall>k<n. um_word u' (D + 4 * of_nat (j + k)) = (pa + 4096 * of_nat k) OR flag"
    "\<forall>a. (\<forall>k<n. a \<noteq> D + 4 * of_nat (j + k)) \<longrightarrow> um_word u' a = um_word u a"
    using vm_map_area_loop_table [OF assms(1-3,5,6)] by blast
  have "PAGE_CEIL ((pa + 4096 * of_nat k) OR flag) = pa + 4096 * of_nat k \<and> ((pa + 4096 * of_nat k) OR flag) AND PAGE_MASK = flag \<and>
    vm_vm2pm (vaddr d (j + k)) pgdir u' = Some (pa + 4096 * of_nat k)" if k: "k < n" for k
  proof -
    have "unat (of_nat (4096 * k) :: u32) = 4096 * k" unfolding unat_of_nat using k assms(4) by (intro mod_less) simp
    then have "unat (pa + of_nat (4096 * k)) = unat pa + 4096 * k" using k assms(8) by (subst unat_add_no_wrap) simp_all
    then have al: "4096 dvd unat (pa + 4096 * of_nat k)" using assms(7) by simp
    then have "PAGE_CEIL ((pa + 4096 * of_nat k) OR flag) = pa + 4096 * of_nat k" using assms(9) by (rule PAGE_CEIL_or_flags)
    moreover have "((pa + 4096 * of_nat k) OR flag) AND PAGE_MASK = flag" using al assms(9) by (rule PAGE_MASK_or_flags)
    ultimately show ?thesis
      using vm_page_iter_table [OF u'(2) assms(2), of "j + k" False] u'(3) k assms(3) by (simp add: vm_vm2pm_def)
  qed
  then show ?thesis using u'(1,3,4) sz by (intro exI [of _ u']) (simp add: vm_map_area_def)
qed

theorem vm_map_area_maps_witness:
  "\<exists>u u'. vm_map_area \<lparr>ar_va = vaddr 8 6, ar_size = of_nat (4096 * 1), ar_flag = 7\<rparr> 0x103000 0xc0200000 u = Some u' \<and>
     vm_vm2pm (vaddr 8 6) 0xc0200000 u' = Some 0x103000 \<and> um_word u' (0xc0101000 + 4 * of_nat 6) = 0x103000 OR 7"
proof (rule demo_umem)
  fix u assume u: "table_at u 0xc0200000 8 0xc0101000" "um_word u (0xc0101000 + 4 * of_nat 6) = 0"
  have sep: "(0xc0200000 :: u32) + 4 * of_nat 8 \<noteq> 0xc0101000 + 4 * of_nat i" if "i < 1024" for i
  proof
    assume "(0xc0200000 :: u32) + 4 * of_nat 8 = 0xc0101000 + 4 * of_nat i"
    then have "unat (0xff020 :: u32) = unat (of_nat (4 * i) :: u32)" by (simp add: algebra_simps)
    moreover have "unat (of_nat (4 * i) :: u32) = 4 * i" unfolding unat_of_nat using that by (intro mod_less) simp
    ultimately show False using that by simp
  qed
  have "um_word u (0xc0101000 + 4 * of_nat (6 + k)) AND VM_PRES = 0" if "k < 1" for k using u(2) that by simp
  then obtain u' where
    "vm_map_area \<lparr>ar_va = vaddr 8 6, ar_size = of_nat (4096 * 1), ar_flag = 7\<rparr> 0x103000 0xc0200000 u = Some u'"
    "\<forall>k<1. vm_vm2pm (vaddr 8 (6 + k)) 0xc0200000 u' = Some (0x103000 + 4096 * of_nat k)"
    "\<forall>k<1. um_word u' (0xc0101000 + 4 * of_nat (6 + k)) = (0x103000 + 4096 * of_nat k) OR 7"
    using vm_map_area_maps [OF u(1), of 6 1 "0x103000" 7] sep by auto
  then show ?thesis by (intro exI [of _ u] exI [of _ u']) simp
qed

lemma vm_area_copy_writable:
  assumes "table_at u s d D" "table_at u t d E" "d < 1024" "j < 1024" "D + 4 * of_nat j \<noteq> E + 4 * of_nat j"
    "s + 4 * of_nat d \<noteq> D + 4 * of_nat j" "t + 4 * of_nat d \<noteq> E + 4 * of_nat j"
    "s + 4 * of_nat d \<noteq> E + 4 * of_nat j" "t + 4 * of_nat d \<noteq> D + 4 * of_nat j"
    "um_word u (D + 4 * of_nat j) AND VM_URW = VM_URW" "um_word u (D + 4 * of_nat j) AND VM_IGNORE_BIT1 = 0"
    "0 < ba_addr (um_pmm u)"
  shows "\<exists>u'. vm_area_copy (vaddr d j) 4096 s t u = Some u' \<and> table_at u' s d D \<and> table_at u' t d E \<and>
    um_word u' (D + 4 * of_nat j) = 0 \<and> um_word u' (E + 4 * of_nat j) = 0"
proof -
  let ?u = "um_store (E + 4 * of_nat j) 0 (um_store (D + 4 * of_nat j) 0 u)"
  note it = vm_page_iter_table [OF assms(1,3,4)] vm_page_iter_table [OF assms(2,3,4)]
  have null: "get_page 0 (um_pmm u) = Some None" using assms(12) by (simp add: get_page_def)
  have c0: "PAGE_CEIL 0 = 0" by (simp add: PAGE_CEIL_eq)
  have "vm_area_copy (vaddr d j) 4096 s t u = Some ?u"
    using it assms(5,10,11) null
    by (subst vm_area_copy.simps) (simp add: Let_def CLEAR_BIT_def c0 vm_area_copy.simps [of _ 0])
  moreover have "table_at ?u s d D" "table_at ?u t d E"
    by (rule table_at_store [OF table_at_store [OF assms(1,6)] assms(8)])
      (rule table_at_store [OF table_at_store [OF assms(2,9)] assms(7)])
  ultimately show ?thesis by (intro exI [of _ ?u]) simp
qed

text \<open>
  Copying a writable page for a fork. Where the entry of a writable page is to be marked
  copy-on-write, \<^verbatim>\<open>vm_area_copy\<close> masks it with \<^verbatim>\<open>VM_IGNORE_BIT1\<close> instead of setting that bit: the
  entries of the parent and of the child both become 0, and neither has the page mapped any more.
\<close>

theorem fork_drops_writable_page:
  assumes "table_at u s d D" "table_at u t d E" "d < 1024" "j < 1024" "D + 4 * of_nat j \<noteq> E + 4 * of_nat j"
    "s + 4 * of_nat d \<noteq> D + 4 * of_nat j" "t + 4 * of_nat d \<noteq> E + 4 * of_nat j"
    "s + 4 * of_nat d \<noteq> E + 4 * of_nat j" "t + 4 * of_nat d \<noteq> D + 4 * of_nat j"
    "um_word u (D + 4 * of_nat j) AND VM_URW = VM_URW" "um_word u (D + 4 * of_nat j) AND VM_IGNORE_BIT1 = 0"
    "0 < ba_addr (um_pmm u)"
  shows "\<exists>u'. vm_area_copy (vaddr d j) 4096 s t u = Some u' \<and>
    vm_vm2pm (vaddr d j) s u' = Some 0 \<and> vm_vm2pm (vaddr d j) t u' = Some 0"
proof -
  obtain u' where u': "vm_area_copy (vaddr d j) 4096 s t u = Some u'" "table_at u' s d D" "table_at u' t d E"
    "um_word u' (D + 4 * of_nat j) = 0" "um_word u' (E + 4 * of_nat j) = 0"
    using vm_area_copy_writable [OF assms] by blast
  have "PAGE_CEIL 0 = 0" by (simp add: PAGE_CEIL_eq)
  then show ?thesis
    using u' vm_page_iter_table [OF u'(2) assms(3,4)] vm_page_iter_table [OF u'(3) assms(3,4)]
    by (intro exI [of _ u']) (simp add: vm_vm2pm_def)
qed

theorem fork_drops_writable_page_witness:
  "\<exists>u u'. um_word u (0xc0101000 + 4 * of_nat 5) = 0x103007 \<and>
     vm_area_copy (vaddr 8 5) 4096 0xc0200000 0xc0300000 u = Some u' \<and> vm_vm2pm (vaddr 8 5) 0xc0200000 u' = Some 0"
proof (rule demo_umem)
  fix u assume u: "table_at u 0xc0200000 8 0xc0101000" "table_at u 0xc0300000 8 0xc0102000"
    "um_word u (0xc0101000 + 4 * of_nat 5) = 0x103007" "ba_addr (um_pmm u) = 0x100000"
  have "\<exists>u'. vm_area_copy (vaddr 8 5) 4096 0xc0200000 0xc0300000 u = Some u' \<and>
    vm_vm2pm (vaddr 8 5) 0xc0200000 u' = Some 0 \<and> vm_vm2pm (vaddr 8 5) 0xc0300000 u' = Some 0"
    by (rule fork_drops_writable_page [OF u(1,2)]) (simp_all add: u(3) [simplified] u(4) VM_URW_def VM_IGNORE_BIT1_def)
  then show ?thesis using u(3) by blast
qed

end
