(* ===== verification/Sched.thy ===== *)
theory Sched
  imports Uvm
begin

text \<open>
  Tasks and scheduling: \<^verbatim>\<open>task/schedule.c\<close>, \<^verbatim>\<open>task/timer.c\<close>, \<^verbatim>\<open>task/thread_mutex.c\<close>, and the sleeping,
  waking, exiting and process numbers of \<^verbatim>\<open>task/fork.c\<close>, on one processor.

  A task is the address of its structure. Its \<^verbatim>\<open>run_list\<close> node links it into at most one list; the run
  queues, the lists of blocked and of finished tasks and the sleep lists of mutexes are HOL lists
  (\<^verbatim>\<open>queue_put\<close> appends, \<^verbatim>\<open>queue_get\<close> takes the first, \<^verbatim>\<open>list_del\<close> removes the task from whichever list has
  it). A call of \<^verbatim>\<open>schedule\<close> ends in the state in which the chosen task runs; loading the stack
  pointer, \<^verbatim>\<open>cr3\<close> and the task state segment has no effect on this state.
\<close>

section \<open>Definitions\<close>

definition TASK_NUM :: int where "TASK_NUM = 1024"
definition TASK_NAME_LEN :: nat where "TASK_NAME_LEN = 16"
definition TASK_MAX_PRIORITY :: nat where "TASK_MAX_PRIORITY = 3"
definition TASK_MAGIC :: u32 where "TASK_MAGIC = 0x18ee7305"
definition TIME_SLICE_LENGTH :: u16 where "TIME_SLICE_LENGTH = 100"
definition RESET_PRIORITY_INTERVAL :: u64 where "RESET_PRIORITY_INTERVAL = 2"
definition TIMER_COUNT :: nat where "TIMER_COUNT = 20"

datatype task_state = TASK_RUNNING | TASK_SLEEPING | TASK_ZOMBIE

text \<open>The registers saved on a switch; \<^verbatim>\<open>ts_context\<close> is \<open>None\<close> for NULL.\<close>

record context_t =
  cx_eflags :: u32
  cx_ebx :: u32
  cx_ebp :: u32
  cx_esi :: u32
  cx_edi :: u32
  cx_eip :: u32

record task_struct =
  ts_pid :: int
  ts_state :: task_state
  ts_priority :: u16
  ts_timer_slice :: u16
  ts_name :: "u8 list"
  ts_stack :: ptr_t
  ts_mm :: "(ptr_t \<times> mm_struct) option"
  ts_cwd :: int
  ts_open :: ptr_t
  ts_context :: "context_t option"
  ts_sysContext :: ptr_t
  ts_magic :: u32
  ts_lock :: spinlock_t

text \<open>The lists a task can be in: the run queue of a priority, the finished and the blocked tasks, sleep lists.\<close>

datatype tlist = RunQ nat | FinishList | BlockList | SleepList ptr_t

record timer_t =
  tm_thread :: ptr_t
  tm_time :: u64

record timer_pool =
  tp_free :: "nat \<Rightarrow> nat"
  tp_header :: "nat list"
  tp_top :: nat
  tp_size :: nat
  tp_timer :: "nat \<Rightarrow> timer_t"

record sched =
  sd_task :: "ptr_t \<Rightarrow> task_struct"
  sd_list :: "tlist \<Rightarrow> ptr_t list"
  sd_lock :: spinlock_t
  sd_list_lock :: spinlock_t
  sd_map :: "int \<Rightarrow> ptr_t"
  sd_map_lock :: spinlock_t
  sd_cur :: ptr_t
  sd_idle :: ptr_t
  sd_init_task :: ptr_t
  sd_cleaner :: ptr_t
  sd_tick :: u64
  sd_update :: u64
  sd_timers :: timer_pool

abbreviation upd_task :: "ptr_t \<Rightarrow> (task_struct \<Rightarrow> task_struct) \<Rightarrow> sched \<Rightarrow> sched" where
  "upd_task t f s \<equiv> s\<lparr>sd_task := (sd_task s)(t := f (sd_task s t))\<rparr>"

abbreviation tlist_del :: "ptr_t \<Rightarrow> sched \<Rightarrow> sched" where
  "tlist_del t s \<equiv> s\<lparr>sd_list := (\<lambda>l. remove1 t (sd_list s l))\<rparr>"

text \<open>\<^verbatim>\<open>tcb_entry\<close> and \<^verbatim>\<open>CUR_TCB\<close> check that the address is that of a task structure.\<close>

definition tcb_entry :: "ptr_t \<Rightarrow> sched \<Rightarrow> ptr_t option" where
  "tcb_entry t s = do {
     assertk (t AND PAGE_MASK = 0);
     assertk (ts_magic (sd_task s t) = TASK_MAGIC);
     Some t
   }"

definition CUR_TCB :: "sched \<Rightarrow> ptr_t option" where
  "CUR_TCB s = do { assertk (ts_magic (sd_task s (sd_cur s)) = TASK_MAGIC); Some (sd_cur s) }"

subsection \<open>The multi-level feedback queue\<close>

definition scheduler_init :: "sched \<Rightarrow> sched" where
  "scheduler_init s = s\<lparr>sd_list := (\<lambda>l. case l of RunQ i \<Rightarrow> if i \<le> TASK_MAX_PRIORITY then [] else sd_list s l | _ \<Rightarrow> sd_list s l),
     sd_lock := spinlock_init, sd_update := sd_tick s + RESET_PRIORITY_INTERVAL * 1000\<rparr>"

definition sched_task_add :: "ptr_t \<Rightarrow> sched \<Rightarrow> sched option" where
  "sched_task_add t s = do {
     assertk (t \<noteq> 0);
     new \<leftarrow> tcb_entry t s;
     l \<leftarrow> spinlock_lock (sd_lock s);
     assertk (unat (ts_priority (sd_task s new)) \<le> TASK_MAX_PRIORITY);
     let q = RunQ (unat (ts_priority (sd_task s new)));
     Some (s\<lparr>sd_list := (sd_list s)(q := sd_list s q @ [t]), sd_lock := spinlock_unlock l\<rparr>)
   }"

fun choose_loop :: "nat list \<Rightarrow> sched \<Rightarrow> ptr_t \<times> sched" where
  "choose_loop [] s = (sd_idle s, s)"
| "choose_loop (i # is) s =
     (case sd_list s (RunQ i) of
        [] \<Rightarrow> choose_loop is s
      | t # ts \<Rightarrow> (t, s\<lparr>sd_list := (sd_list s)(RunQ i := ts)\<rparr>))"

definition chose_next_task :: "sched \<Rightarrow> (ptr_t \<times> sched) option" where
  "chose_next_task s = do {
     l \<leftarrow> spinlock_lock (sd_lock s);
     let (t, s) = choose_loop (rev [0..<TASK_MAX_PRIORITY + 1]) (s\<lparr>sd_lock := l\<rparr>);
     Some (t, s\<lparr>sd_lock := spinlock_unlock (sd_lock s)\<rparr>)
   }"

text \<open>
  The first loop of \<^verbatim>\<open>reset_priority\<close> links every non-empty lower queue to the end of the highest one;
  the second raises priorities from the end until it meets a task that has the highest one.
\<close>

fun splice_loop :: "nat list \<Rightarrow> sched \<Rightarrow> sched" where
  "splice_loop [] s = s"
| "splice_loop (i # is) s =
     splice_loop is (if sd_list s (RunQ i) \<noteq> []
       then s\<lparr>sd_list := (sd_list s)(RunQ TASK_MAX_PRIORITY := sd_list s (RunQ TASK_MAX_PRIORITY) @ sd_list s (RunQ i), RunQ i := [])\<rparr>
       else s)"

fun raise_loop :: "ptr_t list \<Rightarrow> sched \<Rightarrow> sched option" where
  "raise_loop [] s = Some s"
| "raise_loop (t # ts) s = do {
     t \<leftarrow> tcb_entry t s;
     if ts_priority (sd_task s t) = of_nat TASK_MAX_PRIORITY then Some s
     else raise_loop ts (upd_task t (\<lambda>k. k\<lparr>ts_priority := of_nat TASK_MAX_PRIORITY\<rparr>) s)
   }"

definition reset_priority :: "sched \<Rightarrow> sched option" where
  "reset_priority s = do {
     l \<leftarrow> spinlock_lock (sd_lock s);
     let s = splice_loop (rev [0..<TASK_MAX_PRIORITY]) (s\<lparr>sd_lock := l\<rparr>);
     let s = s\<lparr>sd_lock := spinlock_unlock (sd_lock s)\<rparr>;
     l \<leftarrow> spinlock_lock (sd_lock s);
     s \<leftarrow> raise_loop (rev (sd_list s (RunQ TASK_MAX_PRIORITY))) (s\<lparr>sd_lock := l\<rparr>);
     Some (s\<lparr>sd_lock := spinlock_unlock (sd_lock s)\<rparr>)
   }"

text \<open>The steps of \<^verbatim>\<open>schedule\<close>: the accounts of the task that leaves, the switch, and the periodic reset.\<close>

definition leave_task :: "ptr_t \<Rightarrow> sched \<Rightarrow> sched option" where
  "leave_task cur s = do {
     let k = sd_task s cur;
     let s = (if ts_priority k \<noteq> 0
        then (if ts_timer_slice k = 0
              then upd_task cur (\<lambda>k. k\<lparr>ts_timer_slice := TIME_SLICE_LENGTH, ts_priority := ts_priority k - 1\<rparr>) s
              else s)
        else upd_task cur (\<lambda>k. k\<lparr>ts_timer_slice := TIME_SLICE_LENGTH\<rparr>) s);
     if ts_state (sd_task s cur) = TASK_RUNNING then sched_task_add cur s else Some s
   }"

definition switch_task :: "sched \<Rightarrow> sched option" where
  "switch_task s = do {
     cur \<leftarrow> CUR_TCB s;
     (nxt, s) \<leftarrow> chose_next_task s;
     if nxt = sd_idle s \<and> cur = sd_idle s then Some s
     else do {
       s \<leftarrow> (if cur \<noteq> sd_idle s then leave_task cur s else Some s);
       next_task \<leftarrow> tcb_entry nxt s;
       assertk (ts_state (sd_task s next_task) = TASK_RUNNING);
       Some (s\<lparr>sd_cur := next_task\<rparr>)
     }
   }"

definition schedule :: "sched \<Rightarrow> sched option" where
  "schedule s = do {
     s \<leftarrow> (if sd_tick s \<ge> sd_update s then do {
             s \<leftarrow> reset_priority s;
             Some (s\<lparr>sd_update := sd_tick s + RESET_PRIORITY_INTERVAL * 1000\<rparr>)
           } else Some s);
     switch_task s
   }"

subsection \<open>Process numbers\<close>

fun pid_loop :: "int list \<Rightarrow> ptr_t \<Rightarrow> sched \<Rightarrow> int \<times> sched" where
  "pid_loop [] t s = (0, s)"
| "pid_loop (i # is) t s =
     (if sd_map s i = 0 then (i, s\<lparr>sd_map := (sd_map s)(i := t)\<rparr>) else pid_loop is t s)"

definition alloc_pid :: "ptr_t \<Rightarrow> sched \<Rightarrow> (int \<times> sched) option" where
  "alloc_pid t s = do {
     l \<leftarrow> spinlock_lock (sd_map_lock s);
     let (i, s) = pid_loop [0..TASK_NUM - 1] t s;
     Some (i, s\<lparr>sd_map_lock := spinlock_unlock l\<rparr>)
   }"

definition free_pid :: "int \<Rightarrow> sched \<Rightarrow> sched option" where
  "free_pid pid s = do {
     l \<leftarrow> spinlock_lock (sd_map_lock s);
     assertk (0 \<le> pid \<and> pid < TASK_NUM);
     assertk (pid \<noteq> 0 \<and> sd_map s pid \<noteq> 0);
     Some (s\<lparr>sd_map := (sd_map s)(pid := 0), sd_map_lock := spinlock_unlock l\<rparr>)
   }"

text \<open>The task of a number, under the lock of the map; a negative number is outside the array.\<close>

definition map_get :: "int \<Rightarrow> sched \<Rightarrow> (ptr_t \<times> sched) option" where
  "map_get pid s = do {
     assertk (pid < TASK_NUM);
     l \<leftarrow> spinlock_lock (sd_map_lock s);
     assertk (0 \<le> pid);
     Some (sd_map s pid, s\<lparr>sd_map_lock := spinlock_unlock l\<rparr>)
   }"

definition task_set_name :: "int \<Rightarrow> u8 list \<Rightarrow> sched \<Rightarrow> sched option" where
  "task_set_name pid name s = do {
     (t, s) \<leftarrow> map_get pid s;
     if t \<noteq> 0 then do {
       let cnt = (of_nat (length name) :: u8);
       assertk (unat cnt \<le> TASK_NAME_LEN);
       assertk (ts_magic (sd_task s t) = TASK_MAGIC);
       Some (upd_task t (\<lambda>k. k\<lparr>ts_name := take (unat cnt) name @ drop (unat cnt) (ts_name k)\<rparr>) s)
     } else Some s
   }"

definition task_get_run_list :: "int \<Rightarrow> sched \<Rightarrow> (ptr_t \<times> sched) option" where
  "task_get_run_list pid s = do {
     (t, s) \<leftarrow> map_get pid s;
     assertk (ts_magic (sd_task s t) = TASK_MAGIC);
     Some (t, s)
   }"

definition task_set_time_slice :: "int \<Rightarrow> u16 \<Rightarrow> sched \<Rightarrow> sched option" where
  "task_set_time_slice pid time_slice s = do {
     (t, s) \<leftarrow> map_get pid s;
     assertk (ts_pid (sd_task s t) = pid);
     assertk (ts_magic (sd_task s t) = TASK_MAGIC);
     Some (upd_task t (\<lambda>k. k\<lparr>ts_timer_slice := time_slice\<rparr>) s)
   }"

subsection \<open>Sleeping, waking, exiting\<close>

text \<open>The part of \<^verbatim>\<open>task_sleep\<close> after the lock of the caller is released, up to the switch.\<close>

definition sleep_on :: "tlist \<Rightarrow> sched \<Rightarrow> sched option" where
  "sleep_on l s = do {
     lk \<leftarrow> spinlock_lock (sd_list_lock s);
     cur \<leftarrow> CUR_TCB s;
     let s = s\<lparr>sd_list := (sd_list s)(l := cur # sd_list s l), sd_list_lock := spinlock_unlock lk\<rparr>;
     let s = upd_task cur (\<lambda>k. k\<lparr>ts_state := TASK_SLEEPING\<rparr>) s;
     schedule s
   }"

text \<open>
  \<^verbatim>\<open>task_sleep\<close> with the list (\<open>BlockList\<close> for NULL) and the lock (\<open>None\<close> for NULL), which is taken again
  when the task resumes. The result -1 means that the lock was not held.
\<close>

definition task_sleep :: "tlist \<Rightarrow> spinlock_t option \<Rightarrow> sched \<Rightarrow> (int \<times> spinlock_t option \<times> sched) option" where
  "task_sleep l lk s =
     (case lk of
        Some v \<Rightarrow> if \<not> spinlock_locked v then Some (-1, lk, s)
          else do { s \<leftarrow> sleep_on l s; Some (0, Some (spinlock_unlock v), s) }
      | None \<Rightarrow> do { s \<leftarrow> sleep_on l s; Some (0, None, s) })"

definition task_wakeup :: "ptr_t \<Rightarrow> sched \<Rightarrow> sched option" where
  "task_wakeup t s = do {
     t \<leftarrow> tcb_entry t s;
     if ts_state (sd_task s t) \<noteq> TASK_RUNNING then do {
       let s = upd_task t (\<lambda>k. k\<lparr>ts_state := TASK_RUNNING\<rparr>) s;
       lk \<leftarrow> spinlock_lock (ts_lock (sd_task s t));
       let s = tlist_del t s;
       let s = upd_task t (\<lambda>k. k\<lparr>ts_lock := spinlock_unlock lk\<rparr>) s;
       sched_task_add t s
     } else Some s
   }"

text \<open>\<^verbatim>\<open>task_exit\<close> up to the switch; the task never runs again.\<close>

definition task_exit :: "sched \<Rightarrow> sched option" where
  "task_exit s = do {
     cur \<leftarrow> CUR_TCB s;
     assertk (cur \<noteq> sd_idle s);
     s \<leftarrow> (if cur \<noteq> sd_init_task s then do {
         lk \<leftarrow> spinlock_lock (sd_list_lock s);
         let s = s\<lparr>sd_list := (sd_list s)(FinishList := cur # sd_list s FinishList), sd_list_lock := spinlock_unlock lk\<rparr>;
         ct \<leftarrow> tcb_entry (sd_cleaner s) s;
         if ts_state (sd_task s ct) \<noteq> TASK_RUNNING then task_wakeup (sd_cleaner s) s else Some s
       } else Some s);
     schedule (upd_task cur (\<lambda>k. k\<lparr>ts_state := TASK_ZOMBIE\<rparr>) s)
   }"

subsection \<open>Sleeping locks\<close>

text \<open>\<open>mx_sleep\<close> is the address of the list header \<^verbatim>\<open>sleep\<close> inside the mutex.\<close>

record thread_mutex =
  mx_locked :: bool
  mx_lock :: spinlock_t
  mx_sleep :: ptr_t

definition thread_mutex_init :: "thread_mutex \<Rightarrow> sched \<Rightarrow> thread_mutex \<times> sched" where
  "thread_mutex_init m s = (m\<lparr>mx_lock := spinlock_init\<rparr>, s\<lparr>sd_list := (sd_list s)(SleepList (mx_sleep m) := [])\<rparr>)"

text \<open>
  One pass through the loop of \<^verbatim>\<open>thread_mutex_lock\<close> by a task that holds the spin lock: it takes the
  mutex, or goes to sleep and tests again when it resumes.
\<close>

definition mutex_pass :: "thread_mutex \<Rightarrow> sched \<Rightarrow> (bool \<times> thread_mutex \<times> sched) option" where
  "mutex_pass m s =
     (if mx_locked m then do {
        (r, lk, s) \<leftarrow> task_sleep (SleepList (mx_sleep m)) (Some (mx_lock m)) s;
        lk \<leftarrow> lk;
        Some (False, m\<lparr>mx_lock := lk\<rparr>, s)
      } else Some (True, m\<lparr>mx_locked := True, mx_lock := spinlock_unlock (mx_lock m)\<rparr>, s))"

definition thread_mutex_lock :: "thread_mutex \<Rightarrow> sched \<Rightarrow> (bool \<times> thread_mutex \<times> sched) option" where
  "thread_mutex_lock m s = do {
     lk \<leftarrow> spinlock_lock (mx_lock m);
     mutex_pass (m\<lparr>mx_lock := lk\<rparr>) s
   }"

definition thread_mutex_unlock :: "thread_mutex \<Rightarrow> sched \<Rightarrow> (thread_mutex \<times> sched) option" where
  "thread_mutex_unlock m s = do {
     lk \<leftarrow> spinlock_lock (mx_lock m);
     assertk (mx_locked m);
     let m = m\<lparr>mx_locked := False\<rparr>;
     s \<leftarrow> (if sd_list s (SleepList (mx_sleep m)) \<noteq> [] then task_wakeup (mx_sleep m) s else Some s);
     Some (m\<lparr>mx_lock := spinlock_unlock lk\<rparr>, s)
   }"

subsection \<open>Timers\<close>

definition alloc_timer :: "timer_pool \<Rightarrow> nat option \<times> timer_pool" where
  "alloc_timer p = (if tp_top p \<noteq> 0 then (Some (tp_free p (tp_top p - 1)), p\<lparr>tp_top := tp_top p - 1\<rparr>) else (None, p))"

definition free_timer :: "nat \<Rightarrow> timer_pool \<Rightarrow> timer_pool" where
  "free_timer t p = (if tp_top p \<noteq> tp_size p
     then p\<lparr>tp_free := (tp_free p)(tp_top p := t), tp_top := tp_top p + 1\<rparr> else p)"

definition thread_timer_init :: "timer_pool \<Rightarrow> timer_pool" where
  "thread_timer_init p = p\<lparr>tp_top := TIMER_COUNT, tp_size := TIMER_COUNT, tp_header := [],
     tp_free := (\<lambda>i. if i < TIMER_COUNT then i else tp_free p i)\<rparr>"

definition ms_sleep_until :: "u64 \<Rightarrow> sched \<Rightarrow> (bool \<times> sched) option" where
  "ms_sleep_until msc s = (case alloc_timer (sd_timers s) of
       (None, p) \<Rightarrow> Some (False, s)
     | (Some t, p) \<Rightarrow> do {
         cur \<leftarrow> CUR_TCB s;
         let p = p\<lparr>tp_timer := (tp_timer p)(t := \<lparr>tm_thread = cur, tm_time = msc\<rparr>), tp_header := tp_header p @ [t]\<rparr>;
         (r, lk, s) \<leftarrow> task_sleep BlockList None (s\<lparr>sd_timers := p\<rparr>);
         Some (True, s)
       })"

definition ms_sleep :: "u32 \<Rightarrow> sched \<Rightarrow> (bool \<times> sched) option" where
  "ms_sleep msc s = ms_sleep_until (sd_tick s + ucast msc) s"

text \<open>The loop of \<^verbatim>\<open>clock_isr\<close> over the timers that are armed when it starts.\<close>

fun clock_loop :: "nat list \<Rightarrow> sched \<Rightarrow> sched option" where
  "clock_loop [] s = Some s"
| "clock_loop (t # ts) s =
     (if tm_time (tp_timer (sd_timers s) t) \<le> sd_tick s then do {
        s \<leftarrow> task_wakeup (tm_thread (tp_timer (sd_timers s) t)) s;
        let p = sd_timers s;
        clock_loop ts (s\<lparr>sd_timers := free_timer t (p\<lparr>tp_header := remove1 t (tp_header p)\<rparr>)\<rparr>)
      } else clock_loop ts s)"

definition clock_isr :: "sched \<Rightarrow> sched option" where
  "clock_isr s = do {
     let s = s\<lparr>sd_tick := sd_tick s + 10\<rparr>;
     s \<leftarrow> clock_loop (tp_header (sd_timers s)) s;
     cur \<leftarrow> CUR_TCB s;
     if ts_timer_slice (sd_task s cur) = 0 then schedule s
     else Some (upd_task cur (\<lambda>k. k\<lparr>ts_timer_slice := ts_timer_slice k - 10\<rparr>) s)
   }"

section \<open>The invariant of the task lists\<close>

definition task_ok :: "sched \<Rightarrow> ptr_t \<Rightarrow> bool" where
  "task_ok s t \<longleftrightarrow> t \<noteq> 0 \<and> t AND PAGE_MASK = 0 \<and> ts_magic (sd_task s t) = TASK_MAGIC \<and>
     unat (ts_priority (sd_task s t)) \<le> TASK_MAX_PRIORITY \<and> ts_lock (sd_task s t) \<noteq> 1"

text \<open>The state of the tasks of a list.\<close>

fun list_state :: "tlist \<Rightarrow> task_state" where
  "list_state (RunQ i) = TASK_RUNNING" | "list_state FinishList = TASK_ZOMBIE"
| "list_state BlockList = TASK_SLEEPING" | "list_state (SleepList a) = TASK_SLEEPING"

definition listed_ok :: "sched \<Rightarrow> tlist \<Rightarrow> ptr_t \<Rightarrow> bool" where
  "listed_ok s l t \<longleftrightarrow> ts_state (sd_task s t) = list_state l \<and> t \<noteq> sd_idle s \<and>
     (\<forall>i. l = RunQ i \<longrightarrow> unat (ts_priority (sd_task s t)) = i)"

text \<open>
  Every list holds each task at most once and no task is in two lists; the tasks of a list are in
  its state, those of a run queue have its priority; the idle task is in no list and can always run.
\<close>

definition sched_inv :: "sched \<Rightarrow> bool" where
  "sched_inv s \<longleftrightarrow> sd_lock s \<noteq> 1 \<and> sd_list_lock s \<noteq> 1 \<and> (\<forall>l. distinct (sd_list s l)) \<and>
     (\<forall>l l' t. t \<in> set (sd_list s l) \<longrightarrow> t \<in> set (sd_list s l') \<longrightarrow> l = l') \<and>
     (\<forall>l t. t \<in> set (sd_list s l) \<longrightarrow> task_ok s t \<and> listed_ok s l t) \<and>
     task_ok s (sd_idle s) \<and> ts_state (sd_task s (sd_idle s)) = TASK_RUNNING \<and> task_ok s (sd_cur s)"

definition unlisted :: "sched \<Rightarrow> ptr_t \<Rightarrow> bool" where
  "unlisted s t \<longleftrightarrow> (\<forall>l. t \<notin> set (sd_list s l))"

lemma sched_invD:
  assumes "sched_inv s"
  shows "sd_lock s \<noteq> 1" "sd_list_lock s \<noteq> 1" "distinct (sd_list s l)"
    "t \<in> set (sd_list s l) \<Longrightarrow> t \<in> set (sd_list s l') \<Longrightarrow> l = l'"
    "t \<in> set (sd_list s l) \<Longrightarrow> task_ok s t" "t \<in> set (sd_list s l) \<Longrightarrow> listed_ok s l t"
    "task_ok s (sd_idle s)" "ts_state (sd_task s (sd_idle s)) = TASK_RUNNING" "task_ok s (sd_cur s)"
    "unlisted s (sd_idle s)"
  using assms unfolding sched_inv_def unlisted_def listed_ok_def by blast+

text \<open>A change of one task and of its place in the lists.\<close>

lemma sched_inv_change:
  assumes inv: "sched_inv s" and idle: "sd_idle s' = sd_idle s" and cur: "sd_cur s' = sd_cur s"
    and locks: "sd_lock s' \<noteq> 1" "sd_list_lock s' \<noteq> 1"
    and others: "\<And>q. q \<noteq> t \<Longrightarrow> sd_task s' q = sd_task s q"
    and lists: "\<And>l q. q \<noteq> t \<Longrightarrow> q \<in> set (sd_list s' l) \<longleftrightarrow> q \<in> set (sd_list s l)" "\<And>l. distinct (sd_list s' l)"
    and t: "task_ok s' t" "\<And>l. t \<in> set (sd_list s' l) \<Longrightarrow> l = home \<and> listed_ok s' home t"
      "t = sd_idle s \<Longrightarrow> ts_state (sd_task s' t) = TASK_RUNNING"
  shows "sched_inv s'"
proof -
  have ok: "task_ok s' q" if "task_ok s q" for q using that others [of q] t(1) by (cases "q = t") (auto simp: task_ok_def)
  have listed: "listed_ok s' l q" if "q \<noteq> t" "listed_ok s l q" for l q
    using that others [of q] idle by (simp add: listed_ok_def)
  show ?thesis
    unfolding sched_inv_def
  proof (intro conjI allI impI)
    fix l l' q assume "q \<in> set (sd_list s' l)" "q \<in> set (sd_list s' l')"
    then show "l = l'" using t(2) lists(1) sched_invD(4) [OF inv] by (cases "q = t") blast+
  next
    fix l q assume q: "q \<in> set (sd_list s' l)"
    show "task_ok s' q" using q t(1) lists(1) sched_invD(5) [OF inv] ok by (cases "q = t") blast+
    show "listed_ok s' l q" using q t(2) lists(1) sched_invD(6) [OF inv] listed by (cases "q = t") blast+
  next
    show "task_ok s' (sd_idle s')" "task_ok s' (sd_cur s')" using ok sched_invD(7,9) [OF inv] idle cur by simp_all
    show "ts_state (sd_task s' (sd_idle s')) = TASK_RUNNING"
      using t(3) others idle sched_invD(8) [OF inv] by (cases "t = sd_idle s") auto
  qed (use locks lists(2) in auto)
qed

lemma tcb_entry_ok: "task_ok s t \<Longrightarrow> tcb_entry t s = Some t"
  by (simp add: tcb_entry_def task_ok_def)

lemma CUR_TCB_ok: "task_ok s (sd_cur s) \<Longrightarrow> CUR_TCB s = Some (sd_cur s)"
  by (simp add: CUR_TCB_def task_ok_def)

lemma sched_task_add_ok:
  assumes inv: "sched_inv s" and t: "task_ok s t" "unlisted s t" "ts_state (sd_task s t) = TASK_RUNNING" "t \<noteq> sd_idle s"
  defines "q \<equiv> RunQ (unat (ts_priority (sd_task s t)))"
  shows "\<exists>s'. sched_task_add t s = Some s' \<and> s' = s\<lparr>sd_list := (sd_list s)(q := sd_list s q @ [t]), sd_lock := 0\<rparr> \<and> sched_inv s'"
proof -
  let ?s = "s\<lparr>sd_list := (sd_list s)(q := sd_list s q @ [t]), sd_lock := 0\<rparr>"
  have "sched_task_add t s = Some ?s"
    using t(1) sched_invD(1) [OF inv] by (simp add: sched_task_add_def tcb_entry_ok task_ok_def q_def Let_def)
  moreover have "sched_inv ?s"
  proof (rule sched_inv_change [OF inv, where t = t and home = q])
    show "distinct (sd_list ?s l)" for l using sched_invD(3) [OF inv] t(2) by (auto simp: unlisted_def)
    show "l = q \<and> listed_ok ?s q t" if "t \<in> set (sd_list ?s l)" for l
      using that t by (auto simp: unlisted_def listed_ok_def q_def split: if_splits)
  qed (use t sched_invD(2) [OF inv] in \<open>auto simp: task_ok_def\<close>)
  ultimately show ?thesis by blast
qed

lemma choose_loop_find:
  "choose_loop is s = (case find (\<lambda>i. sd_list s (RunQ i) \<noteq> []) is of None \<Rightarrow> (sd_idle s, s)
     | Some i \<Rightarrow> (hd (sd_list s (RunQ i)), s\<lparr>sd_list := (sd_list s)(RunQ i := tl (sd_list s (RunQ i)))\<rparr>))"
  by (induction "is") (auto split: list.splits)

text \<open>The highest non-empty run queue.\<close>

definition top_queue :: "sched \<Rightarrow> nat option" where
  "top_queue s = find (\<lambda>i. sd_list s (RunQ i) \<noteq> []) (rev [0..<TASK_MAX_PRIORITY + 1])"

lemma chose_next_task_ok:
  assumes inv: "sched_inv s"
  shows "\<exists>nxt s'. chose_next_task s = Some (nxt, s') \<and> sched_inv s' \<and> unlisted s' nxt \<and> task_ok s' nxt \<and>
    ts_state (sd_task s' nxt) = TASK_RUNNING \<and> sd_task s' = sd_task s \<and> sd_cur s' = sd_cur s \<and> sd_idle s' = sd_idle s \<and>
    (case top_queue s of None \<Rightarrow> nxt = sd_idle s \<and> sd_list s' = sd_list s
      | Some i \<Rightarrow> sd_list s (RunQ i) = nxt # sd_list s' (RunQ i) \<and> nxt \<noteq> sd_idle s \<and>
          sd_list s' = (sd_list s)(RunQ i := sd_list s' (RunQ i)))"
proof -
  have lock: "sd_lock s \<noteq> 1" using sched_invD(1) [OF inv] .
  show ?thesis
  proof (cases "top_queue s")
    case None
    let ?s = "s\<lparr>sd_lock := 0\<rparr>"
    have f: "find (\<lambda>i. sd_list s (RunQ i) \<noteq> []) (rev [0..<TASK_MAX_PRIORITY + 1]) = None" using None by (simp add: top_queue_def)
    have "chose_next_task s = Some (sd_idle s, ?s)"
      using lock f by (simp add: chose_next_task_def choose_loop_find Let_def)
    moreover have "sched_inv ?s" using inv by (simp add: sched_inv_def task_ok_def listed_ok_def)
    moreover have "unlisted ?s (sd_idle s)" "task_ok ?s (sd_idle s)"
      using sched_invD(7,10) [OF inv] by (simp_all add: task_ok_def unlisted_def)
    ultimately show ?thesis using None sched_invD(8) [OF inv] by simp
  next
    case (Some i)
    then have f: "find (\<lambda>i. sd_list s (RunQ i) \<noteq> []) (rev [0..<TASK_MAX_PRIORITY + 1]) = Some i" by (simp add: top_queue_def)
    then obtain t ts where q: "sd_list s (RunQ i) = t # ts"
      by (metis (mono_tags, lifting) find_Some_iff list.exhaust)
    let ?s = "s\<lparr>sd_list := (sd_list s)(RunQ i := ts), sd_lock := 0\<rparr>"
    have call: "chose_next_task s = Some (t, ?s)"
      using lock f q by (simp add: chose_next_task_def choose_loop_find Let_def)
    have t: "task_ok s t" "listed_ok s (RunQ i) t" "t \<in> set (sd_list s (RunQ i))" using sched_invD(5,6) [OF inv, of t "RunQ i"] q by simp_all
    have nt: "t \<notin> set ts" using sched_invD(3) [OF inv, of "RunQ i"] q by simp
    have un: "unlisted ?s t" using sched_invD(4) [OF inv t(3)] nt by (auto simp: unlisted_def)
    have "sched_inv ?s"
    proof (rule sched_inv_change [OF inv, where t = t and home = "RunQ i"])
      show "distinct (sd_list ?s l)" for l using sched_invD(3) [OF inv, of l] q by auto
    qed (use t un q sched_invD(2) [OF inv] in \<open>auto simp: task_ok_def listed_ok_def unlisted_def\<close>)
    then show ?thesis using call un t q Some by (auto simp: task_ok_def listed_ok_def)
  qed
qed

section \<open>Resetting priorities\<close>

abbreviation runq :: "sched \<Rightarrow> nat \<Rightarrow> ptr_t list" where
  "runq s i \<equiv> sd_list s (RunQ i)"

definition merged :: "sched \<Rightarrow> tlist \<Rightarrow> ptr_t list" where
  "merged s = (sd_list s)(RunQ 3 := runq s 3 @ runq s 2 @ runq s 1 @ runq s 0, RunQ 2 := [], RunQ 1 := [], RunQ 0 := [])"

definition raised :: "sched \<Rightarrow> ptr_t \<Rightarrow> task_struct" where
  "raised s t = (if t \<in> set (runq s 2 @ runq s 1 @ runq s 0) then (sd_task s t)\<lparr>ts_priority := 3\<rparr> else sd_task s t)"

lemma splice_loop_merged: "splice_loop (rev [0..<TASK_MAX_PRIORITY]) s = s\<lparr>sd_list := merged s\<rparr>"
proof -
  have ix: "rev [0..<TASK_MAX_PRIORITY] = [2, 1, 0]" by (simp add: TASK_MAX_PRIORITY_def upt_rec)
  have splice: "splice_loop (i # js) s =
      splice_loop js (s\<lparr>sd_list := (sd_list s)(RunQ 3 := runq s 3 @ runq s i, RunQ i := [])\<rparr>)" if "i \<noteq> 3" for s i js
    by (cases "runq s i = []") (simp_all add: fun_upd_idem that TASK_MAX_PRIORITY_def)
  have "splice_loop [2, 1, 0] s = s\<lparr>sd_list := (((sd_list s)(RunQ 3 := runq s 3 @ runq s 2, RunQ 2 := []))
      (RunQ 3 := (runq s 3 @ runq s 2) @ runq s 1, RunQ 1 := []))(RunQ 3 := ((runq s 3 @ runq s 2) @ runq s 1) @ runq s 0, RunQ 0 := [])\<rparr>"
    by (simp add: splice del: splice_loop.simps(2) append_assoc)
  also have "\<dots> = s\<lparr>sd_list := merged s\<rparr>"
    by (intro arg_cong [of _ _ "\<lambda>f. s\<lparr>sd_list := f\<rparr>"] ext) (simp add: merged_def)
  finally show ?thesis unfolding ix .
qed

lemma raise_loop_prefix:
  assumes "distinct xs" "\<forall>t\<in>set xs. task_ok s t \<and> ts_priority (sd_task s t) \<noteq> 3"
    "ys \<noteq> [] \<Longrightarrow> task_ok s (hd ys) \<and> ts_priority (sd_task s (hd ys)) = 3"
  shows "raise_loop (xs @ ys) s =
    Some (s\<lparr>sd_task := (\<lambda>t. if t \<in> set xs then (sd_task s t)\<lparr>ts_priority := 3\<rparr> else sd_task s t)\<rparr>)"
  using assms
proof (induction xs arbitrary: s)
  case Nil
  then show ?case by (cases ys) (simp_all add: tcb_entry_ok TASK_MAX_PRIORITY_def)
next
  case (Cons x xs)
  let ?s = "upd_task x (\<lambda>k. k\<lparr>ts_priority := 3\<rparr>) s"
  have x: "task_ok s x" "ts_priority (sd_task s x) \<noteq> 3" "x \<notin> set xs" using Cons.prems by auto
  have 1: "\<forall>t\<in>set xs. task_ok ?s t \<and> ts_priority (sd_task ?s t) \<noteq> 3" using Cons.prems(2) x(3) by (auto simp: task_ok_def)
  have 2: "ys \<noteq> [] \<Longrightarrow> task_ok ?s (hd ys) \<and> ts_priority (sd_task ?s (hd ys)) = 3"
    using Cons.prems(3) x by (cases "hd ys = x") (auto simp: task_ok_def)
  have "distinct xs" using Cons.prems(1) by simp
  from Cons.IH [OF this 1 2] show ?case
    using x by (auto simp: tcb_entry_ok TASK_MAX_PRIORITY_def fun_eq_iff intro!: arg_cong [of _ _ "\<lambda>f. s\<lparr>sd_task := f\<rparr>"])
qed

lemma runq_facts:
  assumes inv: "sched_inv s"
  shows "t \<in> set (runq s i) \<Longrightarrow> unat (ts_priority (sd_task s t)) = i" "3 < i \<Longrightarrow> runq s i = []"
    "i < 3 \<Longrightarrow> t \<in> set (runq s i) \<Longrightarrow> ts_priority (sd_task s t) \<noteq> 3"
proof -
  show p: "unat (ts_priority (sd_task s t)) = i" if "t \<in> set (runq s i)" for t i
    using sched_invD(6) [OF inv that] by (simp add: listed_ok_def)
  show "runq s i = []" if "3 < i"
  proof (rule ccontr)
    assume "runq s i \<noteq> []"
    then obtain t where "t \<in> set (runq s i)" by (cases "runq s i") auto
    then show False using p [of t i] sched_invD(5) [OF inv] that by (fastforce simp: task_ok_def TASK_MAX_PRIORITY_def)
  qed
  show "ts_priority (sd_task s t) \<noteq> 3" if "i < 3" "t \<in> set (runq s i)" using p [OF that(2)] that(1) by auto
qed

lemma runq_disjoint: "sched_inv s \<Longrightarrow> i \<noteq> j \<Longrightarrow> set (runq s i) \<inter> set (runq s j) = {}"
  using sched_invD(4) [of s _ "RunQ i" "RunQ j"] by auto

lemma reset_priority_eq:
  assumes inv: "sched_inv s"
  shows "reset_priority s = Some (s\<lparr>sd_list := merged s, sd_task := raised s, sd_lock := 0\<rparr>)"
proof -
  let ?m = "s\<lparr>sd_list := merged s, sd_lock := 1\<rparr>"
  let ?low = "rev (runq s 2 @ runq s 1 @ runq s 0)" and ?high = "rev (runq s 3)"
  have dist: "distinct ?low"
    using sched_invD(3) [OF inv] runq_disjoint [OF inv, of 2 1] runq_disjoint [OF inv, of 2 0] runq_disjoint [OF inv, of 1 0]
    by (auto simp: Int_commute)
  have low: "\<forall>t\<in>set ?low. task_ok ?m t \<and> ts_priority (sd_task ?m t) \<noteq> 3"
  proof
    fix t assume "t \<in> set ?low"
    then have "t \<in> set (runq s 2) \<or> t \<in> set (runq s 1) \<or> t \<in> set (runq s 0)" by auto
    then obtain i where i: "i < 3" "t \<in> set (runq s i)" by (elim disjE) (rule that; simp; fail)+
    show "task_ok ?m t \<and> ts_priority (sd_task ?m t) \<noteq> 3"
      using sched_invD(5) [OF inv i(2)] runq_facts(3) [OF inv i] by (simp add: task_ok_def)
  qed
  have high: "?high \<noteq> [] \<Longrightarrow> task_ok ?m (hd ?high) \<and> ts_priority (sd_task ?m (hd ?high)) = 3"
  proof -
    assume "?high \<noteq> []"
    then have "hd ?high \<in> set (runq s 3)" by (metis list.set_sel(1) set_rev)
    then have "task_ok s (hd ?high)" "unat (ts_priority (sd_task s (hd ?high))) = unat (3 :: u16)"
      using sched_invD(5) [OF inv] runq_facts(1) [OF inv] by auto
    then show ?thesis by (simp only: word_unat_eq_iff) (simp add: task_ok_def)
  qed
  have "rev (merged s (RunQ 3)) = ?low @ ?high" by (simp add: merged_def)
  moreover have "(\<lambda>t. if t \<in> set ?low then (sd_task ?m t)\<lparr>ts_priority := 3\<rparr> else sd_task ?m t) = raised s"
    by (rule ext) (simp add: raised_def)
  then have "raise_loop (?low @ ?high) ?m = Some (?m\<lparr>sd_task := raised s\<rparr>)"
    using raise_loop_prefix [OF dist low high] by simp
  ultimately show ?thesis
    using sched_invD(1) [OF inv] splice_loop_merged [of "s\<lparr>sd_lock := 1\<rparr>"]
    by (simp add: reset_priority_def Let_def TASK_MAX_PRIORITY_def merged_def)
qed

lemma merged_sets:
  assumes inv: "sched_inv s"
  shows "distinct (merged s l)" "t \<in> set (merged s l) \<Longrightarrow> t \<in> set (merged s l') \<Longrightarrow> l = l'"
    "(\<exists>l. t \<in> set (merged s l)) \<longleftrightarrow> (\<exists>l. t \<in> set (sd_list s l))"
    "t \<in> set (merged s l) \<Longrightarrow> l = RunQ 3 \<and> (\<exists>i\<le>3. t \<in> set (runq s i)) \<or> (\<forall>i. l \<noteq> RunQ i) \<and> t \<in> set (sd_list s l)"
proof -
  note dj = runq_disjoint [OF inv]
  show "distinct (merged s l)"
    using sched_invD(3) [OF inv] dj [of 3 2] dj [of 3 1] dj [of 3 0] dj [of 2 1] dj [of 2 0] dj [of 1 0]
    by (simp add: merged_def Int_Un_distrib)
  show home: "l = RunQ 3 \<and> (\<exists>i\<le>3. t \<in> set (runq s i)) \<or> (\<forall>i. l \<noteq> RunQ i) \<and> t \<in> set (sd_list s l)"
    if "t \<in> set (merged s l)" for t l
  proof (cases l)
    case (RunQ i)
    show ?thesis
    proof (cases "i = 3")
      case True
      then have "t \<in> set (runq s 3) \<or> t \<in> set (runq s 2) \<or> t \<in> set (runq s 1) \<or> t \<in> set (runq s 0)"
        using that RunQ by (auto simp: merged_def)
      then show ?thesis using True RunQ by (elim disjE) (auto intro: exI [of _ 3] exI [of _ 2] exI [of _ 1] exI [of _ 0])
    next
      case False
      then have "3 < i" using that RunQ by (auto simp: merged_def split: if_splits)
      then show ?thesis using that RunQ runq_facts(2) [OF inv, of i] by (auto simp: merged_def)
    qed
  qed (use that in \<open>auto simp: merged_def\<close>)
  show "l = l'" if "t \<in> set (merged s l)" "t \<in> set (merged s l')"
    using home [OF that(1)] home [OF that(2)] sched_invD(4) [OF inv] by metis
  show "(\<exists>l. t \<in> set (merged s l)) \<longleftrightarrow> (\<exists>l. t \<in> set (sd_list s l))"
  proof
    assume "\<exists>l. t \<in> set (merged s l)"
    then show "\<exists>l. t \<in> set (sd_list s l)" using home by blast
  next
    assume "\<exists>l. t \<in> set (sd_list s l)"
    then obtain l where l: "t \<in> set (sd_list s l)" by blast
    show "\<exists>l. t \<in> set (merged s l)"
    proof (cases "\<exists>i\<le>3. l = RunQ i")
      case True
      then obtain i where i: "l = RunQ i" "i \<le> 3" by blast
      then have "i = 0 \<or> i = 1 \<or> i = 2 \<or> i = 3" by linarith
      then have "t \<in> set (merged s (RunQ 3))" using l i(1) by (elim disjE) (simp_all add: merged_def)
      then show ?thesis by blast
    next
      case False
      then have "merged s l = sd_list s l" by (simp add: merged_def)
      then show ?thesis using l by metis
    qed
  qed
qed

lemma reset_priority_inv:
  assumes inv: "sched_inv s"
  defines "s' \<equiv> s\<lparr>sd_list := merged s, sd_task := raised s, sd_lock := 0\<rparr>"
  shows "sched_inv s'" "ts_state (sd_task s' t) = ts_state (sd_task s t)" "task_ok s' t \<longleftrightarrow> task_ok s t \<or> t \<in> set (runq s 2 @ runq s 1 @ runq s 0)"
proof -
  have three: "unat (3 :: u16) = 3" by simp
  have ok: "task_ok s' t" if "task_ok s t" for t
    using that by (simp add: task_ok_def s'_def raised_def TASK_MAX_PRIORITY_def)
  have state: "ts_state (sd_task s' t) = ts_state (sd_task s t)" for t by (simp add: s'_def raised_def)
  show "ts_state (sd_task s' t) = ts_state (sd_task s t)" by (rule state)
  have prio: "unat (ts_priority (sd_task s' t)) = 3" if t: "t \<in> set (runq s i)" "i \<le> 3" for t i
  proof (cases "i = 3")
    case True
    then have "unat (ts_priority (sd_task s t)) = 3" using runq_facts(1) [OF inv t(1)] by simp
    then show ?thesis by (simp add: s'_def raised_def)
  next
    case False
    then have "i = 0 \<or> i = 1 \<or> i = 2" using t(2) by linarith
    then show ?thesis using t(1) by (elim disjE) (simp_all add: s'_def raised_def)
  qed
  have idle: "sd_task s' (sd_idle s) = sd_task s (sd_idle s)"
    using sched_invD(10) [OF inv] by (simp add: s'_def raised_def unlisted_def)
  have listed: "task_ok s' t \<and> listed_ok s' l t" if t: "t \<in> set (merged s l)" for t l
    using merged_sets(4) [OF inv t]
  proof
    assume "l = RunQ 3 \<and> (\<exists>i\<le>3. t \<in> set (runq s i))"
    then obtain i where i: "l = RunQ 3" "i \<le> 3" "t \<in> set (runq s i)" by blast
    then show ?thesis
      using ok sched_invD(5,6) [OF inv i(3)] state prio [OF i(3,2)] by (auto simp: listed_ok_def s'_def)
  next
    assume "(\<forall>i. l \<noteq> RunQ i) \<and> t \<in> set (sd_list s l)"
    then show ?thesis using ok sched_invD(5,6) [OF inv, of t l] state by (auto simp: listed_ok_def s'_def)
  qed
  have "sd_list s' = merged s" by (simp add: s'_def)
  then show "sched_inv s'"
    unfolding sched_inv_def using merged_sets(1,2) [OF inv] listed ok sched_invD(2,7,8,9) [OF inv] idle
    by (auto simp: s'_def)
  show "task_ok s' t \<longleftrightarrow> task_ok s t \<or> t \<in> set (runq s 2 @ runq s 1 @ runq s 0)"
    using ok [of t] sched_invD(5) [OF inv] by (auto simp: task_ok_def s'_def raised_def TASK_MAX_PRIORITY_def split: if_splits)
qed

section \<open>Switching tasks\<close>

lemma sched_inv_cur: "sched_inv s \<Longrightarrow> task_ok s t \<Longrightarrow> sched_inv (s\<lparr>sd_cur := t\<rparr>)"
  by (simp add: sched_inv_def task_ok_def listed_ok_def)

text \<open>A change of the accounts of a task that cannot be in a run queue.\<close>

lemma sched_inv_account:
  assumes inv: "sched_inv s" and ok: "task_ok s t" and st: "ts_state (sd_task s t) = TASK_RUNNING \<Longrightarrow> unlisted s t"
    and k: "ts_state k = ts_state (sd_task s t)" "ts_magic k = ts_magic (sd_task s t)" "ts_lock k \<noteq> 1"
      "unat (ts_priority k) \<le> TASK_MAX_PRIORITY"
  shows "sched_inv (s\<lparr>sd_task := (sd_task s)(t := k)\<rparr>)"
proof -
  obtain home where home: "\<And>l. t \<in> set (sd_list s l) \<Longrightarrow> l = home"
    using sched_invD(4) [OF inv, of t] by (cases "\<exists>l. t \<in> set (sd_list s l)") blast+
  have notq: "l \<noteq> RunQ i" if "t \<in> set (sd_list s l)" for l i
  proof
    assume "l = RunQ i"
    then have "ts_state (sd_task s t) = TASK_RUNNING" using sched_invD(6) [OF inv that] by (simp add: listed_ok_def)
    then show False using st that unfolding unlisted_def by blast
  qed
  show ?thesis
  proof (rule sched_inv_change [OF inv, where t = t and home = home])
    fix l assume l: "t \<in> set (sd_list (s\<lparr>sd_task := (sd_task s)(t := k)\<rparr>) l)"
    then have "listed_ok s l t" "l = home" using sched_invD(6) [OF inv] home by auto
    then show "l = home \<and> listed_ok (s\<lparr>sd_task := (sd_task s)(t := k)\<rparr>) home t"
      using notq [of l] l k(1) by (simp add: listed_ok_def)
  qed (use k ok sched_invD(1,2,3,8) [OF inv] in \<open>auto simp: task_ok_def\<close>)
qed

lemma ex_upd_set:
  assumes "\<And>l. A l = B l \<union> (if l = h then {c} else {})"
  shows "(\<exists>l. q \<in> A l) \<longleftrightarrow> (\<exists>l. q \<in> B l) \<or> q = c"
proof -
  have "q \<in> A l \<longleftrightarrow> q \<in> B l \<or> l = h \<and> q = c" for l using assms [of l] by (cases "l = h") auto
  then show ?thesis by (simp add: ex_disj_distrib)
qed

lemma leave_task_ok:
  assumes inv: "sched_inv s" and ok: "task_ok s cur" "cur \<noteq> sd_idle s"
    and st: "ts_state (sd_task s cur) = TASK_RUNNING \<Longrightarrow> unlisted s cur"
  shows "\<exists>s'. leave_task cur s = Some s' \<and> sched_inv s' \<and> sd_cur s' = sd_cur s \<and> sd_idle s' = sd_idle s \<and>
    (\<forall>q. q \<noteq> cur \<longrightarrow> sd_task s' q = sd_task s q) \<and>
    (\<forall>q. (\<exists>l. q \<in> set (sd_list s' l)) \<longleftrightarrow> (\<exists>l. q \<in> set (sd_list s l)) \<or> q = cur \<and> ts_state (sd_task s cur) = TASK_RUNNING)"
proof -
  let ?k = "sd_task s cur"
  define k where "k = (if ts_priority ?k \<noteq> 0
      then (if ts_timer_slice ?k = 0 then ?k\<lparr>ts_timer_slice := TIME_SLICE_LENGTH, ts_priority := ts_priority ?k - 1\<rparr> else ?k)
      else ?k\<lparr>ts_timer_slice := TIME_SLICE_LENGTH\<rparr>)"
  let ?s = "s\<lparr>sd_task := (sd_task s)(cur := k)\<rparr>"
  have "unat (ts_priority ?k - 1) \<le> unat (ts_priority ?k)" if "ts_priority ?k \<noteq> 0"
    using that by (simp add: unat_minus_one)
  then have kf: "ts_state k = ts_state ?k" "ts_magic k = ts_magic ?k" "ts_lock k \<noteq> 1" "unat (ts_priority k) \<le> TASK_MAX_PRIORITY"
    using ok(1) by (auto simp: k_def task_ok_def)
  have call: "leave_task cur s = (if ts_state k = TASK_RUNNING then sched_task_add cur ?s else Some ?s)"
    by (simp add: leave_task_def k_def Let_def)
  have inv': "sched_inv ?s" using inv ok(1) st kf by (rule sched_inv_account)
  have ok': "task_ok ?s cur" using ok(1) kf by (simp add: task_ok_def)
  show ?thesis
  proof (cases "ts_state k = TASK_RUNNING")
    case True
    have un: "unlisted ?s cur" using st True kf(1) by (simp add: unlisted_def)
    obtain s' where s': "sched_task_add cur ?s = Some s'" "sched_inv s'"
      "s' = ?s\<lparr>sd_list := (sd_list ?s)(RunQ (unat (ts_priority (sd_task ?s cur))) := runq ?s (unat (ts_priority (sd_task ?s cur))) @ [cur]), sd_lock := 0\<rparr>"
      using sched_task_add_ok [OF inv' ok' un] True ok(2) by auto
    have "(\<exists>l. q \<in> set (sd_list s' l)) \<longleftrightarrow> (\<exists>l. q \<in> set (sd_list s l)) \<or> q = cur" for q
    proof -
      have "set (sd_list s' l) = set (sd_list s l) \<union> (if l = RunQ (unat (ts_priority (sd_task ?s cur))) then {cur} else {})" for l
        unfolding s'(3) by simp
      then show ?thesis by (rule ex_upd_set)
    qed
    then show ?thesis using call True kf(1) s' by auto
  next
    case False
    then show ?thesis using call inv' kf(1) by (intro exI [of _ ?s]) auto
  qed
qed

definition chosen :: "sched \<Rightarrow> ptr_t" where
  "chosen s = (case top_queue s of None \<Rightarrow> sd_idle s | Some i \<Rightarrow> hd (runq s i))"

lemma switch_task_ok:
  assumes inv: "sched_inv s" and st: "ts_state (sd_task s (sd_cur s)) = TASK_RUNNING \<Longrightarrow> unlisted s (sd_cur s)"
  shows "\<exists>s'. switch_task s = Some s' \<and> sched_inv s' \<and> unlisted s' (sd_cur s') \<and>
    ts_state (sd_task s' (sd_cur s')) = TASK_RUNNING \<and> sd_cur s' = chosen s \<and> sd_idle s' = sd_idle s \<and>
    (\<forall>t. t \<noteq> sd_idle s \<longrightarrow> ((\<exists>l. t \<in> set (sd_list s' l)) \<or> t = sd_cur s') \<longleftrightarrow>
      ((\<exists>l. t \<in> set (sd_list s l)) \<or> t = sd_cur s \<and> ts_state (sd_task s t) = TASK_RUNNING))"
proof -
  obtain nxt s1 where c: "chose_next_task s = Some (nxt, s1)" "sched_inv s1" "unlisted s1 nxt" "task_ok s1 nxt"
    "ts_state (sd_task s1 nxt) = TASK_RUNNING" "sd_task s1 = sd_task s" "sd_cur s1 = sd_cur s" "sd_idle s1 = sd_idle s"
    and q: "case top_queue s of None \<Rightarrow> nxt = sd_idle s \<and> sd_list s1 = sd_list s
      | Some i \<Rightarrow> runq s i = nxt # runq s1 i \<and> nxt \<noteq> sd_idle s \<and> sd_list s1 = (sd_list s)(RunQ i := runq s1 i)"
    using chose_next_task_ok [OF inv] by blast
  have nxt: "nxt = chosen s" using q by (auto simp: chosen_def split: option.splits)
  have mem: "(\<exists>l. t \<in> set (sd_list s l)) \<longleftrightarrow> (\<exists>l. t \<in> set (sd_list s1 l)) \<or> t = nxt \<and> nxt \<noteq> sd_idle s" for t
  proof (cases "top_queue s")
    case (Some i)
    have e: "runq s i = nxt # runq s1 i" "nxt \<noteq> sd_idle s" "sd_list s1 = (sd_list s)(RunQ i := runq s1 i)"
      using q unfolding Some option.case by blast+
    have i: "runq s i = nxt # runq s1 i" "nxt \<noteq> sd_idle s" "\<And>l. l \<noteq> RunQ i \<Longrightarrow> sd_list s1 l = sd_list s l"
      using e(1,2) by (simp, simp) (subst e(3), simp)
    have sets: "set (sd_list s l) = set (sd_list s1 l) \<union> (if l = RunQ i then {nxt} else {})" for l
      using i by (cases "l = RunQ i") auto
    then show ?thesis using i(2) ex_upd_set [where A = "\<lambda>l. set (sd_list s l)" and B = "\<lambda>l. set (sd_list s1 l)", OF sets] by blast
  qed (use q sched_invD(10) [OF inv] in \<open>auto simp: unlisted_def\<close>)
  let ?c = "sd_cur s"
  have cur: "CUR_TCB s = Some ?c" "task_ok s ?c" using sched_invD(9) [OF inv] by (simp_all add: CUR_TCB_ok)
  show ?thesis
  proof (cases "?c = sd_idle s")
    case idle: True
    let ?s = "s1\<lparr>sd_cur := nxt\<rparr>"
    have "switch_task s = Some ?s"
      using c cur idle tcb_entry_ok [OF c(4)] by (auto simp: switch_task_def)
    moreover have "sched_inv ?s" using c(2,4) by (rule sched_inv_cur)
    ultimately show ?thesis using c mem nxt idle by (auto simp: unlisted_def)
  next
    case False
    have st1: "ts_state (sd_task s1 ?c) = TASK_RUNNING \<Longrightarrow> unlisted s1 ?c" using st c(6) mem by (auto simp: unlisted_def)
    have ok1: "task_ok s1 ?c" using cur(2) c(6) by (simp add: task_ok_def)
    obtain s2 where s2: "leave_task ?c s1 = Some s2" "sched_inv s2" "sd_cur s2 = ?c" "sd_idle s2 = sd_idle s"
      "\<And>q. q \<noteq> ?c \<Longrightarrow> sd_task s2 q = sd_task s1 q"
      "\<And>q. (\<exists>l. q \<in> set (sd_list s2 l)) \<longleftrightarrow> (\<exists>l. q \<in> set (sd_list s1 l)) \<or> q = ?c \<and> ts_state (sd_task s1 ?c) = TASK_RUNNING"
      using leave_task_ok [OF c(2) ok1 _ st1] False c(7,8) by auto
    have ne: "nxt \<noteq> ?c"
    proof
      assume e: "nxt = ?c"
      then have "unlisted s ?c" using st c(5,6) by simp
      then show False using mem [of nxt] e False by (auto simp: unlisted_def)
    qed
    have n2: "sd_task s2 nxt = sd_task s1 nxt" "unlisted s2 nxt" using s2(5,6) ne c(3) by (auto simp: unlisted_def)
    then have "task_ok s2 nxt" using c(4) by (simp add: task_ok_def)
    moreover have "switch_task s = Some (s2\<lparr>sd_cur := nxt\<rparr>)"
      using c(1,5,8) cur(1) False s2(1) n2 tcb_entry_ok [OF \<open>task_ok s2 nxt\<close>] by (simp add: switch_task_def)
    ultimately show ?thesis
      using sched_inv_cur [OF s2(2)] c(5,6) n2 nxt s2(4,6) mem by (auto simp: unlisted_def)
  qed
qed

text \<open>The state in which \<^verbatim>\<open>schedule\<close> chooses: priorities are reset when the interval is over.\<close>

definition refreshed :: "sched \<Rightarrow> sched" where
  "refreshed s = (if sd_tick s \<ge> sd_update s
     then s\<lparr>sd_list := merged s, sd_task := raised s, sd_lock := 0, sd_update := sd_tick s + 2000\<rparr> else s)"

lemma sched_inv_update: "sched_inv (s\<lparr>sd_update := x\<rparr>) = sched_inv s"
  by (simp add: sched_inv_def task_ok_def listed_ok_def)

lemma refreshed_ok:
  assumes inv: "sched_inv s"
  shows "schedule s = switch_task (refreshed s)" "sched_inv (refreshed s)" "sd_cur (refreshed s) = sd_cur s"
    "sd_idle (refreshed s) = sd_idle s" "ts_state (sd_task (refreshed s) t) = ts_state (sd_task s t)"
    "(\<exists>l. t \<in> set (sd_list (refreshed s) l)) \<longleftrightarrow> (\<exists>l. t \<in> set (sd_list s l))"
  using reset_priority_eq [OF inv] reset_priority_inv(1,2) [OF inv] merged_sets(3) [OF inv] inv
    sched_inv_update [where s = "s\<lparr>sd_list := merged s, sd_task := raised s, sd_lock := 0\<rparr>"]
  by (simp_all add: schedule_def refreshed_def RESET_PRIORITY_INTERVAL_def)

definition running :: "sched \<Rightarrow> bool" where
  "running s \<longleftrightarrow> sched_inv s \<and> unlisted s (sd_cur s) \<and> ts_state (sd_task s (sd_cur s)) = TASK_RUNNING"

lemma schedule_ok:
  assumes inv: "sched_inv s" and st: "ts_state (sd_task s (sd_cur s)) = TASK_RUNNING \<Longrightarrow> unlisted s (sd_cur s)"
  shows "\<exists>s'. schedule s = Some s' \<and> running s' \<and> sd_cur s' = chosen (refreshed s) \<and> sd_idle s' = sd_idle s \<and>
    (\<forall>t. t \<noteq> sd_idle s \<longrightarrow> ((\<exists>l. t \<in> set (sd_list s' l)) \<or> t = sd_cur s') \<longleftrightarrow>
      ((\<exists>l. t \<in> set (sd_list s l)) \<or> t = sd_cur s \<and> ts_state (sd_task s t) = TASK_RUNNING))"
proof -
  note r = refreshed_ok [OF inv]
  have "ts_state (sd_task (refreshed s) (sd_cur (refreshed s))) = TASK_RUNNING \<Longrightarrow> unlisted (refreshed s) (sd_cur (refreshed s))"
    using st r(3,5,6) by (auto simp: unlisted_def)
  from switch_task_ok [OF r(2) this] show ?thesis unfolding running_def r(1,3-6) by blast
qed

text \<open>The other lists are not touched by \<^verbatim>\<open>schedule\<close>.\<close>

lemma splice_loop_frame: "(\<And>i. l \<noteq> RunQ i) \<Longrightarrow> sd_list (splice_loop is s) l = sd_list s l"
  by (induction "is" s rule: splice_loop.induct) simp_all

lemma raise_loop_frame: "raise_loop ts s = Some s' \<Longrightarrow> sd_list s' = sd_list s"
  by (induction ts s rule: raise_loop.induct) (auto simp: tcb_entry_def returned split: if_splits)

lemma reset_priority_frame:
  assumes "reset_priority s = Some s'" "\<And>i. l \<noteq> RunQ i"
  shows "sd_list s' l = sd_list s l"
  using assms splice_loop_frame [of l] by (auto simp: reset_priority_def Let_def returned dest!: raise_loop_frame)

lemma chose_next_task_frame:
  assumes "chose_next_task s = Some (t, s')" "\<And>i. l \<noteq> RunQ i"
  shows "sd_list s' l = sd_list s l"
  using assms by (auto simp: chose_next_task_def choose_loop_find Let_def returned split: option.splits)

lemma leave_task_frame:
  assumes "leave_task cur s = Some s'" "\<And>i. l \<noteq> RunQ i"
  shows "sd_list s' l = sd_list s l"
  using assms by (auto simp: leave_task_def sched_task_add_def tcb_entry_def Let_def returned split: if_splits)

lemma schedule_frame:
  assumes "schedule s = Some s'" "\<And>i. l \<noteq> RunQ i"
  shows "sd_list s' l = sd_list s l"
proof -
  obtain s1 where s1: "switch_task s1 = Some s'" "sd_list s1 l = sd_list s l"
    using assms reset_priority_frame [OF _ assms(2)] by (auto simp: schedule_def returned split: if_splits)
  obtain cur nxt s2 where s2: "CUR_TCB s1 = Some cur" "chose_next_task s1 = Some (nxt, s2)"
    using s1(1) by (auto simp: switch_task_def returned)
  then show ?thesis
    using s1 chose_next_task_frame [OF s2(2) assms(2)] leave_task_frame [OF _ assms(2)]
    by (auto simp: switch_task_def returned split: if_splits)
qed

text \<open>The tasks of the run queues.\<close>

definition ready :: "sched \<Rightarrow> ptr_t set" where
  "ready s = {t. \<exists>i. t \<in> set (runq s i)}"

lemma finite_ready:
  assumes "sched_inv s"
  shows "finite (ready s)"
proof -
  have "ready s \<subseteq> (\<Union>i\<le>TASK_MAX_PRIORITY. set (runq s i))"
    using sched_invD(5,6) [OF assms] by (fastforce simp: ready_def task_ok_def listed_ok_def)
  then show ?thesis by (rule finite_subset) simp
qed

lemma idle_not_ready: "sched_inv s \<Longrightarrow> sd_idle s \<notin> ready s"
  using sched_invD(10) by (auto simp: ready_def unlisted_def)

lemma ready_refreshed:
  assumes inv: "sched_inv s"
  shows "ready (refreshed s) = ready s"
proof -
  note r = refreshed_ok [OF inv]
  have l: "sd_list (refreshed s) l = sd_list s l" if "\<And>i. l \<noteq> RunQ i" for l
    using that by (cases l) (simp_all add: refreshed_def merged_def)
  have "t \<in> ready (refreshed s) \<longleftrightarrow> t \<in> ready s" for t
  proof
    assume t: "t \<in> ready (refreshed s)"
    then obtain i where i: "t \<in> set (runq (refreshed s) i)" by (auto simp: ready_def)
    then obtain j where j: "t \<in> set (sd_list s j)" using r(6) by blast
    have "\<exists>k. j = RunQ k" using sched_invD(4) [OF r(2) i, of j] j l [of j] by metis
    then show "t \<in> ready s" using j by (auto simp: ready_def)
  next
    assume t: "t \<in> ready s"
    then obtain i where i: "t \<in> set (runq s i)" by (auto simp: ready_def)
    then obtain j where j: "t \<in> set (sd_list (refreshed s) j)" using r(6) by blast
    have "\<exists>k. j = RunQ k" using sched_invD(4) [OF inv i, of j] j l [of j] by metis
    then show "t \<in> ready (refreshed s)" using j by (auto simp: ready_def)
  qed
  then show ?thesis by blast
qed

lemma chosen_idle:
  assumes inv: "sched_inv s"
  shows "chosen s = sd_idle s \<longleftrightarrow> ready s = {}" "ready s \<noteq> {} \<Longrightarrow> chosen s \<in> ready s"
proof -
  have none: "top_queue s = None \<longleftrightarrow> ready s = {}"
  proof -
    have "top_queue s = None \<longleftrightarrow> (\<forall>i\<le>TASK_MAX_PRIORITY. runq s i = [])"
      by (auto simp: top_queue_def find_None_iff less_Suc_eq_le simp del: upt_Suc)
    moreover have "runq s i = []" if "\<not> i \<le> TASK_MAX_PRIORITY" for i
      using sched_invD(5,6) [OF inv, of _ "RunQ i"] that
      by (cases "runq s i") (fastforce simp: task_ok_def listed_ok_def)+
    moreover have "ready s = (\<Union>i. set (runq s i))" by (auto simp: ready_def)
    then have "ready s = {} \<longleftrightarrow> (\<forall>i. runq s i = [])" by simp
    ultimately show ?thesis by blast
  qed
  show in_ready: "chosen s \<in> ready s" if ne: "ready s \<noteq> {}"
  proof -
    obtain i where i: "top_queue s = Some i" using none ne by auto
    then have "runq s i \<noteq> []" by (auto simp: top_queue_def find_Some_iff simp del: upt_Suc Nat.add_Suc_right add_Suc_right One_nat_def)
    then have "hd (runq s i) \<in> set (runq s i)" by (rule hd_in_set)
    then show ?thesis using i by (auto simp: chosen_def ready_def)
  qed
  show "chosen s = sd_idle s \<longleftrightarrow> ready s = {}"
  proof (cases "ready s = {}")
    case True
    then show ?thesis using none by (simp add: chosen_def)
  next
    case False
    then show ?thesis using in_ready idle_not_ready [OF inv] by metis
  qed
qed

lemma schedule_ready:
  assumes inv: "sched_inv s" and st: "ts_state (sd_task s (sd_cur s)) = TASK_RUNNING \<Longrightarrow> unlisted s (sd_cur s)"
    and run: "schedule s = Some s'"
  shows "t \<noteq> sd_idle s \<Longrightarrow> t \<in> ready s' \<or> t = sd_cur s' \<longleftrightarrow> t \<in> ready s \<or> t = sd_cur s \<and> ts_state (sd_task s t) = TASK_RUNNING"
proof -
  assume t: "t \<noteq> sd_idle s"
  have s': "running s'" and eq: "(\<exists>l. t \<in> set (sd_list s' l)) \<or> t = sd_cur s' \<longleftrightarrow>
      (\<exists>l. t \<in> set (sd_list s l)) \<or> t = sd_cur s \<and> ts_state (sd_task s t) = TASK_RUNNING"
    using schedule_ok [OF inv st] run t by auto
  have inv': "sched_inv s'" and un': "unlisted s' (sd_cur s')" using s' by (simp_all add: running_def)
  show ?thesis
  proof
    assume l: "t \<in> ready s' \<or> t = sd_cur s'"
    show "t \<in> ready s \<or> t = sd_cur s \<and> ts_state (sd_task s t) = TASK_RUNNING"
    proof (rule ccontr)
      assume c: "\<not> ?thesis"
      then obtain j where j: "t \<in> set (sd_list s j)" "\<And>i. j \<noteq> RunQ i" using eq l by (auto simp: ready_def)
      then have "t \<in> set (sd_list s' j)" using schedule_frame [OF run] by simp
      then show False using l j(2) un' sched_invD(4) [OF inv'] by (fastforce simp: ready_def unlisted_def)
    qed
  next
    assume r: "t \<in> ready s \<or> t = sd_cur s \<and> ts_state (sd_task s t) = TASK_RUNNING"
    show "t \<in> ready s' \<or> t = sd_cur s'"
    proof (rule ccontr)
      assume c: "\<not> ?thesis"
      then obtain j where j: "t \<in> set (sd_list s' j)" "\<And>i. j \<noteq> RunQ i" using eq r by (auto simp: ready_def)
      then have "t \<in> set (sd_list s j)" using schedule_frame [OF run] by simp
      then show False using r j(2) st sched_invD(4) [OF inv] by (fastforce simp: ready_def unlisted_def)
    qed
  qed
qed

section \<open>Sleeping and waking\<close>

lemma sleep_on_ok:
  assumes run: "running s" and idle: "sd_cur s \<noteq> sd_idle s" and l: "list_state l = TASK_SLEEPING"
  shows "\<exists>s'. sleep_on l s = Some s' \<and> running s' \<and> sd_cur s' \<noteq> sd_cur s \<and> sd_idle s' = sd_idle s \<and>
    sd_list s' l = sd_cur s # sd_list s l \<and> (\<forall>j. j \<noteq> l \<longrightarrow> (\<forall>i. j \<noteq> RunQ i) \<longrightarrow> sd_list s' j = sd_list s j) \<and>
    (if ready s = {} then sd_cur s' = sd_idle s \<and> ready s' = {} else sd_cur s' \<in> ready s \<and> ready s' = ready s - {sd_cur s'})"
proof -
  let ?c = "sd_cur s"
  have inv: "sched_inv s" and un: "unlisted s ?c" using run by (auto simp: running_def)
  let ?k = "(sd_task s ?c)\<lparr>ts_state := TASK_SLEEPING\<rparr>"
  let ?s = "s\<lparr>sd_list := (sd_list s)(l := ?c # sd_list s l), sd_list_lock := 0, sd_task := (sd_task s)(?c := ?k)\<rparr>"
  have nq: "l \<noteq> RunQ i" "RunQ i \<noteq> l" for i using l by auto
  have call: "sleep_on l s = schedule ?s"
    using sched_invD(2,9) [OF inv] by (simp add: sleep_on_def CUR_TCB_ok Let_def)
  have sinv: "sched_inv ?s"
  proof (rule sched_inv_change [OF inv, where t = ?c and home = l])
    show "distinct (sd_list ?s j)" for j using sched_invD(3) [OF inv] un by (simp add: unlisted_def)
    show "j = l \<and> listed_ok ?s l ?c" if "?c \<in> set (sd_list ?s j)" for j
      using that un l idle nq by (auto simp: unlisted_def listed_ok_def split: if_splits)
    show "task_ok ?s ?c" using sched_invD(9) [OF inv] by (simp add: task_ok_def)
  qed (use idle sched_invD(1) [OF inv] in auto)
  then obtain s' where s': "schedule ?s = Some s'" "running s'" "sd_cur s' = chosen (refreshed ?s)" "sd_idle s' = sd_idle s"
    using schedule_ok [OF sinv] by auto
  note rinv = refreshed_ok(2) [OF sinv]
  have rd: "ready (refreshed ?s) = ready s" using ready_refreshed [OF sinv] nq by (simp add: ready_def)
  have cur: "sd_cur s' = sd_idle s \<longleftrightarrow> ready s = {}" "ready s \<noteq> {} \<Longrightarrow> sd_cur s' \<in> ready s"
    using chosen_idle [OF rinv] rd s'(3) refreshed_ok(4) [OF sinv] by simp_all
  have mem: "t \<in> ready s' \<or> t = sd_cur s' \<longleftrightarrow> t \<in> ready s" if "t \<noteq> sd_idle s" for t
    using schedule_ready [OF sinv _ s'(1), of t] that nq by (auto simp: ready_def)
  have out: "sd_cur s' \<notin> ready s'" "sd_idle s \<notin> ready s" "sd_idle s \<notin> ready s'" "?c \<notin> ready s"
    using s'(2,4) un idle_not_ready [OF inv] idle_not_ready [of s'] by (auto simp: running_def ready_def unlisted_def)
  have "if ready s = {} then sd_cur s' = sd_idle s \<and> ready s' = {} else sd_cur s' \<in> ready s \<and> ready s' = ready s - {sd_cur s'}"
    using cur mem out by (cases "ready s = {}") (auto, metis+)
  moreover have "sd_cur s' \<noteq> ?c" using cur out(4) idle by metis
  moreover have "sd_list s' l = ?c # sd_list s l" "\<forall>j. j \<noteq> l \<longrightarrow> (\<forall>i. j \<noteq> RunQ i) \<longrightarrow> sd_list s' j = sd_list s j"
    using schedule_frame [OF s'(1)] nq by simp_all
  ultimately show ?thesis using call s' by auto
qed

lemma task_wakeup_ok:
  assumes inv: "sched_inv s" and t: "t \<in> set (sd_list s l)" "list_state l \<noteq> TASK_RUNNING"
  shows "\<exists>s'. task_wakeup t s = Some s' \<and> sched_inv s' \<and>
    sd_list s' = (\<lambda>j. remove1 t (sd_list s j))(RunQ (unat (ts_priority (sd_task s t))) := runq s (unat (ts_priority (sd_task s t))) @ [t]) \<and>
    ts_state (sd_task s' t) = TASK_RUNNING \<and> (\<forall>q. q \<noteq> t \<longrightarrow> sd_task s' q = sd_task s q) \<and> sd_cur s' = sd_cur s \<and> sd_idle s' = sd_idle s"
proof -
  have ok: "task_ok s t" and lo: "listed_ok s l t" using sched_invD(5,6) [OF inv t(1)] by auto
  let ?k = "(sd_task s t)\<lparr>ts_state := TASK_RUNNING, ts_lock := 0\<rparr>"
  let ?q = "RunQ (unat (ts_priority (sd_task s t)))"
  let ?s = "s\<lparr>sd_list := (\<lambda>j. remove1 t (sd_list s j)), sd_task := (sd_task s)(t := ?k)\<rparr>"
  have st: "ts_state (sd_task s t) \<noteq> TASK_RUNNING" "t \<noteq> sd_idle s" using lo t(2) by (auto simp: listed_ok_def)
  have nt: "t \<notin> set (sd_list s ?q)" using sched_invD(6) [OF inv, of t ?q] st(1) by (auto simp: listed_ok_def)
  have call: "task_wakeup t s = sched_task_add t ?s"
    using tcb_entry_ok [OF ok] st(1) ok by (simp add: task_wakeup_def task_ok_def Let_def)
  have un: "unlisted ?s t" using sched_invD(3) [OF inv] by (simp add: unlisted_def)
  have inv': "sched_inv ?s"
  proof (rule sched_inv_change [OF inv, where t = t and home = l])
    show "distinct (sd_list ?s j)" for j using sched_invD(3) [OF inv] by (simp add: distinct_remove1)
    show "task_ok ?s t" using ok by (simp add: task_ok_def)
    show "j = l \<and> listed_ok ?s l t" if "t \<in> set (sd_list ?s j)" for j using that un by (simp add: unlisted_def)
  qed (use st(2) sched_invD(1,2) [OF inv] in \<open>auto simp: in_set_remove1\<close>)
  have ok': "task_ok ?s t" using ok by (simp add: task_ok_def)
  have "ts_state (sd_task ?s t) = TASK_RUNNING" "t \<noteq> sd_idle ?s" using st(2) by simp_all
  from sched_task_add_ok [OF inv' ok' un this] obtain s' where "sched_task_add t ?s = Some s'" "sched_inv s'"
    "s' = ?s\<lparr>sd_list := (sd_list ?s)(?q := sd_list ?s ?q @ [t]), sd_lock := 0\<rparr>" by auto
  then show ?thesis using call nt by (auto simp: remove1_idem)
qed

lemma task_wakeup_running:
  assumes run: "running s" and t: "t \<in> set (sd_list s l)" "list_state l = TASK_SLEEPING"
  shows "\<exists>s'. task_wakeup t s = Some s' \<and> running s' \<and>
    sd_list s' = (\<lambda>j. remove1 t (sd_list s j))(RunQ (unat (ts_priority (sd_task s t))) := runq s (unat (ts_priority (sd_task s t))) @ [t]) \<and>
    ts_state (sd_task s' t) = TASK_RUNNING \<and> (\<forall>q. q \<noteq> t \<longrightarrow> sd_task s' q = sd_task s q) \<and> sd_cur s' = sd_cur s \<and> sd_idle s' = sd_idle s"
proof -
  have r: "sched_inv s" "unlisted s (sd_cur s)" "ts_state (sd_task s (sd_cur s)) = TASK_RUNNING" using run by (auto simp: running_def)
  then have ne: "sd_cur s \<noteq> t" using t(1) by (auto simp: unlisted_def)
  obtain s' where s': "task_wakeup t s = Some s'" "sched_inv s'" "ts_state (sd_task s' t) = TASK_RUNNING"
    "sd_list s' = (\<lambda>j. remove1 t (sd_list s j))(RunQ (unat (ts_priority (sd_task s t))) := runq s (unat (ts_priority (sd_task s t))) @ [t])"
    "\<forall>q. q \<noteq> t \<longrightarrow> sd_task s' q = sd_task s q" "sd_cur s' = sd_cur s" "sd_idle s' = sd_idle s"
    using task_wakeup_ok [OF r(1) t(1)] t(2) by auto
  have "unlisted s' (sd_cur s')" using r(2) ne s'(4,6) by (auto simp: unlisted_def)
  moreover have "sd_task s' (sd_cur s') = sd_task s (sd_cur s)" using s'(5,6) ne by metis
  ultimately have "running s'" using s'(2) r(3) by (simp add: running_def)
  then show ?thesis using s' by blast
qed

section \<open>Until a task runs again\<close>

text \<open>
  While a task is off the processor the others run. What they do is not the business of this theory,
  but what they can do to the scheduler is: the running task gives the processor up, because it
  yields or its time slice is over; it blocks (the idle task never does); or an interrupt wakes a
  blocked task. \<open>run_for k ev\<close> lets the first \<open>k\<close> events of the trace \<open>ev\<close> happen, \<open>run_others ev n t\<close> the
  events from \<open>ev n\<close> on until the task \<open>t\<close> runs; a trace in which it never does has no result.
\<close>

datatype sched_event = Yield | Block | Wake ptr_t

fun other_step :: "sched_event \<Rightarrow> sched \<Rightarrow> sched option" where
  "other_step Yield s = schedule s"
| "other_step Block s = (if sd_cur s = sd_idle s then schedule s else do { (r, lk, s) \<leftarrow> task_sleep BlockList None s; Some s })"
| "other_step (Wake t) s = (if t \<in> set (sd_list s BlockList) then task_wakeup t s else Some s)"

fun run_for :: "nat \<Rightarrow> (nat \<Rightarrow> sched_event) \<Rightarrow> sched \<Rightarrow> sched option" where
  "run_for 0 ev s = Some s"
| "run_for (Suc k) ev s = do { s \<leftarrow> run_for k ev s; other_step (ev k) s }"

partial_function (option) run_others :: "(nat \<Rightarrow> sched_event) \<Rightarrow> nat \<Rightarrow> ptr_t \<Rightarrow> sched \<Rightarrow> sched option" where
  "run_others ev n t s = (if sd_cur s = t then Some s else do { s \<leftarrow> other_step (ev n) s; run_others ev (Suc n) t s })"

text \<open>A trace is fair when from every point on every ready task runs at some time.\<close>

definition fair :: "(nat \<Rightarrow> sched_event) \<Rightarrow> bool" where
  "fair ev \<longleftrightarrow> (\<forall>n s t. running s \<longrightarrow> t \<in> ready s \<longrightarrow> (\<exists>s'. run_others ev n t s = Some s'))"

lemma other_step_ok:
  assumes run: "running s"
  shows "\<exists>s'. other_step e s = Some s' \<and> running s' \<and> sd_idle s' = sd_idle s \<and>
    (\<forall>a. sd_list s' (SleepList a) = sd_list s (SleepList a)) \<and>
    (\<forall>t. t \<in> set (sd_list s BlockList) \<longrightarrow> e \<noteq> Wake t \<longrightarrow> t \<in> set (sd_list s' BlockList))"
proof -
  have inv: "sched_inv s" and un: "unlisted s (sd_cur s)" using run by (auto simp: running_def)
  have sch: "\<exists>s'. schedule s = Some s' \<and> running s' \<and> sd_idle s' = sd_idle s \<and>
      (\<forall>a. sd_list s' (SleepList a) = sd_list s (SleepList a)) \<and> sd_list s' BlockList = sd_list s BlockList"
    using schedule_ok [OF inv] un schedule_frame by fastforce
  show ?thesis
  proof (cases e)
    case Block
    show ?thesis
    proof (cases "sd_cur s = sd_idle s")
      case False
      then show ?thesis using Block sleep_on_ok [OF run False, of BlockList] by (auto simp: task_sleep_def)
    qed (use sch Block in auto)
  next
    case (Wake t)
    show ?thesis
    proof (cases "t \<in> set (sd_list s BlockList)")
      case True
      have "t \<notin> set (sd_list s (SleepList a))" for a using sched_invD(4) [OF inv True] by blast
      then show ?thesis using Wake True task_wakeup_running [OF run True] by (auto simp: remove1_idem)
    qed (use run Wake in auto)
  qed (use sch in auto)
qed

lemma run_others_ok:
  assumes "run_others ev n t s = Some s'" "running s"
  shows "running s' \<and> sd_cur s' = t \<and> sd_idle s' = sd_idle s \<and> (\<forall>a. sd_list s' (SleepList a) = sd_list s (SleepList a))"
  using assms
proof (induction rule: run_others.raw_induct [rotated 1, consumes 1])
  case (1 run_others' ev n t s s')
  show ?case
  proof (cases "sd_cur s = t")
    case False
    obtain s1 where s1: "other_step (ev n) s = Some s1" "running s1" "sd_idle s1 = sd_idle s"
      "\<forall>a. sd_list s1 (SleepList a) = sd_list s (SleepList a)"
      using other_step_ok [OF 1(3)] by blast
    then show ?thesis using 1(1) [of ev "Suc n" t s1 s'] 1(2) False by simp
  qed (use 1 in auto)
qed

text \<open>Fair traces exist: when every task that gets the processor blocks, each of the others has its turn.\<close>

lemma block_step:
  assumes run: "running s" and ne: "ready s \<noteq> {}"
  shows "\<exists>s'. other_step Block s = Some s' \<and> running s' \<and> sd_cur s' \<in> ready s \<and> ready s' = ready s - {sd_cur s'}"
proof (cases "sd_cur s = sd_idle s")
  case True
  have inv: "sched_inv s" and un: "unlisted s (sd_cur s)" using run by (auto simp: running_def)
  obtain s' where s': "schedule s = Some s'" "running s'" "sd_cur s' = chosen (refreshed s)" "sd_idle s' = sd_idle s"
    using schedule_ok [OF inv] un by blast
  have cur: "sd_cur s' \<in> ready s" using s'(3) chosen_idle(2) [OF refreshed_ok(2) [OF inv]] ready_refreshed [OF inv] ne by simp
  have "t \<in> ready s' \<or> t = sd_cur s' \<longleftrightarrow> t \<in> ready s" if "t \<noteq> sd_idle s" for t
    using schedule_ready [OF inv _ s'(1) that] un True that by auto
  moreover have "sd_cur s' \<notin> ready s'" "sd_idle s \<notin> ready s" "sd_idle s \<notin> ready s'"
    using s'(2,4) idle_not_ready [OF inv] idle_not_ready [of s'] by (auto simp: running_def ready_def unlisted_def)
  ultimately have "ready s' = ready s - {sd_cur s'}" using cur by (intro set_eqI) (metis Diff_iff insertE insertI1 empty_iff)
  then show ?thesis using s' cur True by auto
next
  case False
  then show ?thesis using sleep_on_ok [OF run False, of BlockList] ne by (auto simp: task_sleep_def)
qed

lemma run_others_block:
  "running s \<Longrightarrow> t \<in> ready s \<Longrightarrow> \<exists>s'. run_others (\<lambda>_. Block) n t s = Some s'"
proof (induction "card (ready s)" arbitrary: s n rule: less_induct)
  case less
  have ne: "ready s \<noteq> {}" and fin: "finite (ready s)" using less.prems finite_ready by (auto simp: running_def)
  obtain s1 where s1: "other_step Block s = Some s1" "running s1" "sd_cur s1 \<in> ready s" "ready s1 = ready s - {sd_cur s1}"
    using block_step [OF less.prems(1) ne] by blast
  have step: "run_others (\<lambda>_. Block) n t s = run_others (\<lambda>_. Block) (Suc n) t s1" if "sd_cur s \<noteq> t"
    using s1(1) that by (subst run_others.simps) simp
  have "\<exists>s'. run_others (\<lambda>_. Block) (Suc n) t s1 = Some s'"
  proof (cases "sd_cur s1 = t")
    case True
    then show ?thesis by (subst run_others.simps) simp
  next
    case False
    have "card (ready s1) < card (ready s)" unfolding s1(4) using fin s1(3) by (rule card_Diff1_less)
    then show ?thesis using less.hyps [OF _ s1(2)] False less.prems(2) s1(4) by simp
  qed
  moreover have "sd_cur s \<noteq> t" using less.prems by (auto simp: running_def unlisted_def ready_def)
  ultimately show ?case using step by simp
qed

lemma fair_block: "fair (\<lambda>_. Block)"
  using run_others_block by (simp add: fair_def)

lemma run_for_ok:
  assumes run: "running s" and t: "t \<in> set (sd_list s BlockList)" "\<forall>n<k. ev n \<noteq> Wake t"
  shows "\<exists>s'. run_for k ev s = Some s' \<and> running s' \<and> sd_idle s' = sd_idle s \<and>
    (\<forall>a. sd_list s' (SleepList a) = sd_list s (SleepList a)) \<and> t \<in> set (sd_list s' BlockList)"
  using t(2)
proof (induction k)
  case (Suc k)
  then obtain s1 where s1: "run_for k ev s = Some s1" "running s1" "sd_idle s1 = sd_idle s"
    "\<forall>a. sd_list s1 (SleepList a) = sd_list s (SleepList a)" "t \<in> set (sd_list s1 BlockList)"
    by auto
  then show ?case using other_step_ok [OF s1(2), of "ev k"] Suc.prems by fastforce
qed (use run t in simp)

text \<open>
  A task that blocks and is woken by an interrupt, \<open>k\<close> events later, runs again, and nothing has
  changed for the tasks that wait for a mutex.
\<close>

lemma sleep_until_woken:
  assumes run: "running s" "sd_cur s \<noteq> sd_idle s" and ev: "fair ev" "\<forall>n<k. ev n \<noteq> Wake (sd_cur s)"
  shows "\<exists>s1 s2 s3 s4. task_sleep BlockList None s = Some (0, None, s1) \<and> run_for k ev s1 = Some s2 \<and>
    task_wakeup (sd_cur s) s2 = Some s3 \<and> run_others ev k (sd_cur s) s3 = Some s4 \<and> running s4 \<and> sd_cur s4 = sd_cur s \<and>
    sd_idle s4 = sd_idle s \<and> (\<forall>a. sd_list s4 (SleepList a) = sd_list s (SleepList a))"
proof -
  let ?t = "sd_cur s"
  obtain s1 where s1: "sleep_on BlockList s = Some s1" "running s1" "sd_idle s1 = sd_idle s"
    "sd_list s1 BlockList = ?t # sd_list s BlockList" "\<forall>a. sd_list s1 (SleepList a) = sd_list s (SleepList a)"
    using sleep_on_ok [OF run, of BlockList] by auto
  have t1: "?t \<in> set (sd_list s1 BlockList)" by (simp add: s1(4))
  obtain s2 where s2: "run_for k ev s1 = Some s2" "running s2" "sd_idle s2 = sd_idle s"
    "\<forall>a. sd_list s2 (SleepList a) = sd_list s (SleepList a)" "?t \<in> set (sd_list s2 BlockList)"
    using run_for_ok [OF s1(2) t1 ev(2)] s1(3,5) by auto
  obtain s3 q where s3: "task_wakeup ?t s2 = Some s3" "running s3" "sd_idle s3 = sd_idle s"
    "sd_list s3 = (\<lambda>j. remove1 ?t (sd_list s2 j))(RunQ q := runq s2 q @ [?t])"
    using task_wakeup_running [OF s2(2,5)] s2(3) by auto
  have "?t \<notin> set (sd_list s2 (SleepList a))" for a using sched_invD(4) [OF _ s2(5)] s2(2) by (auto simp: running_def)
  then have sl: "sd_list s3 (SleepList a) = sd_list s (SleepList a)" for a using s2(4) by (simp add: s3(4) remove1_idem)
  have "?t \<in> ready s3" unfolding ready_def s3(4) by auto
  then obtain s4 where "run_others ev k ?t s3 = Some s4" using ev(1) s3(2) unfolding fair_def by blast
  then show ?thesis using s1(1) s2(1) s3(1,3) run_others_ok [OF _ s3(2)] sl by (auto simp: task_sleep_def)
qed

section \<open>The pool of timers\<close>

text \<open>Every timer is either free or armed.\<close>

definition pool_ok :: "timer_pool \<Rightarrow> bool" where
  "pool_ok p \<longleftrightarrow> tp_size p = TIMER_COUNT \<and> tp_top p \<le> TIMER_COUNT \<and>
     distinct (map (tp_free p) [0..<tp_top p] @ tp_header p) \<and>
     set (map (tp_free p) [0..<tp_top p] @ tp_header p) = {..<TIMER_COUNT}"

lemma pool_ok_init: "pool_ok (thread_timer_init p)"
proof -
  have "map (\<lambda>i. if i < TIMER_COUNT then i else tp_free p i) [0..<TIMER_COUNT] = [0..<TIMER_COUNT]"
    by (rule map_idI) simp
  then show ?thesis by (auto simp: pool_ok_def thread_timer_init_def)
qed

lemma alloc_timer_ok:
  assumes "pool_ok p"
  shows "case alloc_timer p of (None, p') \<Rightarrow> p' = p \<and> set (tp_header p) = {..<TIMER_COUNT}
    | (Some t, p') \<Rightarrow> t \<notin> set (tp_header p) \<and> pool_ok (p'\<lparr>tp_header := tp_header p' @ [t]\<rparr>)"
proof (cases "tp_top p")
  case 0
  then show ?thesis using assms by (simp add: alloc_timer_def pool_ok_def)
next
  case (Suc n)
  have m: "map (tp_free p) [0..<Suc n] = map (tp_free p) [0..<n] @ [tp_free p n]" by simp
  show ?thesis using assms Suc unfolding pool_ok_def alloc_timer_def by (simp only: m) auto
qed

lemma free_timer_ok:
  assumes "pool_ok p" "t \<in> set (tp_header p)"
  shows "pool_ok (free_timer t (p\<lparr>tp_header := remove1 t (tp_header p)\<rparr>))"
proof -
  let ?xs = "map (tp_free p) [0..<tp_top p]"
  have p: "distinct (?xs @ tp_header p)" "set (?xs @ tp_header p) = {..<TIMER_COUNT}" "tp_size p = TIMER_COUNT"
    using assms(1) by (auto simp: pool_ok_def)
  have "length (?xs @ tp_header p) = TIMER_COUNT" using p(1,2) by (metis card_lessThan distinct_card)
  then have lt: "tp_top p < TIMER_COUNT" using assms(2) by (cases "tp_header p") auto
  have upd: "map ((tp_free p)(tp_top p := t)) [0..<Suc (tp_top p)] = ?xs @ [t]" by simp
  have "distinct ((?xs @ [t]) @ remove1 t (tp_header p))" using p(1) assms(2) by (auto simp: distinct_remove1)
  moreover have "set ((?xs @ [t]) @ remove1 t (tp_header p)) = {..<TIMER_COUNT}" using p(1,2) assms(2) by auto
  moreover have "free_timer t (p\<lparr>tp_header := remove1 t (tp_header p)\<rparr>) =
      p\<lparr>tp_header := remove1 t (tp_header p), tp_free := (tp_free p)(tp_top p := t), tp_top := Suc (tp_top p)\<rparr>"
    using lt p(3) by (simp add: free_timer_def)
  ultimately show ?thesis using lt p(3) upd unfolding pool_ok_def by (simp del: upt_Suc map_append)
qed

section \<open>Properties\<close>

text \<open>A small system for the witnesses: task \<open>0x2000\<close> runs, \<open>0x3000\<close> is ready, \<open>0x4000\<close> sleeps.\<close>

lemma demo_sched:
  obtains s where "running s" "sd_idle s = 0x1000" "sd_cur s = 0x2000" "runq s 1 = [0x3000]" "top_queue s = Some 1"
    "sd_list s BlockList = [0x4000]" "sd_tick s < sd_update s" "ready s = {0x3000}"
    "\<And>a. sd_list s (SleepList a) = []"
proof -
  fix s0 :: sched and k0 :: task_struct
  define s where "s = s0\<lparr>sd_task := (\<lambda>t. k0\<lparr>ts_magic := TASK_MAGIC, ts_priority := 1, ts_lock := 0,
      ts_state := (if t = 0x4000 then TASK_SLEEPING else TASK_RUNNING)\<rparr>),
    sd_list := (\<lambda>_. [])(RunQ 1 := [0x3000], BlockList := [0x4000]), sd_lock := 0, sd_list_lock := 0,
    sd_cur := 0x2000, sd_idle := 0x1000, sd_tick := 0, sd_update := 1\<rparr>"
  have "sched_inv s" by (auto simp: sched_inv_def s_def task_ok_def listed_ok_def PAGE_MASK_eq mask_eq_exp_minus_1 TASK_MAX_PRIORITY_def split: if_splits)
  then have "running s" by (simp add: running_def unlisted_def s_def)
  moreover have "rev [0..<TASK_MAX_PRIORITY + 1] = [3, 2, 1, 0]" by (simp add: TASK_MAX_PRIORITY_def upt_rec)
  moreover have "ready s = {0x3000}" by (auto simp: ready_def s_def split: if_splits)
  ultimately show thesis by (intro that [of s]) (simp_all add: s_def top_queue_def del: upt_Suc)
qed

text \<open>
  C5. Scheduling. From every well-formed state in which a task runs, \<^verbatim>\<open>schedule\<close> returns; then the
  first task of the highest non-empty run queue runs (the idle task when all are empty), taken after
  the periodic reset; no task is lost, none is in two lists, and every queued task has the priority
  of its queue.
\<close>

theorem schedule_correct:
  assumes "running s"
  shows "\<exists>s'. schedule s = Some s' \<and> running s' \<and>
    sd_cur s' = (case top_queue (refreshed s) of None \<Rightarrow> sd_idle s | Some i \<Rightarrow> hd (runq (refreshed s) i)) \<and>
    (\<forall>t. t \<noteq> sd_idle s \<longrightarrow> (unlisted s' t \<and> t \<noteq> sd_cur s' \<longleftrightarrow> unlisted s t \<and> t \<noteq> sd_cur s))"
proof -
  have inv: "sched_inv s" and c: "unlisted s (sd_cur s)" "ts_state (sd_task s (sd_cur s)) = TASK_RUNNING"
    using assms by (auto simp: running_def)
  obtain s' where "schedule s = Some s'" "running s'" "sd_cur s' = chosen (refreshed s)"
    "\<And>t. t \<noteq> sd_idle s \<Longrightarrow> ((\<exists>l. t \<in> set (sd_list s' l)) \<or> t = sd_cur s') \<longleftrightarrow>
      ((\<exists>l. t \<in> set (sd_list s l)) \<or> t = sd_cur s \<and> ts_state (sd_task s t) = TASK_RUNNING)"
    using schedule_ok [OF inv] c(1) by blast
  then show ?thesis using c(2) refreshed_ok(4) [OF inv] unfolding chosen_def unlisted_def by metis
qed

theorem schedule_correct_witness:
  "\<exists>s s'. sd_cur s = 0x2000 \<and> schedule s = Some s' \<and> sd_cur s' = 0x3000 \<and> running s'"
proof (rule demo_sched)
  fix s assume s: "running s" "sd_cur s = 0x2000" "runq s 1 = [0x3000]" "top_queue s = Some 1" "sd_tick s < sd_update s"
  have "refreshed s = s" using s(5) by (simp add: refreshed_def)
  then show ?thesis using schedule_correct [OF s(1)] s(2-4) by auto
qed

text \<open>
  C19. Sleeping and waking. A running task that goes to sleep on a list becomes the first task of
  that very list; no other list of waiting tasks changes; it leaves the processor to another task,
  a ready one where there is one and else the idle task, and only that task leaves the run queues.
  Waking a sleeping task takes it out of its list, makes it ready and puts it at the end of the
  run queue of its priority; no other list and no other task changes.
\<close>

theorem sleep_wakeup_correct:
  assumes "running s" "sd_cur s \<noteq> sd_idle s" "list_state l = TASK_SLEEPING" "t \<in> set (sd_list s j)" "list_state j = TASK_SLEEPING"
  shows "(\<exists>s'. task_sleep l None s = Some (0, None, s') \<and> running s' \<and> sd_cur s' \<noteq> sd_cur s \<and>
      sd_list s' l = sd_cur s # sd_list s l \<and> ts_state (sd_task s' (sd_cur s)) = TASK_SLEEPING \<and>
      (\<forall>k. k \<noteq> l \<longrightarrow> (\<forall>i. k \<noteq> RunQ i) \<longrightarrow> sd_list s' k = sd_list s k) \<and>
      (if ready s = {} then sd_cur s' = sd_idle s \<and> ready s' = {} else sd_cur s' \<in> ready s \<and> ready s' = ready s - {sd_cur s'})) \<and>
    (\<exists>s'. task_wakeup t s = Some s' \<and> running s' \<and> sd_cur s' = sd_cur s \<and> ts_state (sd_task s' t) = TASK_RUNNING \<and>
      sd_list s' = (sd_list s)(j := remove1 t (sd_list s j),
        RunQ (unat (ts_priority (sd_task s t))) := runq s (unat (ts_priority (sd_task s t))) @ [t]) \<and>
      (\<forall>q. q \<noteq> t \<longrightarrow> sd_task s' q = sd_task s q))"
proof
  have inv: "sched_inv s" using assms(1) by (simp add: running_def)
  obtain s' where s': "sleep_on l s = Some s'" "running s'" "sd_cur s' \<noteq> sd_cur s" "sd_list s' l = sd_cur s # sd_list s l"
    "\<forall>k. k \<noteq> l \<longrightarrow> (\<forall>i. k \<noteq> RunQ i) \<longrightarrow> sd_list s' k = sd_list s k"
    "if ready s = {} then sd_cur s' = sd_idle s \<and> ready s' = {} else sd_cur s' \<in> ready s \<and> ready s' = ready s - {sd_cur s'}"
    using sleep_on_ok [OF assms(1-3)] by blast
  have "sched_inv s'" "sd_cur s \<in> set (sd_list s' l)" using s'(2,4) by (simp_all add: running_def)
  then have "ts_state (sd_task s' (sd_cur s)) = TASK_SLEEPING" using sched_invD(6) [of s'] assms(3) by (auto simp: listed_ok_def)
  then show "\<exists>s'. task_sleep l None s = Some (0, None, s') \<and> running s' \<and> sd_cur s' \<noteq> sd_cur s \<and>
      sd_list s' l = sd_cur s # sd_list s l \<and> ts_state (sd_task s' (sd_cur s)) = TASK_SLEEPING \<and>
      (\<forall>k. k \<noteq> l \<longrightarrow> (\<forall>i. k \<noteq> RunQ i) \<longrightarrow> sd_list s' k = sd_list s k) \<and>
      (if ready s = {} then sd_cur s' = sd_idle s \<and> ready s' = {} else sd_cur s' \<in> ready s \<and> ready s' = ready s - {sd_cur s'})"
    using s' by (intro exI [of _ s']) (simp add: task_sleep_def)
  have "remove1 t (sd_list s k) = ((sd_list s)(j := remove1 t (sd_list s j))) k" for k
    using sched_invD(4) [OF inv assms(4), of k] by (cases "k = j") (auto intro: remove1_idem)
  then have "(\<lambda>k. remove1 t (sd_list s k)) = (sd_list s)(j := remove1 t (sd_list s j))" by (rule ext)
  then show "\<exists>s'. task_wakeup t s = Some s' \<and> running s' \<and> sd_cur s' = sd_cur s \<and> ts_state (sd_task s' t) = TASK_RUNNING \<and>
      sd_list s' = (sd_list s)(j := remove1 t (sd_list s j),
        RunQ (unat (ts_priority (sd_task s t))) := runq s (unat (ts_priority (sd_task s t))) @ [t]) \<and>
      (\<forall>q. q \<noteq> t \<longrightarrow> sd_task s' q = sd_task s q)"
    using task_wakeup_running [OF assms(1,4,5)] by metis
qed

theorem sleep_wakeup_correct_witness:
  "\<exists>s s' s''. sd_list s BlockList = [0x4000] \<and> task_sleep BlockList None s = Some (0, None, s') \<and>
     sd_list s' BlockList = [0x2000, 0x4000] \<and> sd_cur s' = 0x3000 \<and>
     task_wakeup 0x4000 s = Some s'' \<and> running s'' \<and> sd_list s'' BlockList = [] \<and> ts_state (sd_task s'' 0x4000) = TASK_RUNNING"
proof (rule demo_sched)
  fix s assume s: "running s" "sd_idle s = 0x1000" "sd_cur s = 0x2000" "sd_list s BlockList = [0x4000]" "ready s = {0x3000}"
  have "sd_cur s \<noteq> sd_idle s" "0x4000 \<in> set (sd_list s BlockList)" using s by simp_all
  then show ?thesis using sleep_wakeup_correct [OF s(1), of BlockList "0x4000" BlockList] s by auto
qed

text \<open>
  Releasing a contended mutex. \<^verbatim>\<open>thread_mutex_unlock\<close> passes the list header instead of a sleeping
  task to \<^verbatim>\<open>task_wakeup\<close>: when a task waits and the header does not lie on a page boundary, the kernel panics.
\<close>

theorem mutex_unlock_panics:
  assumes "sd_list s (SleepList (mx_sleep m)) \<noteq> []" "mx_sleep m AND PAGE_MASK \<noteq> 0"
  shows "thread_mutex_unlock m s = None"
  using assms by (simp add: thread_mutex_unlock_def task_wakeup_def tcb_entry_def)

theorem mutex_unlock_panics_witness:
  "\<exists>m s. mx_locked m \<and> sd_list s (SleepList (mx_sleep m)) = [0x2000] \<and> thread_mutex_unlock m s = None"
proof -
  fix s0 :: sched
  let ?m = "\<lparr>mx_locked = True, mx_lock = 0, mx_sleep = 0xc0105018\<rparr>" and ?s = "s0\<lparr>sd_list := (\<lambda>_. [0x2000])\<rparr>"
  have "thread_mutex_unlock ?m ?s = None"
    by (rule mutex_unlock_panics) (simp_all add: PAGE_MASK_eq mask_eq_exp_minus_1)
  then show ?thesis by (intro exI [of _ ?m] exI [of _ ?s]) simp
qed

end
