(* ===== verification/Vga.thy ===== *)
theory Vga
  imports Quark_Prelude
begin

text \<open>
  The text-mode screen driver, \<^verbatim>\<open>drivers/vga.c\<close>. The video memory is the array of character cells
  behind \<^verbatim>\<open>terminal_buffer\<close>; port writes (\<^verbatim>\<open>outb\<close>) are recorded in order, because what the device
  shows as cursor is the only effect they have.
\<close>

section \<open>Definitions\<close>

definition NEWLINE :: u8 where "NEWLINE = 10"
definition VGA_WIDTH :: nat where "VGA_WIDTH = 80"
definition VGA_HEIGHT :: nat where "VGA_HEIGHT = 25"
definition VGA_INDEX :: u16 where "VGA_INDEX = 0x3d4"
definition VGA_DAT :: u16 where "VGA_DAT = 0x3d5"
definition CI_H :: u8 where "CI_H = 0x0e"
definition CI_L :: u8 where "CI_L = 0x0f"
definition S_CURSOR_Y :: u8 where "S_CURSOR_Y = 0x0A"
definition E_CURSOR_Y :: u8 where "E_CURSOR_Y = 0x0B"
definition VGA_COLOR_BLACK :: u8 where "VGA_COLOR_BLACK = 0"
definition VGA_COLOR_LIGHT_GREY :: u8 where "VGA_COLOR_LIGHT_GREY = 7"

record cursor_t =
  row :: u8
  col :: u8

record vga =
  cursor :: cursor_t
  terminal_color :: u8
  terminal_buffer :: "nat \<Rightarrow> u16"
  ports :: "(u16 \<times> u8) list"

text \<open>The operands of \<^verbatim>\<open>BUF_INDEX\<close> are promoted to \<^verbatim>\<open>int\<close>; the result is at most \<open>255 * 81\<close>.\<close>

definition BUF_INDEX :: "u8 \<Rightarrow> u8 \<Rightarrow> nat" where
  "BUF_INDEX c r = unat r * VGA_WIDTH + unat c"

definition outb :: "u16 \<Rightarrow> u8 \<Rightarrow> vga \<Rightarrow> vga" where
  "outb port v s = s\<lparr>ports := ports s @ [(port, v)]\<rparr>"

definition vga_entry_color :: "u8 \<Rightarrow> u8 \<Rightarrow> u8" where
  "vga_entry_color fg bg = fg OR push_bit 4 bg"

definition vga_entry :: "u8 \<Rightarrow> u8 \<Rightarrow> u16" where
  "vga_entry uc color = ucast uc OR push_bit 8 (ucast color)"

definition vga_set_buf :: "u8 \<Rightarrow> u8 \<Rightarrow> cursor_t \<Rightarrow> vga \<Rightarrow> vga" where
  "vga_set_buf c color cur s = s\<lparr>terminal_buffer := (terminal_buffer s)(BUF_INDEX (col cur) (row cur) := vga_entry c color)\<rparr>"

text \<open>\<^verbatim>\<open>memset16\<close> of \<open>n\<close> cells and the forward \<^verbatim>\<open>memcpy\<close> of \<open>n\<close> cells within the video memory.\<close>

primrec fill_cells :: "nat \<Rightarrow> nat \<Rightarrow> u16 \<Rightarrow> (nat \<Rightarrow> u16) \<Rightarrow> nat \<Rightarrow> u16" where
  "fill_cells 0 i v b = b"
| "fill_cells (Suc n) i v b = fill_cells n (Suc i) v (b(i := v))"

primrec copy_cells :: "nat \<Rightarrow> nat \<Rightarrow> nat \<Rightarrow> (nat \<Rightarrow> u16) \<Rightarrow> nat \<Rightarrow> u16" where
  "copy_cells 0 d i b = b"
| "copy_cells (Suc n) d i b = copy_cells n (Suc d) (Suc i) (b(d := b i))"

definition VGA_SPACE :: "vga \<Rightarrow> u16" where
  "VGA_SPACE s = vga_entry 32 (terminal_color s)"

definition vga_clean_line :: "u8 \<Rightarrow> vga \<Rightarrow> vga" where
  "vga_clean_line r s = s\<lparr>terminal_buffer := fill_cells VGA_WIDTH (BUF_INDEX 0 r) (VGA_SPACE s) (terminal_buffer s)\<rparr>"

definition vga_scroll_up :: "vga \<Rightarrow> vga" where
  "vga_scroll_up s = vga_clean_line (of_nat (VGA_HEIGHT - 1))
     (s\<lparr>terminal_buffer := copy_cells ((VGA_HEIGHT - 1) * VGA_WIDTH) 0 (BUF_INDEX 0 1) (terminal_buffer s)\<rparr>)"

definition set_cursor :: "u8 \<Rightarrow> u8 \<Rightarrow> vga \<Rightarrow> vga" where
  "set_cursor r c s = s\<lparr>cursor := \<lparr>row = r, col = c\<rparr>\<rparr>"

definition cursor_up :: "vga \<Rightarrow> vga" where
  "cursor_up s = s\<lparr>cursor := (cursor s)\<lparr>row := if row (cursor s) = 0 then 0 else row (cursor s) - 1\<rparr>\<rparr>"

definition cursor_down :: "vga \<Rightarrow> vga" where
  "cursor_down s = (let nr = row (cursor s) + 1 in
     s\<lparr>cursor := (cursor s)\<lparr>row := if VGA_HEIGHT \<le> unat nr then row (cursor s) else nr\<rparr>\<rparr>)"

definition inc_row :: "vga \<Rightarrow> vga" where
  "inc_row s = (let s = if unat (row (cursor s)) + 1 = VGA_HEIGHT then vga_scroll_up s
       else s\<lparr>cursor := (cursor s)\<lparr>row := row (cursor s) + 1\<rparr>\<rparr>
     in s\<lparr>cursor := (cursor s)\<lparr>col := 0\<rparr>\<rparr>)"

definition dec_row :: "vga \<Rightarrow> vga" where
  "dec_row s = (if row (cursor s) \<noteq> 0
     then s\<lparr>cursor := \<lparr>row = row (cursor s) - 1, col = of_nat (VGA_WIDTH - 1)\<rparr>\<rparr> else s)"

definition inc_col :: "vga \<Rightarrow> vga" where
  "inc_col s = (if unat (col (cursor s)) + 1 = VGA_WIDTH then inc_row s
     else s\<lparr>cursor := (cursor s)\<lparr>col := col (cursor s) + 1\<rparr>\<rparr>)"

definition dec_col :: "vga \<Rightarrow> vga" where
  "dec_col s = (if col (cursor s) = 0 then dec_row s
     else s\<lparr>cursor := (cursor s)\<lparr>col := col (cursor s) - 1\<rparr>\<rparr>)"

text \<open>\<^verbatim>\<open>__vga_clean\<close> and \<^verbatim>\<open>__vga_cleanc\<close>.\<close>

definition vga_clean_core :: "vga \<Rightarrow> vga" where
  "vga_clean_core s = s\<lparr>terminal_buffer := fill_cells (VGA_WIDTH * VGA_HEIGHT) 0 (VGA_SPACE s) (terminal_buffer s)\<rparr>"

definition vga_cleanc_core :: "cursor_t \<Rightarrow> vga \<Rightarrow> vga" where
  "vga_cleanc_core c s = s\<lparr>terminal_buffer := fill_cells 1 (BUF_INDEX (col c) (row c)) (VGA_SPACE s) (terminal_buffer s)\<rparr>"

definition vga_sync_cursor :: "vga \<Rightarrow> vga" where
  "vga_sync_cursor s = (let pos = of_nat (BUF_INDEX (col (cursor s)) (row (cursor s))) :: u16
     in outb VGA_DAT (ucast (drop_bit 8 pos)) (outb VGA_INDEX CI_H (outb VGA_DAT (ucast pos) (outb VGA_INDEX CI_L s))))"

definition vga_enable_cursor :: "vga \<Rightarrow> vga" where
  "vga_enable_cursor s = outb VGA_DAT 0x0F (outb VGA_INDEX E_CURSOR_Y (outb VGA_DAT 0x0E (outb VGA_INDEX S_CURSOR_Y s)))"

definition vga_clean :: "vga \<Rightarrow> vga" where
  "vga_clean s = vga_sync_cursor (vga_clean_core (set_cursor 0 0 s))"

definition vga_init :: "vga \<Rightarrow> vga" where
  "vga_init s = vga_sync_cursor (vga_enable_cursor (vga_clean_core
     ((set_cursor 0 0 s)\<lparr>terminal_color := vga_entry_color VGA_COLOR_LIGHT_GREY VGA_COLOR_BLACK\<rparr>)))"

definition vga_set_color :: "u8 \<Rightarrow> vga \<Rightarrow> vga" where
  "vga_set_color color s = s\<lparr>terminal_color := color\<rparr>"

definition vga_put_char :: "u8 \<Rightarrow> vga \<Rightarrow> vga" where
  "vga_put_char c s = (if c = NEWLINE then inc_row s else inc_col (vga_set_buf c (terminal_color s) (cursor s) s))"

definition vga_delete :: "vga \<Rightarrow> vga" where
  "vga_delete s = (let s = dec_col s in vga_sync_cursor (vga_cleanc_core (cursor s) s))"

definition vga_cursor_left :: "vga \<Rightarrow> vga" where "vga_cursor_left s = vga_sync_cursor (dec_col s)"
definition vga_cursor_right :: "vga \<Rightarrow> vga" where "vga_cursor_right s = vga_sync_cursor (inc_col s)"
definition vga_cursor_up :: "vga \<Rightarrow> vga" where "vga_cursor_up s = vga_sync_cursor (cursor_up s)"
definition vga_cursor_down :: "vga \<Rightarrow> vga" where "vga_cursor_down s = vga_sync_cursor (cursor_down s)"

section \<open>The cursor stays on the screen\<close>

definition on_screen :: "vga \<Rightarrow> bool" where
  "on_screen s \<longleftrightarrow> unat (row (cursor s)) < VGA_HEIGHT \<and> unat (col (cursor s)) < VGA_WIDTH"

text \<open>\<open>off_screen_same s s'\<close>: the video memory beyond the \<open>80 * 25\<close> cells is untouched.\<close>

definition off_screen_same :: "vga \<Rightarrow> vga \<Rightarrow> bool" where
  "off_screen_same s s' \<longleftrightarrow> (\<forall>i \<ge> VGA_WIDTH * VGA_HEIGHT. terminal_buffer s' i = terminal_buffer s i)"

definition vga_step :: "(vga \<Rightarrow> vga) \<Rightarrow> bool" where
  "vga_step f \<longleftrightarrow> (\<forall>s. on_screen s \<longrightarrow> on_screen (f s) \<and> off_screen_same s (f s))"

lemma vga_step_comp: "vga_step f \<Longrightarrow> vga_step g \<Longrightarrow> vga_step (\<lambda>s. f (g s))"
  by (simp add: vga_step_def off_screen_same_def)

lemma vga_stepD: "vga_step f \<Longrightarrow> on_screen s \<Longrightarrow> on_screen (f s) \<and> off_screen_same s (f s)"
  by (simp add: vga_step_def)

lemmas vga_consts = VGA_WIDTH_def VGA_HEIGHT_def BUF_INDEX_def

lemma fill_cells_eq: "fill_cells n i v b = (\<lambda>j. if i \<le> j \<and> j < i + n then v else b j)"
  by (induction n arbitrary: i b) (auto simp: fun_eq_iff)

lemma copy_cells_eq:
  "d < i \<Longrightarrow> copy_cells n d i b = (\<lambda>j. if d \<le> j \<and> j < d + n then b (j + (i - d)) else b j)"
proof (induction n arbitrary: d i b)
  case (Suc n)
  show ?case unfolding copy_cells.simps using Suc.prems by (subst Suc.IH) (auto simp: fun_eq_iff)
qed (auto simp: fun_eq_iff)

lemma unat_inc8: "unat (w :: u8) < 255 \<Longrightarrow> unat (w + 1) = unat w + 1"
  by (subst unat_plus_simple [THEN iffD1]) (auto simp: word_le_nat_alt unat_word_ariths)

lemma scroll_cells:
  "terminal_buffer (vga_scroll_up s) = (\<lambda>j. if j < 24 * 80 then terminal_buffer s (j + 80)
     else if j < 2000 then VGA_SPACE s else terminal_buffer s j)"
  by (auto simp: vga_scroll_up_def vga_clean_line_def fill_cells_eq copy_cells_eq vga_consts VGA_SPACE_def fun_eq_iff)

lemma scroll_cursor [simp]: "cursor (vga_scroll_up s) = cursor s"
  by (simp add: vga_scroll_up_def vga_clean_line_def)

lemma sync_step: "vga_step vga_sync_cursor"
  by (simp add: vga_step_def vga_sync_cursor_def outb_def on_screen_def off_screen_same_def Let_def)

lemma inc_row_step: "vga_step inc_row"
  unfolding vga_step_def on_screen_def off_screen_same_def inc_row_def Let_def vga_consts
  by (auto simp: scroll_cells unat_inc8)

lemma inc_col_step: "vga_step inc_col"
proof -
  have "on_screen s \<Longrightarrow> unat (col (cursor s)) + 1 \<noteq> VGA_WIDTH \<Longrightarrow> on_screen (inc_col s)" for s
    unfolding on_screen_def inc_col_def vga_consts by (auto simp: unat_inc8)
  then show ?thesis using inc_row_step unfolding vga_step_def
    by (auto simp: inc_col_def off_screen_same_def)
qed

lemma dec_col_step: "vga_step dec_col"
proof -
  have d: "w \<noteq> 0 \<Longrightarrow> unat (w - 1) < unat w" for w :: u8 by (simp add: unat_minus_one unat_gt_0)
  show ?thesis unfolding vga_step_def on_screen_def off_screen_same_def dec_col_def dec_row_def vga_consts
    using d by (auto intro: less_trans)
qed

lemma cursor_up_step: "vga_step cursor_up"
proof -
  have d: "w \<noteq> 0 \<Longrightarrow> unat (w - 1) < unat w" for w :: u8 by (simp add: unat_minus_one unat_gt_0)
  show ?thesis unfolding vga_step_def on_screen_def off_screen_same_def cursor_up_def vga_consts
    using d by (auto intro: less_trans)
qed

lemma cursor_down_step: "vga_step cursor_down"
  by (simp add: vga_step_def on_screen_def off_screen_same_def cursor_down_def Let_def)

lemma index_on_screen: "on_screen s \<Longrightarrow> BUF_INDEX (col (cursor s)) (row (cursor s)) < VGA_WIDTH * VGA_HEIGHT"
  by (simp add: on_screen_def vga_consts)

lemma set_buf_step: "vga_step (\<lambda>s. vga_set_buf c (terminal_color s) (cursor s) s)"
  unfolding vga_step_def
proof (intro allI impI)
  fix s assume s: "on_screen s"
  show "on_screen (vga_set_buf c (terminal_color s) (cursor s) s) \<and> off_screen_same s (vga_set_buf c (terminal_color s) (cursor s) s)"
    using s index_on_screen [OF s] by (simp add: vga_set_buf_def off_screen_same_def on_screen_def)
qed

lemma put_char_step: "vga_step (vga_put_char c)"
  using inc_row_step vga_step_comp [OF inc_col_step set_buf_step] unfolding vga_step_def vga_put_char_def by simp

lemma delete_step: "vga_step vga_delete"
proof -
  have "vga_step (\<lambda>s. vga_cleanc_core (cursor s) s)"
    unfolding vga_step_def
  proof (intro allI impI)
    fix s assume s: "on_screen s"
    show "on_screen (vga_cleanc_core (cursor s) s) \<and> off_screen_same s (vga_cleanc_core (cursor s) s)"
      using s index_on_screen [OF s] by (simp add: vga_cleanc_core_def off_screen_same_def on_screen_def fill_cells_eq)
  qed
  then show ?thesis unfolding vga_delete_def Let_def by (intro vga_step_comp [OF sync_step] vga_step_comp [OF _ dec_col_step])
qed

lemma cursor_steps: "vga_step vga_cursor_left" "vga_step vga_cursor_right" "vga_step vga_cursor_up" "vga_step vga_cursor_down"
  using vga_step_comp [OF sync_step] dec_col_step inc_col_step cursor_up_step cursor_down_step
  unfolding vga_cursor_left_def vga_cursor_right_def vga_cursor_up_def vga_cursor_down_def by blast+

lemma clean_steps: "on_screen (vga_clean s) \<and> off_screen_same s (vga_clean s)" "on_screen (vga_init s) \<and> off_screen_same s (vga_init s)"
  by (auto simp: vga_clean_def vga_init_def vga_clean_core_def set_cursor_def on_screen_def off_screen_same_def
    vga_sync_cursor_def vga_enable_cursor_def outb_def fill_cells_eq Let_def vga_consts)

section \<open>Properties\<close>

text \<open>
  C29. The cursor never leaves the screen. The screen is well-formed after \<^verbatim>\<open>vga_init\<close> and
  \<^verbatim>\<open>vga_clean\<close>, and every operation that draws or moves keeps the cursor inside the \<open>80 * 25\<close> window
  and writes no cell outside it.
\<close>

theorem vga_stays_on_screen:
  "on_screen (vga_init s) \<and> on_screen (vga_clean s) \<and>
   (\<forall>f \<in> {vga_put_char c, vga_delete, vga_cursor_left, vga_cursor_right, vga_cursor_up, vga_cursor_down, vga_sync_cursor}.
      on_screen s \<longrightarrow> on_screen (f s) \<and> off_screen_same s (f s))"
  using clean_steps [of s] vga_stepD [OF put_char_step] vga_stepD [OF delete_step] vga_stepD [OF sync_step]
    cursor_steps [THEN vga_stepD] by simp

theorem vga_stays_on_screen_witness:
  "\<exists>s. on_screen s \<and> on_screen (vga_put_char 65 s) \<and> off_screen_same s (vga_put_char 65 s)"
proof -
  fix s :: vga
  have "on_screen (vga_init s)" using vga_stays_on_screen [of s] by simp
  then show ?thesis using vga_stays_on_screen [of "vga_init s" 65] by blast
qed

text \<open>
  Scrolling. A newline on the last line moves every line up by one, blanks the last line and puts
  the cursor at its start; on any other line it only moves the cursor.
\<close>

theorem newline_scrolls:
  assumes "on_screen s"
  shows "let s' = vga_put_char NEWLINE s in col (cursor s') = 0 \<and>
    (if unat (row (cursor s)) = 24
     then row (cursor s') = row (cursor s) \<and> (\<forall>i < 1920. terminal_buffer s' i = terminal_buffer s (i + 80)) \<and>
       (\<forall>i. 1920 \<le> i \<and> i < 2000 \<longrightarrow> terminal_buffer s' i = VGA_SPACE s)
     else unat (row (cursor s')) = unat (row (cursor s)) + 1 \<and> terminal_buffer s' = terminal_buffer s)"
  using assms by (auto simp: vga_put_char_def inc_row_def scroll_cells Let_def on_screen_def VGA_HEIGHT_def unat_inc8)

theorem newline_scrolls_witness:
  "\<exists>s. on_screen s \<and> unat (row (cursor s)) = 24 \<and> terminal_buffer (vga_put_char NEWLINE s) 0 = terminal_buffer s 80"
proof -
  fix s0 :: vga
  let ?s = "s0\<lparr>cursor := \<lparr>row = 24, col = 3\<rparr>\<rparr>"
  have "on_screen ?s" by (simp add: on_screen_def vga_consts)
  then show ?thesis using newline_scrolls [of ?s] by (intro exI [of _ ?s]) (simp add: Let_def)
qed

end
