(* ===== verification/Terminal.thy ===== *)
theory Terminal
  imports Vga Kstring
begin

text \<open>
  The terminal, \<^verbatim>\<open>terminal.c\<close>, with the keyboard tables of \<^verbatim>\<open>drivers/keyboard.h\<close>: the ring buffer of
  typed characters, the scan code automaton of the keyboard interrupt, formatted output on the
  screen, and line input. Output functions format numbers in a local array; \<open>stk\<close> is its address.

  The end of an interrupt (\<^verbatim>\<open>lapicEoi\<close>) and the registration of the handler do not touch this state.
\<close>

section \<open>Definitions\<close>

subsection \<open>Keys\<close>

definition KNULL :: u8 where "KNULL = 0"
definition KB_NULL :: u8 where "KB_NULL = 0"
definition F1 :: u8 where "F1 = 0x84"
definition F12 :: u8 where "F12 = 0x8f"
definition ESC :: u8 where "ESC = 0x90"
definition CAPSLOCK :: u8 where "CAPSLOCK = 0x91"
definition BACKSPACE :: u8 where "BACKSPACE = 0x92"
definition NUMBER_LOCK :: u8 where "NUMBER_LOCK = 0x93"
definition SCROLL_LOCK :: u8 where "SCROLL_LOCK = 0x94"
definition CURSOR_LEFT :: u8 where "CURSOR_LEFT = 0x9b"
definition CURSOR_DOWN :: u8 where "CURSOR_DOWN = 0x9c"
definition CURSOR_RIGHT :: u8 where "CURSOR_RIGHT = 0x9d"
definition CURSOR_UP :: u8 where "CURSOR_UP = 0x9e"
definition PAGE_UP :: u8 where "PAGE_UP = 0xa0"
definition LEFT_ALT :: u8 where "LEFT_ALT = 0xa1"
definition LEFT_CTRL :: u8 where "LEFT_CTRL = 0xa2"
definition LEFT_SHIFT :: u8 where "LEFT_SHIFT = 0xa3"
definition RIGHT_ALT :: u8 where "RIGHT_ALT = 0xa4"
definition RIGHT_CTRL :: u8 where "RIGHT_CTRL = 0xa5"
definition RIGHT_SHIFT :: u8 where "RIGHT_SHIFT = 0xa6"
definition LEFT_GUI :: u8 where "LEFT_GUI = 0xa7"
definition M_WWW_SEARCH :: u8 where "M_WWW_SEARCH = 0xa8"
definition M_MEDIA_SELECT :: u8 where "M_MEDIA_SELECT = 0xb9"

text \<open>The tables from scan codes to characters and key codes; the codes above 131 are those of \<^verbatim>\<open>keyboard.h\<close>.\<close>

definition asciiNonShift1 :: "u8 list" where
  "asciiNonShift1 = [
     0, 0x8c, 0, 0x88, 0x86, 0x84, 0x85, 0x8f, 0, 0x8d, 0x8b, 0x89, 0x87, 9, 96, 0,
     0, 0xa1, 0xa3, 0, 0xa2, 113, 49, 0, 0, 0, 122, 115, 97, 119, 50, 0,
     0, 99, 120, 100, 101, 52, 51, 0, 0, 32, 118, 102, 116, 114, 53, 0,
     0, 110, 98, 104, 103, 121, 54, 0, 0, 0, 109, 106, 117, 55, 56, 0,
     0, 44, 107, 105, 111, 48, 57, 0, 0, 46, 47, 108, 59, 112, 45, 0,
     0, 0, 39, 0, 91, 61, 0, 0, 0x91, 0xa6, 10, 93, 0, 92, 0, 0,
     0, 0, 0, 0, 0, 0, 0x92, 0, 0, 49, 0, 52, 55, 0, 0, 0,
     48, 46, 50, 53, 54, 56, 0x90, 0x93, 0x8e, 43, 51, 45, 42, 57, 0x94, 0,
     0, 0, 0, 0x8a]"

definition asciiShift1 :: "u8 list" where
  "asciiShift1 = [
     0, 0x8c, 0, 0x88, 0x86, 0x84, 0x85, 0x8f, 0, 0x8d, 0x8b, 0x89, 0x87, 9, 96, 0,
     0, 0xa1, 0xa3, 0, 0xa2, 81, 33, 0, 0, 0, 90, 83, 65, 87, 64, 0,
     0, 67, 88, 68, 69, 36, 35, 0, 0, 32, 86, 70, 84, 82, 37, 0,
     0, 78, 66, 72, 71, 89, 94, 0, 0, 0, 77, 74, 85, 38, 42, 0,
     0, 60, 75, 73, 79, 41, 40, 0, 0, 62, 63, 76, 58, 80, 95, 0,
     0, 0, 34, 0, 123, 43, 0, 0, 0x91, 0xa6, 10, 125, 0, 124, 0, 0,
     0, 0, 0, 0, 0, 0, 0x92, 0, 0, 49, 0, 52, 55, 0, 0, 0,
     48, 46, 50, 53, 54, 56, 0x90, 0x93, 0x8e, 43, 51, 45, 42, 57, 0x94, 0,
     0, 0, 0, 0x8a]"

definition ascii2 :: "u8 list" where
  "ascii2 = [
     0, 0, 0, 0, 0, 0, 0, 0, 0, 0, 0, 0, 0, 0, 0, 0,
     0xa8, 0xa4, 0, 0, 0xa5, 0xa9, 0, 0, 0xaa, 0, 0, 0, 0, 0, 0, 0xa7,
     0xab, 0xac, 0, 0xad, 0, 0, 0, 0x95, 0xae, 0, 0, 0xaf, 0, 0, 0, 0x96,
     0xb0, 0, 0xb1, 0, 0xb2, 0, 0, 0xba, 0xb3, 0, 0xb4, 0xb5, 0, 0, 0, 0xbb,
     0xb6, 0, 0, 0, 0, 0, 0, 0, 0xb7, 0, 47, 0, 0, 0xb8, 0, 0,
     0xb9, 0, 0, 0, 0, 0, 0, 0, 0, 0, 10, 0, 0, 0, 0xbc, 0,
     0, 0, 0, 0, 0, 0, 0, 0, 0, 0x97, 0, 0x9b, 0x98, 0, 0, 0,
     0x99, 0x9a, 0x9c, 0, 0x9d, 0x9e, 0, 0, 0, 0, 0x9f, 0, 0, 0]"

datatype key_type = CHAR_KEY | F_KEY | FN | META | MEDIA | ACPI

record kb_status =
  ks_e0 :: bool
  ks_f0 :: bool
  lShift :: bool
  rShift :: bool
  lCtrl :: bool
  rCtrl :: bool
  lGui :: bool
  lAlt :: bool
  rAlt :: bool
  numLk :: bool
  capsLK :: bool
  scrollLk :: bool

subsection \<open>The ring buffer\<close>

definition KB_BUFFER_SIZE :: u32 where "KB_BUFFER_SIZE = 256"

record kb_queue =
  q_buffer :: "u32 \<Rightarrow> u8"
  q_header :: u32
  q_tail :: u32

definition kb_clear :: "kb_queue \<Rightarrow> kb_queue" where
  "kb_clear q = q\<lparr>q_tail := q_header q\<rparr>"

definition q_append :: "u8 \<Rightarrow> kb_queue \<Rightarrow> kb_queue" where
  "q_append c q = q\<lparr>q_buffer := (q_buffer q)(q_tail q := c), q_tail := (q_tail q + 1) mod KB_BUFFER_SIZE\<rparr>"

definition q_pop :: "kb_queue \<Rightarrow> u8 \<times> kb_queue" where
  "q_pop q = (if q_header q = q_tail q then (KB_NULL, q)
     else (q_buffer q (q_header q), q\<lparr>q_header := (q_header q + 1) mod KB_BUFFER_SIZE\<rparr>))"

subsection \<open>The terminal and its keyboard interrupt\<close>

record terminal =
  screen :: vga
  kbStatus :: kb_status
  kb_buf :: kb_queue
  t_mem :: mem8

abbreviation on_vga :: "(vga \<Rightarrow> vga) \<Rightarrow> terminal \<Rightarrow> terminal" where
  "on_vga f t \<equiv> t\<lparr>screen := f (screen t)\<rparr>"

abbreviation on_status :: "(kb_status \<Rightarrow> kb_status) \<Rightarrow> terminal \<Rightarrow> terminal" where
  "on_status f t \<equiv> t\<lparr>kbStatus := f (kbStatus t)\<rparr>"

definition kb_meta :: "u8 \<Rightarrow> bool \<Rightarrow> terminal \<Rightarrow> terminal" where
  "kb_meta type s t = on_status (\<lambda>k.
     if type = LEFT_ALT then k\<lparr>lAlt := s\<rparr>
     else if type = LEFT_CTRL then k\<lparr>lCtrl := s\<rparr>
     else if type = LEFT_SHIFT then k\<lparr>lShift := s\<rparr>
     else if type = RIGHT_ALT then k\<lparr>rAlt := s\<rparr>
     else if type = RIGHT_CTRL then k\<lparr>rCtrl := s\<rparr>
     else if type = RIGHT_SHIFT then k\<lparr>rShift := s\<rparr>
     else if type = LEFT_GUI then k\<lparr>lGui := s\<rparr>
     else k) t"

definition kb_fn :: "u8 \<Rightarrow> terminal \<Rightarrow> terminal" where
  "kb_fn c t =
     (if c = NUMBER_LOCK then on_status (\<lambda>k. k\<lparr>numLk := \<not> numLk k\<rparr>) t
      else if c = CAPSLOCK then on_status (\<lambda>k. k\<lparr>capsLK := \<not> capsLK k\<rparr>) t
      else if c = SCROLL_LOCK then on_status (\<lambda>k. k\<lparr>scrollLk := \<not> scrollLk k\<rparr>) t
      else if c = CURSOR_LEFT then on_vga vga_cursor_left t
      else if c = CURSOR_UP then on_vga vga_cursor_up t
      else if c = CURSOR_RIGHT then on_vga vga_cursor_right t
      else if c = CURSOR_DOWN then on_vga vga_cursor_down t
      else if c = BACKSPACE then on_vga vga_delete t
      else t)"

definition kb_key_type :: "u8 \<Rightarrow> key_type" where
  "kb_key_type v =
     (if v < F1 then CHAR_KEY
      else if LEFT_ALT \<le> v \<and> v \<le> LEFT_GUI then META
      else if v \<le> PAGE_UP \<and> ESC \<le> v then FN
      else if M_WWW_SEARCH \<le> v \<and> v \<le> M_MEDIA_SELECT then MEDIA
      else if v \<le> F12 \<and> F1 \<le> v then F_KEY
      else ACPI)"

definition kb_press_handle :: "u8 \<Rightarrow> terminal \<Rightarrow> terminal" where
  "kb_press_handle r t = (let t = on_status (\<lambda>k. k\<lparr>ks_e0 := False\<rparr>) t in
     case kb_key_type r of
       CHAR_KEY \<Rightarrow> t\<lparr>kb_buf := q_append r (kb_buf t)\<rparr>
     | META \<Rightarrow> kb_meta r True t
     | FN \<Rightarrow> kb_fn r t
     | _ \<Rightarrow> t)"

definition kb_release_handle :: "u8 \<Rightarrow> terminal \<Rightarrow> terminal" where
  "kb_release_handle r t = (let t = on_status (\<lambda>k. k\<lparr>ks_e0 := False, ks_f0 := False\<rparr>) t in
     case kb_key_type r of META \<Rightarrow> kb_meta r False t | _ \<Rightarrow> t)"

text \<open>A scan code beyond the table reads past the array, which is undefined.\<close>

definition key_of :: "u8 list \<Rightarrow> u8 \<Rightarrow> u8 option" where
  "key_of tab c = (if unat c < length tab then Some (tab ! unat c) else None)"

definition kb_sc_parse :: "u8 \<Rightarrow> terminal \<Rightarrow> terminal option" where
  "kb_sc_parse scancode t =
     (if scancode = 0xe0 then Some (on_status (\<lambda>k. k\<lparr>ks_e0 := True\<rparr>) t)
      else if scancode = 0xf0 then Some (on_status (\<lambda>k. k\<lparr>ks_f0 := True\<rparr>) t)
      else if \<not> ks_f0 (kbStatus t) then do {
        r \<leftarrow> (if \<not> ks_e0 (kbStatus t)
             then (if lShift (kbStatus t) \<or> rShift (kbStatus t) then key_of asciiShift1 scancode
                   else key_of asciiNonShift1 scancode)
             else key_of ascii2 scancode);
        assertk (r \<noteq> KNULL);
        Some (kb_press_handle r t)
      } else do {
        r \<leftarrow> (if ks_e0 (kbStatus t) then key_of ascii2 scancode else key_of asciiShift1 scancode);
        assertk (r \<noteq> KNULL);
        Some (kb_release_handle r t)
      })"

text \<open>The interrupts of a sequence of scan codes, each read from the controller by \<^verbatim>\<open>ps2_rd\<close>.\<close>

fun kb_isrs :: "u8 list \<Rightarrow> terminal \<Rightarrow> terminal option" where
  "kb_isrs [] t = Some t"
| "kb_isrs (c # cs) t = do { t \<leftarrow> kb_sc_parse c t; kb_isrs cs t }"

subsection \<open>Output\<close>

definition put_char :: "u8 \<Rightarrow> terminal \<Rightarrow> terminal" where
  "put_char c t = on_vga (\<lambda>s. vga_sync_cursor (vga_put_char c s)) t"

primrec put_loop :: "nat \<Rightarrow> mem8 \<Rightarrow> ptr_t \<Rightarrow> vga \<Rightarrow> vga" where
  "put_loop 0 m data s = s"
| "put_loop (Suc n) m data s = put_loop n m (data + 1) (vga_put_char (m data) s)"

definition put_strings :: "ptr_t \<Rightarrow> u32 \<Rightarrow> terminal \<Rightarrow> terminal" where
  "put_strings data sz t = on_vga (\<lambda>s. vga_sync_cursor (put_loop (unat sz) (t_mem t) data s)) t"

definition put_string :: "ptr_t \<Rightarrow> terminal \<Rightarrow> terminal option" where
  "put_string data t = do {
     sz \<leftarrow> strlen (t_mem t) data;
     Some (on_vga (\<lambda>s. vga_sync_cursor (put_loop (unat sz) (t_mem t) data s)) t)
   }"

definition print_d :: "ptr_t \<Rightarrow> u64 \<Rightarrow> terminal \<Rightarrow> terminal option" where
  "print_d stk num t = do {
     let (i, num, m) = (if sint num < 0 then (1, - num, (t_mem t)(stk := 45)) else (0, num, t_mem t));
     m \<leftarrow> utoa num (stk + i) m;
     put_string stk (t\<lparr>t_mem := m\<rparr>)
   }"

definition print_u :: "ptr_t \<Rightarrow> u64 \<Rightarrow> terminal \<Rightarrow> terminal option" where
  "print_u stk num t = do {
     m \<leftarrow> utoa num stk (t_mem t);
     put_string stk (t\<lparr>t_mem := m\<rparr>)
   }"

definition print_hex :: "ptr_t \<Rightarrow> u64 \<Rightarrow> terminal \<Rightarrow> terminal option" where
  "print_hex stk x t = do {
     m \<leftarrow> hex x (stk + 2) ((t_mem t)(stk := 48, stk + 1 := 120));
     put_string stk (t\<lparr>t_mem := m\<rparr>)
   }"

definition print_pointer :: "ptr_t \<Rightarrow> ptr_t \<Rightarrow> terminal \<Rightarrow> terminal option" where
  "print_pointer stk p t = print_hex stk (ucast p) t"

text \<open>
  The variable arguments of \<^verbatim>\<open>printfk\<close>: a 32-bit or a 64-bit value each; fetching one of the other
  width, or one too many, is undefined.
\<close>

datatype varg = A32 u32 | A64 u64

fun va32 :: "varg list \<Rightarrow> (u32 \<times> varg list) option" where
  "va32 (A32 w # as) = Some (w, as)" | "va32 _ = None"

fun va64 :: "varg list \<Rightarrow> (u64 \<times> varg list) option" where
  "va64 (A64 w # as) = Some (w, as)" | "va64 _ = None"

text \<open>One directive: the character after the percent sign and the one after that; the result is the
  number of format characters consumed.\<close>

definition directive :: "ptr_t \<Rightarrow> u8 \<Rightarrow> u8 \<Rightarrow> varg list \<Rightarrow> terminal \<Rightarrow> (nat \<times> varg list \<times> terminal) option" where
  "directive stk d e as t =
     (if d = 100 then do { (w, as) \<leftarrow> va32 as; t \<leftarrow> print_d stk (scast w) t; Some (2, as, t) }
      else if d = 117 then do { (w, as) \<leftarrow> va32 as; t \<leftarrow> print_u stk (ucast w) t; Some (2, as, t) }
      else if d = 115 then do { (w, as) \<leftarrow> va32 as; t \<leftarrow> put_string w t; Some (2, as, t) }
      else if d = 99 then do { (w, as) \<leftarrow> va32 as; Some (2, as, put_char (ucast w) t) }
      else if d = 112 then do { (w, as) \<leftarrow> va32 as; t \<leftarrow> print_pointer stk w t; Some (2, as, t) }
      else if d = 120 then do { (w, as) \<leftarrow> va32 as; t \<leftarrow> print_hex stk (ucast w) t; Some (2, as, t) }
      else if d = 108 then
        (if e = 100 then do { (w, as) \<leftarrow> va64 as; t \<leftarrow> print_d stk w t; Some (3, as, t) }
         else if e = 117 then do { (w, as) \<leftarrow> va64 as; t \<leftarrow> print_u stk w t; Some (3, as, t) }
         else if e = 120 then do { (w, as) \<leftarrow> va64 as; t \<leftarrow> print_hex stk w t; Some (3, as, t) }
         else Some (2, as, t))
      else Some (1, as, put_char 37 t))"

lemma directive_progress: "directive stk d e as t = Some (k, as', t') \<Longrightarrow> 0 < k"
  by (auto simp: directive_def returned split: if_splits)

text \<open>The loop over the format; \<open>n\<close> characters of it are left at \<open>str\<close>.\<close>

function printfk_loop :: "ptr_t \<Rightarrow> nat \<Rightarrow> ptr_t \<Rightarrow> varg list \<Rightarrow> terminal \<Rightarrow> terminal option" where
  "printfk_loop stk n str as t =
     (if n = 0 then Some t
      else if t_mem t str = 37 \<and> 1 < n then
        (case directive stk (t_mem t (str + 1)) (t_mem t (str + 2)) as t of
           None \<Rightarrow> None
         | Some (k, as, t) \<Rightarrow> printfk_loop stk (n - k) (str + of_nat k) as t)
      else printfk_loop stk (n - 1) (str + 1) as (put_char (t_mem t str) t))"
  by pat_completeness auto
termination
  by (relation "measure (\<lambda>(stk, n, str, as, t). n)") (auto dest: directive_progress)

declare printfk_loop.simps [simp del]

definition printfk :: "ptr_t \<Rightarrow> ptr_t \<Rightarrow> varg list \<Rightarrow> terminal \<Rightarrow> terminal option" where
  "printfk stk str as t = do {
     n \<leftarrow> strlen (t_mem t) str;
     printfk_loop stk (unat n) str as t
   }"

subsection \<open>Input\<close>

text \<open>
  \<^verbatim>\<open>getchar\<close> sleeps while the buffer is empty. \<open>env\<close> says what happens in each sleep: the scan codes
  the keyboard sends, or \<open>None\<close> when no timer is free and \<^verbatim>\<open>ms_sleep\<close> fails. When it is used up the
  call is still waiting.
\<close>

fun getchar_loop :: "u8 list option list \<Rightarrow> terminal \<Rightarrow> (u8 \<times> u8 list option list \<times> terminal) option" where
  "getchar_loop [] t = (let (c, q) = q_pop (kb_buf t) in
     if c \<noteq> KB_NULL then Some (c, [], t\<lparr>kb_buf := q\<rparr>) else None)"
| "getchar_loop (e # env) t = (let (c, q) = q_pop (kb_buf t); t = t\<lparr>kb_buf := q\<rparr> in
     if c \<noteq> KB_NULL then Some (c, e # env, t)
     else do { cs \<leftarrow> e; t \<leftarrow> kb_isrs cs t; getchar_loop env t })"

definition getchar :: "u8 list option list \<Rightarrow> terminal \<Rightarrow> (u8 \<times> u8 list option list \<times> terminal) option" where
  "getchar env t = getchar_loop env (t\<lparr>kb_buf := kb_clear (kb_buf t)\<rparr>)"

text \<open>The loop of \<^verbatim>\<open>k_gets\<close>; the result is \<open>i\<close>, which a newline leaves at its own index.\<close>

fun gets_loop :: "nat \<Rightarrow> int \<Rightarrow> ptr_t \<Rightarrow> u8 list option list \<Rightarrow> terminal \<Rightarrow> (int \<times> u8 list option list \<times> terminal) option" where
  "gets_loop 0 i buf env t = Some (i, env, t)"
| "gets_loop (Suc n) i buf env t = do {
     (c, env, t) \<leftarrow> getchar env t;
     let t = put_char c (t\<lparr>t_mem := (t_mem t)(buf := c)\<rparr>);
     if c = NEWLINE then Some (i, env, t) else gets_loop n (i + 1) (buf + 1) env t
   }"

definition k_gets :: "ptr_t \<Rightarrow> int \<Rightarrow> u8 list option list \<Rightarrow> terminal \<Rightarrow> (int \<times> u8 list option list \<times> terminal) option" where
  "k_gets buf len env t = gets_loop (nat len) 0 buf env t"

definition k_puts :: "ptr_t \<Rightarrow> int \<Rightarrow> terminal \<Rightarrow> terminal option" where
  "k_puts buf len t = (if len < 0 then put_string buf t else Some (put_strings buf (of_int len) t))"

definition terminal_clear :: "terminal \<Rightarrow> terminal" where
  "terminal_clear t = on_vga vga_clean t"

lemmas key_codes = F1_def F12_def ESC_def CAPSLOCK_def BACKSPACE_def NUMBER_LOCK_def SCROLL_LOCK_def CURSOR_LEFT_def CURSOR_DOWN_def CURSOR_RIGHT_def CURSOR_UP_def PAGE_UP_def LEFT_ALT_def LEFT_CTRL_def LEFT_SHIFT_def RIGHT_ALT_def RIGHT_CTRL_def RIGHT_SHIFT_def LEFT_GUI_def M_WWW_SEARCH_def M_MEDIA_SELECT_def

section \<open>The ring buffer is a queue\<close>

text \<open>The characters waiting in the buffer, the oldest first.\<close>

definition q_wf :: "kb_queue \<Rightarrow> bool" where
  "q_wf q \<longleftrightarrow> q_header q < KB_BUFFER_SIZE \<and> q_tail q < KB_BUFFER_SIZE"

definition q_count :: "kb_queue \<Rightarrow> nat" where
  "q_count q = (unat (q_tail q) + 256 - unat (q_header q)) mod 256"

definition q_view :: "kb_queue \<Rightarrow> u8 list" where
  "q_view q = map (\<lambda>k. q_buffer q (of_nat ((unat (q_header q) + k) mod 256))) [0..<q_count q]"

lemma q_next:
  assumes "w < KB_BUFFER_SIZE"
  shows "unat ((w + 1) mod KB_BUFFER_SIZE) = (unat w + 1) mod 256"
  using assms by (simp add: KB_BUFFER_SIZE_def unat_mod word_less_nat_alt unat_add_no_wrap)

lemma q_append_wf: "q_wf q \<Longrightarrow> q_wf (q_append c q)"
  by (simp add: q_wf_def q_append_def word_less_nat_alt q_next KB_BUFFER_SIZE_def unat_mod)

lemma q_pop_wf: "q_wf q \<Longrightarrow> q_wf (snd (q_pop q))"
  by (simp add: q_wf_def q_pop_def word_less_nat_alt KB_BUFFER_SIZE_def unat_mod)

lemma q_bounds: "q_wf q \<Longrightarrow> unat (q_header q) < 256 \<and> unat (q_tail q) < 256"
  by (simp add: q_wf_def word_less_nat_alt KB_BUFFER_SIZE_def)

lemma q_append_count:
  assumes "q_wf q" "q_count q < 255"
  shows "q_count (q_append c q) = q_count q + 1"
proof -
  have "unat (q_tail (q_append c q)) = (unat (q_tail q) + 1) mod 256" "q_header (q_append c q) = q_header q"
    using assms(1) by (simp_all add: q_append_def q_next q_wf_def)
  then have "q_count (q_append c q) = ((unat (q_tail q) + 1) mod 256 + (256 - unat (q_header q))) mod 256"
    using q_bounds [OF assms(1)] by (simp add: q_count_def)
  also have "\<dots> = (unat (q_tail q) + 1 + (256 - unat (q_header q))) mod 256" by (rule mod_add_left_eq)
  also have "\<dots> = (unat (q_tail q) + 256 - unat (q_header q) + 1) mod 256" using q_bounds [OF assms(1)] by simp
  also have "\<dots> = (q_count q + 1) mod 256" by (simp only: q_count_def mod_add_left_eq)
  finally show ?thesis using assms(2) by simp
qed

lemma q_tail_pos:
  assumes "q_wf q"
  shows "(unat (q_header q) + q_count q) mod 256 = unat (q_tail q)"
proof -
  have "(unat (q_header q) + q_count q) mod 256 = (unat (q_header q) + (unat (q_tail q) + 256 - unat (q_header q))) mod 256"
    by (simp only: q_count_def mod_add_right_eq)
  also have "\<dots> = unat (q_tail q)" using q_bounds [OF assms] by simp
  finally show ?thesis .
qed

lemma q_slot:
  assumes "q_wf q" "k < 256"
  shows "of_nat ((unat (q_header q) + k) mod 256) = q_tail q \<longleftrightarrow> k = q_count q"
proof -
  have c: "q_count q < 256" by (simp add: q_count_def)
  have "of_nat ((unat (q_header q) + k) mod 256) = q_tail q \<longleftrightarrow> (unat (q_header q) + k) mod 256 = unat (q_tail q)"
    by (simp add: word_unat_eq_iff unat_of_nat)
  also have "\<dots> \<longleftrightarrow> (unat (q_header q) + k) mod 256 = (unat (q_header q) + q_count q) mod 256"
    by (simp only: q_tail_pos [OF assms(1)])
  also have "\<dots> \<longleftrightarrow> k = q_count q"
    using q_bounds [OF assms(1)] assms(2) c by (auto simp: mod_if split: if_splits)
  finally show ?thesis .
qed

lemma q_append_view:
  assumes "q_wf q" "q_count q < 255"
  shows "q_view (q_append c q) = q_view q @ [c]"
proof -
  let ?q = "q_append c q"
  have b: "q_buffer ?q (of_nat ((unat (q_header q) + k) mod 256)) =
      (if k = q_count q then c else q_buffer q (of_nat ((unat (q_header q) + k) mod 256)))" if "k < 256" for k
    using q_slot [OF assms(1) that] by (simp add: q_append_def)
  have "q_view ?q = map (\<lambda>k. q_buffer ?q (of_nat ((unat (q_header q) + k) mod 256))) [0..<q_count q + 1]"
    using q_append_count [OF assms] by (simp add: q_view_def q_append_def)
  also have "\<dots> = q_view q @ [c]" using b assms(2) by (simp add: q_view_def)
  finally show ?thesis .
qed

lemma q_pop_view:
  assumes "q_wf q"
  shows "(case q_view q of [] \<Rightarrow> q_pop q = (KB_NULL, q) | c # cs \<Rightarrow> \<exists>q'. q_pop q = (c, q') \<and> q_view q' = cs)"
proof (cases "q_count q")
  case 0
  then have "q_header q = q_tail q" using q_tail_pos [OF assms] q_bounds [OF assms] by (simp add: word_unat_eq_iff)
  then show ?thesis using 0 by (simp add: q_view_def q_pop_def)
next
  case (Suc n)
  let ?q = "snd (q_pop q)"
  have ne: "q_header q \<noteq> q_tail q" using Suc by (auto simp: q_count_def)
  have h: "unat (q_header ?q) = (unat (q_header q) + 1) mod 256" "q_tail ?q = q_tail q" "q_buffer ?q = q_buffer q"
    using assms ne by (simp_all add: q_pop_def q_next q_wf_def)
  have c: "q_count q < 256" by (simp add: q_count_def)
  have "(unat (q_header ?q) + n) mod 256 = (unat (q_header q) + 1 + n) mod 256" unfolding h by (rule mod_add_left_eq)
  also have "\<dots> = unat (q_tail ?q)" using q_tail_pos [OF assms] Suc h(2) by simp
  finally have "(unat (q_header ?q) + n) mod 256 = (unat (q_header ?q) + q_count ?q) mod 256"
    using q_tail_pos [OF q_pop_wf [OF assms]] by simp
  moreover have "n < 256" "q_count ?q < 256" using c Suc by (simp_all add: q_count_def)
  ultimately have n: "q_count ?q = n"
    using q_bounds [OF q_pop_wf [OF assms]] by (auto simp: mod_if split: if_splits)
  have shift: "((unat (q_header q) + 1) mod 256 + k) mod 256 = (unat (q_header q) + Suc k) mod 256" for k
    using mod_add_left_eq [of "unat (q_header q) + 1" 256 k] by simp
  have "q_view q = q_buffer q (q_header q) # q_view ?q"
    using q_bounds [OF assms] unfolding q_view_def n Suc h shift by (simp add: upt_conv_Cons map_Suc_upt [symmetric] o_def del: upt_Suc)
  then show ?thesis using ne by (simp add: q_pop_def)
qed

lemma q_append_overflow:
  assumes "q_wf q" "q_count q = 255"
  shows "q_view (q_append c q) = []"
proof -
  have t: "unat (q_tail (q_append c q)) = (unat (q_tail q) + 1) mod 256" "q_header (q_append c q) = q_header q"
    using assms(1) by (simp_all add: q_append_def q_next q_wf_def)
  have "(unat (q_header q) + 255) mod 256 = unat (q_tail q)" using q_tail_pos [OF assms(1)] assms(2) by simp
  then have "unat (q_tail (q_append c q)) = unat (q_header (q_append c q))"
    using q_bounds [OF assms(1)] unfolding t by (auto simp: mod_if split: if_splits)
  then show ?thesis by (simp add: q_view_def q_count_def)
qed

section \<open>Keys\<close>

lemma char_keys:
  assumes "unat sc < 132" "asciiNonShift1 ! unat sc \<noteq> 0" "asciiNonShift1 ! unat sc < F1"
  shows "asciiShift1 ! unat sc \<noteq> 0 \<and> asciiShift1 ! unat sc < F1"
proof -
  have "list_all (\<lambda>(a, b). a \<noteq> 0 \<and> a < F1 \<longrightarrow> b \<noteq> 0 \<and> b < F1) (zip asciiNonShift1 asciiShift1)"
    by (simp add: asciiNonShift1_def asciiShift1_def F1_def)
  moreover have "length asciiNonShift1 = 132" "length asciiShift1 = 132" by (simp_all add: asciiNonShift1_def asciiShift1_def)
  ultimately show ?thesis using assms by (auto simp: list_all_length)
qed

lemma char_press: "r < F1 \<Longrightarrow> kb_press_handle r t = t\<lparr>kbStatus := (kbStatus t)\<lparr>ks_e0 := False\<rparr>, kb_buf := q_append r (kb_buf t)\<rparr>"
  by (simp add: kb_press_handle_def kb_key_type_def)

lemma char_release: "r < F1 \<Longrightarrow> kb_release_handle r t = t\<lparr>kbStatus := (kbStatus t)\<lparr>ks_e0 := False, ks_f0 := False\<rparr>\<rparr>"
  by (simp add: kb_release_handle_def kb_key_type_def)

lemma table_codes: "unat (sc :: u8) < 132 \<Longrightarrow> sc \<noteq> 0xe0 \<and> sc \<noteq> 0xf0"
  by auto

lemma key_typed:
  assumes sc: "unat sc < 132" "asciiNonShift1 ! unat sc \<noteq> 0" "asciiNonShift1 ! unat sc < F1"
    and st: "\<not> ks_e0 (kbStatus t)" "\<not> ks_f0 (kbStatus t)"
  shows "kb_isrs [sc, 0xf0, sc] t = Some (t\<lparr>kb_buf := q_append
    ((if lShift (kbStatus t) \<or> rShift (kbStatus t) then asciiShift1 else asciiNonShift1) ! unat sc) (kb_buf t)\<rparr>)"
proof -
  let ?c = "(if lShift (kbStatus t) \<or> rShift (kbStatus t) then asciiShift1 else asciiNonShift1) ! unat sc"
  have len: "length asciiNonShift1 = 132" "length asciiShift1 = 132" by (simp_all add: asciiNonShift1_def asciiShift1_def)
  have sh: "asciiShift1 ! unat sc \<noteq> 0" "asciiShift1 ! unat sc < F1" using char_keys [OF sc] by auto
  have nz: "?c \<noteq> 0" "?c < F1" using sc sh by auto
  have same: "(kbStatus t)\<lparr>ks_e0 := False\<rparr> = kbStatus t" "(kbStatus t)\<lparr>ks_e0 := False, ks_f0 := False\<rparr> = kbStatus t"
    using st by (cases "kbStatus t"; simp)+
  have press: "kb_sc_parse sc t = Some (t\<lparr>kb_buf := q_append ?c (kb_buf t)\<rparr>)"
    using table_codes [OF sc(1)] st nz len sc(1) char_press [OF nz(2), of t] same(1)
    by (cases "lShift (kbStatus t) \<or> rShift (kbStatus t)") (simp_all add: kb_sc_parse_def key_of_def KNULL_def)
  have rel: "kb_sc_parse sc (t\<lparr>kb_buf := q, kbStatus := (kbStatus t)\<lparr>ks_f0 := True\<rparr>\<rparr>) = Some (t\<lparr>kb_buf := q\<rparr>)" for q
    using table_codes [OF sc(1)] st sh len sc(1) char_release [OF sh(2)] same(2) by (simp add: kb_sc_parse_def key_of_def KNULL_def)
  have f0: "kb_sc_parse 0xf0 t' = Some (on_status (\<lambda>k. k\<lparr>ks_f0 := True\<rparr>) t')" for t' by (simp add: kb_sc_parse_def)
  show ?thesis using press rel f0 by simp
qed

section \<open>Text on the screen\<close>

lemma put_loop_bytes: "put_loop n m p s = foldl (\<lambda>s k. vga_put_char (m (p + of_nat k)) s) s [0..<n]"
proof (induction n arbitrary: p s)
  case (Suc n)
  have "[0..<Suc n] = 0 # map Suc [0..<n]" by (simp only: upt_conv_Cons map_Suc_upt zero_less_Suc)
  then show ?case using Suc.IH [of "p + 1"] by (simp add: foldl_map add.assoc del: upt_Suc)
qed simp

lemma put_loop_shows:
  assumes "on_screen s" "unat (col (cursor s)) + n < VGA_WIDTH" "\<forall>k<n. m (p + of_nat k) \<noteq> NEWLINE"
  shows "let s' = put_loop n m p s; i = BUF_INDEX (col (cursor s)) (row (cursor s)) in
    terminal_color s' = terminal_color s \<and> row (cursor s') = row (cursor s) \<and> unat (col (cursor s')) = unat (col (cursor s)) + n \<and>
    terminal_buffer s' = (\<lambda>j. if i \<le> j \<and> j < i + n then vga_entry (m (p + of_nat (j - i))) (terminal_color s) else terminal_buffer s j)"
  unfolding put_loop_bytes using assms
proof (induction n)
  case (Suc n)
  define s' where "s' = foldl (\<lambda>s k. vga_put_char (m (p + of_nat k)) s) s [0..<n]"
  let ?i = "BUF_INDEX (col (cursor s)) (row (cursor s))"
  have IH: "terminal_color s' = terminal_color s" "row (cursor s') = row (cursor s)" "unat (col (cursor s')) = unat (col (cursor s)) + n"
    "terminal_buffer s' = (\<lambda>j. if ?i \<le> j \<and> j < ?i + n then vga_entry (m (p + of_nat (j - ?i))) (terminal_color s) else terminal_buffer s j)"
    using Suc by (simp_all add: s'_def Let_def)
  have at: "BUF_INDEX (col (cursor s')) (row (cursor s')) = ?i + n" using IH by (simp add: BUF_INDEX_def)
  have w: "unat (col (cursor s')) < 79" using Suc.prems IH by (simp add: VGA_WIDTH_def)
  have nl: "m (p + of_nat n) \<noteq> NEWLINE" using Suc.prems by simp
  have put: "vga_put_char (m (p + of_nat n)) s' =
      s'\<lparr>terminal_buffer := (terminal_buffer s')(?i + n := vga_entry (m (p + of_nat n)) (terminal_color s)),
         cursor := (cursor s')\<lparr>col := col (cursor s') + 1\<rparr>\<rparr>"
    using nl w by (simp add: vga_put_char_def vga_set_buf_def inc_col_def at IH(1) VGA_WIDTH_def)
  have "foldl (\<lambda>s k. vga_put_char (m (p + of_nat k)) s) s [0..<Suc n] = vga_put_char (m (p + of_nat n)) s'" by (simp add: s'_def)
  then show ?case using put IH w by (auto simp: Let_def unat_inc8 fun_eq_iff)
qed (auto simp: Let_def fun_eq_iff)

lemma put_string_shows:
  assumes "on_screen (screen t)" "p \<noteq> 0" "cstr (t_mem t) p cs" "NEWLINE \<notin> set cs"
    "unat (col (cursor (screen t))) + length cs < VGA_WIDTH"
  shows "\<exists>t'. put_string p t = Some t' \<and> on_screen (screen t') \<and>
    (\<forall>k<length cs. terminal_buffer (screen t') (BUF_INDEX (col (cursor (screen t))) (row (cursor (screen t))) + k) =
       vga_entry (cs ! k) (terminal_color (screen t)))"
proof -
  let ?s = "put_loop (length cs) (t_mem t) p (screen t)"
  have n: "unat (of_nat (length cs) :: u32) = length cs" using assms(5) by (simp add: unat_of_nat VGA_WIDTH_def)
  have b: "t_mem t (p + of_nat k) = cs ! k" if "k < length cs" for k using assms(3) that by (simp add: cstr_def)
  then have nl: "\<forall>k<length cs. t_mem t (p + of_nat k) \<noteq> NEWLINE" using assms(4) nth_mem by metis
  note cells = put_loop_shows [OF assms(1,5) nl, unfolded Let_def]
  have "put_string p t = Some (t\<lparr>screen := vga_sync_cursor ?s\<rparr>)"
    using assms(2,3) n by (simp add: put_string_def strlen_cstr)
  moreover have "on_screen ?s" using cells assms(1,5) by (simp add: on_screen_def)
  moreover have "terminal_buffer (vga_sync_cursor ?s) = terminal_buffer ?s"
    by (simp add: vga_sync_cursor_def outb_def Let_def)
  ultimately show ?thesis using cells b vga_stepD [OF sync_step] by auto
qed

section \<open>Properties\<close>

text \<open>
  C30. Keyboard buffer. With fewer than 255 characters waiting the ring buffer is a first-in
  first-out queue: \<^verbatim>\<open>q_append\<close> adds at the end, \<^verbatim>\<open>q_pop\<close> takes the oldest character and returns
  \<^verbatim>\<open>KB_NULL\<close> when none waits. The 256th character loses all of them.
\<close>

theorem kb_queue_fifo:
  assumes "q_wf q"
  shows "q_wf (q_append c q) \<and> q_wf (snd (q_pop q)) \<and>
    (q_count q < 255 \<longrightarrow> q_view (q_append c q) = q_view q @ [c]) \<and>
    (case q_view q of [] \<Rightarrow> q_pop q = (KB_NULL, q) | d # ds \<Rightarrow> \<exists>q'. q_pop q = (d, q') \<and> q_view q' = ds) \<and>
    (q_count q = 255 \<longrightarrow> q_view (q_append c q) = [])"
  using assms q_append_wf q_pop_wf q_append_view q_pop_view q_append_overflow by blast

theorem kb_queue_fifo_witness:
  "\<exists>q. q_count q = 255 \<and> q_view (q_append 65 q) = []"
proof -
  fix b :: "u32 \<Rightarrow> u8"
  let ?q = "\<lparr>q_buffer = b, q_header = 1, q_tail = 0\<rparr>"
  have "q_wf ?q" "q_count ?q = 255" by (simp_all add: q_wf_def KB_BUFFER_SIZE_def q_count_def)
  then show ?thesis using kb_queue_fifo [of ?q 65] by blast
qed

text \<open>
  Typing. Pressing and releasing a character key appends exactly its character, the shifted one
  while a shift key is held, and leaves the modifiers and the screen as they were; the page-up key,
  which has no entry in the table, makes the kernel panic.
\<close>

theorem typing_a_key:
  assumes "unat sc < 132" "asciiNonShift1 ! unat sc \<noteq> KNULL" "asciiNonShift1 ! unat sc < F1"
    "\<not> ks_e0 (kbStatus t)" "\<not> ks_f0 (kbStatus t)"
  shows "kb_isrs [sc, 0xf0, sc] t = Some (t\<lparr>kb_buf := q_append
      ((if lShift (kbStatus t) \<or> rShift (kbStatus t) then asciiShift1 else asciiNonShift1) ! unat sc) (kb_buf t)\<rparr>) \<and>
    kb_isrs [0xe0, 0x7d] t = None"
proof
  have "asciiNonShift1 ! unat sc \<noteq> 0" using assms(2) by (simp add: KNULL_def)
  then show "kb_isrs [sc, 0xf0, sc] t = Some (t\<lparr>kb_buf := q_append
      ((if lShift (kbStatus t) \<or> rShift (kbStatus t) then asciiShift1 else asciiNonShift1) ! unat sc) (kb_buf t)\<rparr>)"
    using assms by (intro key_typed)
  show "kb_isrs [0xe0, 0x7d] t = None"
    using assms(5) by (simp add: kb_sc_parse_def key_of_def ascii2_def KNULL_def)
qed

theorem typing_a_key_witness:
  "\<exists>t. kb_isrs [0x1c, 0xf0, 0x1c] t = Some (t\<lparr>kb_buf := q_append 65 (kb_buf t)\<rparr>)"
proof -
  fix t0 :: terminal
  let ?t = "t0\<lparr>kbStatus := (kbStatus t0)\<lparr>ks_e0 := False, ks_f0 := False, lShift := True\<rparr>\<rparr>"
  have "asciiNonShift1 ! unat (0x1c :: u8) = 97" "asciiShift1 ! unat (0x1c :: u8) = 65" by (simp_all add: asciiNonShift1_def asciiShift1_def)
  then show ?thesis using typing_a_key [of "0x1c" ?t] by (intro exI [of _ ?t]) (simp add: KNULL_def F1_def)
qed

text \<open>
  Printing a number. \<^verbatim>\<open>print_u\<close>, the \<^verbatim>\<open>%u\<close> of \<^verbatim>\<open>printfk\<close>, returns for every 64-bit value and, where
  the line has room, leaves on the screen from the cursor on the digits of the value, each with the
  current colour.
\<close>

theorem print_u_shows:
  assumes "on_screen (screen t)" "stk \<noteq> 0" "unat (col (cursor (screen t))) + 20 < VGA_WIDTH"
  shows "\<exists>t' cs. print_u stk v t = Some t' \<and> dec_value cs = unat v \<and> on_screen (screen t') \<and>
    (\<forall>k<length cs. terminal_buffer (screen t') (BUF_INDEX (col (cursor (screen t))) (row (cursor (screen t))) + k) =
       vga_entry (cs ! k) (terminal_color (screen t)))"
proof -
  obtain m cs where u: "utoa v stk (t_mem t) = Some m" "cstr m stk cs" "dec_value cs = unat v" "length cs \<le> 20"
    "\<forall>c \<in> set cs. 48 \<le> unat c \<and> unat c < 58"
    using utoa_string [OF assms(2), of v "t_mem t"] by blast
  have "NEWLINE \<notin> set cs" using u(5) by (force simp: NEWLINE_def)
  then show ?thesis using u assms put_string_shows [of "t\<lparr>t_mem := m\<rparr>" stk cs] by (auto simp: print_u_def)
qed

theorem print_u_shows_witness:
  "\<exists>t t' cs. print_u 0xc0001000 1234567890123 t = Some t' \<and> dec_value cs = 1234567890123 \<and> on_screen (screen t')"
proof -
  fix t0 :: terminal
  let ?t = "t0\<lparr>screen := (screen t0)\<lparr>cursor := \<lparr>row = 0, col = 0\<rparr>\<rparr>\<rparr>"
  have "on_screen (screen ?t)" by (simp add: on_screen_def VGA_WIDTH_def VGA_HEIGHT_def)
  then show ?thesis using print_u_shows [of ?t "0xc0001000" 1234567890123] by (auto simp: VGA_WIDTH_def)
qed

end
