(* ===== verification/Clock.thy ===== *)
theory Clock
  imports Sched "HOL-Library.Signed_Division"
begin

text \<open>
  The real-time clock: \<^verbatim>\<open>drivers/cmos.c\<close> reads the date from the CMOS registers and \<^verbatim>\<open>lib/time.c\<close>
  turns it into seconds since 1970. The device is a parameter: \<open>dev n reg\<close> is the byte the \<open>n\<close>-th
  port read finds in register \<open>reg\<close>, so a clock that advances between two reads is a function of \<open>n\<close>.

  \<^verbatim>\<open>century_register\<close> is never set, so the branches on it are dead and are left out.
\<close>

section \<open>Definitions\<close>

record cmos_time =
  second :: u8
  minute :: u8
  hour :: u8
  day :: u8
  month :: u8
  year :: int

definition CURRENT_YEAR :: int where "CURRENT_YEAR = 2022"

subsection \<open>Seconds since 1970\<close>

definition month_days :: "bool \<Rightarrow> u8 list" where
  "month_days is_leap = [31, if is_leap then 29 else 28, 31, 30, 31, 30, 31, 31, 30, 31, 30, 31]"

text \<open>The loop over the months before the current one; an index beyond the table is undefined.\<close>

fun month_loop :: "nat \<Rightarrow> u8 list \<Rightarrow> u32 \<Rightarrow> u32 option" where
  "month_loop 0 tab days = Some days"
| "month_loop (Suc n) [] days = None"
| "month_loop (Suc n) (d # tab) days = month_loop n tab (days + ucast d)"

definition utc2stamp :: "cmos_time \<Rightarrow> u64 option" where
  "utc2stamp t = do {
     let years = (of_int (year t - 1970) :: u32);
     let leap_year = (of_int (drop_bit 2 (year t - 1968) - (year t - 1900) sdiv 100 + (year t - 1600) sdiv 400) :: u32);
     let days = leap_year * 366 + (years - leap_year) * 365;
     let is_leap = (year t smod 100 \<noteq> 0 \<and> year t AND 3 = 0 \<or> year t smod 400 = 0);
     days \<leftarrow> month_loop (unat (month t) - 1) (month_days is_leap) days;
     let days = days + (ucast (day t) - 1);
     Some (ucast (days * 24 * 60 * 60 + ucast (hour t) * 60 * 60 + ucast (minute t) * 60 + ucast (second t)))
   }"

subsection \<open>Reading the device\<close>

type_synonym rtc = "nat \<Rightarrow> u8 \<Rightarrow> u8"

definition get_RTC_register :: "rtc \<Rightarrow> u8 \<Rightarrow> nat \<Rightarrow> u8 \<times> nat" where
  "get_RTC_register dev reg n = (dev n reg, Suc n)"

definition get_update_in_progress_flag :: "rtc \<Rightarrow> nat \<Rightarrow> bool \<times> nat" where
  "get_update_in_progress_flag dev n = (dev n 0x0A AND 0x80 \<noteq> 0, Suc n)"

partial_function (option) wait_update :: "rtc \<Rightarrow> nat \<Rightarrow> nat option" where
  "wait_update dev n = (let (busy, n) = get_update_in_progress_flag dev n in if busy then wait_update dev n else Some n)"

text \<open>The macro \<^verbatim>\<open>CMOS_READ\<close>.\<close>

definition CMOS_READ :: "rtc \<Rightarrow> nat \<Rightarrow> (cmos_time \<times> nat) option" where
  "CMOS_READ dev n = do {
     n \<leftarrow> wait_update dev n;
     let (s, n) = get_RTC_register dev 0x00 n;
     let (mi, n) = get_RTC_register dev 0x02 n;
     let (h, n) = get_RTC_register dev 0x04 n;
     let (d, n) = get_RTC_register dev 0x07 n;
     let (mo, n) = get_RTC_register dev 0x08 n;
     let (y, n) = get_RTC_register dev 0x09 n;
     Some (\<lparr>second = s, minute = mi, hour = h, day = d, month = mo, year = uint y\<rparr>, n)
   }"

text \<open>Read until two readings agree.\<close>

partial_function (option) stable_read :: "rtc \<Rightarrow> cmos_time \<Rightarrow> nat \<Rightarrow> (cmos_time \<times> nat) option" where
  "stable_read dev t n = do {
     (t', n) \<leftarrow> CMOS_READ dev n;
     if t' \<noteq> t then stable_read dev t' n else Some (t', n)
   }"

definition bcd :: "u8 \<Rightarrow> u8" where
  "bcd b = (b AND 0x0F) + (b div 16) * 10"

definition convert_bcd :: "u8 \<Rightarrow> cmos_time \<Rightarrow> cmos_time" where
  "convert_bcd regB t = (if regB AND 0x04 = 0
     then t\<lparr>second := bcd (second t), minute := bcd (minute t),
            hour := ((hour t AND 0x0F) + ((hour t AND 0x70) div 16) * 10) OR (hour t AND 0x80),
            day := bcd (day t), month := bcd (month t), year := (year t AND 0x0F) + (year t div 16) * 10\<rparr>
     else t)"

definition convert_12h :: "u8 \<Rightarrow> cmos_time \<Rightarrow> cmos_time" where
  "convert_12h regB t = (if regB AND 0x02 = 0 \<and> hour t AND 0x80 \<noteq> 0
     then t\<lparr>hour := ((hour t AND 0x7F) + 12) mod 24\<rparr> else t)"

definition full_year :: "cmos_time \<Rightarrow> cmos_time" where
  "full_year t = (let y = year t + CURRENT_YEAR div 100 * 100
     in t\<lparr>year := if y < CURRENT_YEAR then y + 100 else y\<rparr>)"

definition read_rtc :: "rtc \<Rightarrow> (cmos_time \<times> nat) option" where
  "read_rtc dev = do {
     (t, n) \<leftarrow> CMOS_READ dev 0;
     (t, n) \<leftarrow> stable_read dev t n;
     let (regB, n) = get_RTC_register dev 0x0B n;
     Some (full_year (convert_12h regB (convert_bcd regB t)), n)
   }"

text \<open>\<^verbatim>\<open>cmos_init\<close> returns the start-up time stamp; \<^verbatim>\<open>cur_timestamp\<close> adds the seconds since then.\<close>

definition cmos_init :: "rtc \<Rightarrow> u64 option" where
  "cmos_init dev = do { (t, n) \<leftarrow> read_rtc dev; utc2stamp t }"

definition cur_timestamp :: "u64 \<Rightarrow> sched \<Rightarrow> u64" where
  "cur_timestamp startup s = startup + sd_tick s div 1000"

section \<open>The calendar\<close>

definition leap :: "int \<Rightarrow> bool" where
  "leap y \<longleftrightarrow> (y mod 4 = 0 \<and> y mod 100 \<noteq> 0) \<or> y mod 400 = 0"

definition year_len :: "int \<Rightarrow> int" where
  "year_len y = (if leap y then 366 else 365)"

definition epoch_days :: "int \<Rightarrow> nat \<Rightarrow> nat \<Rightarrow> int" where
  "epoch_days y m d = (\<Sum>i \<in> {1970..<y}. year_len i) + (\<Sum>i<m - 1. uint (month_days (leap y) ! i)) + int d - 1"

lemma smod_pos: "0 \<le> a \<Longrightarrow> 0 < b \<Longrightarrow> (a :: int) smod b = a mod b"
  by (simp add: signed_modulo_int_def signed_divide_int_def minus_div_mult_eq_mod sgn_if)

lemma sdiv_pos: "0 \<le> a \<Longrightarrow> 0 < b \<Longrightarrow> (a :: int) sdiv b = a div b"
  by (auto simp: signed_divide_int_def sgn_if)

lemma leap_test:
  assumes "0 \<le> y"
  shows "(y smod 100 \<noteq> 0 \<and> y AND 3 = 0 \<or> y smod 400 = 0) = leap y"
proof -
  have "y AND 3 = y mod 4" using take_bit_eq_mod [of 2 y] take_bit_eq_mask [of 2 y] by (simp add: mask_eq_exp_minus_1)
  then show ?thesis using assms by (auto simp: leap_def smod_pos)
qed

text \<open>The number of leap years from 1970 up to and including the year.\<close>

definition leaps :: "int \<Rightarrow> int" where
  "leaps y = (y - 1968) div 4 - (y - 1900) div 100 + (y - 1600) div 400"

lemma div_step:
  assumes "0 < (k :: int)"
  shows "(a + 1) div k = a div k + (if (a + 1) mod k = 0 then 1 else 0)"
proof (cases "a mod k + 1 = k")
  case True
  then have "a + 1 = k * (a div k + 1)" using mult_div_mod_eq [of k a] unfolding distrib_left by linarith
  then show ?thesis using assms by simp
next
  case False
  have r: "0 \<le> a mod k" "a mod k < k" using assms by simp_all
  have b: "0 \<le> a mod k + 1" "a mod k + 1 < k" using r False by linarith+
  have a: "a + 1 = k * (a div k) + (a mod k + 1)" using mult_div_mod_eq [of k a] by linarith
  have "(a + 1) div k = a div k" by (rule int_div_pos_eq [OF a b])
  moreover have "(a + 1) mod k = a mod k + 1" by (rule int_mod_pos_eq [OF a b])
  ultimately show ?thesis using r by simp
qed

lemma leaps_step: "leaps (y + 1) = leaps y + (if leap (y + 1) then 1 else 0)"
proof -
  define P where "P k = ((y + 1) mod k = 0)" for k
  define q where "q c k = (y - c) div k" for c k
  have st: "(y + 1 - c) div k = q c k + (if P k then 1 else 0)" if "0 < k" "c mod k = 0" for c k :: int
  proof -
    have "y - c + 1 = y + 1 - c" by simp
    moreover have "(y + 1 - c) mod k = (y + 1) mod k"
      using mod_diff_right_eq [of "y + 1" c k] that(2) by (simp del: mod_diff_right_eq)
    ultimately show ?thesis using div_step [OF that(1), of "y - c"] unfolding P_def q_def by (simp only:)
  qed
  have "(100 :: int) dvd 400" "(4 :: int) dvd 100" by simp_all
  then have "P 400 \<Longrightarrow> P 100" "P 100 \<Longrightarrow> P 4" unfolding P_def mod_eq_0_iff_dvd by (blast intro: dvd_trans)+
  moreover have "leap (y + 1) \<longleftrightarrow> P 4 \<and> \<not> P 100 \<or> P 400" by (simp only: leap_def P_def)
  moreover have "leaps y = q 1968 4 - q 1900 100 + q 1600 400" by (simp only: leaps_def q_def)
  moreover have "leaps (y + 1) = (q 1968 4 + (if P 4 then 1 else 0)) - (q 1900 100 + (if P 100 then 1 else 0)) +
      (q 1600 400 + (if P 400 then 1 else 0))"
    unfolding leaps_def using st [of 4 1968] st [of 100 1900] st [of 400 1600] by simp
  ultimately show ?thesis by auto
qed

lemma years_days:
  assumes "1970 \<le> y"
  shows "(\<Sum>i \<in> {1970..<y}. year_len i) = 365 * (y - 1970) + leaps (y - 1)"
  using assms
proof (induction y rule: int_ge_induct)
  case base
  show ?case by (simp add: leaps_def)
next
  case (step y)
  have "{1970..<y + 1} = insert y {1970..<y}" using step.hyps by auto
  then show ?case using step.IH leaps_step [of "y - 1"] by (simp add: year_len_def)
qed

lemma leaps_bounds: "1970 \<le> y \<Longrightarrow> 0 \<le> leaps y \<and> leaps y \<le> y - 1970"
proof (induction y rule: int_ge_induct)
  case base
  show ?case by (simp add: leaps_def)
next
  case (step y)
  then show ?case using leaps_step [of y] by (simp split: if_splits)
qed

lemma month_loop_sum:
  "n \<le> length tab \<Longrightarrow> month_loop n tab days = Some (days + of_int (\<Sum>i<n. uint (tab ! i)))"
proof (induction n tab days rule: month_loop.induct)
  case (3 n d tab days)
  have "(\<Sum>i<Suc n. uint ((d # tab) ! i)) = uint d + (\<Sum>i<n. uint (tab ! i))"
    by (simp only: sum.lessThan_Suc_shift) simp
  then show ?case using 3 by (simp add: add.assoc)
qed simp_all

lemma month_sum_le: "n \<le> 12 \<Longrightarrow> (\<Sum>i<n. uint (month_days b ! i)) \<le> 31 * int n"
proof (induction n)
  case (Suc n)
  have "n \<in> {0, 1, 2, 3, 4, 5, 6, 7, 8, 9, 10, 11}" using Suc.prems by simp presburger
  then have "uint (month_days b ! n) \<le> 31" by (elim insertE emptyE) (simp_all add: month_days_def)
  then show ?case using Suc by simp
qed simp

definition valid_date :: "cmos_time \<Rightarrow> bool" where
  "valid_date t \<longleftrightarrow> 1970 \<le> year t \<and> year t < 2100 \<and> 1 \<le> unat (month t) \<and> unat (month t) \<le> 12 \<and>
     1 \<le> unat (day t) \<and> unat (day t) \<le> 31 \<and> unat (hour t) < 24 \<and> unat (minute t) < 60 \<and> unat (second t) < 60"

definition seconds_of :: "cmos_time \<Rightarrow> int" where
  "seconds_of t = 86400 * epoch_days (year t) (unat (month t)) (unat (day t)) +
     3600 * int (unat (hour t)) + 60 * int (unat (minute t)) + int (unat (second t))"

lemma epoch_days_eq:
  "1970 \<le> y \<Longrightarrow> epoch_days y m d + (if leap y then 1 else 0) =
     365 * (y - 1970) + leaps y + (\<Sum>i<m - 1. uint (month_days (leap y) ! i)) + int d - 1"
  using years_days [of y] leaps_step [of "y - 1"] by (simp add: epoch_days_def)

lemma stamp_bound:
  assumes "valid_date t"
  shows "0 \<le> seconds_of t \<and> seconds_of t + 86400 < 2 ^ 32"
proof -
  let ?M = "\<Sum>i<unat (month t) - 1. uint (month_days (leap (year t)) ! i)"
  have n: "unat (month t) - 1 \<le> 11" using assms unfolding valid_date_def by linarith
  have M: "0 \<le> ?M" "?M \<le> 31 * int (unat (month t) - 1)" using n month_sum_le [of "unat (month t) - 1" "leap (year t)"]
    by (auto intro: sum_nonneg)
  have l: "0 \<le> leaps (year t)" "leaps (year t) \<le> year t - 1970" using leaps_bounds [of "year t"] assms by (simp_all add: valid_date_def)
  have "0 \<le> (\<Sum>i \<in> {1970..<year t}. year_len i)" by (rule sum_nonneg) (simp add: year_len_def)
  moreover have v: "1970 \<le> year t" "year t - 1970 \<le> 129" "1 \<le> int (unat (day t))" "int (unat (day t)) \<le> 31"
    "int (unat (hour t)) \<le> 23" "int (unat (minute t)) \<le> 59" "int (unat (second t)) \<le> 59"
    using assms unfolding valid_date_def by linarith+
  ultimately have e: "0 \<le> epoch_days (year t) (unat (month t)) (unat (day t))" using M(1) unfolding epoch_days_def by linarith
  have d: "epoch_days (year t) (unat (month t)) (unat (day t)) \<le> 365 * (year t - 1970) + leaps (year t) + ?M + int (unat (day t)) - 1"
    using epoch_days_eq [OF v(1), of "unat (month t)" "unat (day t)"] by (auto split: if_splits)
  have m: "?M \<le> 341" using M(2) n by linarith
  have "e \<le> 365 * Y + L + M + D - 1 \<Longrightarrow> M \<le> 341 \<Longrightarrow> L \<le> Y \<Longrightarrow> Y \<le> 129 \<Longrightarrow> D \<le> 31 \<Longrightarrow> e \<le> 47585"
    for e Y L M D :: int by linarith
  from this [OF d m l(2) v(2,4)] have "epoch_days (year t) (unat (month t)) (unat (day t)) \<le> 47585" .
  then show ?thesis using e v unfolding seconds_of_def by auto
qed

lemma stamp_word:
  "(of_int a + of_int b + (of_int c - 1)) * 24 * 60 * 60 + of_int h * 60 * 60 + of_int mi * 60 + of_int s =
     (of_int (86400 * (a + b + c - 1) + 3600 * h + 60 * mi + s) :: u32)"
  by (simp add: algebra_simps)

lemma utc2stamp_value:
  assumes "valid_date t"
  shows "utc2stamp t = Some (of_int (seconds_of t + (if leap (year t) then 86400 else 0)))"
proof -
  let ?y = "year t" and ?n = "unat (month t) - 1"
  let ?M = "\<Sum>i<?n. uint (month_days (leap ?y) ! i)"
  let ?V = "seconds_of t + (if leap ?y then 86400 else 0)"
  have y: "1970 \<le> ?y" using assms by (simp add: valid_date_def)
  have "?n \<le> 12" using assms unfolding valid_date_def by linarith
  moreover have "length (month_days (leap ?y)) = 12" by (simp add: month_days_def)
  ultimately have n: "?n \<le> length (month_days (leap ?y))" by (simp only:)
  have lp: "drop_bit 2 (?y - 1968) - (?y - 1900) sdiv 100 + (?y - 1600) sdiv 400 = leaps ?y"
    using y by (simp add: leaps_def sdiv_pos drop_bit_eq_div)
  have u: "(ucast (w :: u8) :: u32) = of_int (int (unat w))" for w by (simp add: word_unat_eq_iff unat_ucast_le unat_of_nat)
  have d: "(of_int (leaps ?y) :: u32) * 366 + (of_int (?y - 1970) - of_int (leaps ?y)) * 365 = of_int (365 * (?y - 1970) + leaps ?y)"
    by (simp add: algebra_simps)
  have t: "(?y smod 100 \<noteq> 0 \<and> ?y AND 3 = 0 \<or> ?y smod 400 = 0) = leap ?y" using y by (intro leap_test) simp
  have "utc2stamp t = Some (ucast (of_int (86400 * (365 * (?y - 1970) + leaps ?y + ?M + int (unat (day t)) - 1) +
      3600 * int (unat (hour t)) + 60 * int (unat (minute t)) + int (unat (second t))) :: u32))"
    by (simp only: utc2stamp_def lp t Let_def d month_loop_sum [OF n] bind.bind_lunit u stamp_word)
  also have "86400 * (365 * (?y - 1970) + leaps ?y + ?M + int (unat (day t)) - 1) +
      3600 * int (unat (hour t)) + 60 * int (unat (minute t)) + int (unat (second t)) = ?V"
    using epoch_days_eq [OF y, of "unat (month t)" "unat (day t)"] by (simp add: seconds_of_def split: if_splits)
  also have "(ucast (of_int ?V :: u32) :: u64) = of_int ?V"
  proof -
    have "uint (of_int v :: u32) = v" if "0 \<le> v" "v < 2 ^ 32" for v using that by (simp add: uint_word_of_int)
    moreover have "0 \<le> ?V" "?V < 2 ^ 32" using stamp_bound [OF assms] by (auto split: if_splits)
    ultimately have "uint (of_int ?V :: u32) = ?V" by blast
    then show ?thesis by (simp add: ucast_eq)
  qed
  finally show ?thesis .
qed

section \<open>A steady clock\<close>

text \<open>A two-digit number in binary-coded decimal.\<close>

definition to_bcd :: "nat \<Rightarrow> u8" where
  "to_bcd v = of_nat (16 * (v div 10) + v mod 10)"

lemma bcd_of: 
  assumes "v < 100"
  shows "bcd (to_bcd v) = of_nat v"
proof -
  have d: "v div 10 < 10" using assms by simp
  have m: "v mod 10 < 10" by simp
  have u: "unat (to_bcd v) = 16 * (v div 10) + v mod 10"
    unfolding to_bcd_def unat_of_nat using d m by (intro mod_less) simp
  have lo: "unat (to_bcd v AND 0x0F) = v mod 10"
  proof -
    have "to_bcd v AND 0x0F = take_bit 4 (to_bcd v)" by (simp add: take_bit_eq_mask mask_eq_exp_minus_1)
    then have "unat (to_bcd v AND 0x0F) = unat (to_bcd v) mod 16" by (simp add: unat_mod take_bit_eq_mod)
    also have "\<dots> = v mod 10" unfolding u using m by simp
    finally show ?thesis .
  qed
  have hi: "unat (to_bcd v div 16) = v div 10" using u m by (simp add: unat_div)
  have "to_bcd v AND 0x0F = of_nat (v mod 10)" "to_bcd v div 16 = of_nat (v div 10)"
    using d lo hi by (simp_all add: word_unat_eq_iff unat_of_nat)
  then have "bcd (to_bcd v) = of_nat (v mod 10 + v div 10 * 10)" by (simp only: bcd_def of_nat_add of_nat_mult of_nat_numeral)
  then show ?thesis by simp
qed

lemma bcd_hour:
  assumes "h < 24"
  shows "((to_bcd h AND 0x0F) + ((to_bcd h AND 0x70) div 16) * 10) OR (to_bcd h AND 0x80) = of_nat h \<and> (of_nat h :: u8) AND 0x80 = 0"
proof -
  have "h \<in> {0, 1, 2, 3, 4, 5, 6, 7, 8, 9, 10, 11, 12, 13, 14, 15, 16, 17, 18, 19, 20, 21, 22, 23}" using assms by simp presburger
  then show ?thesis by (elim insertE emptyE) (simp_all add: to_bcd_def)
qed

text \<open>A device that shows the date \<open>t\<close> in binary-coded decimal and the 24-hour format, and is not updating.\<close>

definition shows_date :: "rtc \<Rightarrow> cmos_time \<Rightarrow> bool" where
  "shows_date dev t \<longleftrightarrow> (\<forall>n. dev n 0x0A AND 0x80 = 0 \<and> dev n 0x0B AND 0x04 = 0 \<and>
     dev n 0x00 = to_bcd (unat (second t)) \<and> dev n 0x02 = to_bcd (unat (minute t)) \<and> dev n 0x04 = to_bcd (unat (hour t)) \<and>
     dev n 0x07 = to_bcd (unat (day t)) \<and> dev n 0x08 = to_bcd (unat (month t)) \<and> dev n 0x09 = to_bcd (nat (year t mod 100)))"

lemma wait_update_idle: "shows_date dev t \<Longrightarrow> wait_update dev n = Some (Suc n)"
  by (subst wait_update.simps) (simp add: get_update_in_progress_flag_def shows_date_def)

lemma CMOS_READ_idle:
  "shows_date dev t \<Longrightarrow> \<exists>m. CMOS_READ dev n = Some (\<lparr>second = to_bcd (unat (second t)), minute = to_bcd (unat (minute t)),
     hour = to_bcd (unat (hour t)), day = to_bcd (unat (day t)), month = to_bcd (unat (month t)),
     year = uint (to_bcd (nat (year t mod 100)))\<rparr>, m)"
  by (simp add: CMOS_READ_def wait_update_idle get_RTC_register_def shows_date_def)

lemma year_digits:
  assumes "v < 100"
  shows "(uint (to_bcd v) AND 0x0F) + uint (to_bcd v) div 16 * 10 = int v"
proof -
  have d: "v div 10 < 10" using assms by simp
  have m: "v mod 10 < 10" by simp
  have "unat (to_bcd v) = 16 * (v div 10) + v mod 10"
    unfolding to_bcd_def unat_of_nat using d m by (intro mod_less) simp
  then have u: "uint (to_bcd v) = int (16 * (v div 10) + v mod 10)" by (simp only: uint_nat)
  have "uint (to_bcd v) AND 0x0F = uint (to_bcd v) mod 16"
    using take_bit_eq_mask [of 4 "uint (to_bcd v)"] by (simp add: take_bit_eq_mod mask_eq_exp_minus_1)
  also have "\<dots> = int (v mod 10)" unfolding u zmod_int [of _ 16, symmetric, simplified] using m by (simp add: zmod_int)
  finally have "uint (to_bcd v) AND 0x0F = int (v mod 10)" .
  moreover have "uint (to_bcd v) div 16 = int (v div 10)" unfolding u using m by (simp add: zdiv_int)
  ultimately show ?thesis by (simp add: zmod_int zdiv_int)
qed

lemma read_rtc_idle:
  assumes dev: "shows_date dev t" and v: "valid_date t" and y: "2022 \<le> year t"
  shows "\<exists>n. read_rtc dev = Some (t, n)"
proof -
  define raw where "raw = \<lparr>second = to_bcd (unat (second t)), minute = to_bcd (unat (minute t)),
     hour = to_bcd (unat (hour t)), day = to_bcd (unat (day t)), month = to_bcd (unat (month t)),
     year = uint (to_bcd (nat (year t mod 100)))\<rparr>"
  obtain n where n: "CMOS_READ dev 0 = Some (raw, n)" using CMOS_READ_idle [OF dev, of 0] unfolding raw_def by blast
  obtain m where m: "CMOS_READ dev n = Some (raw, m)" using CMOS_READ_idle [OF dev, of n] unfolding raw_def by blast
  then have st: "stable_read dev raw n = Some (raw, m)" by (subst stable_read.simps) simp
  have b: "dev m 0x0B AND 0x04 = 0" using dev by (simp add: shows_date_def)
  have lt: "unat (second t) < 100" "unat (minute t) < 100" "unat (hour t) < 24" "unat (day t) < 100" "unat (month t) < 100"
    using v unfolding valid_date_def by linarith+
  have yy: "nat (year t mod 100) < 100" "int (nat (year t mod 100)) = year t mod 100" by simp_all
  let ?u = "t\<lparr>year := year t mod 100\<rparr>"
  have c: "convert_bcd (dev m 0x0B) raw = ?u"
    using b bcd_of [OF lt(1)] bcd_of [OF lt(2)] bcd_hour [OF lt(3)] bcd_of [OF lt(4)] bcd_of [OF lt(5)] year_digits [OF yy(1)] yy(2)
    by (cases t) (simp add: convert_bcd_def raw_def)
  have "hour t AND 0x80 = 0" using bcd_hour [OF lt(3)] by simp
  then have h: "convert_12h (dev m 0x0B) ?u = ?u" by (simp add: convert_12h_def)
  have "year t div 100 = 20" using y v unfolding valid_date_def by linarith
  then have "year t mod 100 + 2000 = year t" using mult_div_mod_eq [of 100 "year t"] by simp
  then have "full_year ?u = t" using y by (simp add: full_year_def CURRENT_YEAR_def)
  then show ?thesis using n st c h by (simp add: read_rtc_def get_RTC_register_def)
qed

section \<open>Properties\<close>

text \<open>
  The start-up time. When the clock shows a date from 2022 to 2099 in binary-coded decimal and is not being
  updated, \<^verbatim>\<open>cmos_init\<close> returns, decodes the date exactly, and yields the seconds since 1970, except
  that in a leap year it is one whole day ahead: the year's own leap day is counted twice.
\<close>

theorem startup_timestamp_correct:
  assumes "shows_date dev t" "valid_date t" "2022 \<le> year t"
  shows "cmos_init dev = Some (of_int (seconds_of t + (if leap (year t) then 86400 else 0)))"
  using read_rtc_idle [OF assms] utc2stamp_value [OF assms(2)] by (auto simp: cmos_init_def)

theorem startup_timestamp_correct_witness:
  "\<exists>dev t. shows_date dev t \<and> year t = 2024 \<and> leap 2024 \<and> cmos_init dev = Some (of_int (seconds_of t + 86400))"
proof -
  let ?t = "\<lparr>second = 0, minute = 30, hour = 12, day = 1, month = 1, year = 2024\<rparr>"
  let ?dev = "\<lambda>(n :: nat) (r :: u8). if r = 2 then 0x30 else if r = 4 then 0x12 else if r = 7 \<or> r = 8 then 1
    else if r = 9 then 0x24 else (0 :: u8)"
  have d: "shows_date ?dev ?t" by (simp add: shows_date_def to_bcd_def)
  moreover have "valid_date ?t" by (simp add: valid_date_def)
  moreover have l: "leap 2024" by (simp add: leap_def)
  ultimately have "cmos_init ?dev = Some (of_int (seconds_of ?t + (if leap (year ?t) then 86400 else 0)))"
    by (intro startup_timestamp_correct) simp_all
  then have "cmos_init ?dev = Some (of_int (seconds_of ?t + 86400))" using l by simp
  then show ?thesis using d l by (intro exI [of _ ?dev] exI [of _ ?t]) simp
qed

end
