(* ===== verification/Ide.thy ===== *)
theory Ide
  imports Quark_Prelude
begin

text \<open>
  The disk driver \<^verbatim>\<open>drivers/ide.c\<close>. The drive is the environment: the record \<open>ata\<close> holds the registers
  the driver programs and the sectors, and \<open>ata_inb\<close>, \<open>ata_outb\<close>, \<open>ata_insw\<close>, \<open>ata_outsw\<close> give the effect
  the ATA documentation assigns to the port accesses the driver makes; a drive stays busy for
  \<open>a_latency cmd\<close> status reads after the command \<open>cmd\<close>, and raises its interrupt when it is no longer
  busy (\<open>ata_intr\<close>). A transfer while the drive is busy, or of another length than the one announced, is
  undefined. A page buffer is a function from byte offsets to bytes.
\<close>

section \<open>The drive\<close>

datatype ata_xfer = XIdle | XRead u32 nat | XWrite u32 nat | XIdentify

record ata =
  a_dh :: u8
  a_count :: u8
  a_num :: u8
  a_cyl_l :: u8
  a_cyl_h :: u8
  a_busy :: nat
  a_latency :: "u8 \<Rightarrow> nat"
  a_xfer :: ata_xfer
  a_disk :: "u32 \<Rightarrow> nat \<Rightarrow> u8"
  a_ident :: "nat \<Rightarrow> u8"

definition ata_lba :: "ata \<Rightarrow> u32" where
  "ata_lba a = push_bit 24 (ucast (a_dh a AND 0x0F)) OR push_bit 16 (ucast (a_cyl_h a)) OR
     push_bit 8 (ucast (a_cyl_l a)) OR ucast (a_num a)"

definition ata_outb :: "u16 \<Rightarrow> u8 \<Rightarrow> ata \<Rightarrow> ata" where
  "ata_outb port v a =
     (if port = 0x1F2 then a\<lparr>a_count := v\<rparr>
      else if port = 0x1F3 then a\<lparr>a_num := v\<rparr>
      else if port = 0x1F4 then a\<lparr>a_cyl_l := v\<rparr>
      else if port = 0x1F5 then a\<lparr>a_cyl_h := v\<rparr>
      else if port = 0x1F6 then a\<lparr>a_dh := v\<rparr>
      else if port = 0x1F7 then
        (let a = a\<lparr>a_busy := a_latency a v\<rparr> in
         if v = 0xC4 then a\<lparr>a_xfer := XRead (ata_lba a) (unat (a_count a))\<rparr>
         else if v = 0xC5 then a\<lparr>a_xfer := XWrite (ata_lba a) (unat (a_count a))\<rparr>
         else if v = 0xEC then a\<lparr>a_xfer := XIdentify\<rparr> else a)
      else a)"

definition ata_inb :: "u16 \<Rightarrow> ata \<Rightarrow> u8 \<times> ata" where
  "ata_inb port a =
     (if port = 0x1F7 then (if 0 < a_busy a then (0x80, a\<lparr>a_busy := a_busy a - 1\<rparr>) else (0x40, a))
      else if port = 0x3F6 then (0x40, a)
      else (0, a))"

definition ata_insw :: "int \<Rightarrow> (nat \<Rightarrow> u8) \<Rightarrow> ata \<Rightarrow> ((nat \<Rightarrow> u8) \<times> ata) option" where
  "ata_insw cnt buf a = (if 0 < a_busy a then None else
      case a_xfer a of
        XRead lba n \<Rightarrow>
          if cnt = 256 * int n
          then Some (\<lambda>i. if i < 512 * n then a_disk a (lba + of_nat (i div 512)) (i mod 512) else buf i, a\<lparr>a_xfer := XIdle\<rparr>)
          else None
      | XIdentify \<Rightarrow> if cnt = 256 then Some (\<lambda>i. if i < 512 then a_ident a i else buf i, a\<lparr>a_xfer := XIdle\<rparr>) else None
      | _ \<Rightarrow> None)"

definition ata_outsw :: "int \<Rightarrow> (nat \<Rightarrow> u8) \<Rightarrow> ata \<Rightarrow> ata option" where
  "ata_outsw cnt buf a = (if 0 < a_busy a then None else
      case a_xfer a of
        XWrite lba n \<Rightarrow>
          if cnt = 256 * int n
          then Some (a\<lparr>a_xfer := XIdle, a_disk := (\<lambda>s i. if unat (s - lba) < n \<and> i < 512 then buf (512 * unat (s - lba) + i) else a_disk a s i)\<rparr>)
          else None
      | _ \<Rightarrow> None)"

definition ata_intr :: "ata \<Rightarrow> ata" where
  "ata_intr a = a\<lparr>a_busy := 0\<rparr>"

section \<open>The driver\<close>

definition IDE_DAT_words :: "int \<Rightarrow> int" where
  "IDE_DAT_words sz = sz * 512 div 2"

definition read_sector :: "(nat \<Rightarrow> u8) \<Rightarrow> int \<Rightarrow> ata \<Rightarrow> ((nat \<Rightarrow> u8) \<times> ata) option" where
  "read_sector buf sz a = ata_insw (IDE_DAT_words sz) buf a"

definition write_sector :: "(nat \<Rightarrow> u8) \<Rightarrow> int \<Rightarrow> ata \<Rightarrow> ata option" where
  "write_sector b sz a = ata_outsw (IDE_DAT_words sz) b a"

definition ide_send_cmd :: "u8 \<Rightarrow> ata \<Rightarrow> ata option" where
  "ide_send_cmd cmd a = do {
     let a = ata_outb 0x1F7 cmd a;
     let (e, a) = ata_inb 0x1F1 a;
     assertk (e = 0);
     Some a
   }"

partial_function (option) ide_wait :: "bool \<Rightarrow> ata \<Rightarrow> (int \<times> ata) option" where
  "ide_wait check_error a =
     (let (r, a) = ata_inb 0x1F7 a in
      if r AND 0x80 \<noteq> 0 then ide_wait check_error a
      else Some (if check_error \<and> r AND 0x21 \<noteq> 0 then -1 else 0, a))"

record ide_device =
  lba48 :: bool
  ide_size :: u32

definition word_at :: "(nat \<Rightarrow> u8) \<Rightarrow> nat \<Rightarrow> u16" where
  "word_at b i = ucast (b (2 * i)) OR push_bit 8 (ucast (b (2 * i + 1)))"

definition ide_init :: "ata \<Rightarrow> (ide_device \<times> ata) option" where
  "ide_init a = do {
     (r, a) \<leftarrow> ide_wait False a;
     assertk (r = 0);
     let a = ata_outb 0x1F6 0xE0 a;
     a \<leftarrow> ide_send_cmd 0xEC a;
     let (st, a) = ata_inb 0x3F6 a;
     (r, a) \<leftarrow> ide_wait True a;
     assertk (st \<noteq> 0 \<and> r = 0);
     (buffer, a) \<leftarrow> read_sector (\<lambda>_. 0) 1 a;
     let dev = \<lparr>lba48 = (word_at buffer 83 AND push_bit 10 1 \<noteq> 0),
       ide_size = ucast (word_at buffer 60) OR push_bit 16 (ucast (word_at buffer 61))\<rparr>;
     let a = ata_outb 0x1F2 8 a;
     a \<leftarrow> ide_send_cmd 0xc6 a;
     Some (dev, ata_outb 0x3F6 0 a)
   }"

text \<open>\<open>no_sec\<close> is \<^verbatim>\<open>buf->pageCache.no_secs\<close>, \<open>buf\<close> the bytes at \<^verbatim>\<open>buf->data\<close>.\<close>

definition ide_driver_init :: "u32 \<Rightarrow> u32 \<Rightarrow> ata \<Rightarrow> ata option" where
  "ide_driver_init no_sec secs_cnt a = do {
     (r, a) \<leftarrow> ide_wait False a;
     assertk (r = 0);
     let a = ata_outb 0x1F6 (0xE0 OR (ucast (drop_bit 24 no_sec) AND 0x0F)) a;
     let a = ata_outb 0x1F2 (ucast secs_cnt) a;
     let a = ata_outb 0x1F3 (ucast no_sec) a;
     let a = ata_outb 0x1F4 (ucast (drop_bit 8 no_sec)) a;
     let a = ata_outb 0x1F5 (ucast (drop_bit 16 no_sec)) a;
     Some a
   }"

definition ide_start :: "u32 \<Rightarrow> bool \<Rightarrow> (nat \<Rightarrow> u8) \<Rightarrow> ata \<Rightarrow> ata option" where
  "ide_start no_sec write buf a = do {
     a \<leftarrow> ide_driver_init no_sec 8 a;
     a \<leftarrow> (if write then do { a \<leftarrow> ide_send_cmd 0xC5 a; write_sector buf 8 a }
          else ide_send_cmd 0xC4 a);
     Some (ata_outb 0x3F6 0 a)
   }"

definition ide_isr :: "bool \<Rightarrow> (nat \<Rightarrow> u8) \<Rightarrow> ata \<Rightarrow> ((nat \<Rightarrow> u8) \<times> ata) option" where
  "ide_isr write buf a = (if \<not> write then read_sector buf 8 a else Some (buf, a))"

section \<open>A device of pages\<close>

text \<open>
  What the page cache relies on: a request for the 8 sectors from \<open>n\<close> on, followed by its interrupt,
  returns; a write replaces exactly this page of the disk, a read fills the buffer from it. Writing
  needs a \<open>prompt\<close> device, one that takes the data right after the command.
\<close>

locale block_device =
  fixes start :: "u32 \<Rightarrow> bool \<Rightarrow> (nat \<Rightarrow> u8) \<Rightarrow> 'd \<Rightarrow> 'd option"
    and intr :: "'d \<Rightarrow> 'd"
    and isr :: "bool \<Rightarrow> (nat \<Rightarrow> u8) \<Rightarrow> 'd \<Rightarrow> ((nat \<Rightarrow> u8) \<times> 'd) option"
    and ready :: "'d \<Rightarrow> bool"
    and prompt :: "'d \<Rightarrow> bool"
    and addressable :: "u32 \<Rightarrow> bool"
    and content :: "'d \<Rightarrow> u32 \<Rightarrow> nat \<Rightarrow> u8"
  assumes write_page: "ready d \<Longrightarrow> prompt d \<Longrightarrow> addressable n \<Longrightarrow>
      \<exists>d1 d2. start n True b d = Some d1 \<and> isr True b (intr d1) = Some (b, d2) \<and> ready d2 \<and> prompt d2 \<and>
        (\<forall>k i. addressable k \<longrightarrow> i < 4096 \<longrightarrow> content d2 k i = (if k = n then b i else content d k i))"
    and read_page: "ready d \<Longrightarrow> addressable n \<Longrightarrow>
      \<exists>d1 d2. start n False b d = Some d1 \<and>
        isr False b (intr d1) = Some (\<lambda>i. if i < 4096 then content d n i else b i, d2) \<and> ready d2 \<and> prompt d2 = prompt d \<and>
        (\<forall>k i. addressable k \<longrightarrow> i < 4096 \<longrightarrow> content d2 k i = content d k i)"
begin

text \<open>Either kind of request, for a page that is \<open>dirty\<close> or not.\<close>

lemma request:
  assumes "ready d" "addressable n" "dirty \<Longrightarrow> prompt d"
  shows "\<exists>d1 d2. start n dirty b d = Some d1 \<and>
    isr dirty b (intr d1) = Some (\<lambda>i. if \<not> dirty \<and> i < 4096 then content d n i else b i, d2) \<and> ready d2 \<and> prompt d2 = prompt d \<and>
    (\<forall>k i. addressable k \<longrightarrow> i < 4096 \<longrightarrow> content d2 k i = (if dirty \<and> k = n then b i else content d k i))"
proof (cases dirty)
  case True
  then show ?thesis using write_page [OF assms(1) _ assms(2), of b] assms(3) by auto
next
  case False
  then show ?thesis using read_page [OF assms(1,2), of b] by auto
qed

end

section \<open>The drive under the driver is such a device\<close>

definition ata_ready :: "ata \<Rightarrow> bool" where
  "ata_ready a \<longleftrightarrow> a_xfer a = XIdle"

definition ata_prompt :: "ata \<Rightarrow> bool" where
  "ata_prompt a \<longleftrightarrow> a_latency a 0xC5 = 0"

definition disk_page :: "ata \<Rightarrow> u32 \<Rightarrow> nat \<Rightarrow> u8" where
  "disk_page a n i = a_disk a (n + of_nat (i div 512)) (i mod 512)"

text \<open>The start of a page on a disk of 28-bit sector numbers.\<close>

definition page_sector :: "u32 \<Rightarrow> bool" where
  "page_sector n \<longleftrightarrow> n AND 7 = 0 \<and> n < 0x10000000"

lemma ide_wait_returns: "ide_wait False a = Some (0, a\<lparr>a_busy := 0\<rparr>)"
proof (induction "a_busy a" arbitrary: a)
  case 0
  then show ?case by (subst ide_wait.simps) (simp add: ata_inb_def)
next
  case (Suc k)
  let ?a = "a\<lparr>a_busy := k\<rparr>"
  have "ide_wait False a = ide_wait False ?a" using Suc(2) by (subst ide_wait.simps) (simp add: ata_inb_def Suc(2) [symmetric])
  then show ?case using Suc(1) [of ?a] by simp
qed

lemma lba_bits:
  assumes "n < (0x10000000 :: u32)"
  shows "push_bit 24 (ucast ((0xE0 OR (ucast (drop_bit 24 n) AND 0x0F) :: u8) AND 0x0F)) OR push_bit 16 (ucast (ucast (drop_bit 16 n) :: u8)) OR
     push_bit 8 (ucast (ucast (drop_bit 8 n) :: u8)) OR ucast (ucast n :: u8) = n"
proof -
  have "unat (take_bit 28 n) = unat n" using assms
    by (simp add: unsigned_take_bit_eq word_less_nat_alt take_bit_nat_eq_self)
  then have "take_bit 28 n = n" by (simp add: word_unat_eq_iff)
  then have hi: "bit n k \<Longrightarrow> k < 28" for k by (metis bit_take_bit_iff)
  have top: "ucast ((0xE0 OR (ucast (drop_bit 24 n) AND 0x0F) :: u8) AND 0x0F) = (ucast (ucast (drop_bit 24 n) :: u8) :: u32)"
  proof (rule bit_word_eqI)
    fix k assume "k < LENGTH(32)"
    have m: "(0x0F :: u8) = mask 4" "(0xE0 :: u8) = push_bit 5 (mask 3)" by (simp_all add: mask_eq_exp_minus_1)
    show "bit (ucast ((0xE0 OR (ucast (drop_bit 24 n) AND 0x0F) :: u8) AND 0x0F) :: u32) k = bit (ucast (ucast (drop_bit 24 n) :: u8) :: u32) k"
      unfolding m using hi [of "24 + k"] by (auto simp: bit_simps)
  qed
  show ?thesis unfolding top by (rule bytes32)
qed

lemma ide_start_command:
  assumes "n < 0x10000000"
  shows "\<exists>a'. ide_driver_init n 8 a = Some a' \<and> ata_lba a' = n \<and> a_count a' = 8 \<and> a_disk a' = a_disk a \<and> a_xfer a' = a_xfer a \<and>
    a_latency a' = a_latency a"
  unfolding ide_driver_init_def ide_wait_returns
  by (simp add: ata_outb_def ata_lba_def lba_bits [OF assms] assertk_def)

lemma ide_read_page:
  assumes "ata_ready a" "page_sector n"
  shows "\<exists>d1 d2. ide_start n False b a = Some d1 \<and>
    ide_isr False b (ata_intr d1) = Some (\<lambda>i. if i < 4096 then disk_page a n i else b i, d2) \<and> ata_ready d2 \<and>
    a_disk d2 = a_disk a \<and> a_latency d2 = a_latency a"
proof -
  obtain a' where a: "ide_driver_init n 8 a = Some a'" "ata_lba a' = n" "a_count a' = 8" "a_disk a' = a_disk a" "a_latency a' = a_latency a"
    using ide_start_command assms unfolding page_sector_def by blast
  have l: "ata_lba (a'\<lparr>a_busy := k\<rparr>) = n" for k using a(2) by (simp add: ata_lba_def)
  show ?thesis
    by (simp add: ide_start_def a l ide_send_cmd_def ata_outb_def ata_inb_def assertk_def ide_isr_def read_sector_def
        ata_insw_def ata_intr_def IDE_DAT_words_def Let_def disk_page_def fun_eq_iff ata_ready_def)
qed

lemma ide_write_page:
  assumes "ata_ready a" "ata_prompt a" "page_sector n"
  shows "\<exists>d1 d2. ide_start n True b a = Some d1 \<and> ide_isr True b (ata_intr d1) = Some (b, d2) \<and> ata_ready d2 \<and> a_latency d2 = a_latency a \<and>
    a_disk d2 = (\<lambda>s i. if unat (s - n) < 8 \<and> i < 512 then b (512 * unat (s - n) + i) else a_disk a s i)"
proof -
  obtain a' where a: "ide_driver_init n 8 a = Some a'" "ata_lba a' = n" "a_count a' = 8" "a_disk a' = a_disk a" "a_latency a' = a_latency a"
    using ide_start_command assms unfolding page_sector_def by blast
  have l: "ata_lba (a'\<lparr>a_busy := k\<rparr>) = n" for k using a(2) by (simp add: ata_lba_def)
  show ?thesis using assms(2)
    by (simp add: ide_start_def a l ide_send_cmd_def ata_outb_def ata_inb_def assertk_def ide_isr_def write_sector_def
        ata_outsw_def ata_intr_def ata_prompt_def IDE_DAT_words_def Let_def ata_ready_def cong: if_cong)
qed

text \<open>
  \<^verbatim>\<open>ide_start\<close> sends the data of a write without waiting until the drive is no longer busy: on a drive
  that needs time after the command, the transfer is undefined.
\<close>

lemma ide_write_not_prompt:
  assumes "n < 0x10000000" "\<not> ata_prompt a"
  shows "ide_start n True b a = None"
proof -
  obtain a' where a: "ide_driver_init n 8 a = Some a'" "a_latency a' = a_latency a"
    using ide_start_command [OF assms(1)] by blast
  then show ?thesis using assms(2)
    by (simp add: ide_start_def ide_send_cmd_def ata_outb_def ata_inb_def assertk_def write_sector_def ata_outsw_def ata_prompt_def Let_def)
qed

lemma page_sector_mod8: "page_sector n \<Longrightarrow> unat n mod 8 = 0"
proof -
  assume "page_sector n"
  then have "n AND mask 3 = 0" by (simp add: page_sector_def mask_eq_exp_minus_1)
  then have "take_bit 3 n = 0" by (simp add: take_bit_eq_mask)
  then have "unat (n mod 8) = 0" by (simp add: take_bit_eq_mod)
  then have "unat n mod unat (8 :: u32) = 0" by (simp only: unat_mod)
  then show ?thesis by simp
qed

lemma window_mod:
  fixes x y j :: int
  assumes "0 \<le> j" "j < 8" "0 \<le> x" "0 \<le> y" "8 * x < 268435456" "8 * y < 268435456"
  shows "(8 * y + j - 8 * x) mod 4294967296 < 8 \<longleftrightarrow> x = y"
proof (cases "x \<le> y")
  case True
  then have "(8 * y + j - 8 * x) mod 4294967296 = 8 * y + j - 8 * x" using assms by (intro mod_pos_pos_trivial) linarith+
  then show ?thesis using assms True by linarith
next
  case False
  have "(8 * y + j - 8 * x) mod 4294967296 = (8 * y + j - 8 * x + 4294967296) mod 4294967296" by simp
  also have "\<dots> = 8 * y + j - 8 * x + 4294967296" using assms False by (intro mod_pos_pos_trivial) linarith+
  finally show ?thesis using assms False by linarith
qed

lemma page_sectors_apart:
  assumes "page_sector n" "page_sector k" "i < 4096"
  shows "unat (k + of_nat (i div 512) - n) < 8 \<longleftrightarrow> k = n"
proof -
  obtain x where x: "unat n = 8 * x" using page_sector_mod8 [OF assms(1)] by (auto simp: mod_eq_0_iff_dvd dvd_def)
  obtain y where y: "unat k = 8 * y" using page_sector_mod8 [OF assms(2)] by (auto simp: mod_eq_0_iff_dvd dvd_def)
  have b: "unat n < 268435456" "unat k < 268435456" using assms(1,2) by (simp_all add: page_sector_def word_less_nat_alt)
  have j: "int (i div 512) < 8" using assms(3) by simp
  have bi: "8 * int x < 268435456" "8 * int y < 268435456" using b x y by linarith+
  define q where "q = int (i div 512)"
  have kn: "k = of_nat (8 * y)" "n = of_nat (8 * x)" by (simp_all flip: x y)
  have "k + of_nat (i div 512) - n = of_int (8 * int y + q - 8 * int x)" unfolding kn q_def by simp
  then have "uint (k + of_nat (i div 512) - n) = (8 * int y + q - 8 * int x) mod 4294967296"
    by (simp only: unsigned_of_int) (simp add: take_bit_eq_mod)
  moreover have "(8 * int y + q - 8 * int x) mod 4294967296 < 8 \<longleftrightarrow> int x = int y"
    by (rule window_mod) (use j bi in \<open>simp_all add: q_def\<close>)
  moreover have "unat w < 8 \<longleftrightarrow> uint w < 8" for w :: u32
    using of_nat_less_iff [of "unat w" 8, where 'a = int] by simp
  moreover have "k = n \<longleftrightarrow> int x = int y" using x y by (auto simp: word_unat_eq_iff)
  ultimately show ?thesis by simp
qed

lemma page_sector_offset:
  assumes "i < 4096"
  shows "unat ((n :: u32) + of_nat (i div 512) - n) = i div 512"
  using assms by (simp add: unat_of_nat)

interpretation ide: block_device ide_start ata_intr ide_isr ata_ready ata_prompt page_sector disk_page
proof unfold_locales
  fix d n b assume *: "ata_ready d" "ata_prompt d" "page_sector n"
  obtain d1 d2 where d1: "ide_start n True b d = Some d1" "ide_isr True b (ata_intr d1) = Some (b, d2)" "ata_ready d2"
      "a_latency d2 = a_latency d"
    and disk: "a_disk d2 = (\<lambda>s i. if unat (s - n) < 8 \<and> i < 512 then b (512 * unat (s - n) + i) else a_disk d s i)"
    using ide_write_page [OF *, of b] by blast
  have "disk_page d2 k i = (if k = n then b i else disk_page d k i)" if "page_sector k" "i < 4096" for k i
    using page_sectors_apart [OF *(3) that] page_sector_offset [OF that(2), of n] that
    by (auto simp: disk_page_def disk)
  moreover have "ata_prompt d2" using d1(4) *(2) by (simp add: ata_prompt_def)
  ultimately show "\<exists>d1 d2. ide_start n True b d = Some d1 \<and> ide_isr True b (ata_intr d1) = Some (b, d2) \<and> ata_ready d2 \<and> ata_prompt d2 \<and>
      (\<forall>k i. page_sector k \<longrightarrow> i < 4096 \<longrightarrow> disk_page d2 k i = (if k = n then b i else disk_page d k i))"
    using d1 by blast
next
  fix d n b assume "ata_ready d" "page_sector n"
  then show "\<exists>d1 d2. ide_start n False b d = Some d1 \<and>
      ide_isr False b (ata_intr d1) = Some (\<lambda>i. if i < 4096 then disk_page d n i else b i, d2) \<and> ata_ready d2 \<and> ata_prompt d2 = ata_prompt d \<and>
      (\<forall>k i. page_sector k \<longrightarrow> i < 4096 \<longrightarrow> disk_page d2 k i = disk_page d k i)"
    using ide_read_page [of d n b] by (fastforce simp: disk_page_def ata_prompt_def)
qed

end
