(* ===== verification/PageCache.thy ===== *)
theory PageCache
  imports Ide Clock Slab Buddy_Spec
begin

text \<open>
  The cache of disk pages, \<^verbatim>\<open>fs/writeback.c\<close>, over the disk driver, the page allocator and the scheduler.

  A \<^verbatim>\<open>struct page\<close> is its index. The bytes behind \<^verbatim>\<open>page->data\<close> are \<open>cc_data\<close>, one buffer per page. The list
  of cached pages and the two lock-free queues are HOL lists; a node that is queued again while it
  is still linked would cut the queue, which is undefined here.

  The interrupt of a disk request may come before the requesting task tests \<^verbatim>\<open>cacheAllocator.thread\<close>, and
  then the task does not sleep, or after it has gone to sleep; the trace \<open>cc_irq\<close> says when, for each
  request, and what the other tasks do to the scheduler while it sleeps (they do not use the page
  cache meanwhile). A task that finds \<^verbatim>\<open>wait_rw\<close> taken by another one is not followed further (\<open>None\<close>).
\<close>

section \<open>Definitions\<close>

definition PG_DIRTY :: u16 where "PG_DIRTY = 4"
definition PG_VALID :: u16 where "PG_VALID = 8"
definition PG_CACHE :: u16 where "PG_CACHE = 16"
definition CACHE_EXPIRES :: u64 where "CACHE_EXPIRES = 30"

record pageCache =
  pc_timestamp :: u32
  pc_no_secs :: u32

text \<open>
  The time of the interrupt of a request: before the test, or \<open>k\<close> scheduling events after the task has
  gone to sleep, for the trace \<open>ev\<close> of these events.
\<close>

datatype irq_time = Early | Late nat "nat \<Rightarrow> sched_event"

text \<open>
  \<open>cc_struct i\<close> is the address of the structure of page \<open>i\<close>, \<open>cc_startup\<close> the clock at start-up; \<open>cc_req\<close>
  counts the requests.
\<close>

record cache =
  cc_heap :: kheap
  cc_struct :: "nat \<Rightarrow> ptr_t"
  cc_info :: "nat \<Rightarrow> pageCache"
  cc_data :: "nat \<Rightarrow> nat \<Rightarrow> u8"
  cc_list :: "nat list"
  cc_rwlock :: rwlock
  cc_thread :: "ptr_t option"
  cc_writing :: "nat option"
  cc_wait_rw :: thread_mutex
  cc_dirty :: "nat list"
  cc_inode_dirty :: "ptr_t list"
  cc_sched :: sched
  cc_startup :: u64
  cc_disk :: ata
  cc_irq :: "nat \<Rightarrow> irq_time"
  cc_req :: nat

abbreviation cpage :: "cache \<Rightarrow> nat \<Rightarrow> page" where
  "cpage c i \<equiv> kh_page (cc_heap c) i"

abbreviation upd_cpage :: "nat \<Rightarrow> (page \<Rightarrow> page) \<Rightarrow> cache \<Rightarrow> cache" where
  "upd_cpage i f c \<equiv> c\<lparr>cc_heap := upd_kpage i f (cc_heap c)\<rparr>"

abbreviation has_flag :: "cache \<Rightarrow> nat \<Rightarrow> u16 \<Rightarrow> bool" where
  "has_flag c i f \<equiv> pg_flag (cpage c i) AND f \<noteq> 0"

text \<open>Taking and releasing the lock of a page.\<close>

definition page_rlock :: "nat \<Rightarrow> cache \<Rightarrow> cache option" where
  "page_rlock i c = do { k \<leftarrow> rlock_lock (pg_rwlock (cpage c i)); Some (upd_cpage i (\<lambda>p. p\<lparr>pg_rwlock := k\<rparr>) c) }"

definition page_runlock :: "nat \<Rightarrow> cache \<Rightarrow> cache option" where
  "page_runlock i c = do { k \<leftarrow> rlock_unlock (pg_rwlock (cpage c i)); Some (upd_cpage i (\<lambda>p. p\<lparr>pg_rwlock := k\<rparr>) c) }"

definition page_wlock :: "nat \<Rightarrow> cache \<Rightarrow> cache option" where
  "page_wlock i c = do { k \<leftarrow> wlock_lock (pg_rwlock (cpage c i)); Some (upd_cpage i (\<lambda>p. p\<lparr>pg_rwlock := k\<rparr>) c) }"

definition page_wunlock :: "nat \<Rightarrow> cache \<Rightarrow> cache" where
  "page_wunlock i c = upd_cpage i (\<lambda>p. p\<lparr>pg_rwlock := wlock_unlock (pg_rwlock p)\<rparr>) c"

definition sleeplock_lock :: "nat \<Rightarrow> cache \<Rightarrow> cache option" where
  "sleeplock_lock i c = do {
     (taken, m, s) \<leftarrow> thread_mutex_lock (cc_wait_rw c) (cc_sched c);
     assertk taken;
     page_wlock i (c\<lparr>cc_wait_rw := m, cc_sched := s\<rparr>)
   }"

definition sleeplock_unlock :: "nat \<Rightarrow> cache \<Rightarrow> cache option" where
  "sleeplock_unlock i c = do {
     let c = page_wunlock i c;
     (m, s) \<leftarrow> thread_mutex_unlock (cc_wait_rw c) (cc_sched c);
     Some (c\<lparr>cc_wait_rw := m, cc_sched := s\<rparr>)
   }"

subsection \<open>Looking a page up\<close>

definition new_buf :: "u32 \<Rightarrow> cache \<Rightarrow> (nat \<times> cache) option" where
  "new_buf no_secs c = do {
     let h = cc_heap c;
     (buf, pmm) \<leftarrow> alloc_page_core PAGE_SIZE (km_pmm (kh_mem h));
     mem \<leftarrow> kvm_map buf (VM_PRES OR VM_KRW) ((kh_mem h)\<lparr>km_pmm := pmm\<rparr>);
     let c = c\<lparr>cc_heap := h\<lparr>kh_mem := mem\<rparr>\<rparr>;
     let c = upd_cpage buf (\<lambda>p. p\<lparr>pg_flag := pg_flag p OR PG_CACHE\<rparr>) c;
     Some (buf, c\<lparr>cc_info := (cc_info c)(buf := \<lparr>pc_timestamp = 0, pc_no_secs = no_secs\<rparr>)\<rparr>)
   }"

definition page_get :: "u32 \<Rightarrow> cache \<Rightarrow> (nat \<times> cache) option" where
  "page_get no_secs c = do {
     assertk (no_secs AND 7 = 0);
     lk \<leftarrow> rlock_lock (cc_rwlock c);
     (case List.find (\<lambda>i. pc_no_secs (cc_info c i) = no_secs) (cc_list c) of
        Some buf \<Rightarrow> do {
          assertk (has_flag c buf PG_CACHE);
          lk \<leftarrow> rlock_unlock lk;
          Some (buf, c\<lparr>cc_rwlock := lk\<rparr>)
        }
      | None \<Rightarrow> do {
          lk \<leftarrow> rlock_unlock lk;
          (buf, c) \<leftarrow> new_buf no_secs (c\<lparr>cc_rwlock := lk\<rparr>);
          lk \<leftarrow> wlock_lock (cc_rwlock c);
          Some (buf, c\<lparr>cc_list := cc_list c @ [buf], cc_rwlock := wlock_unlock lk\<rparr>)
        })
   }"

subsection \<open>Requests to the disk\<close>

definition disk_isr :: "cache \<Rightarrow> cache option" where
  "disk_isr c = (case cc_writing c of
       None \<Rightarrow> Some c
     | Some buf \<Rightarrow> do {
         (d, a) \<leftarrow> ide_isr (has_flag c buf PG_DIRTY) (cc_data c buf) (cc_disk c);
         let c = c\<lparr>cc_data := (cc_data c)(buf := d), cc_disk := a\<rparr>;
         let c = upd_cpage buf (\<lambda>p. p\<lparr>pg_flag := pg_flag p AND NOT PG_DIRTY OR PG_VALID\<rparr>) c;
         let c = c\<lparr>cc_info := (cc_info c)(buf := (cc_info c buf)\<lparr>pc_timestamp := ucast (cur_timestamp (cc_startup c) (cc_sched c))\<rparr>),
           cc_writing := None\<rparr>;
         t \<leftarrow> cc_thread c;
         s \<leftarrow> task_wakeup t (cc_sched c);
         Some (c\<lparr>cc_sched := s, cc_thread := None\<rparr>)
       })"

text \<open>The request up to the interrupt, and the move of the page to the front of the list after it.\<close>

definition rw_start :: "nat \<Rightarrow> cache \<Rightarrow> cache option" where
  "rw_start buf c = do {
     let c = c\<lparr>cc_writing := Some buf, cc_thread := Some (sd_cur (cc_sched c))\<rparr>;
     a \<leftarrow> ide_start (pc_no_secs (cc_info c buf)) (has_flag c buf PG_DIRTY) (cc_data c buf) (cc_disk c);
     Some (c\<lparr>cc_disk := a\<rparr>)
   }"

definition rw_finish :: "nat \<Rightarrow> cache \<Rightarrow> cache option" where
  "rw_finish buf c = do {
     lk \<leftarrow> wlock_lock (cc_rwlock c);
     Some (c\<lparr>cc_list := buf # remove1 buf (cc_list c), cc_rwlock := wlock_unlock lk\<rparr>)
   }"

text \<open>The drive is ready and raises its interrupt.\<close>

definition disk_irq :: "cache \<Rightarrow> cache option" where
  "disk_irq c = disk_isr (c\<lparr>cc_disk := ata_intr (cc_disk c)\<rparr>)"

text \<open>
  The task sleeps, the others run, the interrupt arrives while one of them has the processor and makes
  the task ready, the others go on until the task runs again. A task that goes to sleep after its
  interrupt is never woken.
\<close>

definition sleep_for_irq :: "irq_time \<Rightarrow> cache \<Rightarrow> cache option" where
  "sleep_for_irq irq c = do {
     let t = sd_cur (cc_sched c);
     (r, lk, s) \<leftarrow> task_sleep BlockList None (cc_sched c);
     (case irq of
        Early \<Rightarrow> None
      | Late k ev \<Rightarrow> do {
          s \<leftarrow> run_for k ev s;
          c \<leftarrow> disk_irq (c\<lparr>cc_sched := s\<rparr>);
          s \<leftarrow> run_others ev k t (cc_sched c);
          Some (c\<lparr>cc_sched := s\<rparr>)
        })
   }"

definition page_rw :: "nat \<Rightarrow> cache \<Rightarrow> cache option" where
  "page_rw buf c = do {
     c \<leftarrow> rw_start buf c;
     let irq = cc_irq c (cc_req c);
     let c = c\<lparr>cc_req := cc_req c + 1\<rparr>;
     c \<leftarrow> (if irq = Early then disk_irq c else Some c);
     c \<leftarrow> (if cc_thread c \<noteq> None then sleep_for_irq irq c else Some c);
     rw_finish buf c
   }"

subsection \<open>Reading, writing, flushing\<close>

definition page_read_sync :: "nat \<Rightarrow> cache \<Rightarrow> cache option" where
  "page_read_sync buf c = do {
     c \<leftarrow> sleeplock_lock buf c;
     c \<leftarrow> page_rw buf c;
     sleeplock_unlock buf c
   }"

definition page_read :: "nat \<Rightarrow> cache \<Rightarrow> cache option" where
  "page_read buf c = do {
     c \<leftarrow> page_rlock buf c;
     if has_flag c buf PG_VALID then page_runlock buf c
     else do {
       c \<leftarrow> page_runlock buf c;
       c \<leftarrow> sleeplock_lock buf c;
       c \<leftarrow> page_rw buf c;
       sleeplock_unlock buf c
     }
   }"

definition page_read_no :: "u32 \<Rightarrow> cache \<Rightarrow> (nat \<times> cache) option" where
  "page_read_no no_secs c = do {
     (buf, c) \<leftarrow> page_get no_secs c;
     c \<leftarrow> page_read buf c;
     Some (buf, c)
   }"

definition page_read_no_sync :: "u32 \<Rightarrow> cache \<Rightarrow> (nat \<times> cache) option" where
  "page_read_no_sync no_secs c = do {
     (buf, c) \<leftarrow> page_get no_secs c;
     c \<leftarrow> page_read_sync buf c;
     Some (buf, c)
   }"

definition mark_page_dirty :: "nat \<Rightarrow> cache \<Rightarrow> cache option" where
  "mark_page_dirty buf c = do {
     c \<leftarrow> page_wlock buf c;
     assertk (has_flag c buf PG_CACHE);
     c \<leftarrow> (if \<not> has_flag c buf PG_DIRTY then do {
         let c = upd_cpage buf (\<lambda>p. p\<lparr>pg_flag := pg_flag p OR (PG_DIRTY OR PG_VALID)\<rparr>) c;
         assertk (buf \<notin> set (cc_dirty c));
         Some (c\<lparr>cc_dirty := cc_dirty c @ [buf]\<rparr>)
       } else Some c);
     Some (page_wunlock buf c)
   }"

definition page_sync :: "nat \<Rightarrow> cache \<Rightarrow> cache option" where
  "page_sync buf c = do {
     c \<leftarrow> sleeplock_lock buf c;
     let c = upd_cpage buf (\<lambda>p. p\<lparr>pg_flag := pg_flag p OR (PG_DIRTY OR PG_VALID)\<rparr>) c;
     c \<leftarrow> page_rw buf c;
     sleeplock_unlock buf c
   }"

definition page_flush :: "nat \<Rightarrow> cache \<Rightarrow> cache option" where
  "page_flush buf c = do {
     c \<leftarrow> page_rlock buf c;
     assertk (has_flag c buf PG_DIRTY);
     c \<leftarrow> page_runlock buf c;
     c \<leftarrow> sleeplock_lock buf c;
     c \<leftarrow> page_rw buf c;
     sleeplock_unlock buf c
   }"

text \<open>No page is queued while the loop runs, so it visits the pages queued at its start.\<close>

fun flush_loop :: "nat list \<Rightarrow> cache \<Rightarrow> cache option" where
  "flush_loop [] c = Some (c\<lparr>cc_dirty := []\<rparr>)"
| "flush_loop (buf # bufs) c = do {
     c \<leftarrow> page_flush buf (c\<lparr>cc_dirty := bufs\<rparr>);
     flush_loop bufs c
   }"

definition flush_pages :: "cache \<Rightarrow> cache option" where
  "flush_pages c = flush_loop (cc_dirty c) c"

subsection \<open>Recycling\<close>

definition recycle_buf :: "nat \<Rightarrow> cache \<Rightarrow> cache option" where
  "recycle_buf buf c = do {
     let c = c\<lparr>cc_list := remove1 buf (cc_list c)\<rparr>;
     h \<leftarrow> kfree (pg_data (cpage c buf)) (cc_heap c);
     h \<leftarrow> kfree (cc_struct c buf) h;
     Some (c\<lparr>cc_heap := h\<rparr>)
   }"

fun page_recycle_loop :: "nat list \<Rightarrow> u64 \<Rightarrow> u32 \<Rightarrow> cache \<Rightarrow> cache option" where
  "page_recycle_loop [] cur sz c = Some c"
| "page_recycle_loop (buf # bufs) cur sz c =
     (if sz > 0 then
        if \<not> has_flag c buf PG_DIRTY \<and> cur - ucast (pc_timestamp (cc_info c buf)) \<ge> CACHE_EXPIRES * 1000 then do {
          c \<leftarrow> recycle_buf buf c;
          page_recycle_loop bufs cur (sz - PAGE_SIZE) c
        } else page_recycle_loop bufs cur sz c
      else Some c)"

definition page_recycle :: "u32 \<Rightarrow> cache \<Rightarrow> cache option" where
  "page_recycle sz c = do {
     let cur = cur_timestamp (cc_startup c) (cc_sched c);
     lk \<leftarrow> wlock_lock (cc_rwlock c);
     c \<leftarrow> page_recycle_loop (rev (cc_list c)) cur sz (c\<lparr>cc_rwlock := lk\<rparr>);
     Some (c\<lparr>cc_rwlock := wlock_unlock (cc_rwlock c)\<rparr>)
   }"

section \<open>Locks at rest\<close>

definition idle_lock :: "rwlock \<Rightarrow> bool" where
  "idle_lock k \<longleftrightarrow> rw_lock k \<noteq> 1 \<and> rw_writelock k \<noteq> 1 \<and> rw_readers k = 0"

lemma idle_read:
  assumes "idle_lock k"
  shows "\<exists>k1 k2. rlock_lock k = Some k1 \<and> rlock_unlock k1 = Some k2 \<and> idle_lock k2"
  using assms by (simp add: idle_lock_def rlock_lock_def rlock_unlock_def spinlock_unlock_def)

lemma idle_write:
  assumes "idle_lock k"
  shows "\<exists>k1. wlock_lock k = Some k1 \<and> idle_lock (wlock_unlock k1)"
  using assms by (simp add: idle_lock_def wlock_lock_def wlock_unlock_def spinlock_unlock_def)

section \<open>The invariant of the cache\<close>

definition page_good :: "nat list \<Rightarrow> cache \<Rightarrow> nat \<Rightarrow> bool" where
  "page_good q c p \<longleftrightarrow> page_sector (pc_no_secs (cc_info c p)) \<and> has_flag c p PG_CACHE \<and> idle_lock (pg_rwlock (cpage c p)) \<and>
     (has_flag c p PG_DIRTY \<longleftrightarrow> p \<in> set q) \<and> (has_flag c p PG_DIRTY \<longrightarrow> has_flag c p PG_VALID) \<and>
     (has_flag c p PG_VALID \<longrightarrow> \<not> has_flag c p PG_DIRTY \<longrightarrow>
        (\<forall>i < 4096. cc_data c p i = disk_page (cc_disk c) (pc_no_secs (cc_info c p)) i))"

text \<open>The interrupts of the task \<open>t\<close>: it gets the processor again, and nobody else wakes it before.\<close>

fun irq_ok :: "ptr_t \<Rightarrow> irq_time \<Rightarrow> bool" where
  "irq_ok t Early = True"
| "irq_ok t (Late k ev) = (fair ev \<and> (\<forall>n<k. ev n \<noteq> Wake t))"

text \<open>
  No request is running, the locks are free, the scheduler is well-formed, the running task may
  sleep and will run again after its interrupts, which alone wake it; every page in the
  list caches its own sectors, holds what the disk holds when it is valid and clean, and is queued
  for writing exactly when it is dirty. \<open>q\<close> is the queue, with the page being written still in it.
\<close>

definition cache_rest :: "cache \<Rightarrow> bool" where
  "cache_rest c \<longleftrightarrow> idle_lock (cc_rwlock c) \<and> \<not> mx_locked (cc_wait_rw c) \<and> mx_lock (cc_wait_rw c) \<noteq> 1 \<and>
     sd_list (cc_sched c) (SleepList (mx_sleep (cc_wait_rw c))) = [] \<and>
     running (cc_sched c) \<and> sd_cur (cc_sched c) \<noteq> sd_idle (cc_sched c) \<and>
     (\<forall>n. irq_ok (sd_cur (cc_sched c)) (cc_irq c n)) \<and> ata_ready (cc_disk c)"

definition cache_inv :: "nat list \<Rightarrow> cache \<Rightarrow> bool" where
  "cache_inv q c \<longleftrightarrow> cache_rest c \<and> distinct (cc_list c) \<and> inj_on (\<lambda>p. pc_no_secs (cc_info c p)) (set (cc_list c)) \<and>
     distinct q \<and> set q \<subseteq> set (cc_list c) \<and> (\<forall>p\<in>set (cc_list c). page_good q c p)"

text \<open>What a reader of sector \<open>n\<close> must see: the page of the cache if it is valid, else the disk.\<close>

definition cache_view :: "cache \<Rightarrow> u32 \<Rightarrow> nat \<Rightarrow> u8" where
  "cache_view c n i = (case List.find (\<lambda>p. pc_no_secs (cc_info c p) = n) (cc_list c) of
      Some p \<Rightarrow> if has_flag c p PG_VALID then cc_data c p i else disk_page (cc_disk c) n i
    | None \<Rightarrow> disk_page (cc_disk c) n i)"

lemma cache_view_hit:
  assumes "inj_on (\<lambda>p. pc_no_secs (cc_info c p)) (set (cc_list c))" "p \<in> set (cc_list c)"
  shows "cache_view c (pc_no_secs (cc_info c p)) i =
    (if has_flag c p PG_VALID then cc_data c p i else disk_page (cc_disk c) (pc_no_secs (cc_info c p)) i)"
proof -
  obtain p' where p': "List.find (\<lambda>q. pc_no_secs (cc_info c q) = pc_no_secs (cc_info c p)) (cc_list c) = Some p'"
    using assms(2) by (cases "List.find (\<lambda>q. pc_no_secs (cc_info c q) = pc_no_secs (cc_info c p)) (cc_list c)") (auto simp: find_None_iff)
  then have "p' \<in> set (cc_list c)" "pc_no_secs (cc_info c p') = pc_no_secs (cc_info c p)" by (auto simp: find_Some_iff)
  then have "p' = p" using assms by (auto simp: inj_on_def)
  then show ?thesis using p' by (simp add: cache_view_def)
qed

lemma cache_view_miss:
  assumes "\<forall>p\<in>set (cc_list c). pc_no_secs (cc_info c p) \<noteq> n"
  shows "cache_view c n i = disk_page (cc_disk c) n i"
  using assms find_None_iff [of "\<lambda>p. pc_no_secs (cc_info c p) = n" "cc_list c"] by (simp add: cache_view_def)

section \<open>A request to the disk\<close>

lemma sleeplock_lock_ok:
  assumes "cache_rest c" "idle_lock (pg_rwlock (cpage c p))"
  shows "\<exists>k. idle_lock (wlock_unlock k) \<and> sleeplock_lock p c = Some (upd_cpage p (\<lambda>g. g\<lparr>pg_rwlock := k\<rparr>)
    (c\<lparr>cc_wait_rw := (cc_wait_rw c)\<lparr>mx_locked := True, mx_lock := 0\<rparr>\<rparr>))"
proof -
  obtain k where "wlock_lock (pg_rwlock (cpage c p)) = Some k" "idle_lock (wlock_unlock k)" using idle_write [OF assms(2)] by blast
  then show ?thesis using assms(1)
    by (auto simp: cache_rest_def sleeplock_lock_def thread_mutex_lock_def mutex_pass_def spinlock_unlock_def page_wlock_def assertk_def)
qed

lemma sleeplock_unlock_ok:
  assumes "mx_locked (cc_wait_rw c)" "mx_lock (cc_wait_rw c) = 0" "sd_list (cc_sched c) (SleepList (mx_sleep (cc_wait_rw c))) = []"
  shows "sleeplock_unlock p c = Some (upd_cpage p (\<lambda>g. g\<lparr>pg_rwlock := wlock_unlock (pg_rwlock g)\<rparr>)
    (c\<lparr>cc_wait_rw := (cc_wait_rw c)\<lparr>mx_locked := False, mx_lock := 0\<rparr>\<rparr>))"
  using assms by (simp add: sleeplock_unlock_def page_wunlock_def thread_mutex_unlock_def spinlock_unlock_def assertk_def)

definition done_flag :: "u16 \<Rightarrow> u16" where
  "done_flag f = f AND NOT PG_DIRTY OR PG_VALID"

text \<open>A task that has started a request, whose interrupt comes early or late.\<close>

lemma disk_irq_ok:
  assumes "cc_writing c = Some p" "cc_thread c = Some t" "task_wakeup t (cc_sched c) = Some s"
    "ide_isr (has_flag c p PG_DIRTY) (cc_data c p) (ata_intr (cc_disk c)) = Some (b, d)"
  shows "\<exists>ts. disk_irq c = Some (upd_cpage p (\<lambda>g. g\<lparr>pg_flag := done_flag (pg_flag g)\<rparr>)
    (c\<lparr>cc_data := (cc_data c)(p := b), cc_disk := d, cc_info := (cc_info c)(p := (cc_info c p)\<lparr>pc_timestamp := ts\<rparr>),
       cc_writing := None, cc_thread := None, cc_sched := s\<rparr>))"
  by (intro exI [of _ "ucast (cur_timestamp (cc_startup c) (cc_sched c))"])
    (use assms in \<open>simp add: disk_irq_def disk_isr_def Let_def done_flag_def\<close>)

lemma request_done:
  assumes w: "cc_writing c = Some p" "cc_thread c = Some (sd_cur (cc_sched c))"
    and isr: "ide_isr (has_flag c p PG_DIRTY) (cc_data c p) (ata_intr (cc_disk c)) = Some (b, d)"
    and run: "running (cc_sched c)" "sd_cur (cc_sched c) \<noteq> sd_idle (cc_sched c)" and irq: "irq_ok (sd_cur (cc_sched c)) irq"
  shows "\<exists>ts s. running s \<and> sd_cur s = sd_cur (cc_sched c) \<and> sd_idle s = sd_idle (cc_sched c) \<and>
    (\<forall>a. sd_list s (SleepList a) = sd_list (cc_sched c) (SleepList a)) \<and>
    do { c \<leftarrow> (if irq = Early then disk_irq c else Some c); if cc_thread c \<noteq> None then sleep_for_irq irq c else Some c } =
    Some (upd_cpage p (\<lambda>g. g\<lparr>pg_flag := done_flag (pg_flag g)\<rparr>)
      (c\<lparr>cc_data := (cc_data c)(p := b), cc_disk := d, cc_info := (cc_info c)(p := (cc_info c p)\<lparr>pc_timestamp := ts\<rparr>),
         cc_writing := None, cc_thread := None, cc_sched := s\<rparr>))"
proof (cases irq)
  case Early
  have "sched_inv (cc_sched c)" "ts_state (sd_task (cc_sched c) (sd_cur (cc_sched c))) = TASK_RUNNING" using run(1) by (simp_all add: running_def)
  then have wake: "task_wakeup (sd_cur (cc_sched c)) (cc_sched c) = Some (cc_sched c)"
    using tcb_entry_ok [OF sched_invD(9)] by (simp add: task_wakeup_def)
  then obtain ts where "disk_irq c = Some (upd_cpage p (\<lambda>g. g\<lparr>pg_flag := done_flag (pg_flag g)\<rparr>)
    (c\<lparr>cc_data := (cc_data c)(p := b), cc_disk := d, cc_info := (cc_info c)(p := (cc_info c p)\<lparr>pc_timestamp := ts\<rparr>),
       cc_writing := None, cc_thread := None, cc_sched := cc_sched c\<rparr>))"
    using disk_irq_ok [OF w wake isr] by blast
  then show ?thesis using Early run by (intro exI [of _ ts] exI [of _ "cc_sched c"]) simp
next
  case (Late k ev)
  then obtain s1 s2 s3 s4 where s: "task_sleep BlockList None (cc_sched c) = Some (0, None, s1)" "run_for k ev s1 = Some s2"
    "task_wakeup (sd_cur (cc_sched c)) s2 = Some s3" "run_others ev k (sd_cur (cc_sched c)) s3 = Some s4" "running s4"
    "sd_cur s4 = sd_cur (cc_sched c)" "sd_idle s4 = sd_idle (cc_sched c)"
    "\<forall>a. sd_list s4 (SleepList a) = sd_list (cc_sched c) (SleepList a)"
    using sleep_until_woken [OF run, of ev k] irq by auto
  let ?c = "c\<lparr>cc_sched := s2\<rparr>"
  obtain ts where "disk_irq ?c = Some (upd_cpage p (\<lambda>g. g\<lparr>pg_flag := done_flag (pg_flag g)\<rparr>)
    (?c\<lparr>cc_data := (cc_data c)(p := b), cc_disk := d, cc_info := (cc_info c)(p := (cc_info c p)\<lparr>pc_timestamp := ts\<rparr>),
       cc_writing := None, cc_thread := None, cc_sched := s3\<rparr>))"
    using disk_irq_ok [of ?c p "sd_cur (cc_sched c)" s3 b d] w s(3) isr by auto
  then show ?thesis using Late s w by (intro exI [of _ ts] exI [of _ s4]) (simp add: sleep_for_irq_def Let_def)
qed

lemma page_rw_ok:
  assumes ready: "ata_ready (cc_disk c)" and n: "page_sector (pc_no_secs (cc_info c p))"
    and prompt: "has_flag c p PG_DIRTY \<Longrightarrow> ata_prompt (cc_disk c)"
    and run: "running (cc_sched c)" "sd_cur (cc_sched c) \<noteq> sd_idle (cc_sched c)"
    and irq: "\<forall>n. irq_ok (sd_cur (cc_sched c)) (cc_irq c n)" and lk: "idle_lock (cc_rwlock c)"
  defines "n \<equiv> pc_no_secs (cc_info c p)"
  shows "\<exists>d ts lk' s. ata_ready d \<and> ata_prompt d = ata_prompt (cc_disk c) \<and> idle_lock lk' \<and>
    running s \<and> sd_cur s = sd_cur (cc_sched c) \<and> sd_idle s = sd_idle (cc_sched c) \<and>
    (\<forall>a. sd_list s (SleepList a) = sd_list (cc_sched c) (SleepList a)) \<and>
    (\<forall>k i. page_sector k \<longrightarrow> i < 4096 \<longrightarrow> disk_page d k i =
       (if has_flag c p PG_DIRTY \<and> k = n then cc_data c p i else disk_page (cc_disk c) k i)) \<and>
    page_rw p c = Some (upd_cpage p (\<lambda>g. g\<lparr>pg_flag := done_flag (pg_flag g)\<rparr>)
      (c\<lparr>cc_data := (cc_data c)(p := \<lambda>i. if \<not> has_flag c p PG_DIRTY \<and> i < 4096 then disk_page (cc_disk c) n i else cc_data c p i),
         cc_disk := d, cc_info := (cc_info c)(p := (cc_info c p)\<lparr>pc_timestamp := ts\<rparr>), cc_writing := None, cc_thread := None,
         cc_sched := s, cc_req := cc_req c + 1, cc_list := p # remove1 p (cc_list c), cc_rwlock := lk'\<rparr>))"
proof -
  obtain lk1 where lk1: "wlock_lock (cc_rwlock c) = Some lk1" "idle_lock (wlock_unlock lk1)" using idle_write [OF lk] by blast
  let ?b = "\<lambda>i. if \<not> has_flag c p PG_DIRTY \<and> i < 4096 then disk_page (cc_disk c) n i else cc_data c p i"
  obtain d1 d where d: "ide_start n (has_flag c p PG_DIRTY) (cc_data c p) (cc_disk c) = Some d1"
    "ide_isr (has_flag c p PG_DIRTY) (cc_data c p) (ata_intr d1) = Some (?b, d)" "ata_ready d" "ata_prompt d = ata_prompt (cc_disk c)"
    "\<forall>k i. page_sector k \<longrightarrow> i < 4096 \<longrightarrow> disk_page d k i =
       (if has_flag c p PG_DIRTY \<and> k = n then cc_data c p i else disk_page (cc_disk c) k i)"
    using ide.request [OF ready n, of "has_flag c p PG_DIRTY" "cc_data c p"] prompt unfolding n_def by blast
  define c1 where "c1 = c\<lparr>cc_writing := Some p, cc_thread := Some (sd_cur (cc_sched c)), cc_disk := d1, cc_req := cc_req c + 1\<rparr>"
  have f: "cc_sched c1 = cc_sched c" "cc_irq c1 = cc_irq c" "cc_data c1 = cc_data c" "cc_info c1 = cc_info c" "cc_heap c1 = cc_heap c"
    by (simp_all add: c1_def)
  obtain ts s where s: "running s" "sd_cur s = sd_cur (cc_sched c)" "sd_idle s = sd_idle (cc_sched c)"
      "\<forall>a. sd_list s (SleepList a) = sd_list (cc_sched c) (SleepList a)"
    and res: "do { c' \<leftarrow> (if cc_irq c (cc_req c) = Early then disk_irq c1 else Some c1);
      if cc_thread c' \<noteq> None then sleep_for_irq (cc_irq c (cc_req c)) c' else Some c' } =
    Some (upd_cpage p (\<lambda>g. g\<lparr>pg_flag := done_flag (pg_flag g)\<rparr>)
      (c1\<lparr>cc_data := (cc_data c)(p := ?b), cc_disk := d, cc_info := (cc_info c)(p := (cc_info c p)\<lparr>pc_timestamp := ts\<rparr>),
         cc_writing := None, cc_thread := None, cc_sched := s\<rparr>))"
    using request_done [of c1 p ?b d "cc_irq c (cc_req c)"] d(2) run irq unfolding f by (auto simp: c1_def)
  have "page_rw p c = do { c' \<leftarrow> (do { c' \<leftarrow> (if cc_irq c (cc_req c) = Early then disk_irq c1 else Some c1);
      if cc_thread c' \<noteq> None then sleep_for_irq (cc_irq c (cc_req c)) c' else Some c' }); rw_finish p c' }"
    using d(1) by (simp add: page_rw_def rw_start_def n_def c1_def Let_def cong: if_cong)
  then show ?thesis using s d lk1 unfolding res
    by (intro exI [of _ d] exI [of _ ts] exI [of _ "wlock_unlock lk1"] exI [of _ s]) (simp add: rw_finish_def c1_def)
qed

lemma flag_bits: "f AND PG_DIRTY = 0 \<longleftrightarrow> \<not> bit f 2" "f AND PG_VALID = 0 \<longleftrightarrow> \<not> bit f 3" "f AND PG_CACHE = 0 \<longleftrightarrow> \<not> bit f 4"
  using and_exp_eq_0_iff_not_bit [of f 2] and_exp_eq_0_iff_not_bit [of f 3] and_exp_eq_0_iff_not_bit [of f 4]
  by (simp_all add: PG_DIRTY_def PG_VALID_def PG_CACHE_def)

lemma page_flag_exps: "PG_DIRTY = 2 ^ 2" "PG_VALID = 2 ^ 3" "PG_CACHE = 2 ^ 4"
  by (simp_all add: PG_DIRTY_def PG_VALID_def PG_CACHE_def)

lemma done_flag_bits: "bit (done_flag f) 2 = False" "bit (done_flag f) 3 = True" "bit (done_flag f) 4 = bit f 4"
  by (simp_all add: done_flag_def page_flag_exps bit_simps del: power_numeral)

lemma dirty_flag_bits:
  "bit (f OR (PG_DIRTY OR PG_VALID)) 2 = True" "bit (f OR (PG_DIRTY OR PG_VALID)) 3 = True"
  "bit (f OR (PG_DIRTY OR PG_VALID)) 4 = bit f 4" "bit (f OR PG_CACHE) 2 = bit f 2" "bit (f OR PG_CACHE) 3 = bit f 3"
  "bit (f OR PG_CACHE) 4 = True"
  by (simp_all add: page_flag_exps bit_simps del: power_numeral)

text \<open>A change of one page that leaves the others, the locks and the rest alone.\<close>

lemma page_read_sync_effect:
  assumes "cache_rest c" "idle_lock (pg_rwlock (cpage c p))" "page_sector (pc_no_secs (cc_info c p))"
    "has_flag c p PG_DIRTY \<Longrightarrow> ata_prompt (cc_disk c)"
  defines "n \<equiv> pc_no_secs (cc_info c p)"
  shows "\<exists>c'. page_read_sync p c = Some c' \<and> cache_rest c' \<and> idle_lock (pg_rwlock (cpage c' p)) \<and>
    (\<forall>q. q \<noteq> p \<longrightarrow> cpage c' q = cpage c q \<and> cc_data c' q = cc_data c q) \<and>
    (\<forall>q. pc_no_secs (cc_info c' q) = pc_no_secs (cc_info c q)) \<and>
    pg_flag (cpage c' p) = done_flag (pg_flag (cpage c p)) \<and>
    cc_list c' = p # remove1 p (cc_list c) \<and> cc_dirty c' = cc_dirty c \<and> ata_prompt (cc_disk c') = ata_prompt (cc_disk c) \<and> sd_cur (cc_sched c') = sd_cur (cc_sched c) \<and>
    (\<forall>i < 4096. cc_data c' p i = (if has_flag c p PG_DIRTY then cc_data c p i else disk_page (cc_disk c) n i)) \<and>
    (\<forall>k i. page_sector k \<longrightarrow> i < 4096 \<longrightarrow> disk_page (cc_disk c') k i =
       (if has_flag c p PG_DIRTY \<and> k = n then cc_data c p i else disk_page (cc_disk c) k i))"
proof -
  obtain k where k: "idle_lock (wlock_unlock k)"
    and l: "sleeplock_lock p c = Some (upd_cpage p (\<lambda>g. g\<lparr>pg_rwlock := k\<rparr>) (c\<lparr>cc_wait_rw := (cc_wait_rw c)\<lparr>mx_locked := True, mx_lock := 0\<rparr>\<rparr>))"
    using sleeplock_lock_ok [OF assms(1,2)] by blast
  define c1 where "c1 = upd_cpage p (\<lambda>g. g\<lparr>pg_rwlock := k\<rparr>) (c\<lparr>cc_wait_rw := (cc_wait_rw c)\<lparr>mx_locked := True, mx_lock := 0\<rparr>\<rparr>)"
  have f: "cc_data c1 = cc_data c" "cc_disk c1 = cc_disk c" "cc_info c1 = cc_info c" "cc_list c1 = cc_list c" "cc_sched c1 = cc_sched c"
    "cc_rwlock c1 = cc_rwlock c" "pg_flag (cpage c1 x) = pg_flag (cpage c x)" "cc_dirty c1 = cc_dirty c"
    "cc_wait_rw c1 = (cc_wait_rw c)\<lparr>mx_locked := True, mx_lock := 0\<rparr>" "pg_rwlock (cpage c1 p) = k" "x \<noteq> p \<Longrightarrow> cpage c1 x = cpage c x"
    "cc_irq c1 = cc_irq c" "cc_req c1 = cc_req c" for x
    by (simp_all add: c1_def)
  have r: "ata_ready (cc_disk c1)" "page_sector (pc_no_secs (cc_info c1 p))" "has_flag c1 p PG_DIRTY \<Longrightarrow> ata_prompt (cc_disk c1)"
    "running (cc_sched c1)" "sd_cur (cc_sched c1) \<noteq> sd_idle (cc_sched c1)" "\<forall>n. irq_ok (sd_cur (cc_sched c1)) (cc_irq c1 n)"
    "idle_lock (cc_rwlock c1)"
    using assms by (simp_all add: cache_rest_def f)
  from page_rw_ok [OF r] obtain d ts lk' s where d: "ata_ready d" "ata_prompt d = ata_prompt (cc_disk c)" "idle_lock lk'"
      "running s" "sd_cur s = sd_cur (cc_sched c)" "sd_idle s = sd_idle (cc_sched c)"
      "\<forall>a. sd_list s (SleepList a) = sd_list (cc_sched c) (SleepList a)"
      "\<forall>k i. page_sector k \<longrightarrow> i < 4096 \<longrightarrow> disk_page d k i = (if has_flag c p PG_DIRTY \<and> k = n then cc_data c p i else disk_page (cc_disk c) k i)"
    and w: "page_rw p c1 = Some (upd_cpage p (\<lambda>g. g\<lparr>pg_flag := done_flag (pg_flag g)\<rparr>)
      (c1\<lparr>cc_data := (cc_data c)(p := \<lambda>i. if \<not> has_flag c p PG_DIRTY \<and> i < 4096 then disk_page (cc_disk c) n i else cc_data c p i),
         cc_disk := d, cc_info := (cc_info c)(p := (cc_info c p)\<lparr>pc_timestamp := ts\<rparr>), cc_writing := None, cc_thread := None,
         cc_sched := s, cc_req := cc_req c + 1, cc_list := p # remove1 p (cc_list c), cc_rwlock := lk'\<rparr>))"
    unfolding n_def f by blast
  show ?thesis
    using assms(1) k d by (simp add: page_read_sync_def l [folded c1_def] w sleeplock_unlock_ok cache_rest_def f)
qed

lemma remove1_set: "distinct q \<Longrightarrow> set (remove1 p q) = set q - {p}"
  by simp

text \<open>
  The disk request brings a page and the disk together without changing what readers see, and takes
  the page off the queue.
\<close>

lemma page_read_sync_ok:
  assumes inv: "cache_inv q c" and p: "p \<in> set (cc_list c)" and prompt: "p \<in> set q \<Longrightarrow> ata_prompt (cc_disk c)"
  shows "\<exists>c'. page_read_sync p c = Some c' \<and> cache_inv (remove1 p q) c' \<and> cc_dirty c' = cc_dirty c \<and>
    ata_prompt (cc_disk c') = ata_prompt (cc_disk c) \<and> sd_cur (cc_sched c') = sd_cur (cc_sched c) \<and>
    set (cc_list c') = set (cc_list c) \<and> (\<forall>q. pc_no_secs (cc_info c' q) = pc_no_secs (cc_info c q)) \<and>
    (\<forall>i < 4096. cc_data c' p i = cache_view c (pc_no_secs (cc_info c p)) i) \<and>
    (\<forall>k i. page_sector k \<longrightarrow> i < 4096 \<longrightarrow> cache_view c' k i = cache_view c k i)"
proof -
  let ?n = "\<lambda>p. pc_no_secs (cc_info c p)"
  have g: "page_good q c x" if "x \<in> set (cc_list c)" for x using inv that by (simp add: cache_inv_def)
  have c: "cache_rest c" "distinct (cc_list c)" "inj_on ?n (set (cc_list c))" "distinct q" "set q \<subseteq> set (cc_list c)"
    using inv by (simp_all add: cache_inv_def)
  obtain c' where c': "page_read_sync p c = Some c'" "cache_rest c'" "idle_lock (pg_rwlock (cpage c' p))"
      "\<forall>q. q \<noteq> p \<longrightarrow> cpage c' q = cpage c q \<and> cc_data c' q = cc_data c q" "\<forall>q. pc_no_secs (cc_info c' q) = ?n q"
      "pg_flag (cpage c' p) = done_flag (pg_flag (cpage c p))" "cc_list c' = p # remove1 p (cc_list c)" "cc_dirty c' = cc_dirty c"
      "ata_prompt (cc_disk c') = ata_prompt (cc_disk c)" "sd_cur (cc_sched c') = sd_cur (cc_sched c)"
    and data: "\<forall>i < 4096. cc_data c' p i = (if has_flag c p PG_DIRTY then cc_data c p i else disk_page (cc_disk c) (?n p) i)"
    and disk: "\<forall>k i. page_sector k \<longrightarrow> i < 4096 \<longrightarrow> disk_page (cc_disk c') k i =
       (if has_flag c p PG_DIRTY \<and> k = ?n p then cc_data c p i else disk_page (cc_disk c) k i)"
    using page_read_sync_effect [OF c(1), of p] g [OF p] prompt unfolding page_good_def by blast
  have set': "set (cc_list c') = set (cc_list c)" using c(2) p by (auto simp: c'(7))
  have inj': "inj_on (\<lambda>p. pc_no_secs (cc_info c' p)) (set (cc_list c'))" using c(3) by (simp add: set' c'(5))
  have new: "cc_data c' p i = cache_view c (?n p) i" if "i < 4096" for i
    using g [OF p] that data unfolding cache_view_hit [OF c(3) p] page_good_def by (cases "has_flag c p PG_DIRTY") simp_all
  have other: "disk_page (cc_disk c') (?n x) i = disk_page (cc_disk c) (?n x) i" if "x \<in> set (cc_list c)" "x \<noteq> p" "i < 4096" for x i
    using that disk g [OF that(1)] c(3) p by (auto simp: page_good_def inj_on_def)
  have good: "page_good (remove1 p q) c' x" if x: "x \<in> set (cc_list c)" for x
  proof (cases "x = p")
    case True
    then show ?thesis using g [OF p] c' data disk c(4) by (simp add: page_good_def flag_bits done_flag_bits)
  next
    case False
    have "cpage c' x = cpage c x" "cc_data c' x = cc_data c x" using c'(4) False by simp_all
    then show ?thesis using g [OF x] other [OF x False] False c(4) by (auto simp: page_good_def c'(5) flag_bits)
  qed
  have "cache_view c' k i = cache_view c k i" if "page_sector k" "i < 4096" for k i
  proof (cases "\<exists>x\<in>set (cc_list c). ?n x = k")
    case True
    then obtain x where x: "x \<in> set (cc_list c)" "?n x = k" by blast
    have "cache_view c' k i = (if has_flag c' x PG_VALID then cc_data c' x i else disk_page (cc_disk c') k i)"
      using cache_view_hit [OF inj', of x i] x set' c'(5) by simp
    moreover have "cache_view c k i = (if has_flag c x PG_VALID then cc_data c x i else disk_page (cc_disk c) k i)"
      using cache_view_hit [OF c(3) x(1), of i] x by simp
    moreover have "cpage c' x = cpage c x" "cc_data c' x = cc_data c x" if "x \<noteq> p" using c'(4) that by simp_all
    ultimately show ?thesis using x new [OF that(2)] other [OF x(1) _ that(2)] c'(6)
      by (cases "x = p") (simp_all add: flag_bits done_flag_bits)
  next
    case False
    then have "cache_view c' k i = disk_page (cc_disk c') k i" "cache_view c k i = disk_page (cc_disk c) k i"
      using set' c'(5) by (auto intro!: cache_view_miss)
    then show ?thesis using disk that False p by auto
  qed
  moreover have "cache_inv (remove1 p q) c'"
    using c c' good set' inj' by (auto simp: cache_inv_def)
  ultimately show ?thesis using c' set' new by blast
qed

section \<open>Reading and writing pages\<close>

abbreviation relock :: "nat \<Rightarrow> rwlock \<Rightarrow> cache \<Rightarrow> cache" where
  "relock p k c \<equiv> upd_cpage p (\<lambda>g. g\<lparr>pg_rwlock := k\<rparr>) c"

lemma relock_inv:
  assumes "cache_inv q c" "idle_lock k"
  shows "cache_inv q (relock p k c)" "cache_view (relock p k c) n i = cache_view c n i"
proof -
  have "page_good q (relock p k c) x" if "page_good q c x" for x
    using that assms(2) by (cases "x = p") (auto simp: page_good_def)
  then show "cache_inv q (relock p k c)" using assms by (auto simp: cache_inv_def cache_rest_def)
  have "pg_flag (cpage (relock p k c) x) = pg_flag (cpage c x)" for x by simp
  then show "cache_view (relock p k c) n i = cache_view c n i" by (simp add: cache_view_def split: option.split)
qed

lemma page_read_unlock:
  assumes "idle_lock (pg_rwlock (cpage c p))"
  shows "\<exists>k1 k2. page_rlock p c = Some (relock p k1 c) \<and> page_runlock p (relock p k1 c) = Some (relock p k2 c) \<and> idle_lock k2"
proof -
  obtain k1 k2 where "rlock_lock (pg_rwlock (cpage c p)) = Some k1" "rlock_unlock k1 = Some k2" "idle_lock k2"
    using idle_read [OF assms] by blast
  then show ?thesis by (intro exI [of _ k1] exI [of _ k2]) (simp add: page_rlock_def page_runlock_def)
qed

lemma page_read_ok:
  assumes inv: "cache_inv (cc_dirty c) c" and p: "p \<in> set (cc_list c)"
  shows "\<exists>c'. page_read p c = Some c' \<and> cache_inv (cc_dirty c') c' \<and> p \<in> set (cc_list c') \<and>
    pc_no_secs (cc_info c' p) = pc_no_secs (cc_info c p) \<and>
    (\<forall>i < 4096. cc_data c' p i = cache_view c (pc_no_secs (cc_info c p)) i) \<and>
    (\<forall>k i. page_sector k \<longrightarrow> i < 4096 \<longrightarrow> cache_view c' k i = cache_view c k i) \<and> sd_cur (cc_sched c') = sd_cur (cc_sched c) \<and> ata_prompt (cc_disk c') = ata_prompt (cc_disk c)"
proof -
  have g: "page_good (cc_dirty c) c p" and inj: "inj_on (\<lambda>p. pc_no_secs (cc_info c p)) (set (cc_list c))"
    using inv p by (simp_all add: cache_inv_def)
  obtain k1 k2 where k: "page_rlock p c = Some (relock p k1 c)" "page_runlock p (relock p k1 c) = Some (relock p k2 c)" "idle_lock k2"
    using page_read_unlock g unfolding page_good_def by blast
  note r = relock_inv [OF inv k(3), of p]
  show ?thesis
  proof (cases "has_flag c p PG_VALID")
    case True
    then have "page_read p c = Some (relock p k2 c)" using k by (simp add: page_read_def)
    then show ?thesis using r p True by (auto simp: cache_view_hit [OF inj p])
  next
    case False
    have call: "page_read p c = page_read_sync p (relock p k2 c)" using k False by (simp add: page_read_def page_read_sync_def)
    have "p \<notin> set (cc_dirty c)" using g False by (auto simp: page_good_def)
    then have "remove1 p (cc_dirty c) = cc_dirty c" by (simp add: remove1_idem)
    then show ?thesis unfolding call
      using page_read_sync_ok [OF r(1), of p] p \<open>p \<notin> set (cc_dirty c)\<close> by (auto simp: r(2))
  qed
qed

text \<open>A store into a cached page followed by \<^verbatim>\<open>mark_page_dirty\<close>.\<close>

lemma mark_page_dirty_ok:
  assumes inv: "cache_inv (cc_dirty c) c" and p: "p \<in> set (cc_list c)"
  shows "\<exists>c'. mark_page_dirty p (c\<lparr>cc_data := (cc_data c)(p := d)\<rparr>) = Some c' \<and> cache_inv (cc_dirty c') c' \<and>
    set (cc_dirty c') = insert p (set (cc_dirty c)) \<and> cc_list c' = cc_list c \<and> cc_info c' = cc_info c \<and> cc_disk c' = cc_disk c \<and>
    (\<forall>k i. cache_view c' k i = (if k = pc_no_secs (cc_info c p) then d i else cache_view c k i))"
proof -
  let ?c = "c\<lparr>cc_data := (cc_data c)(p := d)\<rparr>"
  have g: "page_good (cc_dirty c) c x" if "x \<in> set (cc_list c)" for x using inv that by (simp add: cache_inv_def)
  have inj: "inj_on (\<lambda>p. pc_no_secs (cc_info c p)) (set (cc_list c))" using inv by (simp add: cache_inv_def)
  obtain k1 where k1: "wlock_lock (pg_rwlock (cpage c p)) = Some k1" "idle_lock (wlock_unlock k1)"
    using idle_write g [OF p] unfolding page_good_def by blast
  have D: "has_flag c p PG_DIRTY \<longleftrightarrow> p \<in> set (cc_dirty c)" and C: "has_flag c p PG_CACHE" using g [OF p] by (simp_all add: page_good_def)
  let ?q = "if p \<in> set (cc_dirty c) then cc_dirty c else cc_dirty c @ [p]"
  define c' where "c' = upd_cpage p (\<lambda>g. g\<lparr>pg_flag := if p \<in> set (cc_dirty c) then pg_flag g else pg_flag g OR (PG_DIRTY OR PG_VALID), pg_rwlock := wlock_unlock k1\<rparr>)
    (c\<lparr>cc_data := (cc_data c)(p := d), cc_dirty := ?q\<rparr>)"
  have call: "mark_page_dirty p ?c = Some c'"
    using k1 C D by (cases "p \<in> set (cc_dirty c)") (simp_all add: mark_page_dirty_def page_wlock_def page_wunlock_def Let_def c'_def)
  have V: "has_flag c' p PG_VALID" "has_flag c' p PG_DIRTY"
    using g [OF p] D by (auto simp: c'_def page_good_def flag_bits dirty_flag_bits)
  have f: "cc_info c' = cc_info c" "cc_list c' = cc_list c" "cc_disk c' = cc_disk c" "cc_dirty c' = ?q" "cache_rest c' = cache_rest c"
    "cc_data c' p = d" "x \<noteq> p \<Longrightarrow> cpage c' x = cpage c x" "x \<noteq> p \<Longrightarrow> cc_data c' x = cc_data c x" for x
    by (simp_all add: c'_def cache_rest_def)
  have good: "page_good ?q c' x" if x: "x \<in> set (cc_list c)" for x
  proof (cases "x = p")
    case True
    have "has_flag c' p PG_CACHE" "idle_lock (pg_rwlock (cpage c' p))" using C k1 by (auto simp: c'_def flag_bits dirty_flag_bits)
    then show ?thesis using True g [OF p] V by (simp add: page_good_def f)
  next
    case False
    then show ?thesis using g [OF x] by (auto simp: page_good_def f)
  qed
  have "cache_view c' k i = (if k = pc_no_secs (cc_info c p) then d i else cache_view c k i)" for k i
  proof (cases "\<exists>x\<in>set (cc_list c). pc_no_secs (cc_info c x) = k")
    case True
    then obtain x where x: "x \<in> set (cc_list c)" "pc_no_secs (cc_info c x) = k" by blast
    have "x = p" if "k = pc_no_secs (cc_info c p)" using inj x p that by (auto simp: inj_on_def)
    then show ?thesis
      using cache_view_hit [of c' x i] cache_view_hit [OF inj x(1), of i] x p inj V by (cases "x = p") (auto simp: f)
  next
    case False
    then show ?thesis using cache_view_miss [of c' k i] cache_view_miss [of c k i] p by (auto simp: f)
  qed
  moreover have "cache_inv (cc_dirty c') c'" using inv good p by (auto simp: cache_inv_def f)
  ultimately show ?thesis using call by (auto simp: f)
qed

section \<open>Flushing\<close>

lemma cache_view_queue [simp]: "cache_view (c\<lparr>cc_dirty := q\<rparr>) k i = cache_view c k i"
  by (simp add: cache_view_def split: option.split)

lemma cache_inv_queue [simp]: "cache_inv q (c\<lparr>cc_dirty := x\<rparr>) = cache_inv q c"
proof -
  have "page_good q (c\<lparr>cc_dirty := x\<rparr>) = page_good q c" by (simp add: page_good_def fun_eq_iff)
  then show ?thesis by (simp add: cache_inv_def cache_rest_def)
qed

lemma page_flush_ok:
  assumes inv: "cache_inv q c" and p: "p \<in> set q" and prompt: "ata_prompt (cc_disk c)"
  shows "\<exists>c'. page_flush p c = Some c' \<and> cache_inv (remove1 p q) c' \<and> set (cc_list c') = set (cc_list c) \<and> ata_prompt (cc_disk c') \<and>
    (\<forall>k i. page_sector k \<longrightarrow> i < 4096 \<longrightarrow> cache_view c' k i = cache_view c k i)"
proof -
  have l: "p \<in> set (cc_list c)" and g: "page_good q c p" using inv p by (auto simp: cache_inv_def)
  obtain k1 k2 where k: "page_rlock p c = Some (relock p k1 c)" "page_runlock p (relock p k1 c) = Some (relock p k2 c)" "idle_lock k2"
    using page_read_unlock g unfolding page_good_def by blast
  note r = relock_inv [OF inv k(3), of p]
  have "has_flag c p PG_DIRTY" using g p by (simp add: page_good_def)
  then have "page_flush p c = page_read_sync p (relock p k2 c)" using k by (simp add: page_flush_def page_read_sync_def)
  then show ?thesis using page_read_sync_ok [OF r(1), of p, unfolded r(2)] l prompt by auto
qed

lemma flush_loop_ok:
  assumes "cache_inv q c" "ata_prompt (cc_disk c)"
  shows "\<exists>c'. flush_loop q c = Some c' \<and> cache_inv [] c' \<and> cc_dirty c' = [] \<and>
    (\<forall>k i. page_sector k \<longrightarrow> i < 4096 \<longrightarrow> cache_view c' k i = cache_view c k i)"
  using assms
proof (induction q arbitrary: c)
  case Nil
  then show ?case by simp
next
  case (Cons p q)
  let ?c = "c\<lparr>cc_dirty := q\<rparr>"
  have "cache_inv (p # q) ?c" using Cons.prems by simp
  from page_flush_ok [OF this, of p] obtain c1 where c1: "page_flush p ?c = Some c1" "cache_inv q c1" "ata_prompt (cc_disk c1)"
    "\<forall>k i. page_sector k \<longrightarrow> i < 4096 \<longrightarrow> cache_view c1 k i = cache_view c k i" using Cons.prems(2) by auto
  obtain c' where "flush_loop q c1 = Some c'" "cache_inv [] c'" "cc_dirty c' = []"
    "\<forall>k i. page_sector k \<longrightarrow> i < 4096 \<longrightarrow> cache_view c' k i = cache_view c1 k i"
    using Cons.IH [OF c1(2,3)] by blast
  then show ?case using c1 by simp
qed

text \<open>A page that was written by another way than the queue is met clean by the loop.\<close>

lemma flush_loop_stale:
  assumes "cache_inv (remove1 p q) c" "p \<in> set q" "p \<in> set (cc_list c)" "distinct q" "ata_prompt (cc_disk c)"
  shows "flush_loop q c = None"
  using assms
proof (induction q arbitrary: c)
  case (Cons x q)
  let ?c = "c\<lparr>cc_dirty := q\<rparr>"
  show ?case
  proof (cases "x = p")
    case True
    have "cache_inv q ?c" using Cons.prems True by simp
    then have g: "page_good q ?c p" using Cons.prems(3) by (auto simp: cache_inv_def)
    then obtain k1 k2 where k: "page_rlock p ?c = Some (relock p k1 ?c)" using page_read_unlock unfolding page_good_def by blast
    have "\<not> has_flag ?c p PG_DIRTY" using g Cons.prems(4) True by (simp add: page_good_def)
    then have "page_flush p ?c = None" using k by (simp add: page_flush_def)
    then show ?thesis using True by simp
  next
    case False
    have "cache_inv (x # remove1 p q) ?c" using Cons.prems False by simp
    from page_flush_ok [OF this, of x] obtain c1 where c1: "page_flush x ?c = Some c1" "cache_inv (remove1 p q) c1"
      "set (cc_list c1) = set (cc_list c)" "ata_prompt (cc_disk c1)" using Cons.prems(5) by auto
    then show ?thesis using Cons.IH [OF c1(2)] Cons.prems False by simp
  qed
qed simp

lemma clean_view:
  assumes "cache_inv [] c" "page_sector k" "i < 4096"
  shows "disk_page (cc_disk c) k i = cache_view c k i"
proof (cases "\<exists>x\<in>set (cc_list c). pc_no_secs (cc_info c x) = k")
  case True
  then obtain x where "x \<in> set (cc_list c)" "pc_no_secs (cc_info c x) = k" by blast
  then show ?thesis using assms cache_view_hit [of c x i] by (auto simp: cache_inv_def page_good_def)
next
  case False
  then show ?thesis by (auto simp: cache_view_miss)
qed

section \<open>A page for new sectors\<close>

text \<open>
  There is a free page, and every free page lies below \<^verbatim>\<open>PHYS_TOP\<close>, is not mapped by the kernel and carries
  no flag of an earlier life in the cache; the pages of the cache are in use.
\<close>

definition memory_ok :: "cache \<Rightarrow> bool" where
  "memory_ok c \<longleftrightarrow> (let k = kh_mem (cc_heap c); s = km_pmm k in
     buddy_inv s \<and> (\<exists>i. free_region s i 0) \<and> 4096 dvd unat (ba_addr s) \<and> 0 < unat (ba_addr s) \<and>
     unat (ba_addr s) + 4096 * ba_npages s \<le> unat PHYS_TOP \<and>
     (\<forall>i. free_region s i 0 \<longrightarrow> km_pt k (unat (page_addr i s) div 4096) = 0 \<and>
        \<not> bit (pg_flag (ba_pages s i)) 2 \<and> \<not> bit (pg_flag (ba_pages s i)) 3) \<and>
     (\<forall>p\<in>set (cc_list c). in_use s p \<noteq> None))"

lemma alloc_one_ok:
  assumes inv: "buddy_inv s" and free: "free_region s i 0"
  shows "\<exists>pg s'. alloc_page_core PAGE_SIZE s = Some (pg, s') \<and> free_region s pg 0 \<and> in_use s pg = None \<and> pg < ba_npages s \<and>
    ba_npages s' = ba_npages s \<and> ba_addr s' = ba_addr s \<and> page_head (ba_pages s' pg) \<and> pg_size (ba_pages s' pg) = ORDER_SIZE 0 \<and>
    pg_rwlock (ba_pages s' pg) = rwlock_init \<and> pg_flag (ba_pages s' pg) = pg_flag (ba_pages s pg) \<and>
    (\<forall>k. in_use s k \<noteq> None \<longrightarrow> ba_pages s' k = ba_pages s k)"
proof -
  obtain f where ok: "buddy_ok {} s f" and lock: "ba_lock s = 0" "ba_pageCnt s \<le> ba_npages s" using inv by (auto simp: buddy_inv_def)
  have sz: "fixSize PAGE_SIZE = ORDER_SIZE 0" "(0 :: nat) \<le> MAX_ORDER" by (simp_all add: fixSize_def PAGE_SIZE_def ORDER_SIZE_def IS_POWER_OF_2_def)
  obtain d where d: "find_root 0 s = Some d" using find_root_region [OF ok, of 0] free by auto
  obtain pg s' f' where r: "alloc_page_core PAGE_SIZE s = Some (pg, s')" "buddy_ok {} s' f'" "f' pg = Some 0"
    "f pg = Some d" "pg_ref_cnt (ba_pages s pg) = 0" "ba_pageCnt s' = ba_pageCnt s" "ba_npages s' = ba_npages s" "ba_addr s' = ba_addr s"
    "same_used pg s f s' f'" "pg_rwlock (ba_pages s' pg) = rwlock_init" "pg_flag (ba_pages s' pg) = pg_flag (ba_pages s pg)"
    using alloc_page_ok [OF ok lock(1) sz d] by blast
  have lt: "pg < ba_pageCnt s" using tilesD(4) [OF buddy_okD(1) [OF ok] r(4)] by simp
  have "free_region s pg 0"
    using block_region [OF ok, of pg d] free_region_smaller [of s pg d 0] r(4,5) by (simp add: unused_def)
  moreover have "page_head (ba_pages s' pg)" "pg_size (ba_pages s' pg) = ORDER_SIZE 0"
    using buddy_okD(2) [OF r(2), of pg] lt r(3,6) by (simp_all add: shape_at_def)
  moreover have "ba_pages s' k = ba_pages s k" if "in_use s k \<noteq> None" for k
    using r(5,9) that in_use_eq [OF ok, of k] by (cases "k = pg") (auto simp: same_used_def split: if_splits)
  ultimately show ?thesis using r lt lock in_use_eq [OF ok, of pg] by auto
qed

lemma new_buf_ok:
  assumes mem: "memory_ok c"
  shows "\<exists>p c'. new_buf n c = Some (p, c') \<and> p \<notin> set (cc_list c) \<and> cc_list c' = cc_list c \<and> cc_dirty c' = cc_dirty c \<and>
    cc_data c' = cc_data c \<and> cc_disk c' = cc_disk c \<and> cc_sched c' = cc_sched c \<and> cc_wait_rw c' = cc_wait_rw c \<and> cc_rwlock c' = cc_rwlock c \<and>
    cc_irq c' = cc_irq c \<and>
    cc_info c' = (cc_info c)(p := \<lparr>pc_timestamp = 0, pc_no_secs = n\<rparr>) \<and> (\<forall>x\<in>set (cc_list c). cpage c' x = cpage c x) \<and>
    has_flag c' p PG_CACHE \<and> \<not> has_flag c' p PG_DIRTY \<and> \<not> has_flag c' p PG_VALID \<and> pg_rwlock (cpage c' p) = rwlock_init"
proof -
  define h where "h = cc_heap c"
  define s where "s = km_pmm (kh_mem h)"
  have m: "buddy_inv s" "4096 dvd unat (ba_addr s)" "0 < unat (ba_addr s)" "unat (ba_addr s) + 4096 * ba_npages s \<le> unat PHYS_TOP"
      "\<And>i. free_region s i 0 \<Longrightarrow> km_pt (kh_mem h) (unat (page_addr i s) div 4096) = 0 \<and> \<not> bit (pg_flag (ba_pages s i)) 2 \<and> \<not> bit (pg_flag (ba_pages s i)) 3"
      "\<And>p. p \<in> set (cc_list c) \<Longrightarrow> in_use s p \<noteq> None" and "\<exists>i. free_region s i 0"
    using mem by (auto simp: memory_ok_def Let_def s_def h_def)
  then obtain p s' where p: "alloc_page_core PAGE_SIZE s = Some (p, s')" "free_region s p 0" "in_use s p = None" "p < ba_npages s"
    "ba_npages s' = ba_npages s" "ba_addr s' = ba_addr s" "page_head (ba_pages s' p)" "pg_size (ba_pages s' p) = ORDER_SIZE 0"
    "pg_rwlock (ba_pages s' p) = rwlock_init" "pg_flag (ba_pages s' p) = pg_flag (ba_pages s p)"
    "\<forall>k. in_use s k \<noteq> None \<longrightarrow> ba_pages s' k = ba_pages s k"
    using alloc_one_ok [OF m(1)] by blast
  let ?k = "(kh_mem h)\<lparr>km_pmm := s'\<rparr>"
  have top: "unat PHYS_TOP < 2 ^ 32" by (rule unat_u32_lt)
  have addr: "page_addr p s' = page_addr p s" using p(6) by (simp add: page_addr_def)
  have pa: "unat (page_addr p s) = unat (ba_addr s) + 4096 * p"
    using unat_page_addr [of s p] m(4) p(4) top by simp
  have "km_pt (kh_mem h) j = 0" if "unat (ba_addr s) div 4096 + p \<le> j" "j < Suc (unat (ba_addr s) div 4096 + p)" for j
  proof -
    have "j = unat (page_addr p s) div 4096" using that by (simp add: pa)
    then show ?thesis using m(5) [OF p(2)] by simp
  qed
  then obtain k' where k': "kvm_map p (VM_PRES OR VM_KRW) ?k = Some k'"
    "km_pmm k' = upd_page p (\<lambda>g. g\<lparr>pg_data := page_addr p s' + KERNEL_START\<rparr>) s'"
    using kvm_map_maps [of ?k p 0 "VM_PRES OR VM_KRW"] m p addr pa top
    by (auto simp: VM_PRES_def VM_KRW_def)
  have "p \<notin> set (cc_list c)" using m(6) [of p] p(3) by auto
  moreover have "new_buf n c = Some (p, (upd_cpage p (\<lambda>g. g\<lparr>pg_flag := pg_flag g OR PG_CACHE\<rparr>) (c\<lparr>cc_heap := h\<lparr>kh_mem := k'\<rparr>\<rparr>))
      \<lparr>cc_info := (cc_info c)(p := \<lparr>pc_timestamp = 0, pc_no_secs = n\<rparr>)\<rparr>)"
    using p(1) k'(1) by (simp add: new_buf_def Let_def h_def s_def)
  moreover have "\<not> bit (pg_flag (ba_pages s' p)) 2" "\<not> bit (pg_flag (ba_pages s' p)) 3" using m(5) [OF p(2)] p(10) by simp_all
  moreover have "ba_pages s' x = ba_pages s x" if "x \<in> set (cc_list c)" for x using p(11) m(6) [OF that] by simp
  ultimately show ?thesis using k'(2) p(9) m(6) by (auto simp: flag_bits dirty_flag_bits s_def h_def)
qed

lemma cache_inv_lock [simp]:
  "idle_lock k \<Longrightarrow> idle_lock (cc_rwlock c) \<Longrightarrow> cache_inv q (c\<lparr>cc_rwlock := k\<rparr>) = cache_inv q c"
  "cache_view (c\<lparr>cc_rwlock := k\<rparr>) n i = cache_view c n i"
proof -
  have "page_good q (c\<lparr>cc_rwlock := k\<rparr>) = page_good q c" by (simp add: page_good_def fun_eq_iff)
  then show "idle_lock k \<Longrightarrow> idle_lock (cc_rwlock c) \<Longrightarrow> cache_inv q (c\<lparr>cc_rwlock := k\<rparr>) = cache_inv q c"
    by (simp add: cache_inv_def cache_rest_def)
  show "cache_view (c\<lparr>cc_rwlock := k\<rparr>) n i = cache_view c n i" by (simp add: cache_view_def split: option.split)
qed

lemma page_get_miss:
  assumes inv: "cache_inv (cc_dirty c) c" and mem: "memory_ok c" and n: "page_sector n"
    and miss: "\<forall>x\<in>set (cc_list c). pc_no_secs (cc_info c x) \<noteq> n" and k: "idle_lock k"
  shows "\<exists>p c'. new_buf n c = Some (p, c') \<and> cc_rwlock c' = cc_rwlock c \<and> cc_list c' = cc_list c \<and> pc_no_secs (cc_info c' p) = n \<and>
    cc_dirty c' = cc_dirty c \<and> cc_disk c' = cc_disk c \<and> cc_sched c' = cc_sched c \<and> cache_inv (cc_dirty c) (c'\<lparr>cc_list := cc_list c @ [p], cc_rwlock := k\<rparr>) \<and>
    (\<forall>m i. cache_view (c'\<lparr>cc_list := cc_list c @ [p], cc_rwlock := k\<rparr>) m i = cache_view c m i)"
proof -
  obtain p c' where p: "new_buf n c = Some (p, c')" "p \<notin> set (cc_list c)" and f: "cc_list c' = cc_list c" "cc_dirty c' = cc_dirty c"
      "cc_data c' = cc_data c" "cc_disk c' = cc_disk c" "cc_sched c' = cc_sched c" "cc_wait_rw c' = cc_wait_rw c" "cc_rwlock c' = cc_rwlock c"
      "cc_info c' = (cc_info c)(p := \<lparr>pc_timestamp = 0, pc_no_secs = n\<rparr>)" "\<forall>x\<in>set (cc_list c). cpage c' x = cpage c x"
      "cc_irq c' = cc_irq c"
    and p': "has_flag c' p PG_CACHE" "\<not> has_flag c' p PG_DIRTY" "\<not> has_flag c' p PG_VALID" "pg_rwlock (cpage c' p) = rwlock_init"
    using new_buf_ok [OF mem, of n] by blast
  let ?c = "c'\<lparr>cc_list := cc_list c @ [p], cc_rwlock := k\<rparr>"
  have inj: "inj_on (\<lambda>x. pc_no_secs (cc_info c x)) (set (cc_list c))" using inv by (simp add: cache_inv_def)
  have old: "pc_no_secs (cc_info ?c x) = pc_no_secs (cc_info c x)" "cpage ?c x = cpage c x" if "x \<in> set (cc_list c)" for x
    using that p(2) f(9) by (auto simp: f(8))
  have new: "pc_no_secs (cc_info ?c p) = n" by (simp add: f(8))
  have d: "p \<notin> set (cc_dirty c)" using inv p(2) by (auto simp: cache_inv_def)
  have "page_good (cc_dirty c) ?c p" using p' n d by (simp add: page_good_def f(8) idle_lock_def rwlock_init_def spinlock_init_def SPINLOCK_UNLOCK_def)
  moreover have "page_good (cc_dirty c) ?c x" if "x \<in> set (cc_list c)" for x
  proof -
    have "page_good (cc_dirty c) c x" using inv that by (simp add: cache_inv_def)
    then show ?thesis unfolding page_good_def old [OF that] by (auto simp: f flag_bits)
  qed
  moreover have inj': "inj_on (\<lambda>x. pc_no_secs (cc_info ?c x)) (set (cc_list ?c))"
    using inj miss old(1) new p(2) by (auto simp: inj_on_def)
  ultimately have I: "cache_inv (cc_dirty c) ?c"
    using inv p(2) k by (auto simp: cache_inv_def cache_rest_def f)
  have "cache_view ?c m i = cache_view c m i" for m i
  proof (cases "\<exists>x\<in>set (cc_list c). pc_no_secs (cc_info c x) = m")
    case True
    then obtain x where x: "x \<in> set (cc_list c)" "pc_no_secs (cc_info c x) = m" by blast
    then show ?thesis using cache_view_hit [OF inj', of x i] cache_view_hit [OF inj x(1), of i] old [OF x(1)] by (simp add: f)
  next
    case False
    have "cache_view ?c m i = disk_page (cc_disk c) m i"
      using cache_view_hit [OF inj', of p i] cache_view_miss [of ?c m i] False p' new old(1) by (cases "m = n") (auto simp: f)
    then show ?thesis using False cache_view_miss [of c m i] by auto
  qed
  moreover have "pc_no_secs (cc_info c' p) = n" by (simp add: f(8))
  ultimately show ?thesis using p(1) f(1,2,4,5,7) I by blast
qed

lemma page_get_hit:
  assumes inv: "cache_inv (cc_dirty c) c" and n: "page_sector n" and hit: "\<exists>x\<in>set (cc_list c). pc_no_secs (cc_info c x) = n"
  shows "\<exists>p k. page_get n c = Some (p, c\<lparr>cc_rwlock := k\<rparr>) \<and> idle_lock k \<and> p \<in> set (cc_list c) \<and> pc_no_secs (cc_info c p) = n"
proof -
  have lk: "idle_lock (cc_rwlock c)" using inv by (simp add: cache_inv_def cache_rest_def)
  obtain k1 k2 where k: "rlock_lock (cc_rwlock c) = Some k1" "rlock_unlock k1 = Some k2" "idle_lock k2" using idle_read [OF lk] by blast
  obtain p where f: "List.find (\<lambda>i. pc_no_secs (cc_info c i) = n) (cc_list c) = Some p"
    using hit find_None_iff [of "\<lambda>i. pc_no_secs (cc_info c i) = n" "cc_list c"] by fastforce
  then have p: "p \<in> set (cc_list c)" "pc_no_secs (cc_info c p) = n" by (auto simp: find_Some_iff)
  then have "has_flag c p PG_CACHE" using inv by (simp add: cache_inv_def page_good_def)
  then have "page_get n c = Some (p, c\<lparr>cc_rwlock := k2\<rparr>)" using k n f by (simp add: page_get_def page_sector_def)
  then show ?thesis using p k by blast
qed

lemma page_get_ok:
  assumes inv: "cache_inv (cc_dirty c) c" and mem: "memory_ok c" and n: "page_sector n"
  shows "\<exists>p c'. page_get n c = Some (p, c') \<and> cache_inv (cc_dirty c') c' \<and> p \<in> set (cc_list c') \<and> pc_no_secs (cc_info c' p) = n \<and>
    cc_dirty c' = cc_dirty c \<and> cc_disk c' = cc_disk c \<and> cc_sched c' = cc_sched c \<and> (\<forall>m i. cache_view c' m i = cache_view c m i)"
proof -
  have lk: "idle_lock (cc_rwlock c)" using inv by (simp add: cache_inv_def cache_rest_def)
  obtain k1 k2 where k: "rlock_lock (cc_rwlock c) = Some k1" "rlock_unlock k1 = Some k2" "idle_lock k2" using idle_read [OF lk] by blast
  have a: "n AND 7 = 0" using n by (simp add: page_sector_def)
  let ?find = "List.find (\<lambda>i. pc_no_secs (cc_info c i) = n) (cc_list c)"
  show ?thesis
  proof (cases ?find)
    case (Some p)
    then have "\<exists>x\<in>set (cc_list c). pc_no_secs (cc_info c x) = n" by (auto simp: find_Some_iff intro: nth_mem)
    then show ?thesis using page_get_hit [OF inv n] inv lk by auto
  next
    case None
    let ?c = "c\<lparr>cc_rwlock := k2\<rparr>"
    obtain k3 where k3: "wlock_lock k2 = Some k3" "idle_lock (wlock_unlock k3)" using idle_write [OF k(3)] by blast
    have "cache_inv (cc_dirty ?c) ?c" "memory_ok ?c" "\<forall>x\<in>set (cc_list ?c). pc_no_secs (cc_info ?c x) \<noteq> n"
      using inv k lk mem None by (simp_all add: memory_ok_def find_None_iff)
    then obtain p c' where p: "new_buf n ?c = Some (p, c')" "pc_no_secs (cc_info c' p) = n" "cc_list c' = cc_list ?c" "cc_dirty c' = cc_dirty c"
      "cc_disk c' = cc_disk c" "cc_sched c' = cc_sched c" "cc_rwlock c' = k2" "cache_inv (cc_dirty c) (c'\<lparr>cc_list := cc_list c @ [p], cc_rwlock := wlock_unlock k3\<rparr>)"
      "\<forall>m i. cache_view (c'\<lparr>cc_list := cc_list c @ [p], cc_rwlock := wlock_unlock k3\<rparr>) m i = cache_view c m i"
      using page_get_miss [of ?c n "wlock_unlock k3"] n k3(2) by auto
    have "page_get n c = Some (p, c'\<lparr>cc_list := cc_list c @ [p], cc_rwlock := wlock_unlock k3\<rparr>)"
      using k k3 a None p by (simp add: page_get_def)
    then show ?thesis using p by simp
  qed
qed

text \<open>
  Reading the page of some sectors: memory is needed only when the sectors are not cached yet.
\<close>

lemma page_read_no_ok:
  assumes inv: "cache_inv (cc_dirty c) c" and n: "page_sector n"
    and mem: "memory_ok c \<or> (\<exists>x\<in>set (cc_list c). pc_no_secs (cc_info c x) = n)"
  shows "\<exists>p c'. page_read_no n c = Some (p, c') \<and> cache_inv (cc_dirty c') c' \<and> p \<in> set (cc_list c') \<and>
    pc_no_secs (cc_info c' p) = n \<and> (\<forall>i < 4096. cc_data c' p i = cache_view c n i) \<and>
    (\<forall>k i. page_sector k \<longrightarrow> i < 4096 \<longrightarrow> cache_view c' k i = cache_view c k i) \<and> sd_cur (cc_sched c') = sd_cur (cc_sched c) \<and> ata_prompt (cc_disk c') = ata_prompt (cc_disk c)"
proof -
  have lk: "idle_lock (cc_rwlock c)" using inv by (simp add: cache_inv_def cache_rest_def)
  obtain p c1 where c1: "page_get n c = Some (p, c1)" "cache_inv (cc_dirty c1) c1" "p \<in> set (cc_list c1)"
    "pc_no_secs (cc_info c1 p) = n" "\<forall>m i. cache_view c1 m i = cache_view c m i" "sd_cur (cc_sched c1) = sd_cur (cc_sched c)"
    "cc_disk c1 = cc_disk c"
  proof (cases "\<exists>x\<in>set (cc_list c). pc_no_secs (cc_info c x) = n")
    case True
    then show ?thesis using page_get_hit [OF inv n True] that inv lk by fastforce
  next
    case False
    then show ?thesis using page_get_ok [OF inv _ n] mem that by metis
  qed
  then show ?thesis using page_read_ok [OF c1(2,3)] by (auto simp: page_read_no_def)
qed

section \<open>Properties\<close>

text \<open>An empty cache over four free pages and a disk at rest, for the witnesses.\<close>

lemma demo_cache:
  obtains c where "cache_inv (cc_dirty c) c" "memory_ok c" "cc_list c = []" "cc_dirty c = []" "ata_prompt (cc_disk c)"
    "cc_irq c = (\<lambda>_. Late 1 (\<lambda>_. Block))"
proof (rule small_buddy, rule demo_sched)
  fix s :: buddyAllocator and t :: sched
  fix c0 :: cache and a0 :: ata and k0 :: kmem and h0 :: kheap
  assume s: "buddy_inv s" "in_use s = (\<lambda>_. None)" "ba_pageCnt s = 4" "free_region s 0 0" "ba_npages s = 4" "ba_addr s = 0x100000"
  assume t: "running t" "sd_idle t = 0x1000" "sd_cur t = 0x2000" "\<And>a. sd_list t (SleepList a) = []"
  define s1 where "s1 = s\<lparr>ba_pages := (\<lambda>i. (ba_pages s i)\<lparr>pg_flag := pg_flag (ba_pages s i) AND 1\<rparr>)\<rparr>"
  have sp: "same_page (ba_pages s1 i) (ba_pages s i)" for i
    by (simp add: s1_def same_page_def page_head_def PG_Head_def and.assoc)
  have "in_use s1 = in_use s" by (simp add: fun_eq_iff in_use_def s1_def page_head_def PG_Head_def and.assoc page_order_def)
  then have b: "buddy_inv s1" "in_use s1 = (\<lambda>_. None)"
    using s(1,2) sp buddy_ok_cong [of s1 s] by (auto simp: buddy_inv_def s1_def)
  define c where "c = c0\<lparr>cc_heap := h0\<lparr>kh_mem := k0\<lparr>km_pmm := s1, km_pt := \<lambda>_. 0\<rparr>\<rparr>, cc_list := [], cc_rwlock := rwlock_init,
    cc_wait_rw := \<lparr>mx_locked = False, mx_lock = 0, mx_sleep = 0\<rparr>, cc_dirty := [], cc_sched := t,
    cc_disk := a0\<lparr>a_xfer := XIdle, a_latency := (\<lambda>v. if v = 0xC5 then 0 else 3)\<rparr>, cc_irq := (\<lambda>_. Late 1 (\<lambda>_. Block))\<rparr>"
  have "cache_rest c" using t fair_block
    by (simp add: cache_rest_def c_def idle_lock_def rwlock_init_def spinlock_init_def SPINLOCK_UNLOCK_def ata_ready_def)
  then have "cache_inv (cc_dirty c) c" by (simp add: cache_inv_def c_def)
  moreover have "memory_ok c"
    using b s by (auto simp: memory_ok_def c_def s1_def free_region_def Let_def PHYS_TOP_def DEVSP_SIZE_def bit_simps)
  ultimately show thesis by (intro that [of c]) (simp_all add: c_def ata_prompt_def)
qed

text \<open>
  C3. Reading through the cache. \<^verbatim>\<open>page_read_no\<close> on a well-formed cache with a free page returns, in a
  well-formed cache, a page that belongs to the requested sectors and whose 4096 bytes are what those
  sectors hold: the last data written through the cache, whether they have reached the disk or not,
  else the bytes on the disk; what other sectors hold does not change. This holds whether the
  interrupt of the disk request comes before the task tests \<^verbatim>\<open>cacheAllocator.thread\<close> or after it has gone
  to sleep and other tasks have run (on fair traces, part of the invariant); the task runs again.
\<close>

theorem page_cache_read_correct:
  assumes "cache_inv (cc_dirty c) c" "memory_ok c" "page_sector n"
  shows "\<exists>p c'. page_read_no n c = Some (p, c') \<and> cache_inv (cc_dirty c') c' \<and> p \<in> set (cc_list c') \<and>
    pc_no_secs (cc_info c' p) = n \<and> (\<forall>i < 4096. cc_data c' p i = cache_view c n i) \<and>
    (\<forall>k i. page_sector k \<longrightarrow> i < 4096 \<longrightarrow> cache_view c' k i = cache_view c k i) \<and>
    sd_cur (cc_sched c') = sd_cur (cc_sched c)"
  using page_read_no_ok [OF assms(1,3)] assms(2) by blast

theorem page_cache_read_correct_witness:
  "\<exists>c p c'. page_read_no 8 c = Some (p, c') \<and> cc_irq c (cc_req c) = Late 1 (\<lambda>_. Block) \<and> cc_list c = [] \<and> pc_no_secs (cc_info c' p) = 8 \<and>
    (\<forall>i < 4096. cc_data c' p i = disk_page (cc_disk c) 8 i)"
proof (rule demo_cache)
  fix c assume c: "cache_inv (cc_dirty c) c" "memory_ok c" "cc_list c = []" "cc_irq c = (\<lambda>_. Late 1 (\<lambda>_. Block))"
  have "cache_view c 8 i = disk_page (cc_disk c) 8 i" for i using c(3) by (simp add: cache_view_def)
  moreover have "page_sector 8" by (simp add: page_sector_def)
  ultimately obtain p c' where "page_read_no 8 c = Some (p, c')" "pc_no_secs (cc_info c' p) = 8"
    "\<forall>i < 4096. cc_data c' p i = disk_page (cc_disk c) 8 i"
    using page_cache_read_correct [OF c(1,2), of 8] by auto
  then show ?thesis using c(3,4) by (intro exI [of _ c] exI [of _ p] exI [of _ c']) simp
qed

text \<open>
  C6. Written data reach the disk. When the bytes of a cached page are replaced and the page is marked
  dirty, the next flush of the dirty pages returns with no page left dirty, and then the disk holds
  the new bytes in the sectors of that page and, everywhere else, what the cache promised before.
  The drive must take the data of a write as soon as the command is written (\<open>ata_prompt\<close>), since
  \<^verbatim>\<open>ide_start\<close> does not wait; the flushing task sleeps for each request whose interrupt has not come when
  it tests for it, and other tasks run meanwhile.
\<close>

theorem page_cache_write_correct:
  assumes "cache_inv (cc_dirty c) c" "p \<in> set (cc_list c)" "ata_prompt (cc_disk c)"
  shows "\<exists>c1 c2. mark_page_dirty p (c\<lparr>cc_data := (cc_data c)(p := d)\<rparr>) = Some c1 \<and> flush_pages c1 = Some c2 \<and>
    cache_inv [] c2 \<and> cc_dirty c2 = [] \<and>
    (\<forall>k i. page_sector k \<longrightarrow> i < 4096 \<longrightarrow>
       disk_page (cc_disk c2) k i = (if k = pc_no_secs (cc_info c p) then d i else cache_view c k i))"
proof -
  obtain c1 where c1: "mark_page_dirty p (c\<lparr>cc_data := (cc_data c)(p := d)\<rparr>) = Some c1" "cache_inv (cc_dirty c1) c1" "cc_disk c1 = cc_disk c"
    "\<forall>k i. cache_view c1 k i = (if k = pc_no_secs (cc_info c p) then d i else cache_view c k i)"
    using mark_page_dirty_ok [OF assms(1,2)] by blast
  obtain c2 where "flush_pages c1 = Some c2" "cache_inv [] c2" "cc_dirty c2 = []"
    "\<forall>k i. page_sector k \<longrightarrow> i < 4096 \<longrightarrow> cache_view c2 k i = cache_view c1 k i"
    using flush_loop_ok [OF c1(2)] assms(3) c1(3) unfolding flush_pages_def by auto
  then show ?thesis using c1 by (simp add: clean_view)
qed

text \<open>A cache with one page, for the witnesses.\<close>

lemma demo_cached:
  obtains c p where "cache_inv (cc_dirty c) c" "p \<in> set (cc_list c)" "pc_no_secs (cc_info c p) = 8" "ata_prompt (cc_disk c)"
proof (rule demo_cache)
  fix c assume c: "cache_inv (cc_dirty c) c" "memory_ok c" "ata_prompt (cc_disk c)"
  have "page_sector 8" by (simp add: page_sector_def)
  then show thesis using page_get_ok [OF c(1,2), of 8] c(3) that by metis
qed

theorem page_cache_write_correct_witness:
  "\<exists>c c1 c2 p. mark_page_dirty p (c\<lparr>cc_data := (cc_data c)(p := \<lambda>_. 7)\<rparr>) = Some c1 \<and> flush_pages c1 = Some c2 \<and>
    disk_page (cc_disk c2) 8 100 = 7 \<and> disk_page (cc_disk c2) 16 100 = cache_view c 16 100"
proof (rule demo_cached)
  fix c p assume c: "cache_inv (cc_dirty c) c" "p \<in> set (cc_list c)" "pc_no_secs (cc_info c p) = 8" "ata_prompt (cc_disk c)"
  have "page_sector 8" "page_sector 16" by (simp_all add: page_sector_def)
  then show ?thesis using page_cache_write_correct [OF c(1,2,4), of "\<lambda>_. 7"] c(3) by fastforce
qed

text \<open>
  C35. Writing a queued page at once. \<^verbatim>\<open>page_sync\<close> on a page that is already marked dirty writes it and
  clears the mark but leaves the page in the queue, so the next flush finds a clean page there and
  its assertion stops the kernel. (On a drive that takes the data of a write at once; on others the
  write itself is undefined.)
\<close>

theorem page_sync_breaks_flush:
  assumes "cache_inv (cc_dirty c) c" "p \<in> set (cc_dirty c)" "ata_prompt (cc_disk c)"
  shows "\<exists>c'. page_sync p c = Some c' \<and> p \<in> set (cc_dirty c') \<and> \<not> has_flag c' p PG_DIRTY \<and> flush_pages c' = None"
proof -
  have l: "p \<in> set (cc_list c)" and g: "page_good (cc_dirty c) c p" and d: "distinct (cc_dirty c)"
    using assms by (auto simp: cache_inv_def)
  then have r: "cache_rest c" "idle_lock (pg_rwlock (cpage c p))" using assms by (auto simp: cache_inv_def page_good_def)
  have "bit (pg_flag (cpage c p)) 2" "bit (pg_flag (cpage c p)) 3" using g assms(2) by (auto simp: page_good_def flag_bits)
  then have "pg_flag (cpage c p) OR (PG_DIRTY OR PG_VALID) = pg_flag (cpage c p)"
    by (intro bit_word_eqI) (auto simp: page_flag_exps bit_simps simp del: power_numeral)
  then have "page_sync p c = page_read_sync p c"
    using sleeplock_lock_ok [OF r] by (auto simp: page_sync_def page_read_sync_def Let_def)
  moreover obtain c' where c': "page_read_sync p c = Some c'" "cache_inv (remove1 p (cc_dirty c)) c'" "cc_dirty c' = cc_dirty c"
    "set (cc_list c') = set (cc_list c)" "ata_prompt (cc_disk c')"
    using page_read_sync_ok [OF assms(1) l] assms(3) by blast
  moreover have "\<not> has_flag c' p PG_DIRTY" using c'(2,4) l d by (auto simp: cache_inv_def page_good_def)
  moreover have "flush_pages c' = None" unfolding flush_pages_def c'(3) using flush_loop_stale [OF c'(2) assms(2) _ d] l c'(4,5) by simp
  ultimately show ?thesis using assms(2) by auto
qed

theorem page_sync_breaks_flush_witness:
  "\<exists>c c1 c2 p. mark_page_dirty p c = Some c1 \<and> page_sync p c1 = Some c2 \<and> flush_pages c2 = None"
proof (rule demo_cached)
  fix c p assume c: "cache_inv (cc_dirty c) c" "p \<in> set (cc_list c)" "ata_prompt (cc_disk c)"
  obtain c1 where c1: "mark_page_dirty p (c\<lparr>cc_data := (cc_data c)(p := cc_data c p)\<rparr>) = Some c1" "cache_inv (cc_dirty c1) c1"
    "p \<in> set (cc_dirty c1)" "ata_prompt (cc_disk c1)"
    using mark_page_dirty_ok [OF c(1,2), of "cc_data c p"] c(3) by auto
  then show ?thesis using page_sync_breaks_flush [OF c1(2,3,4)] by blast
qed

end
