(* ===== verification/DirBlock.thy ===== *)
theory DirBlock
  imports Kstring
begin

text \<open>
  The contents of single blocks of the file system: bitmaps (\<^verbatim>\<open>set_next_zero_bit\<close> of \<^verbatim>\<open>fs/ext2/block.c\<close>) and
  directory blocks (the entry operations of \<^verbatim>\<open>fs/ext2/dir.c\<close>).

  A block is the buffer of its cached page, a function from byte offsets to bytes; a pointer into it
  is an offset. An access outside the 4096 bytes is undefined (\<open>None\<close>), and so is a scan over a
  damaged directory that never ends. C strings are lists of bytes without the final zero.
\<close>

section \<open>Bytes of a block\<close>

type_synonym buf = "nat \<Rightarrow> u8"

abbreviation BLOCK_BYTES :: nat where "BLOCK_BYTES \<equiv> 4096"

definition rd8 :: "buf \<Rightarrow> nat \<Rightarrow> u8 option" where
  "rd8 b i = (if i < BLOCK_BYTES then Some (b i) else None)"

definition rd16 :: "buf \<Rightarrow> nat \<Rightarrow> u16 option" where
  "rd16 b i = (if i + 2 \<le> BLOCK_BYTES then Some (ucast (b i) OR push_bit 8 (ucast (b (i + 1)))) else None)"

definition rd32 :: "buf \<Rightarrow> nat \<Rightarrow> u32 option" where
  "rd32 b i = (if i + 4 \<le> BLOCK_BYTES then Some (push_bit 24 (ucast (b (i + 3))) OR push_bit 16 (ucast (b (i + 2))) OR
     push_bit 8 (ucast (b (i + 1))) OR ucast (b i)) else None)"

definition wr8 :: "nat \<Rightarrow> u8 \<Rightarrow> buf \<Rightarrow> buf option" where
  "wr8 i v b = (if i < BLOCK_BYTES then Some (b(i := v)) else None)"

definition wr16 :: "nat \<Rightarrow> u16 \<Rightarrow> buf \<Rightarrow> buf option" where
  "wr16 i v b = (if i + 2 \<le> BLOCK_BYTES then Some (b(i := ucast v, i + 1 := ucast (drop_bit 8 v))) else None)"

definition wr32 :: "nat \<Rightarrow> u32 \<Rightarrow> buf \<Rightarrow> buf option" where
  "wr32 i v b = (if i + 4 \<le> BLOCK_BYTES then Some (b(i := ucast v, i + 1 := ucast (drop_bit 8 v),
     i + 2 := ucast (drop_bit 16 v), i + 3 := ucast (drop_bit 24 v))) else None)"

text \<open>Copying a list of bytes into the block, and comparing one with it.\<close>

definition wr_bytes :: "nat \<Rightarrow> u8 list \<Rightarrow> buf \<Rightarrow> buf option" where
  "wr_bytes i xs b = (if i + length xs \<le> BLOCK_BYTES
     then Some (\<lambda>j. if i \<le> j \<and> j < i + length xs then xs ! (j - i) else b j) else None)"

definition bytes_at :: "buf \<Rightarrow> nat \<Rightarrow> nat \<Rightarrow> u8 list" where
  "bytes_at b i n = map (\<lambda>k. b (i + k)) [0..<n]"

definition eq_bytes :: "buf \<Rightarrow> nat \<Rightarrow> u8 list \<Rightarrow> bool option" where
  "eq_bytes b i xs = (if i + length xs \<le> BLOCK_BYTES then Some (bytes_at b i (length xs) = xs) else None)"

section \<open>Bitmaps\<close>

text \<open>The loop of \<^verbatim>\<open>get_clear_bit\<close>; eight shifts clear the byte, so nine rounds are enough.\<close>

fun clear_bit_loop :: "nat \<Rightarrow> u8 \<Rightarrow> u8 \<Rightarrow> u8" where
  "clear_bit_loop 0 ch no = no"
| "clear_bit_loop (Suc k) ch no = (if ch AND 1 \<noteq> 0 then clear_bit_loop k (drop_bit 1 ch) (no + 1) else no)"

definition get_clear_bit :: "u8 \<Rightarrow> u8" where
  "get_clear_bit ch = clear_bit_loop 9 ch 0"

text \<open>The loop of \<^verbatim>\<open>set_next_zero_bit\<close> from byte \<open>i\<close>, \<open>k\<close> bytes before \<^verbatim>\<open>max\<close>.\<close>

fun zero_bit_loop :: "nat \<Rightarrow> nat \<Rightarrow> buf \<Rightarrow> (int \<times> buf) option" where
  "zero_bit_loop 0 i b = Some (-1, b)"
| "zero_bit_loop (Suc k) i b = do {
     v \<leftarrow> rd8 b i;
     if v \<noteq> 0xff then
       (let n = get_clear_bit v in
        Some (sint (ucast n + push_bit 3 (of_nat i) :: u32), b(i := set_bit8 v (unat n))))
     else zero_bit_loop k (i + 1) b
   }"

definition set_next_zero_bit :: "u32 \<Rightarrow> buf \<Rightarrow> (int \<times> buf) option" where
  "set_next_zero_bit mx b = zero_bit_loop (unat mx) 0 b"

section \<open>Directory entries\<close>

definition FILE_NAME_LEN :: u32 where "FILE_NAME_LEN = 128"

definition ALIGN4 :: "u32 \<Rightarrow> u32" where "ALIGN4 sz = MEM_ALIGN sz 4"

definition DIR_END :: "nat \<Rightarrow> nat \<Rightarrow> nat" where
  "DIR_END i bs = i div bs * bs + bs"

text \<open>The fields of an entry at offset \<open>i\<close>; \<^verbatim>\<open>sizeof(ext2_dir_t)\<close> is 8.\<close>

abbreviation de_inode :: "buf \<Rightarrow> nat \<Rightarrow> u32 option" where "de_inode b i \<equiv> rd32 b i"
abbreviation de_entrySize :: "buf \<Rightarrow> nat \<Rightarrow> u16 option" where "de_entrySize b i \<equiv> rd16 b (i + 4)"
abbreviation de_nameLen :: "buf \<Rightarrow> nat \<Rightarrow> u8 option" where "de_nameLen b i \<equiv> rd8 b (i + 6)"

definition next_entry :: "nat \<Rightarrow> buf \<Rightarrow> nat option" where
  "next_entry i b = do { sz \<leftarrow> de_entrySize b i; Some (i + unat sz) }"

text \<open>The macro \<^verbatim>\<open>for_each_dir\<close> with a body that may change the block and may stop the loop.\<close>

partial_function (option) for_each_dir ::
  "(nat \<Rightarrow> buf \<Rightarrow> ('a option \<times> buf) option) \<Rightarrow> nat \<Rightarrow> nat \<Rightarrow> buf \<Rightarrow> ('a option \<times> buf) option" where
  "for_each_dir body fin i b =
     (if i < fin then do {
        (r, b) \<leftarrow> body i b;
        (case r of
           Some x \<Rightarrow> Some (Some x, b)
         | None \<Rightarrow> do { i \<leftarrow> next_entry i b; for_each_dir body fin i b })
      } else Some (None, b))"

text \<open>The condition of the search loops: an entry in use with this name.\<close>

definition dir_match :: "u8 list \<Rightarrow> nat \<Rightarrow> buf \<Rightarrow> (nat option \<times> buf) option" where
  "dir_match name i b = do {
     ino \<leftarrow> de_inode b i;
     len \<leftarrow> de_nameLen b i;
     e \<leftarrow> (if ino \<noteq> 0 \<and> (ucast len :: u32) = of_nat (length name) then eq_bytes b (i + 8) name else Some False);
     Some (if e then Some i else None, b)
   }"

partial_function (option) merge_loop :: "nat \<Rightarrow> nat \<Rightarrow> u32 \<Rightarrow> buf \<Rightarrow> u32 option" where
  "merge_loop fin i sz b =
     (if i < fin then do {
        ino \<leftarrow> de_inode b i;
        if ino \<noteq> 0 then Some sz
        else do {
          esz \<leftarrow> de_entrySize b i;
          i \<leftarrow> next_entry i b;
          merge_loop fin i (sz + ucast esz) b
        }
      } else Some sz)"

definition merge_dir_entry :: "nat \<Rightarrow> nat \<Rightarrow> buf \<Rightarrow> buf option" where
  "merge_dir_entry i blockSize b = do {
     ino \<leftarrow> de_inode b i;
     if ino \<noteq> 0 then Some b
     else do {
       sz \<leftarrow> merge_loop (DIR_END i blockSize) i 0 b;
       wr16 (i + 4) (ucast sz) b
     }
   }"

text \<open>
  \<^verbatim>\<open>new_dir_entry\<close>: the second half fills the free entry at \<open>new\<close>; the result is the entry that follows
  when the space is split, else \<open>new\<close>.
\<close>

definition fill_entry :: "nat \<Rightarrow> u32 \<Rightarrow> u8 list \<Rightarrow> u8 \<Rightarrow> buf \<Rightarrow> (nat option \<times> buf) option" where
  "fill_entry new ino name type b = do {
     let entrySize = ALIGN4 (of_nat (length name) + 8);
     sz \<leftarrow> de_entrySize b new;
     if entrySize > ucast sz then Some (None, b)
     else do {
       b \<leftarrow> wr32 new ino b;
       b \<leftarrow> wr8 (new + 6) (of_nat (length name)) b;
       b \<leftarrow> wr8 (new + 7) type b;
       b \<leftarrow> wr_bytes (new + 8) name b;
       let remain = ucast sz - entrySize;
       if remain > ALIGN4 9 then do {
         b \<leftarrow> wr16 (new + 4) (ucast entrySize) b;
         let rest = new + unat entrySize;
         b \<leftarrow> wr32 rest 0 b;
         b \<leftarrow> wr16 (rest + 4) (ucast remain) b;
         Some (Some rest, b)
       } else Some (Some new, b)
     }
   }"

definition new_dir_entry :: "u32 \<Rightarrow> u8 list \<Rightarrow> u8 \<Rightarrow> nat \<Rightarrow> buf \<Rightarrow> (nat option \<times> buf) option" where
  "new_dir_entry ino name type i b = do {
     assertk (of_nat (length name) < FILE_NAME_LEN);
     let entrySize = ALIGN4 (of_nat (length name) + 8);
     len \<leftarrow> de_nameLen b i;
     let dirLen = ALIGN4 (ALIGN4 (8 + ucast len));
     old \<leftarrow> de_inode b i;
     sz \<leftarrow> de_entrySize b i;
     if old \<noteq> 0 then
       if ucast sz - dirLen < entrySize then Some (None, b)
       else do {
         let new = i + unat dirLen;
         b \<leftarrow> wr16 (new + 4) (ucast (ucast sz - dirLen)) b;
         b \<leftarrow> wr16 (i + 4) (ucast dirLen) b;
         fill_entry new ino name type b
       }
     else fill_entry i ino name type b
   }"

text \<open>The inner loops of \<^verbatim>\<open>find_entry_disk\<close>, \<^verbatim>\<open>create_dir_entry\<close> and \<^verbatim>\<open>remove_from_parent\<close> on one block.\<close>

definition dblock_find :: "u8 list \<Rightarrow> nat \<Rightarrow> buf \<Rightarrow> (nat option \<times> buf) option" where
  "dblock_find name blockSize b = for_each_dir (dir_match name) (DIR_END 0 blockSize) 0 b"

definition dblock_insert :: "u32 \<Rightarrow> u8 list \<Rightarrow> u8 \<Rightarrow> nat \<Rightarrow> buf \<Rightarrow> (bool \<times> buf) option" where
  "dblock_insert ino name type blockSize b = do {
     (r, b) \<leftarrow> for_each_dir (new_dir_entry ino name type) (DIR_END 0 blockSize) 0 b;
     (case r of
        None \<Rightarrow> Some (False, b)
      | Some new \<Rightarrow> do { b \<leftarrow> merge_dir_entry new blockSize b; Some (True, b) })
   }"

definition dblock_remove :: "u8 list \<Rightarrow> nat \<Rightarrow> buf \<Rightarrow> (bool \<times> buf) option" where
  "dblock_remove name blockSize b = do {
     (r, b) \<leftarrow> dblock_find name blockSize b;
     (case r of
        None \<Rightarrow> Some (False, b)
      | Some i \<Rightarrow> do {
          b \<leftarrow> wr32 i 0 b;
          b \<leftarrow> merge_dir_entry i blockSize b;
          Some (True, b)
        })
   }"

text \<open>The body of the scan of \<^verbatim>\<open>dir_empty\<close>: it stops at an entry in use other than \<^verbatim>\<open>.\<close> and \<^verbatim>\<open>..\<close>.\<close>

definition visible_entry :: "nat \<Rightarrow> buf \<Rightarrow> (nat option \<times> buf) option" where
  "visible_entry i b = do {
     ino \<leftarrow> de_inode b i;
     if ino \<noteq> 0 then do {
       c \<leftarrow> rd8 b (i + 8);
       if c \<noteq> 46 then Some (Some i, b)
       else do {
         len \<leftarrow> de_nameLen b i;
         if len = 1 then Some (None, b)
         else do {
           c2 \<leftarrow> (if len = 2 then rd8 b (i + 9) else Some 0);
           if len = 2 \<and> c2 = 46 then Some (None, b) else Some (Some i, b)
         }
       }
     } else Some (None, b)
   }"

section \<open>Reading what was written\<close>

text \<open>The bytes of a range.\<close>

definition agree :: "buf \<Rightarrow> buf \<Rightarrow> nat \<Rightarrow> nat \<Rightarrow> bool" where
  "agree b b' l h \<longleftrightarrow> (\<forall>i. l \<le> i \<longrightarrow> i < h \<longrightarrow> b i = b' i)"

lemma agreeD: "agree b b' l h \<Longrightarrow> l \<le> i \<Longrightarrow> i < h \<Longrightarrow> b i = b' i"
  by (simp add: agree_def)

lemma agree_sub: "agree b b' l h \<Longrightarrow> l \<le> l' \<Longrightarrow> h' \<le> h \<Longrightarrow> agree b b' l' h'"
  by (simp add: agree_def)

lemma agree_reads:
  assumes "agree b b' l h"
  shows "l \<le> i \<Longrightarrow> i < h \<Longrightarrow> rd8 b i = rd8 b' i" "l \<le> i \<Longrightarrow> i + 2 \<le> h \<Longrightarrow> rd16 b i = rd16 b' i"
    "l \<le> i \<Longrightarrow> i + 4 \<le> h \<Longrightarrow> rd32 b i = rd32 b' i" "l \<le> i \<Longrightarrow> i + n \<le> h \<Longrightarrow> bytes_at b i n = bytes_at b' i n"
  using assms by (simp_all add: rd8_def rd16_def rd32_def bytes_at_def agree_def)

section \<open>Bitmaps: lemmas\<close>

definition bitmap :: "buf \<Rightarrow> nat \<Rightarrow> bool" where
  "bitmap b k = bit (b (k div 8)) (k mod 8)"

lemma clear_bit_loop_least:
  assumes "\<not> bit ch n" "\<forall>j<n. bit ch j" "n < k"
  shows "clear_bit_loop k ch no = no + of_nat n"
  using assms
proof (induction k arbitrary: ch no n)
  case (Suc k)
  have b0: "ch AND 1 \<noteq> 0 \<longleftrightarrow> bit ch 0" using and_exp_eq_0_iff_not_bit [of ch 0] by simp
  show ?case
  proof (cases n)
    case 0
    then show ?thesis using Suc.prems b0 by simp
  next
    case (Suc m)
    have "clear_bit_loop k (drop_bit 1 ch) (no + 1) = (no + 1) + of_nat m"
      using Suc.prems Suc by (intro Suc.IH) (auto simp: bit_simps)
    then show ?thesis using Suc.prems Suc b0 by simp
  qed
qed simp

lemma get_clear_bit_ok:
  assumes "v \<noteq> 0xff"
  shows "unat (get_clear_bit v) < 8 \<and> \<not> bit v (unat (get_clear_bit v)) \<and> (\<forall>j<unat (get_clear_bit v). bit v j)"
proof -
  have "\<exists>j<8. \<not> bit v j"
  proof (rule ccontr)
    assume "\<not> ?thesis"
    then have "v = mask 8" by (intro bit_word_eqI) (auto simp: bit_simps)
    then show False using assms by (simp add: mask_eq_exp_minus_1)
  qed
  define n where "n = (LEAST j. \<not> bit v j)"
  have n: "\<not> bit v n" "\<forall>j<n. bit v j" "n < 8"
    using \<open>\<exists>j<8. \<not> bit v j\<close> LeastI_ex [of "\<lambda>j. \<not> bit v j"] not_less_Least [of _ "\<lambda>j. \<not> bit v j"]
      Least_le [of "\<lambda>j. \<not> bit v j"] unfolding n_def by (blast intro: le_less_trans)+
  have "get_clear_bit v = of_nat n" using clear_bit_loop_least [OF n(1,2), of 9 0] n(3) by (simp add: get_clear_bit_def)
  moreover have "unat (of_nat n :: u8) = n" using n(3) by (simp add: unat_of_nat)
  ultimately show ?thesis using n by simp
qed

lemma bit_set_bit8: "bit (set_bit8 v n) j = (bit v j \<or> j = n \<and> n < 8)"
  by (auto simp: set_bit8_def bit_simps)

lemma zero_bit_loop_ok:
  assumes "i + k \<le> BLOCK_BYTES" "\<forall>j < 8 * i. bitmap b j"
  shows "\<exists>r b'. zero_bit_loop k i b = Some (r, b') \<and>
    (if r = -1 then b' = b \<and> (\<forall>j < 8 * (i + k). bitmap b j)
     else \<exists>n < 8 * (i + k). r = int n \<and> \<not> bitmap b n \<and> (\<forall>j<n. bitmap b j) \<and> (\<forall>j. bitmap b' j = (bitmap b j \<or> j = n)))"
  using assms
proof (induction k arbitrary: i)
  case (Suc k)
  show ?case
  proof (cases "b i = 0xff")
    case True
    have "b i = mask 8" using True by (simp add: mask_eq_exp_minus_1)
    then have "bitmap b j" if "j < 8 * (i + 1)" for j
      using that Suc.prems(2) by (cases "j < 8 * i") (auto simp: bitmap_def bit_simps not_less div_nat_eqI)
    moreover have "zero_bit_loop (Suc k) i b = zero_bit_loop k (i + 1) b" using True Suc.prems(1) by (simp add: rd8_def)
    moreover have "i + Suc k = i + 1 + k" by simp
    ultimately show ?thesis using Suc.IH [of "i + 1"] Suc.prems(1) by presburger
  next
    case False
    define n where "n = unat (get_clear_bit (b i))"
    have n: "n < 8" "\<not> bit (b i) n" "\<forall>j<n. bit (b i) j" using get_clear_bit_ok [OF False] by (simp_all add: n_def)
    have "unat (push_bit 3 (of_nat i) :: u32) = 8 * i"
      using Suc.prems(1) by (simp add: push_bit_eq_mult unat_word_ariths unat_of_nat)
    moreover have "unat (ucast (get_clear_bit (b i)) :: u32) = n" by (simp add: n_def unat_ucast_le)
    ultimately have u: "unat (ucast (get_clear_bit (b i)) + push_bit 3 (of_nat i) :: u32) = 8 * i + n"
      using n(1) Suc.prems(1) by (simp add: unat_word_ariths)
    have "sint (ucast (get_clear_bit (b i)) + push_bit 3 (of_nat i) :: u32) = int (8 * i + n)"
      using u n(1) Suc.prems(1) by (simp add: sint_uint signed_take_bit_int_eq_self uint_nat del: push_bit_of_nat)
    then have call: "zero_bit_loop (Suc k) i b = Some (int (8 * i + n), b(i := set_bit8 (b i) n))"
      using False Suc.prems(1) by (simp add: rd8_def Let_def n_def)
    have "\<not> bitmap b (8 * i + n)" using n by (simp add: bitmap_def)
    moreover have "bitmap b j" if "j < 8 * i + n" for j
    proof (cases "j < 8 * i")
      case False
      then obtain r where r: "j = 8 * i + r" using le_iff_add [of "8 * i" j] by auto
      then show ?thesis using that n by (simp add: bitmap_def)
    qed (use Suc.prems(2) in simp)
    moreover have "bitmap (b(i := set_bit8 (b i) n)) j = (bitmap b j \<or> j = 8 * i + n)" for j
    proof -
      have "j = 8 * i + n \<longleftrightarrow> j div 8 = i \<and> j mod 8 = n" using n(1) mult_div_mod_eq [of 8 j] by (auto simp del: mult_div_mod_eq)
      then show ?thesis using n(1) by (auto simp: bitmap_def bit_set_bit8)
    qed
    ultimately have "\<exists>m < 8 * (i + Suc k). int (8 * i + n) = int m \<and> \<not> bitmap b m \<and> (\<forall>j<m. bitmap b j) \<and>
      (\<forall>j. bitmap (b(i := set_bit8 (b i) n)) j = (bitmap b j \<or> j = m))"
      using n(1) by (intro exI [of _ "8 * i + n"]) simp
    moreover have "int (8 * i + n) \<noteq> -1" by linarith
    ultimately show ?thesis unfolding call by (intro exI [of _ "int (8 * i + n)"] exI [of _ "b(i := set_bit8 (b i) n)"]) argo
  qed
qed auto

section \<open>Chains of directory entries\<close>

text \<open>
  A well-formed directory block is a sequence of entries that fill it. A free entry has only a size;
  an entry in use has a name that fits into it.
\<close>

datatype dent = Free nat | Used u32 nat u8 "u8 list"

fun dsize :: "dent \<Rightarrow> nat" where
  "dsize (Free s) = s" | "dsize (Used i s t nm) = s"

definition dlen :: "nat \<Rightarrow> nat" where
  "dlen n = (n + 11) div 4 * 4"

fun entry_at :: "buf \<Rightarrow> nat \<Rightarrow> dent \<Rightarrow> bool" where
  "entry_at b i (Free s) \<longleftrightarrow> rd32 b i = Some 0 \<and> rd16 b (i + 4) = Some (of_nat s) \<and> 8 \<le> s \<and> i + s \<le> BLOCK_BYTES"
| "entry_at b i (Used ino s t nm) \<longleftrightarrow> rd32 b i = Some ino \<and> ino \<noteq> 0 \<and> rd16 b (i + 4) = Some (of_nat s) \<and>
     rd8 b (i + 6) = Some (of_nat (length nm)) \<and> rd8 b (i + 7) = Some t \<and> bytes_at b (i + 8) (length nm) = nm \<and>
     length nm < 256 \<and> dlen (length nm) \<le> s \<and> i + s \<le> BLOCK_BYTES"

fun chain :: "buf \<Rightarrow> nat \<Rightarrow> dent list \<Rightarrow> bool" where
  "chain b i [] \<longleftrightarrow> i = BLOCK_BYTES"
| "chain b i (e # es) \<longleftrightarrow> entry_at b i e \<and> chain b (i + dsize e) es"

text \<open>The entries in use, as inode number, type and name.\<close>

fun listing :: "dent list \<Rightarrow> (u32 \<times> u8 \<times> u8 list) list" where
  "listing [] = []"
| "listing (Free s # es) = listing es"
| "listing (Used ino s t nm # es) = (ino, t, nm) # listing es"

lemma listing_append [simp]: "listing (xs @ ys) = listing xs @ listing ys"
  by (induction xs rule: listing.induct) auto

lemma dlen_ge: "n + 8 \<le> dlen n"
  unfolding dlen_def by presburger

lemma entry_at_size: "entry_at b i e \<Longrightarrow> 8 \<le> dsize e \<and> i + dsize e \<le> BLOCK_BYTES \<and> rd16 b (i + 4) = Some (of_nat (dsize e))"
  using dlen_ge by (cases e) (auto intro: order_trans [OF le_add2 order_trans])

lemma entry_at_agree:
  assumes "entry_at b i e" "agree b b' i (i + dsize e)"
  shows "entry_at b' i e"
proof (cases e)
  case (Free s)
  then show ?thesis using assms agree_reads(3) [OF assms(2), of i] agree_reads(2) [OF assms(2), of "i + 4"] by simp
next
  case (Used ino s t nm)
  have "8 + length nm \<le> s" using assms(1) dlen_ge [of "length nm"] Used by simp
  then show ?thesis using assms(1) agree_reads(3) [OF assms(2), of i] agree_reads(2) [OF assms(2), of "i + 4"]
      agree_reads(1) [OF assms(2), of "i + 6"] agree_reads(1) [OF assms(2), of "i + 7"] agree_reads(4) [OF assms(2), of "i + 8"] Used by simp
qed

lemma chain_end: "chain b i es \<Longrightarrow> i \<le> BLOCK_BYTES \<and> i + sum_list (map dsize es) = BLOCK_BYTES"
proof (induction es arbitrary: i)
  case (Cons e es)
  then have "chain b (i + dsize e) es" by simp
  from Cons.IH [OF this] show ?case by simp
qed simp

lemma chain_drop: "chain b i (xs @ ys) \<Longrightarrow> chain b (i + sum_list (map dsize xs)) ys"
proof (induction xs arbitrary: i)
  case (Cons e xs)
  then have "chain b (i + dsize e) (xs @ ys)" by simp
  from Cons.IH [OF this] show ?case by (simp add: add.assoc)
qed simp

lemma chain_agree: "chain b i es \<Longrightarrow> agree b b' i BLOCK_BYTES \<Longrightarrow> chain b' i es"
proof (induction es arbitrary: i)
  case (Cons e es)
  have s: "i + dsize e \<le> BLOCK_BYTES" using Cons.prems(1) chain_end by auto
  then show ?case using Cons entry_at_agree [of b i e b'] agree_sub [OF Cons.prems(2)] by simp
qed simp

text \<open>A change inside the window of the middle part of a chain.\<close>

lemma chain_replace:
  assumes "chain b i (pre @ mid @ post)" "agree b b' i (i + sum_list (map dsize pre))"
    "agree b b' (i + sum_list (map dsize pre) + sum_list (map dsize mid)) BLOCK_BYTES"
    "\<And>tl. chain b' (i + sum_list (map dsize pre) + sum_list (map dsize mid)) tl \<Longrightarrow> chain b' (i + sum_list (map dsize pre)) (mid' @ tl)"
  shows "chain b' i (pre @ mid' @ post)"
  using assms
proof (induction pre arbitrary: i)
  case Nil
  have "chain b (i + sum_list (map dsize mid)) post" using chain_drop [of b i mid post] Nil(1) by simp
  then show ?case using Nil(3,4) chain_agree by simp
next
  case (Cons e pre)
  have e: "entry_at b i e" "chain b (i + dsize e) (pre @ mid @ post)" using Cons.prems(1) by simp_all
  have "entry_at b' i e" using e(1) agree_sub [OF Cons.prems(2)] by (auto intro: entry_at_agree)
  moreover have "chain b' (i + dsize e) (pre @ mid' @ post)"
    using Cons.IH [OF e(2)] Cons.prems(2-4) by (simp add: add.assoc agree_sub)
  ultimately show ?case by simp
qed

text \<open>The loop over the entries: it stops at the first entry at which the body stops.\<close>

lemma next_entry_at: "entry_at b i e \<Longrightarrow> next_entry i b = Some (i + dsize e)"
  using entry_at_size [of b i e] by (simp add: next_entry_def unat_of_nat)

lemma for_each_dir_none:
  assumes "chain b i es" "\<And>pre e post. es = pre @ e # post \<Longrightarrow> body (i + sum_list (map dsize pre)) b = Some (None, b)"
  shows "for_each_dir body BLOCK_BYTES i b = Some (None, b)"
  using assms
proof (induction es arbitrary: i)
  case Nil
  then show ?case by (subst for_each_dir.simps) simp
next
  case (Cons e es)
  have e: "entry_at b i e" "chain b (i + dsize e) es" using Cons.prems(1) by simp_all
  have lt: "i < BLOCK_BYTES" using entry_at_size [OF e(1)] by simp
  have "body i b = Some (None, b)" using Cons.prems(2) [of "[]"] by simp
  moreover have "for_each_dir body BLOCK_BYTES (i + dsize e) b = Some (None, b)"
  proof (rule Cons.IH [OF e(2)])
    fix pre x post assume "es = pre @ x # post"
    then show "body (i + dsize e + sum_list (map dsize pre)) b = Some (None, b)"
      using Cons.prems(2) [of "e # pre" x post] by (simp add: add.assoc)
  qed
  ultimately show ?case using lt next_entry_at [OF e(1)] by (subst for_each_dir.simps) simp
qed

lemma for_each_dir_stops:
  assumes "chain b i (pre @ e # post)" "\<And>p x q. pre = p @ x # q \<Longrightarrow> body (i + sum_list (map dsize p)) b = Some (None, b)"
    "body (i + sum_list (map dsize pre)) b = Some (Some r, b')"
  shows "for_each_dir body BLOCK_BYTES i b = Some (Some r, b')"
  using assms
proof (induction pre arbitrary: i)
  case Nil
  then have "i < BLOCK_BYTES" using entry_at_size [of b i e] by simp
  then show ?case using Nil by (subst for_each_dir.simps) simp
next
  case (Cons x pre)
  have x: "entry_at b i x" "chain b (i + dsize x) (pre @ e # post)" using Cons.prems(1) by simp_all
  have lt: "i < BLOCK_BYTES" using entry_at_size [OF x(1)] by simp
  have "body i b = Some (None, b)" using Cons.prems(2) [of "[]"] by simp
  moreover have "for_each_dir body BLOCK_BYTES (i + dsize x) b = Some (Some r, b')"
  proof (rule Cons.IH [OF x(2)])
    fix p y q assume "pre = p @ y # q"
    then show "body (i + dsize x + sum_list (map dsize p)) b = Some (None, b)"
      using Cons.prems(2) [of "x # p" y q] by (simp add: add.assoc)
  qed (use Cons.prems(3) in \<open>simp add: add.assoc\<close>)
  ultimately show ?case using lt next_entry_at [OF x(1)] by (subst for_each_dir.simps) simp
qed

lemma unat_ALIGN4: "unat x + 3 < 2 ^ 32 \<Longrightarrow> unat (ALIGN4 x) = (unat x + 3) div 4 * 4"
  by (simp add: ALIGN4_def unat_MEM_ALIGN_4)

lemma ucast_size: "k \<le> BLOCK_BYTES \<Longrightarrow> (ucast (of_nat k :: u32) :: u16) = of_nat k"
  by (simp add: word_unat_eq_iff unsigned_ucast_eq take_bit_nat_eq_self unat_of_nat)

section \<open>Merging free entries\<close>

fun is_free :: "dent \<Rightarrow> bool" where
  "is_free (Free s) = True" | "is_free (Used i s t nm) = False"

definition run_size :: "dent list \<Rightarrow> nat" where
  "run_size es = sum_list (map dsize (takeWhile is_free es))"

lemma merge_loop_chain:
  "chain b i es \<Longrightarrow> merge_loop BLOCK_BYTES i sz b = Some (sz + of_nat (run_size es))"
proof (induction es arbitrary: i sz)
  case Nil
  then show ?case by (subst merge_loop.simps) (simp add: run_size_def)
next
  case (Cons e es)
  have e: "entry_at b i e" "chain b (i + dsize e) es" using Cons.prems by simp_all
  note s = entry_at_size [OF e(1)]
  have lt: "i < BLOCK_BYTES" using s by simp
  have u: "(ucast (of_nat (dsize e) :: u16) :: u32) = of_nat (dsize e)" using s by (simp add: word_unat_eq_iff unat_ucast_le unat_of_nat)
  show ?case
  proof (cases e)
    case (Free n)
    have "merge_loop BLOCK_BYTES i sz b = merge_loop BLOCK_BYTES (i + dsize e) (sz + of_nat (dsize e)) b"
      using e(1) Free lt s next_entry_at [OF e(1)] u by (subst merge_loop.simps) simp
    then show ?thesis using Cons.IH [OF e(2), of "sz + of_nat (dsize e)"] Free by (simp add: run_size_def)
  next
    case (Used ino n t nm)
    then show ?thesis using e(1) lt by (subst merge_loop.simps) (simp add: run_size_def)
  qed
qed

lemma listing_merge [simp]: "listing (dropWhile is_free es) = listing es"
  by (induction es rule: listing.induct) auto

lemma rd_wr16 [simp]: "i + 2 \<le> BLOCK_BYTES \<Longrightarrow> rd16 (b(i := ucast v, Suc i := ucast (drop_bit 8 v))) i = Some v"
  by (simp add: rd16_def bytes16)

lemma merge_dir_entry_ok:
  assumes c: "chain b 0 (pre @ Free s # post)"
  shows "\<exists>b'. merge_dir_entry (sum_list (map dsize pre)) BLOCK_BYTES b = Some b' \<and>
    chain b' 0 (pre @ Free (s + run_size post) # dropWhile is_free post)"
proof -
  let ?o = "sum_list (map dsize pre)" and ?n = "s + run_size post"
  have d: "chain b ?o (Free s # post)" using chain_drop [OF c] by simp
  have e: "entry_at b ?o (Free s)" and dp: "chain b (?o + s) post" using d by simp_all
  have z: "?o + s + sum_list (map dsize post) = BLOCK_BYTES" using chain_end [OF d] by simp
  have split: "post = takeWhile is_free post @ dropWhile is_free post" by simp
  have "sum_list (map dsize post) = run_size post + sum_list (map dsize (dropWhile is_free post))"
    unfolding run_size_def by (metis map_append sum_list_append split)
  then have n: "?o + ?n \<le> BLOCK_BYTES" using z by simp
  have fin: "DIR_END ?o BLOCK_BYTES = BLOCK_BYTES" using e by (simp add: DIR_END_def)
  have "merge_loop BLOCK_BYTES ?o 0 b = Some (of_nat ?n)"
    using merge_loop_chain [OF d, of 0] by (simp add: run_size_def)
  moreover have "(ucast (of_nat ?n :: u32) :: u16) = of_nat ?n" using ucast_size [of ?n] n by linarith
  ultimately have call: "merge_dir_entry ?o BLOCK_BYTES b = wr16 (?o + 4) (of_nat ?n) b"
    using e by (simp add: merge_dir_entry_def fin)
  define b' where "b' = b(?o + 4 := ucast (of_nat ?n :: u16), ?o + 4 + 1 := ucast (drop_bit 8 (of_nat ?n :: u16)))"
  have "wr16 (?o + 4) (of_nat ?n) b = Some b'" using e by (simp add: wr16_def b'_def)
  moreover have "chain b' 0 (pre @ [Free ?n] @ dropWhile is_free post)"
  proof (rule chain_replace [where b = b and mid = "Free s # takeWhile is_free post"])
    show "chain b 0 (pre @ (Free s # takeWhile is_free post) @ dropWhile is_free post)" using c by simp
    show "agree b b' 0 (0 + ?o)" by (simp add: agree_def b'_def)
    show "agree b b' (0 + ?o + sum_list (map dsize (Free s # takeWhile is_free post))) BLOCK_BYTES"
      using e by (auto simp: agree_def b'_def)
    fix tl assume tl: "chain b' (0 + ?o + sum_list (map dsize (Free s # takeWhile is_free post))) tl"
    have "agree b b' ?o (?o + 4)" by (simp add: agree_def b'_def)
    then have "rd32 b' ?o = rd32 b ?o" using agree_reads(3) by fastforce
    moreover have "rd16 b' (?o + 4) = Some (of_nat ?n)" using e n by (simp add: b'_def rd16_def bytes16)
    ultimately have "entry_at b' ?o (Free ?n)" using e n by simp
    then show "chain b' (0 + ?o) ([Free ?n] @ tl)" using tl by (simp add: run_size_def add.assoc)
  qed
  ultimately show ?thesis using call by simp
qed

section \<open>Adding an entry\<close>

lemma unat_entrySize: "n < 256 \<Longrightarrow> unat (ALIGN4 (of_nat n + 8)) = dlen n"
  using unat_ALIGN4 [of "of_nat n + 8"] by (simp add: unat_word_ariths unat_of_nat dlen_def)

lemma dlen_le: "n < 256 \<Longrightarrow> dlen n \<le> 264"
  unfolding dlen_def by presburger

lemma entrySize_eq: "n < 256 \<Longrightarrow> ALIGN4 (of_nat n + 8) = of_nat (dlen n)"
  using unat_entrySize [of n] dlen_le [of n] by (simp add: word_unat_eq_iff unat_of_nat)

text \<open>What a new entry makes of a free space of \<open>s\<close> bytes.\<close>

definition filled :: "u32 \<Rightarrow> u8 \<Rightarrow> u8 list \<Rightarrow> nat \<Rightarrow> dent list" where
  "filled ino t nm s = (let n = dlen (length nm) in
     if 12 < s - n then [Used ino n t nm, Free (s - n)] else [Used ino s t nm])"

definition put_entry :: "nat \<Rightarrow> u32 \<Rightarrow> u8 \<Rightarrow> u8 list \<Rightarrow> buf \<Rightarrow> buf" where
  "put_entry i ino t nm b = (\<lambda>j. if i + 8 \<le> j \<and> j < i + 8 + length nm then nm ! (j - (i + 8)) else
     (b(i := ucast ino, i + 1 := ucast (drop_bit 8 ino), i + 2 := ucast (drop_bit 16 ino), i + 3 := ucast (drop_bit 24 ino),
        i + 6 := of_nat (length nm), i + 7 := t)) j)"

lemma put_entry_reads:
  assumes "i + 8 + length nm \<le> BLOCK_BYTES"
  shows "rd32 (put_entry i ino t nm b) i = Some ino" "rd8 (put_entry i ino t nm b) (i + 6) = Some (of_nat (length nm))"
    "rd8 (put_entry i ino t nm b) (i + 7) = Some t" "bytes_at (put_entry i ino t nm b) (i + 8) (length nm) = nm"
    "rd16 (put_entry i ino t nm b) (i + 4) = rd16 b (i + 4)"
  using assms by (auto simp: put_entry_def rd32_def rd16_def rd8_def bytes32 bytes_at_def intro!: nth_equalityI)

lemma put_entry_agree: "agree b (put_entry i ino t nm b) 0 i" "agree b (put_entry i ino t nm b) (i + 8 + length nm) BLOCK_BYTES"
  by (auto simp: agree_def put_entry_def)

lemma put_entry_call:
  assumes "i + 8 + length nm \<le> BLOCK_BYTES"
  shows "(wr32 i ino b \<bind> (\<lambda>b. wr8 (i + 6) (of_nat (length nm)) b \<bind> (\<lambda>b. wr8 (i + 7) t b \<bind> (\<lambda>b. wr_bytes (i + 8) nm b \<bind> k)))) =
    k (put_entry i ino t nm b)"
  using assms by (simp add: wr32_def wr8_def wr_bytes_def put_entry_def cong: if_cong)

lemma unat_of_nat_small: "k \<le> BLOCK_BYTES \<Longrightarrow> unat (of_nat k :: u32) = k"
  by (simp add: unat_of_nat)

lemma compare_size: "s \<le> BLOCK_BYTES \<Longrightarrow> n \<le> BLOCK_BYTES \<Longrightarrow>
    ((of_nat n :: u32) > ucast (of_nat s :: u16)) = (s < n) \<and>
    (s = n + r \<longrightarrow> ucast (of_nat s :: u16) - (of_nat n :: u32) = of_nat r)"
proof -
  assume a: "s \<le> BLOCK_BYTES" "n \<le> BLOCK_BYTES"
  have "(ucast (of_nat s :: u16) :: u32) = of_nat s" using a(1) by (simp add: word_unat_eq_iff unat_ucast_le unat_of_nat)
  moreover have "s = n + r \<Longrightarrow> (of_nat s :: u32) - of_nat n = of_nat r" by simp
  ultimately show ?thesis using a by (metis word_less_nat_alt unat_of_nat_small)
qed

text \<open>The split: the entry shrinks to its length and a free entry of \<open>r\<close> bytes follows.\<close>

lemma split_entry:
  assumes rd: "rd32 b i = Some ino" "rd8 b (i + 6) = Some (of_nat (length nm))" "rd8 b (i + 7) = Some t" "bytes_at b (i + 8) (length nm) = nm"
    and "ino \<noteq> 0" "length nm < 256" "i + n + r \<le> BLOCK_BYTES" "n = dlen (length nm)" "12 < r"
  shows "\<exists>b'. (do { b \<leftarrow> wr16 (i + 4) (of_nat n) b; b \<leftarrow> wr32 (i + n) 0 b; b \<leftarrow> wr16 (i + n + 4) (of_nat r) b; Some (Some (i + n), b) }) =
      Some (Some (i + n), b') \<and> entry_at b' i (Used ino n t nm) \<and> entry_at b' (i + n) (Free r) \<and>
    agree b b' 0 i \<and> agree b b' (i + n + r) BLOCK_BYTES"
proof -
  define b2 where "b2 = b(i + 4 := ucast (of_nat n :: u16), i + 4 + 1 := ucast (drop_bit 8 (of_nat n :: u16)))"
  define b3 where "b3 = b2(i + n := 0, i + n + 1 := 0, i + n + 2 := 0, i + n + 3 := 0)"
  define b4 where "b4 = b3(i + n + 4 := ucast (of_nat r :: u16), i + n + 4 + 1 := ucast (drop_bit 8 (of_nat r :: u16)))"
  have n: "length nm + 8 \<le> n" using dlen_ge assms(8) by simp
  have w: "wr16 (i + 4) (of_nat n) b = Some b2" "wr32 (i + n) 0 b2 = Some b3" "wr16 (i + n + 4) (of_nat r) b3 = Some b4"
    using assms(7,9) n by (simp_all add: wr16_def wr32_def b2_def b3_def b4_def)
  have g: "agree b2 b4 i (i + n)" "agree b b2 i (i + 4)" "agree b b2 (i + 6) BLOCK_BYTES" "agree b3 b4 (i + n) (i + n + 4)"
    using n by (auto simp: agree_def b2_def b3_def b4_def)
  have "rd16 b2 (i + 4) = Some (of_nat n)" "rd32 b3 (i + n) = Some 0" "rd16 b4 (i + n + 4) = Some (of_nat r)"
    using assms(7,9) n by (simp_all add: rd16_def rd32_def b2_def b3_def b4_def bytes16)
  then have "entry_at b4 (i + n) (Free r)" using agree_reads(3) [OF g(4), of "i + n"] assms(7,9) by simp
  moreover have "entry_at b2 i (Used ino n t nm)"
    using rd assms(5-9) agree_reads(3) [OF g(2), of i] agree_reads(1) [OF g(3), of "i + 6"] agree_reads(1) [OF g(3), of "i + 7"]
      agree_reads(4) [OF g(3), of "i + 8" "length nm"] n \<open>rd16 b2 (i + 4) = Some (of_nat n)\<close> by simp
  then have "entry_at b4 i (Used ino n t nm)" by (rule entry_at_agree) (simp add: g(1))
  moreover have "agree b b4 0 i" "agree b b4 (i + n + r) BLOCK_BYTES" using assms(9) n by (auto simp: agree_def b2_def b3_def b4_def)
  ultimately show ?thesis using w by simp
qed

lemma fill_entry_ok:
  assumes sz: "rd16 b (i + 4) = Some (of_nat s)" "i + s \<le> BLOCK_BYTES" "8 \<le> s" and nm: "length nm < 128" and ino: "ino \<noteq> 0"
  shows "s < dlen (length nm) \<Longrightarrow> fill_entry i ino nm t b = Some (None, b)"
    "dlen (length nm) \<le> s \<Longrightarrow> \<exists>b'. fill_entry i ino nm t b =
        Some (Some (i + sum_list (map dsize (butlast (filled ino t nm s)))), b') \<and>
      agree b b' 0 i \<and> agree b b' (i + s) BLOCK_BYTES \<and> (\<forall>tl. chain b' (i + s) tl \<longrightarrow> chain b' i (filled ino t nm s @ tl))"
proof -
  let ?n = "dlen (length nm)"
  have n: "?n \<le> 264" "length nm + 8 \<le> ?n" using dlen_le dlen_ge nm by simp_all
  have es: "ALIGN4 (of_nat (length nm) + 8) = of_nat ?n" using entrySize_eq nm by simp
  show "s < ?n \<Longrightarrow> fill_entry i ino nm t b = Some (None, b)"
    using compare_size [of s ?n] sz n by (simp add: fill_entry_def es Let_def)
  assume fits: "?n \<le> s"
  then obtain r where r: "s = ?n + r" by (auto simp: le_iff_add)
  have "s \<le> BLOCK_BYTES" "?n \<le> BLOCK_BYTES" using sz n by simp_all
  then have cmp: "\<not> ((of_nat ?n :: u32) > ucast (of_nat s :: u16))" "ucast (of_nat s :: u16) - (of_nat ?n :: u32) = of_nat r"
    using compare_size [of s ?n r] r by auto
  define b1 where "b1 = put_entry i ino t nm b"
  have in1: "i + 8 + length nm \<le> BLOCK_BYTES" using fits n sz by simp
  note rd = put_entry_reads [OF in1, of ino t b, folded b1_def]
  have ag: "agree b b1 0 i" "agree b b1 (i + s) BLOCK_BYTES"
    using put_entry_agree [of b i ino t nm, folded b1_def] agree_sub fits n by fastforce+
  have a9: "ALIGN4 9 = 12" by (simp add: ALIGN4_def MEM_ALIGN_def)
  have rem: "(12 < (of_nat r :: u32)) = (12 < r)" "(ucast (of_nat r :: u32) :: u16) = of_nat r" "(ucast (of_nat ?n :: u32) :: u16) = of_nat ?n"
    "unat (of_nat ?n :: u32) = ?n"
    using sz r n ucast_size by (simp_all add: word_less_nat_alt unat_of_nat)
  have call: "fill_entry i ino nm t b = (if 12 < r then do {
      b \<leftarrow> wr16 (i + 4) (of_nat ?n) b1;
      b \<leftarrow> wr32 (i + ?n) 0 b;
      b \<leftarrow> wr16 (i + ?n + 4) (of_nat r) b;
      Some (Some (i + ?n), b)
    } else Some (Some i, b1))"
    using sz(1) by (simp add: fill_entry_def es Let_def put_entry_call [OF in1] a9 rem cmp flip: b1_def)
  show "\<exists>b'. fill_entry i ino nm t b = Some (Some (i + sum_list (map dsize (butlast (filled ino t nm s)))), b') \<and>
      agree b b' 0 i \<and> agree b b' (i + s) BLOCK_BYTES \<and> (\<forall>tl. chain b' (i + s) tl \<longrightarrow> chain b' i (filled ino t nm s @ tl))"
  proof (cases "12 < r")
    case False
    have "entry_at b1 i (Used ino s t nm)" using rd ino nm fits sz by simp
    then show ?thesis using call False ag r by (simp add: filled_def)
  next
    case True
    have "i + ?n + r \<le> BLOCK_BYTES" using sz(2) r by simp
    from split_entry [OF rd(1-4) ino _ this _ True] nm n obtain b3 where
      "(do { b \<leftarrow> wr16 (i + 4) (of_nat ?n) b1; b \<leftarrow> wr32 (i + ?n) 0 b; b \<leftarrow> wr16 (i + ?n + 4) (of_nat r) b; Some (Some (i + ?n), b) }) = Some (Some (i + ?n), b3)"
      "entry_at b3 i (Used ino ?n t nm)" "entry_at b3 (i + ?n) (Free r)" "agree b1 b3 0 i" "agree b1 b3 (i + ?n + r) BLOCK_BYTES" by auto
    then show ?thesis using call True ag r by (auto simp: filled_def agree_def add.assoc)
  qed
qed

fun room :: "dent \<Rightarrow> nat" where
  "room (Free s) = s" | "room (Used i s t nm) = s - dlen (length nm)"

fun with_new :: "u32 \<Rightarrow> u8 \<Rightarrow> u8 list \<Rightarrow> dent \<Rightarrow> dent list" where
  "with_new ino t nm (Free s) = filled ino t nm s"
| "with_new ino t nm (Used i s t' nm') = Used i (dlen (length nm')) t' nm' # filled ino t nm (s - dlen (length nm'))"

lemma align4_dlen: "n < 256 \<Longrightarrow> ALIGN4 (of_nat (dlen n)) = of_nat (dlen n)"
proof -
  assume "n < 256"
  then have "unat (of_nat (dlen n) :: u32) = dlen n" using dlen_le [of n] by (intro unat_of_nat_small) simp
  moreover have "(dlen n + 3) div 4 * 4 = dlen n" unfolding dlen_def by presburger
  ultimately show ?thesis using unat_ALIGN4 [of "of_nat (dlen n)"] dlen_le [OF \<open>n < 256\<close>] by (simp add: word_unat_eq_iff)
qed

lemma new_dir_entry_free:
  assumes "entry_at b i (Free s)" "length nm < 128"
  shows "new_dir_entry ino nm t i b = fill_entry i ino nm t b"
proof -
  have "(of_nat (length nm) :: u32) < FILE_NAME_LEN" using assms(2) by (simp add: FILE_NAME_LEN_def word_less_nat_alt unat_of_nat)
  then show ?thesis using assms by (simp add: new_dir_entry_def rd8_def Let_def)
qed

lemma new_dir_entry_used:
  assumes e: "entry_at b i (Used i' s t' nm')" and nm: "length nm < 128" and m: "m = dlen (length nm')"
  shows "s - m < dlen (length nm) \<Longrightarrow> new_dir_entry ino nm t i b = Some (None, b)"
    "dlen (length nm) \<le> s - m \<Longrightarrow> \<exists>b2. new_dir_entry ino nm t i b = fill_entry (i + m) ino nm t b2 \<and>
       entry_at b2 i (Used i' m t' nm') \<and> rd16 b2 (i + m + 4) = Some (of_nat (s - m)) \<and> agree b b2 0 i \<and> agree b b2 (i + s) BLOCK_BYTES"
proof -
  have len: "(of_nat (length nm) :: u32) < FILE_NAME_LEN" using nm by (simp add: FILE_NAME_LEN_def word_less_nat_alt unat_of_nat)
  have s: "length nm' < 256" "m \<le> s" "i + s \<le> BLOCK_BYTES" using e m by simp_all
  then obtain r where r: "s = m + r" by (auto simp: le_iff_add)
  have n: "dlen (length nm) \<le> 264" "8 \<le> dlen (length nm)" "length nm' + 8 \<le> m"
    using dlen_le [of "length nm"] dlen_ge [of "length nm"] dlen_ge [of "length nm'"] nm m by simp_all
  have "(8 :: u32) + ucast (of_nat (length nm') :: u8) = of_nat (length nm') + 8"
    using s(1) by (simp add: word_unat_eq_iff unat_ucast_le unat_of_nat unat_word_ariths)
  then have dl: "ALIGN4 (ALIGN4 (8 + ucast (of_nat (length nm') :: u8))) = of_nat m"
    using entrySize_eq [OF s(1)] align4_dlen [OF s(1)] m by (simp only:)
  have es: "ALIGN4 (of_nat (length nm) + 8) = of_nat (dlen (length nm))" using entrySize_eq nm by simp
  have sm: "ucast (of_nat s :: u16) - (of_nat m :: u32) = of_nat r" "((of_nat r :: u32) < of_nat (dlen (length nm))) = (r < dlen (length nm))"
    "(ucast (of_nat r :: u32) :: u16) = of_nat r" "(ucast (of_nat m :: u32) :: u16) = of_nat m" "unat (of_nat m :: u32) = m"
    using compare_size [of s m r] r s n ucast_size unat_of_nat_small by (simp_all add: word_less_nat_alt)
  have call: "new_dir_entry ino nm t i b = (if r < dlen (length nm) then Some (None, b)
      else do { b \<leftarrow> wr16 (i + m + 4) (of_nat r) b; b \<leftarrow> wr16 (i + 4) (of_nat m) b; fill_entry (i + m) ino nm t b })"
    using e len by (simp add: new_dir_entry_def dl es sm Let_def)
  show "s - m < dlen (length nm) \<Longrightarrow> new_dir_entry ino nm t i b = Some (None, b)" using call r by simp
  assume fits: "dlen (length nm) \<le> s - m"
  then have r8: "8 \<le> r" using n r by simp
  define b1 where "b1 = b(i + m + 4 := ucast (of_nat r :: u16), i + m + 4 + 1 := ucast (drop_bit 8 (of_nat r :: u16)))"
  define b2 where "b2 = b1(i + 4 := ucast (of_nat m :: u16), i + 4 + 1 := ucast (drop_bit 8 (of_nat m :: u16)))"
  have w: "wr16 (i + m + 4) (of_nat r) b = Some b1" "wr16 (i + 4) (of_nat m) b1 = Some b2"
    using s r r8 n by (simp_all add: wr16_def b1_def b2_def)
  have "rd16 b1 (i + m + 4) = Some (of_nat r)" "rd16 b2 (i + 4) = Some (of_nat m)"
    using s r r8 n by (simp_all add: rd16_def b1_def b2_def bytes16)
  moreover have g: "agree b1 b2 (i + m) BLOCK_BYTES" "agree b b2 i (i + 4)" "agree b b2 (i + 6) (i + m)" using n by (auto simp: agree_def b1_def b2_def)
  ultimately have "rd16 b2 (i + m + 4) = Some (of_nat r)" "entry_at b2 i (Used i' m t' nm')"
    using e agree_reads(2) [OF g(1), of "i + m + 4"] agree_reads(3) [OF g(2), of i] agree_reads(1) [OF g(3), of "i + 6"] s r r8 n m
      agree_reads(1) [OF g(3), of "i + 7"] agree_reads(4) [OF g(3), of "i + 8" "length nm'"] by simp_all
  moreover have "agree b b2 0 i" "agree b b2 (i + s) BLOCK_BYTES" using r r8 n by (auto simp: agree_def b1_def b2_def)
  ultimately show "\<exists>b2. new_dir_entry ino nm t i b = fill_entry (i + m) ino nm t b2 \<and>
       entry_at b2 i (Used i' m t' nm') \<and> rd16 b2 (i + m + 4) = Some (of_nat (s - m)) \<and> agree b b2 0 i \<and> agree b b2 (i + s) BLOCK_BYTES"
    using call fits w r by (intro exI [of _ b2]) simp
qed

lemma new_dir_entry_ok:
  assumes c: "chain b 0 (pre @ e # post)" and nm: "length nm < 128" and ino: "ino \<noteq> 0"
  defines "i \<equiv> sum_list (map dsize pre)"
  shows "room e < dlen (length nm) \<Longrightarrow> new_dir_entry ino nm t i b = Some (None, b)"
    "dlen (length nm) \<le> room e \<Longrightarrow> \<exists>b'. new_dir_entry ino nm t i b =
       Some (Some (i + sum_list (map dsize (butlast (with_new ino t nm e)))), b') \<and> chain b' 0 (pre @ with_new ino t nm e @ post)"
proof -
  have e: "entry_at b i e" using chain_drop [OF c] by (simp add: i_def)
  note sz = entry_at_size [OF e]
  show "room e < dlen (length nm) \<Longrightarrow> new_dir_entry ino nm t i b = Some (None, b)"
  proof (cases e)
    case (Free s)
    assume "room e < dlen (length nm)"
    then show ?thesis using e Free sz nm ino new_dir_entry_free [of b i s nm ino t] fill_entry_ok(1) [of b i s nm ino t] by simp
  next
    case (Used i' s t' nm')
    assume "room e < dlen (length nm)"
    then show ?thesis using new_dir_entry_used(1) [of b i i' s t' nm' nm] e Used nm by simp
  qed
  assume fits: "dlen (length nm) \<le> room e"
  have repl: "chain b' 0 (pre @ mid' @ post)" if "agree b b' 0 i" "agree b b' (i + dsize e) BLOCK_BYTES"
      "\<And>tl. chain b' (i + dsize e) tl \<Longrightarrow> chain b' i (mid' @ tl)" for b' mid'
    using chain_replace [of b 0 pre "[e]" post b' mid'] c that by (simp add: i_def)
  show "\<exists>b'. new_dir_entry ino nm t i b =
       Some (Some (i + sum_list (map dsize (butlast (with_new ino t nm e)))), b') \<and> chain b' 0 (pre @ with_new ino t nm e @ post)"
  proof (cases e)
    case (Free s)
    then obtain b' where "fill_entry i ino nm t b = Some (Some (i + sum_list (map dsize (butlast (filled ino t nm s)))), b')"
      "agree b b' 0 i" "agree b b' (i + s) BLOCK_BYTES" "\<forall>tl. chain b' (i + s) tl \<longrightarrow> chain b' i (filled ino t nm s @ tl)"
      using fill_entry_ok(2) [of b i s nm ino t] e sz nm ino fits by auto
    then show ?thesis using new_dir_entry_free [of b i s nm ino t] e nm repl Free by simp
  next
    case (Used i' s t' nm')
    let ?m = "dlen (length nm')"
    obtain b2 where b2: "new_dir_entry ino nm t i b = fill_entry (i + ?m) ino nm t b2" "entry_at b2 i (Used i' ?m t' nm')"
        "rd16 b2 (i + ?m + 4) = Some (of_nat (s - ?m))" "agree b b2 0 i" "agree b b2 (i + s) BLOCK_BYTES"
      using new_dir_entry_used(2) [of b i i' s t' nm' nm ?m] e Used nm fits by auto
    have m: "?m \<le> s" "i + s \<le> BLOCK_BYTES" "8 \<le> s - ?m" using e Used fits dlen_ge [of "length nm"] by simp_all
    have ne: "filled ino t nm (s - ?m) \<noteq> []" by (simp add: filled_def Let_def)
    obtain b' where b': "fill_entry (i + ?m) ino nm t b2 = Some (Some (i + ?m + sum_list (map dsize (butlast (filled ino t nm (s - ?m))))), b')"
      "agree b2 b' 0 (i + ?m)" "agree b2 b' (i + s) BLOCK_BYTES" "\<forall>tl. chain b' (i + s) tl \<longrightarrow> chain b' (i + ?m) (filled ino t nm (s - ?m) @ tl)"
      using fill_entry_ok(2) [of b2 "i + ?m" "s - ?m" nm ino t] b2(3) m nm ino fits Used by auto
    have "entry_at b' i (Used i' ?m t' nm')" using b2(2) by (rule entry_at_agree) (use agree_sub [OF b'(2)] in simp)
    moreover have "agree b b' 0 i" "agree b b' (i + s) BLOCK_BYTES" using b2(4,5) b'(2,3) by (auto simp: agree_def)
    ultimately show ?thesis using b2(1) b'(1,4) repl [of b' "Used i' ?m t' nm' # filled ino t nm (s - ?m)"] ne Used by (simp add: add.assoc)
  qed
qed

section \<open>Operations on a directory block\<close>

lemma DIR_END_block [simp]: "DIR_END 0 BLOCK_BYTES = BLOCK_BYTES"
  by (simp add: DIR_END_def)

lemma listing_filled [simp]: "listing (filled ino t nm s) = [(ino, t, nm)]"
  by (simp add: filled_def Let_def)

lemma last_filled: "last (filled ino t nm s) = (if 12 < s - dlen (length nm) then Free (s - dlen (length nm)) else Used ino s t nm)"
  by (simp add: filled_def Let_def)

lemma with_new_last: "\<exists>s. with_new ino t nm e = butlast (with_new ino t nm e) @ [last (filled ino t nm s)]"
proof (cases e)
  case (Free s)
  have "filled ino t nm s \<noteq> []" by (simp add: filled_def Let_def)
  then show ?thesis using Free by (auto intro!: exI [of _ s])
next
  case (Used i s t' nm')
  have "filled ino t nm (s - dlen (length nm')) \<noteq> []" by (simp add: filled_def Let_def)
  then show ?thesis using Used by (auto intro!: exI [of _ "s - dlen (length nm')"])
qed

text \<open>Merging after an insertion or a removal keeps the entries in use.\<close>

lemma merge_keeps:
  assumes "chain b 0 (pre @ e # post)"
  shows "\<exists>b' es'. merge_dir_entry (sum_list (map dsize pre)) BLOCK_BYTES b = Some b' \<and> chain b' 0 es' \<and> listing es' = listing (pre @ e # post)"
proof (cases e)
  case (Free s)
  obtain b' where b': "merge_dir_entry (sum_list (map dsize pre)) BLOCK_BYTES b = Some b'"
    "chain b' 0 (pre @ Free (s + run_size post) # dropWhile is_free post)"
    using merge_dir_entry_ok [of b pre s post] assms Free by auto
  then show ?thesis using Free by (intro exI [of _ b'] exI conjI) auto
next
  case (Used i s t nm)
  have "entry_at b (sum_list (map dsize pre)) e" using chain_drop [OF assms] by simp
  then have "merge_dir_entry (sum_list (map dsize pre)) BLOCK_BYTES b = Some b" using Used by (simp add: merge_dir_entry_def)
  then show ?thesis using assms by blast
qed

lemma dblock_insert_ok:
  assumes c: "chain b 0 es" and nm: "length nm < 128" and ino: "ino \<noteq> 0"
  shows "\<exists>r b'. dblock_insert ino nm t BLOCK_BYTES b = Some (r, b') \<and>
    (if r then \<exists>es' l1 l2. chain b' 0 es' \<and> listing es = l1 @ l2 \<and> listing es' = l1 @ (ino, t, nm) # l2
     else b' = b \<and> (\<forall>e\<in>set es. room e < dlen (length nm)))"
proof (cases "\<forall>e\<in>set es. room e < dlen (length nm)")
  case True
  have "for_each_dir (new_dir_entry ino nm t) BLOCK_BYTES 0 b = Some (None, b)"
    using c by (rule for_each_dir_none) (use new_dir_entry_ok(1) [OF _ nm ino] c True in auto)
  then show ?thesis using True by (intro exI [of _ False] exI [of _ b]) (simp add: dblock_insert_def)
next
  case False
  then obtain pre e post where es: "es = pre @ e # post" "\<not> room e < dlen (length nm)" "\<forall>x\<in>set pre. room x < dlen (length nm)"
    using split_list_first_prop [of es "\<lambda>e. \<not> room e < dlen (length nm)"] by auto
  let ?w = "with_new ino t nm e"
  have c': "chain b 0 (pre @ e # post)" using c es by simp
  obtain b1 where b1: "new_dir_entry ino nm t (sum_list (map dsize pre)) b = Some (Some (sum_list (map dsize (pre @ butlast ?w))), b1)"
    "chain b1 0 (pre @ ?w @ post)"
    using new_dir_entry_ok(2) [OF c' nm ino, of t] es(2) by auto
  have "for_each_dir (new_dir_entry ino nm t) BLOCK_BYTES 0 b = Some (Some (sum_list (map dsize (pre @ butlast ?w))), b1)"
  proof (rule for_each_dir_stops [OF c'])
    fix p x q assume "pre = p @ x # q"
    then show "new_dir_entry ino nm t (0 + sum_list (map dsize p)) b = Some (None, b)"
      using new_dir_entry_ok(1) [of b p x "q @ e # post" nm ino t] c' nm ino es(3) by simp
  qed (use b1 in simp)
  moreover obtain s where "?w = butlast ?w @ [last (filled ino t nm s)]" using with_new_last by blast
  then have "chain b1 0 ((pre @ butlast ?w) @ last (filled ino t nm s) # post)"
    and lw: "listing ((pre @ butlast ?w) @ last (filled ino t nm s) # post) = listing (pre @ ?w @ post)"
    using b1(2) by (metis append.assoc append_Cons append_Nil)+
  from merge_keeps [OF this(1)] obtain b' es' where "merge_dir_entry (sum_list (map dsize (pre @ butlast ?w))) BLOCK_BYTES b1 = Some b'"
    "chain b' 0 es'" "listing es' = listing (pre @ ?w @ post)" using lw by metis
  moreover have "listing (pre @ ?w @ post) = (listing pre @ listing [e]) @ (ino, t, nm) # listing post"
    "listing es = (listing pre @ listing [e]) @ listing post"
    unfolding es(1) by (cases e; simp)+
  ultimately have "dblock_insert ino nm t BLOCK_BYTES b = Some (True, b') \<and> chain b' 0 es' \<and>
      listing es = (listing pre @ listing [e]) @ listing post \<and> listing es' = (listing pre @ listing [e]) @ (ino, t, nm) # listing post"
    by (simp add: dblock_insert_def)
  then show ?thesis by (intro exI [of _ True] exI [of _ b']) (simp only: if_True, blast)
qed

text \<open>The names of the entries in use.\<close>

abbreviation names :: "dent list \<Rightarrow> u8 list list" where
  "names es \<equiv> map (snd \<circ> snd) (listing es)"

lemma listing_split: "listing es = l1 @ (ino, t, nm) # l2 \<Longrightarrow> \<exists>pre s post. es = pre @ Used ino s t nm # post \<and> listing pre = l1 \<and> listing post = l2"
proof (induction es arbitrary: l1 rule: listing.induct)
  case (2 s es)
  then obtain pre n post where "es = pre @ Used ino n t nm # post" "listing pre = l1" "listing post = l2" by auto
  then show ?case by (intro exI [of _ "Free s # pre"] exI [of _ n] exI [of _ post]) simp
next
  case (3 i s t' nm' es)
  show ?case
  proof (cases l1)
    case Nil
    then show ?thesis using 3 by (intro exI [of _ "[]"] exI [of _ s] exI [of _ es]) simp
  next
    case (Cons x l)
    then obtain pre n post where "es = pre @ Used ino n t nm # post" "listing pre = l" "listing post = l2" "x = (i, t', nm')" using 3 by auto
    then show ?thesis using Cons by (intro exI [of _ "Used i s t' nm' # pre"] exI [of _ n] exI [of _ post]) simp
  qed
qed simp

lemma dir_match_at:
  assumes "entry_at b i e" "length nm < 128"
  shows "dir_match nm i b = Some (if nm \<in> set (names [e]) then Some i else None, b)"
proof (cases e)
  case (Free s)
  then show ?thesis using assms by (simp add: dir_match_def rd8_def)
next
  case (Used ino s t nm')
  have "length nm' < 256" "i + 8 + length nm' \<le> BLOCK_BYTES" using assms(1) Used dlen_ge [of "length nm'"] by simp_all
  moreover have "(ucast (of_nat k :: u8) :: u32) = of_nat (length nm) \<longleftrightarrow> k = length nm" if "k < 256" for k
    using that assms(2) by (simp add: word_unat_eq_iff unat_ucast_le unat_of_nat)
  ultimately show ?thesis using assms(1) Used by (auto simp: dir_match_def eq_bytes_def)
qed

lemma dblock_find_ok:
  assumes c: "chain b 0 es" and nm: "length nm < 128"
  shows "nm \<notin> set (names es) \<Longrightarrow> dblock_find nm BLOCK_BYTES b = Some (None, b)"
    "es = pre @ e # post \<Longrightarrow> nm \<notin> set (names pre) \<Longrightarrow> nm \<in> set (names [e]) \<Longrightarrow>
       dblock_find nm BLOCK_BYTES b = Some (Some (sum_list (map dsize pre)), b)"
proof -
  have at: "entry_at b (sum_list (map dsize p)) x" if "es = p @ x # q" for p x q using chain_drop [of b 0 p "x # q"] c that by simp
  have nms: "set (names (p @ x # q)) = set (names p) \<union> set (names [x]) \<union> set (names q)" for p x q
    using listing_append [of "[x]" q] by auto
  show "dblock_find nm BLOCK_BYTES b = Some (None, b)" if "nm \<notin> set (names es)"
    unfolding dblock_find_def DIR_END_block
  proof (rule for_each_dir_none [OF c])
    fix pre e post assume es: "es = pre @ e # post"
    then have "nm \<notin> set (names [e])" using that nms [of pre e post] by blast
    then show "dir_match nm (0 + sum_list (map dsize pre)) b = Some (None, b)" using dir_match_at [OF at [OF es] nm] by simp
  qed
  assume es: "es = pre @ e # post" "nm \<notin> set (names pre)" "nm \<in> set (names [e])"
  show "dblock_find nm BLOCK_BYTES b = Some (Some (sum_list (map dsize pre)), b)"
    unfolding dblock_find_def DIR_END_block
  proof (rule for_each_dir_stops [of b 0 pre e post])
    fix p x q assume p: "pre = p @ x # q"
    then have "nm \<notin> set (names [x])" using es(2) nms [of p x q] by blast
    then show "dir_match nm (0 + sum_list (map dsize p)) b = Some (None, b)"
      using dir_match_at [OF at nm, of p x "q @ e # post"] es(1) p by simp
  qed (use c es dir_match_at [OF at [OF es(1)] nm] in simp_all)
qed

lemma dblock_remove_ok:
  assumes c: "chain b 0 (pre @ Used ino s t nm # post)" and nm: "length nm < 128" and first: "nm \<notin> set (names pre)"
  shows "\<exists>b' es'. dblock_remove nm BLOCK_BYTES b = Some (True, b') \<and> chain b' 0 es' \<and> listing es' = listing (pre @ post)"
proof -
  let ?i = "sum_list (map dsize pre)"
  have f: "dblock_find nm BLOCK_BYTES b = Some (Some ?i, b)"
    using dblock_find_ok(2) [OF c nm, of pre "Used ino s t nm" post] first by simp
  have e: "entry_at b ?i (Used ino s t nm)" using chain_drop [OF c] by simp
  have s: "8 \<le> s" using dlen_ge [of "length nm"] e by simp
  define b1 where "b1 = b(?i := 0, ?i + 1 := 0, ?i + 2 := 0, ?i + 3 := 0)"
  have w: "wr32 ?i 0 b = Some b1" using e s by (simp add: wr32_def b1_def)
  have g: "agree b b1 0 ?i" "agree b b1 (?i + 4) BLOCK_BYTES" by (auto simp: agree_def b1_def)
  have "rd32 b1 ?i = Some 0" using e s by (simp add: rd32_def b1_def)
  moreover have "rd16 b1 (?i + 4) = rd16 b (?i + 4)" using agree_reads(2) [OF g(2), of "?i + 4"] e s by simp
  ultimately have "entry_at b1 ?i (Free s)" using e s by simp
  then have "chain b1 0 (pre @ [Free s] @ post)"
    using chain_replace [of b 0 pre "[Used ino s t nm]" post b1 "[Free s]"] c g(1) agree_sub [OF g(2)] s by simp
  then have "chain b1 0 (pre @ Free s # post)" by simp
  from merge_keeps [OF this] show ?thesis using f w by (auto simp: dblock_remove_def)
qed

section \<open>Properties\<close>

text \<open>
  Free bits of a bitmap. On a bitmap of up to 4096 bytes \<^verbatim>\<open>set_next_zero_bit\<close> returns the number of
  the first clear bit and sets exactly this bit; it returns -1, and changes nothing, exactly when
  every bit is set.
\<close>

theorem set_next_zero_bit_correct:
  assumes "unat mx \<le> BLOCK_BYTES"
  shows "\<exists>r b'. set_next_zero_bit mx b = Some (r, b') \<and>
    (if r = -1 then b' = b \<and> (\<forall>j < 8 * unat mx. bitmap b j)
     else \<exists>n < 8 * unat mx. r = int n \<and> \<not> bitmap b n \<and> (\<forall>j<n. bitmap b j) \<and> (\<forall>j. bitmap b' j = (bitmap b j \<or> j = n)))"
proof -
  have "\<forall>j < 8 * 0. bitmap b j" by simp
  from zero_bit_loop_ok [OF _ this, of "unat mx", unfolded add_0] show ?thesis unfolding set_next_zero_bit_def using assms by blast
qed

theorem set_next_zero_bit_correct_witness:
  "\<exists>b'. set_next_zero_bit 512 (\<lambda>i. if i < 2 then 0xff else 0x0b) = Some (18, b') \<and> bitmap b' 18 \<and> \<not> bitmap b' 20"
proof -
  let ?b = "\<lambda>i :: nat. if i < 2 then 0xff else 0x0b :: u8"
  have b18: "\<not> bitmap ?b 18" "\<not> bitmap ?b 20" by (simp_all add: bitmap_def bit_iff_odd drop_bit_eq_div)
  have below: "bitmap ?b j" if "j < 18" for j
  proof -
    have "j \<in> {0,1,2,3,4,5,6,7,8,9,10,11,12,13,14,15,16,17}" using that by (auto simp: numeral_eq_Suc less_Suc_eq)
    then show ?thesis by (elim insertE emptyE) (simp_all add: bitmap_def bit_iff_odd drop_bit_eq_div)
  qed
  have "unat (512 :: u32) \<le> BLOCK_BYTES" by simp
  from set_next_zero_bit_correct [OF this, of ?b] obtain r b' where r: "set_next_zero_bit 512 ?b = Some (r, b')"
    "if r = -1 then b' = ?b \<and> (\<forall>j < 8 * unat (512 :: u32). bitmap ?b j)
     else \<exists>n < 8 * unat (512 :: u32). r = int n \<and> \<not> bitmap ?b n \<and> (\<forall>j<n. bitmap ?b j) \<and> (\<forall>j. bitmap b' j = (bitmap ?b j \<or> j = n))" by blast
  have "r \<noteq> -1" using r(2) b18(1) by force
  then obtain n where n: "r = int n" "\<not> bitmap ?b n" "\<forall>j<n. bitmap ?b j" "\<forall>j. bitmap b' j = (bitmap ?b j \<or> j = n)" using r(2) by auto
  have "n = 18" using n(2,3) below b18(1) by (meson nat_neq_iff)
  then show ?thesis using r(1) n(1,4) b18(2) by auto
qed

text \<open>
  C8. Adding to a directory block. In a well-formed block the insertion either finds no entry with
  enough room, and then leaves the block alone, or adds exactly one entry with the given inode
  number, type and name to the entries in use, which keep their order; the block stays well-formed,
  and the search for the new name (if it was not there before) finds an entry with this inode number.
\<close>

theorem dir_block_insert_correct:
  assumes "chain b 0 es" "length nm < 128" "ino \<noteq> 0"
  shows "\<exists>r b'. dblock_insert ino nm t BLOCK_BYTES b = Some (r, b') \<and>
    (if r then (\<exists>es' l1 l2. chain b' 0 es' \<and> listing es = l1 @ l2 \<and> listing es' = l1 @ (ino, t, nm) # l2) \<and>
        (nm \<notin> set (names es) \<longrightarrow> (\<exists>i. dblock_find nm BLOCK_BYTES b' = Some (Some i, b') \<and> rd32 b' i = Some ino))
     else b' = b \<and> (\<forall>e\<in>set es. room e < dlen (length nm)))"
proof -
  obtain r b' where r: "dblock_insert ino nm t BLOCK_BYTES b = Some (r, b')"
    "if r then \<exists>es' l1 l2. chain b' 0 es' \<and> listing es = l1 @ l2 \<and> listing es' = l1 @ (ino, t, nm) # l2
     else b' = b \<and> (\<forall>e\<in>set es. room e < dlen (length nm))"
    using dblock_insert_ok [OF assms] by blast
  show ?thesis
  proof (cases r)
    case True
    then obtain es' l1 l2 where es': "chain b' 0 es'" "listing es = l1 @ l2" "listing es' = l1 @ (ino, t, nm) # l2" using r(2) by auto
    have "\<exists>i. dblock_find nm BLOCK_BYTES b' = Some (Some i, b') \<and> rd32 b' i = Some ino" if "nm \<notin> set (names es)"
    proof -
      obtain pre s post where p: "es' = pre @ Used ino s t nm # post" "listing pre = l1" using listing_split [OF es'(3)] by blast
      have "nm \<notin> set (names pre)" using that es'(2) p(2) by auto
      then have "dblock_find nm BLOCK_BYTES b' = Some (Some (sum_list (map dsize pre)), b')"
        using dblock_find_ok(2) [OF es'(1) assms(2) p(1)] by simp
      moreover have "entry_at b' (sum_list (map dsize pre)) (Used ino s t nm)" using chain_drop [of b' 0 pre "Used ino s t nm # post"] es'(1) p(1) by simp
      ultimately show ?thesis by auto
    qed
    then have "(\<exists>es' l1 l2. chain b' 0 es' \<and> listing es = l1 @ l2 \<and> listing es' = l1 @ (ino, t, nm) # l2) \<and>
        (nm \<notin> set (names es) \<longrightarrow> (\<exists>i. dblock_find nm BLOCK_BYTES b' = Some (Some i, b') \<and> rd32 b' i = Some ino))"
      using es' by blast
    then show ?thesis using r(1) True by (intro exI [of _ r] exI [of _ b'] conjI) (simp_all only: if_True, blast)
  next
    case False
    then show ?thesis using r by (intro exI [of _ r] exI [of _ b'] conjI) (simp_all only: if_False, simp)
  qed
qed

text \<open>An empty block, for the witnesses.\<close>

definition empty_block :: buf where
  "empty_block i = (if i = 5 then 0x10 else 0)"

lemma empty_block_chain: "chain empty_block 0 [Free 4096]"
  by (simp add: rd32_def rd16_def empty_block_def push_bit_eq_mult)

theorem dir_block_insert_correct_witness:
  "\<exists>b' i. dblock_insert 12 [0x61, 0x62] 1 BLOCK_BYTES empty_block = Some (True, b') \<and>
     dblock_find [0x61, 0x62] BLOCK_BYTES b' = Some (Some i, b') \<and> rd32 b' i = Some 12"
proof -
  have "length [0x61, 0x62 :: u8] < 128" "(12 :: u32) \<noteq> 0" by simp_all
  from dir_block_insert_correct [OF empty_block_chain this, of 1] obtain r b' where
    r: "dblock_insert 12 [0x61, 0x62] 1 BLOCK_BYTES empty_block = Some (r, b')"
      "if r then (\<exists>es' l1 l2. chain b' 0 es' \<and> listing [Free 4096] = l1 @ l2 \<and> listing es' = l1 @ (12, 1, [0x61, 0x62]) # l2) \<and>
        ([0x61, 0x62] \<notin> set (names [Free 4096]) \<longrightarrow> (\<exists>i. dblock_find [0x61, 0x62] BLOCK_BYTES b' = Some (Some i, b') \<and> rd32 b' i = Some 12))
       else b' = empty_block \<and> (\<forall>e\<in>set [Free 4096]. room e < dlen (length [0x61, 0x62 :: u8]))" by blast
  have "\<not> (\<forall>e\<in>set [Free 4096]. room e < dlen (length [0x61, 0x62 :: u8]))" by (simp add: dlen_def)
  then have r1: "r" using r(2) by argo
  moreover have "[0x61, 0x62] \<notin> set (names [Free 4096])" by simp
  ultimately show ?thesis using r by auto
qed

text \<open>
  C11. Searching and removing in a directory block. In a well-formed block the search finds the first
  entry in use with the name, and removing the name frees exactly this entry and keeps the others
  and their order and the block well-formed; for a name that no entry in use has, the search fails
  and the removal leaves the block alone.
\<close>

theorem dir_block_remove_correct:
  assumes "chain b 0 es" "length nm < 128"
  shows "if nm \<in> set (names es)
    then \<exists>l1 ino t l2 i b' es'. listing es = l1 @ (ino, t, nm) # l2 \<and> nm \<notin> set (map (snd \<circ> snd) l1) \<and>
      dblock_find nm BLOCK_BYTES b = Some (Some i, b) \<and> rd32 b i = Some ino \<and>
      dblock_remove nm BLOCK_BYTES b = Some (True, b') \<and> chain b' 0 es' \<and> listing es' = l1 @ l2
    else dblock_find nm BLOCK_BYTES b = Some (None, b) \<and> dblock_remove nm BLOCK_BYTES b = Some (False, b)"
proof (cases "nm \<in> set (names es)")
  case True
  then obtain x where "x \<in> set (listing es)" "snd (snd x) = nm" by auto
  then obtain l1 y l2 where l: "listing es = l1 @ y # l2" "snd (snd y) = nm" "\<forall>z\<in>set l1. snd (snd z) \<noteq> nm"
    using split_list_first_prop [of "listing es" "\<lambda>y. snd (snd y) = nm"] by blast
  obtain ino t where y: "y = (ino, t, nm)" using l(2) by (metis prod.collapse)
  obtain pre s post where p: "es = pre @ Used ino s t nm # post" "listing pre = l1" "listing post = l2"
    using listing_split [of es l1 ino t nm l2] l(1) y by blast
  have c: "chain b 0 (pre @ Used ino s t nm # post)" using assms(1) p(1) by simp
  have nin: "nm \<notin> set (map (snd \<circ> snd) l1)" using l(3) by auto
  have "nm \<in> set (names [Used ino s t nm])" by simp
  then have "dblock_find nm BLOCK_BYTES b = Some (Some (sum_list (map dsize pre)), b)"
    using dblock_find_ok(2) [OF assms p(1)] nin p(2) by blast
  moreover have "rd32 b (sum_list (map dsize pre)) = Some ino" using chain_drop [OF c] by simp
  moreover obtain b' es' where "dblock_remove nm BLOCK_BYTES b = Some (True, b')" "chain b' 0 es'" "listing es' = l1 @ l2"
    using dblock_remove_ok [OF c assms(2)] nin p(2,3) by (metis listing_append)
  ultimately show ?thesis using l(1) y nin True by (simp only: if_True) blast
next
  case False
  have "dblock_find nm BLOCK_BYTES b = Some (None, b)" using dblock_find_ok(1) [OF assms] False by simp
  moreover from this have "dblock_remove nm BLOCK_BYTES b = Some (False, b)" by (simp add: dblock_remove_def)
  ultimately show ?thesis using False by (simp only: if_False)
qed

theorem dir_block_remove_correct_witness:
  "dblock_find [0x61] BLOCK_BYTES empty_block = Some (None, empty_block) \<and>
   dblock_remove [0x61] BLOCK_BYTES empty_block = Some (False, empty_block)"
  using dir_block_remove_correct [OF empty_block_chain, of "[0x61]"] by simp

end
