(* ===== verification/Ext2Fs.thy ===== *)
theory Ext2Fs
  imports PageCache DirBlock Klist
begin

text \<open>
  The ext2 file system on the page cache, part one: the state, \<^verbatim>\<open>fs/ext2/super.c\<close>, \<^verbatim>\<open>fs/ext2/block.c\<close> and the
  queue of changed inodes of \<^verbatim>\<open>fs/writeback.c\<close>.

  An \<^verbatim>\<open>inode_t\<close>, with the \<^verbatim>\<open>ext2_inode_info_t\<close> that contains it, and a \<^verbatim>\<open>directory_t\<close> are records found by
  address (0 is NULL). There is one mounted file system: \<^verbatim>\<open>ops\<close> pointers are not stored, and an \<^verbatim>\<open>sb\<close> pointer is
  the truth value of being the mounted super block (otherwise it is NULL or was never set). The
  lists of children and of links are HOL lists; \<^verbatim>\<open>list_del\<close> takes a node out of whichever list has it. The
  list \<^verbatim>\<open>inode_lru\<close>, whose nodes are initialised again while they are linked, is kept as linked nodes.
  A pointer into a cached block is the page and an offset. Reading past a page, dividing by zero or
  using an element before the start of an array is \<open>None\<close>. Sizes of structures given to the slab
  allocator are parameters.
\<close>

section \<open>State\<close>

definition N_DIRECT_BLOCK :: nat where "N_DIRECT_BLOCK = 12"
definition N_BLOCKS :: nat where "N_BLOCKS = 15"
definition EXT2_SIGNATURE :: u16 where "EXT2_SIGNATURE = 0xef53"
definition EXT2_IFDIR :: u16 where "EXT2_IFDIR = 0x4000"
definition EXT2_IFREG :: u16 where "EXT2_IFREG = 0x8000"

record info_descriptor =
  gd_inodeBitmapAddr :: u32
  gd_blockBitmapAddr :: u32
  gd_inodeTableAddr :: u32

record ext2_sb_info =
  sb_root :: ptr_t
  sb_magic :: u32
  sb_blockSize :: u32
  sb_inodeSize :: u32
  sb_rwlock :: rwlock
  sb_inodePerGroup :: u32
  sb_blockPerGroup :: u32
  sb_version :: u32
  sb_groupCnt :: u32
  sb_desc :: "nat \<Rightarrow> info_descriptor"

text \<open>The values of \<^verbatim>\<open>enum inode_state\<close>; memory from the allocator may hold any other number.\<close>

abbreviation (input) I_OLD :: u32 where "I_OLD \<equiv> 0"
abbreviation (input) I_NEW :: u32 where "I_NEW \<equiv> 1"
abbreviation (input) I_DATA :: u32 where "I_DATA \<equiv> 2"
abbreviation (input) I_TIME :: u32 where "I_TIME \<equiv> 3"
abbreviation (input) I_DEL :: u32 where "I_DEL \<equiv> 4"

record inode =
  i_state :: u32
  i_refCnt :: u16
  i_linkCnt :: u16
  i_permission :: u16
  i_type :: u16
  i_size :: u64
  i_createTime :: u32
  i_accessTime :: u32
  i_modifiedTime :: u32
  i_deleteTime :: u32
  i_offset :: u32
  i_dir :: ptr_t
  i_sb :: bool
  i_rwlock :: rwlock
  i_blockCnt :: u32
  i_blocks :: "nat \<Rightarrow> u32"

text \<open>The part of a name behind its first 40 bytes has its own memory.\<close>

record directory =
  d_ino :: u32
  d_inode :: ptr_t
  d_l_name :: "u8 list"
  d_h_name :: "(ptr_t \<times> u8 list) option"
  d_nameLen :: u8
  d_sb :: bool
  d_parent :: ptr_t
  d_child :: "ptr_t list"
  d_link :: "ptr_t list"
  d_rwLock :: rwlock

record fs =
  fs_cc :: cache
  fs_sb :: ext2_sb_info
  fs_inode :: "ptr_t \<Rightarrow> inode"
  fs_dir :: "ptr_t \<Rightarrow> directory"
  fs_lru :: links
  fs_inode_lru :: ptr_t
  fs_lru_lock :: spinlock_t
  fs_inoCache :: nat
  fs_dirCache :: nat

abbreviation upd_inode :: "ptr_t \<Rightarrow> (inode \<Rightarrow> inode) \<Rightarrow> fs \<Rightarrow> fs" where
  "upd_inode p f s \<equiv> s\<lparr>fs_inode := (fs_inode s)(p := f (fs_inode s p))\<rparr>"

abbreviation upd_dir :: "ptr_t \<Rightarrow> (directory \<Rightarrow> directory) \<Rightarrow> fs \<Rightarrow> fs" where
  "upd_dir p f s \<equiv> s\<lparr>fs_dir := (fs_dir s)(p := f (fs_dir s p))\<rparr>"

definition on_cache :: "(cache \<Rightarrow> ('a \<times> cache) option) \<Rightarrow> fs \<Rightarrow> ('a \<times> fs) option" where
  "on_cache f s = do { (r, c) \<leftarrow> f (fs_cc s); Some (r, s\<lparr>fs_cc := c\<rparr>) }"

definition on_heap :: "(kheap \<Rightarrow> ('a \<times> kheap) option) \<Rightarrow> fs \<Rightarrow> ('a \<times> fs) option" where
  "on_heap f s = do { (r, h) \<leftarrow> f (cc_heap (fs_cc s)); Some (r, s\<lparr>fs_cc := (fs_cc s)\<lparr>cc_heap := h\<rparr>\<rparr>) }"

definition free_heap :: "ptr_t \<Rightarrow> fs \<Rightarrow> fs option" where
  "free_heap a s = do { h \<leftarrow> kfree a (cc_heap (fs_cc s)); Some (s\<lparr>fs_cc := (fs_cc s)\<lparr>cc_heap := h\<rparr>\<rparr>) }"

text \<open>The bytes of a cached page, a store into them, and unsigned division, which traps on 0.\<close>

abbreviation pdata :: "fs \<Rightarrow> nat \<Rightarrow> buf" where
  "pdata s pg \<equiv> cc_data (fs_cc s) pg"

abbreviation set_pdata :: "nat \<Rightarrow> buf \<Rightarrow> fs \<Rightarrow> fs" where
  "set_pdata pg b s \<equiv> s\<lparr>fs_cc := (fs_cc s)\<lparr>cc_data := (cc_data (fs_cc s))(pg := b)\<rparr>\<rparr>"

definition store :: "nat \<Rightarrow> (buf \<Rightarrow> buf option) \<Rightarrow> fs \<Rightarrow> fs option" where
  "store pg f s = do { b \<leftarrow> f (pdata s pg); Some (set_pdata pg b s) }"

definition udiv :: "'a::len word \<Rightarrow> 'a word \<Rightarrow> 'a word option" where
  "udiv a b = (if b = 0 then None else Some (a div b))"

definition umod :: "'a::len word \<Rightarrow> 'a word \<Rightarrow> 'a word option" where
  "umod a b = (if b = 0 then None else Some (a mod b))"

definition dirty_page :: "nat \<Rightarrow> fs \<Rightarrow> fs option" where
  "dirty_page pg s = do { c \<leftarrow> mark_page_dirty pg (fs_cc s); Some (s\<lparr>fs_cc := c\<rparr>) }"

definition now :: "fs \<Rightarrow> u32" where
  "now s = ucast (cur_timestamp (cc_startup (fs_cc s)) (cc_sched (fs_cc s)))"

definition ext2_is_dir :: "ptr_t \<Rightarrow> fs \<Rightarrow> bool" where
  "ext2_is_dir p s \<longleftrightarrow> i_type (fs_inode s p) AND EXT2_IFDIR \<noteq> 0"

definition EXT2_BLOCK2LBA :: "u32 \<Rightarrow> fs \<Rightarrow> u32" where
  "EXT2_BLOCK2LBA bid s = sb_blockSize (fs_sb s) div 512 * bid"

definition ext2_block_read :: "u32 \<Rightarrow> fs \<Rightarrow> (nat \<times> fs) option" where
  "ext2_block_read bid s = on_cache (page_read_no (EXT2_BLOCK2LBA bid s)) s"

definition ext2_block_get :: "u32 \<Rightarrow> fs \<Rightarrow> (nat \<times> fs) option" where
  "ext2_block_get bid s = on_cache (page_get (EXT2_BLOCK2LBA bid s)) s"

definition EXT2_INODE2GROUP :: "u32 \<Rightarrow> fs \<Rightarrow> u32 option" where
  "EXT2_INODE2GROUP ino s = udiv (ino - 1) (sb_inodePerGroup (fs_sb s))"

text \<open>An element of \<^verbatim>\<open>sb->desc\<close>.\<close>

definition group_desc :: "u32 \<Rightarrow> fs \<Rightarrow> info_descriptor option" where
  "group_desc g s = do { assertk (g < sb_groupCnt (fs_sb s)); Some (sb_desc (fs_sb s) (unat g)) }"

definition next_free_bno :: "ptr_t \<Rightarrow> fs \<Rightarrow> u32 option" where
  "next_free_bno p s = do {
     let bs = (ucast (sb_blockSize (fs_sb s)) :: u64);
     cnt \<leftarrow> udiv (i_size (fs_inode s p) + bs - 1) bs;
     Some (ucast cnt)
   }"

section \<open>The queue of changed inodes\<close>

definition put_inode :: "ptr_t \<Rightarrow> fs \<Rightarrow> fs option" where
  "put_inode p s = do {
     assertk (p \<notin> set (cc_inode_dirty (fs_cc s)));
     Some (s\<lparr>fs_cc := (fs_cc s)\<lparr>cc_inode_dirty := cc_inode_dirty (fs_cc s) @ [p]\<rparr>\<rparr>)
   }"

definition mark_inode_dirty :: "ptr_t \<Rightarrow> u32 \<Rightarrow> fs \<Rightarrow> fs option" where
  "mark_inode_dirty p state s =
     (let set_state = (\<lambda>v. upd_inode p (\<lambda>i. i\<lparr>i_state := v\<rparr>) s); cur = i_state (fs_inode s p) in
      if cur = I_OLD then put_inode p (set_state state)
      else if cur = I_NEW then Some (if state = I_DEL then set_state I_DEL else s)
      else if cur = I_DATA then Some (if state = I_TIME then set_state I_NEW else if state = I_DEL then set_state I_DEL else s)
      else if cur = I_TIME then Some (if state = I_DATA then set_state I_NEW else if state = I_DEL then set_state I_DEL else s)
      else if cur = I_DEL then Some s
      else put_inode p (set_state I_NEW))"

section \<open>The super block\<close>

text \<open>Pointers to the super block and to a group descriptor: page and offset.\<close>

definition get_raw_sb :: "fs \<Rightarrow> (nat \<times> nat \<times> fs) option" where
  "get_raw_sb s = do { (pg, s) \<leftarrow> ext2_block_read 0 s; Some (pg, 1024, s) }"

definition get_raw_gd :: "u32 \<Rightarrow> fs \<Rightarrow> (nat \<times> nat \<times> fs) option" where
  "get_raw_gd gno s = do {
     let per = sb_blockSize (fs_sb s) div 32;
     q \<leftarrow> udiv gno per;
     r \<leftarrow> umod gno per;
     (pg, s) \<leftarrow> ext2_block_read (1 + q) s;
     Some (pg, unat (r * 32), s)
   }"

fun desc_loop :: "nat list \<Rightarrow> nat \<Rightarrow> fs \<Rightarrow> fs option" where
  "desc_loop [] pg s = Some s"
| "desc_loop (i # is) pg s = do {
     it \<leftarrow> rd32 (pdata s pg) (32 * i + 8);
     bb \<leftarrow> rd32 (pdata s pg) (32 * i);
     ib \<leftarrow> rd32 (pdata s pg) (32 * i + 4);
     desc_loop is pg (s\<lparr>fs_sb := (fs_sb s)\<lparr>sb_desc := (sb_desc (fs_sb s))
       (i := \<lparr>gd_inodeBitmapAddr = ib, gd_blockBitmapAddr = bb, gd_inodeTableAddr = it\<rparr>)\<rparr>\<rparr>)
   }"

definition superBlock_init :: "u32 \<Rightarrow> fs \<Rightarrow> fs option" where
  "superBlock_init szSb s = do {
     (blk, s) \<leftarrow> on_cache (page_read_no 0) s;
     let b = pdata s blk;
     magic \<leftarrow> rd16 b (1024 + 56);
     assertk (magic = EXT2_SIGNATURE);
     blockCnt \<leftarrow> rd32 b (1024 + 4);
     blockPerGroup \<leftarrow> rd32 b (1024 + 32);
     groupCount \<leftarrow> udiv blockCnt blockPerGroup;
     (a, s) \<leftarrow> on_heap (kmalloc (szSb + 12 * groupCount)) s;
     logBlockSize \<leftarrow> rd32 b (1024 + 24);
     inodeSize \<leftarrow> rd16 b (1024 + 88);
     inodePerGroup \<leftarrow> rd32 b (1024 + 40);
     version \<leftarrow> rd32 b (1024 + 76);
     assertk (unat (logBlockSize + 9) < 32);
     let s = s\<lparr>fs_sb := (fs_sb s)\<lparr>sb_magic := ucast magic, sb_blockSize := push_bit (unat (logBlockSize + 9)) 2,
       sb_inodeSize := ucast inodeSize, sb_rwlock := rwlock_init, sb_inodePerGroup := inodePerGroup,
       sb_blockPerGroup := blockPerGroup, sb_version := version, sb_groupCnt := groupCount\<rparr>\<rparr>;
     (pg, off, s) \<leftarrow> get_raw_gd 0 s;
     desc_loop [0..<unat groupCount] pg s
   }"

text \<open>\<^verbatim>\<open>get_free_inode_cnt\<close> and \<^verbatim>\<open>get_free_block_cnt\<close> add up a field of the descriptors, at offset 14 and 12.\<close>

fun free_cnt_loop :: "nat \<Rightarrow> nat list \<Rightarrow> u64 \<Rightarrow> fs \<Rightarrow> (u64 \<times> fs) option" where
  "free_cnt_loop fld [] cnt s = Some (cnt, s)"
| "free_cnt_loop fld (i # is) cnt s = do {
     (pg, off, s) \<leftarrow> get_raw_gd (of_nat i) s;
     v \<leftarrow> rd16 (pdata s pg) (off + fld);
     free_cnt_loop fld is (cnt + ucast v) s
   }"

definition get_free_inode_cnt :: "fs \<Rightarrow> (u32 \<times> fs) option" where
  "get_free_inode_cnt s = do { (n, s) \<leftarrow> free_cnt_loop 14 [0..<unat (sb_groupCnt (fs_sb s))] 0 s; Some (ucast n, s) }"

definition get_free_block_cnt :: "fs \<Rightarrow> (u32 \<times> fs) option" where
  "get_free_block_cnt s = do { (n, s) \<leftarrow> free_cnt_loop 12 [0..<unat (sb_groupCnt (fs_sb s))] 0 s; Some (ucast n, s) }"

definition ext2_write_super_block :: "fs \<Rightarrow> fs option" where
  "ext2_write_super_block s = do {
     (freeInodeCnt, s) \<leftarrow> get_free_inode_cnt s;
     (freeBlockCnt, s) \<leftarrow> get_free_block_cnt s;
     (pg, blk, s) \<leftarrow> get_raw_sb s;
     magic \<leftarrow> rd16 (pdata s pg) (blk + 56);
     assertk (magic = EXT2_SIGNATURE);
     c \<leftarrow> page_wlock pg (fs_cc s);
     let s = s\<lparr>fs_cc := c\<rparr>;
     s \<leftarrow> store pg (wr32 (blk + 12) freeBlockCnt) s;
     s \<leftarrow> store pg (wr32 (blk + 16) freeInodeCnt) s;
     s \<leftarrow> store pg (wr32 (blk + 48) (now s)) s;
     let s = s\<lparr>fs_cc := page_wunlock pg (fs_cc s)\<rparr>;
     dirty_page pg s
   }"

text \<open>The loop of \<^verbatim>\<open>super_block_backup\<close> over the odd groups; the copies are not marked dirty.\<close>

fun backup_loop :: "nat list \<Rightarrow> nat \<Rightarrow> nat \<Rightarrow> u32 \<Rightarrow> fs \<Rightarrow> fs option" where
  "backup_loop [] src off time s = Some s"
| "backup_loop (i # is) src off time s = do {
     (pg, s) \<leftarrow> ext2_block_read (ucast (ucast (sb_blockPerGroup (fs_sb s)) * of_nat i :: u64)) s;
     s \<leftarrow> store pg (wr32 48 time) s;
     fb \<leftarrow> rd32 (pdata s src) (off + 12);
     s \<leftarrow> store pg (wr32 12 fb) s;
     fi \<leftarrow> rd32 (pdata s src) (off + 16);
     s \<leftarrow> store pg (wr32 16 fi) s;
     backup_loop is src off time s
   }"

definition super_block_backup :: "fs \<Rightarrow> fs option" where
  "super_block_backup s = do {
     let cur_time = now s;
     (src, off, s) \<leftarrow> get_raw_sb s;
     backup_loop (filter odd [1..<unat (sb_groupCnt (fs_sb s))]) src off cur_time s
   }"

section \<open>Blocks\<close>

text \<open>
  \<^verbatim>\<open>find_group\<close> of \<^verbatim>\<open>block.c\<close> and of \<^verbatim>\<open>inode.c\<close> share their loops; \<open>fld\<close> is the offset of \<^verbatim>\<open>freeBlockCnt\<close> (12) or
  \<^verbatim>\<open>freeInodesCnt\<close> (14). The first loop keeps the smallest count seen and its group.
\<close>

fun min_group_loop :: "nat \<Rightarrow> nat list \<Rightarrow> u32 \<Rightarrow> u32 option \<Rightarrow> fs \<Rightarrow> (u32 option \<times> fs) option" where
  "min_group_loop fld [] mn g s = Some (g, s)"
| "min_group_loop fld (i # is) mn g s = do {
     (pg, off, s) \<leftarrow> get_raw_gd (of_nat i) s;
     v \<leftarrow> rd16 (pdata s pg) (off + fld);
     if mn > ucast v then min_group_loop fld is (ucast v) (Some (of_nat i)) s
     else min_group_loop fld is mn g s
   }"

partial_function (option) next_group_loop :: "nat \<Rightarrow> u32 \<Rightarrow> u32 \<Rightarrow> fs \<Rightarrow> (u32 \<times> fs) option" where
  "next_group_loop fld i groupNo s = do {
     (pg, off, s) \<leftarrow> get_raw_gd groupNo s;
     v \<leftarrow> rd16 (pdata s pg) (off + fld);
     if v \<noteq> 0 then Some (groupNo, s)
     else do {
       groupNo \<leftarrow> umod (groupNo + 1) (sb_groupCnt (fs_sb s));
       if i \<noteq> groupNo then next_group_loop fld i groupNo s else Some (groupNo, s)
     }
   }"

definition find_group :: "ptr_t \<Rightarrow> fs \<Rightarrow> (u32 \<times> fs) option" where
  "find_group p s =
     (if i_blockCnt (fs_inode s p) = 0 then do {
        (g, s) \<leftarrow> min_group_loop 12 [0..<unat (sb_groupCnt (fs_sb s))] 0xffffffff None s;
        g \<leftarrow> g;
        Some (g, s)
      } else do {
        let bid = i_blocks (fs_inode s p) 0;
        assertk (bid \<noteq> 0);
        g \<leftarrow> udiv bid (sb_blockPerGroup (fs_sb s));
        next_group_loop 12 g g s
      })"

definition set_block_bitmap :: "ptr_t \<Rightarrow> fs \<Rightarrow> (u32 \<times> fs) option" where
  "set_block_bitmap p s = do {
     (groupNo, s) \<leftarrow> find_group p s;
     gd \<leftarrow> group_desc groupNo s;
     (b_buf, s) \<leftarrow> ext2_block_read (gd_blockBitmapAddr gd) s;
     (bit, b) \<leftarrow> set_next_zero_bit (sb_blockSize (fs_sb s) div 8) (pdata s b_buf);
     let s = set_pdata b_buf b s;
     assertk (\<not> bit < 0);
     (pg, off, s) \<leftarrow> get_raw_gd groupNo s;
     v \<leftarrow> rd16 (pdata s pg) (off + 12);
     s \<leftarrow> store pg (wr16 (off + 12) (v - 1)) s;
     s \<leftarrow> dirty_page pg s;
     s \<leftarrow> dirty_page b_buf s;
     Some (of_int bit + groupNo * sb_blockPerGroup (fs_sb s), s)
   }"

definition clear_block_bitmap :: "u32 \<Rightarrow> fs \<Rightarrow> fs option" where
  "clear_block_bitmap bid s = do {
     groupNo \<leftarrow> udiv bid (sb_blockPerGroup (fs_sb s));
     (d_buf, off, s) \<leftarrow> get_raw_gd groupNo s;
     v \<leftarrow> rd16 (pdata s d_buf) (off + 12);
     s \<leftarrow> store d_buf (wr16 (off + 12) (v + 1)) s;
     gd \<leftarrow> group_desc groupNo s;
     (b_buf, s) \<leftarrow> ext2_block_read (gd_blockBitmapAddr gd) s;
     m \<leftarrow> rd8 (pdata s b_buf) (unat (bid div 8));
     s \<leftarrow> store b_buf (wr8 (unat (bid div 8)) (clear_bit8 m (unat (bid mod 8)))) s;
     s \<leftarrow> dirty_page d_buf s;
     dirty_page b_buf s
   }"

text \<open>The indices of a block behind the direct ones; \<open>n_ptr\<close> is \<^verbatim>\<open>blockSize / sizeof(u32_t)\<close>.\<close>

definition find_block_layer :: "u32 \<Rightarrow> u32 \<Rightarrow> (nat \<times> (nat \<Rightarrow> u32)) option" where
  "find_block_layer bno n_ptr = do {
     let bno = bno - of_nat N_DIRECT_BLOCK;
     let (bno, layer) = (if bno \<ge> n_ptr then (bno - n_ptr, 1) else (bno, 0 :: nat));
     let sqr = n_ptr * n_ptr;
     let (bno, layer) = (if bno \<ge> sqr then (bno - sqr, 2) else (bno, layer));
     assertk (bno < sqr * n_ptr);
     q \<leftarrow> udiv bno n_ptr;
     q2 \<leftarrow> udiv bno sqr;
     Some (layer, (\<lambda>_. 0)(0 := bno mod n_ptr, 1 := q mod n_ptr, 2 := q2))
   }"

definition n_ptrs :: "fs \<Rightarrow> u32" where
  "n_ptrs s = sb_blockSize (fs_sb s) div 4"

text \<open>Follow the pointers down from level \<open>i\<close>; the loop ends early at a hole.\<close>

fun bid_loop :: "nat \<Rightarrow> (nat \<Rightarrow> u32) \<Rightarrow> u32 \<Rightarrow> fs \<Rightarrow> (u32 \<times> fs) option" where
  "bid_loop 0 ids bid s = Some (bid, s)"
| "bid_loop (Suc i) ids bid s =
     (if bid = 0 then Some (bid, s)
      else do {
        (pg, s) \<leftarrow> ext2_block_read bid s;
        bid \<leftarrow> rd32 (pdata s pg) (4 * unat (ids i));
        bid_loop i ids bid s
      })"

definition get_bid :: "ptr_t \<Rightarrow> u32 \<Rightarrow> fs \<Rightarrow> (u32 \<times> fs) option" where
  "get_bid p bno s =
     (if bno < of_nat N_DIRECT_BLOCK then Some (i_blocks (fs_inode s p) (unat bno), s)
      else do {
        (layer, ids) \<leftarrow> find_block_layer bno (n_ptrs s);
        bid_loop (layer + 1) ids (i_blocks (fs_inode s p) (N_DIRECT_BLOCK + layer)) s
      })"

definition get_layer :: "u16 list \<Rightarrow> nat" where
  "get_layer ids = (if ids ! 2 \<noteq> 0 then 2 else if ids ! 1 \<noteq> 0 then 1 else 0)"

text \<open>
  \<^verbatim>\<open>next_block\<close>: the block after the position \<open>ids\<close> (four counters), and the next position. The loop
  indexes with \<open>ids ! i\<close>, one place before the counter of the level.
\<close>

fun next_block_loop :: "nat \<Rightarrow> u16 list \<Rightarrow> u32 \<Rightarrow> fs \<Rightarrow> (u32 option \<times> fs) option" where
  "next_block_loop 0 ids bid s = Some (Some bid, s)"
| "next_block_loop (Suc i) ids bid s =
     (if bid = 0 then Some (None, s)
      else do {
        (pg, s) \<leftarrow> ext2_block_read bid s;
        bid \<leftarrow> rd32 (pdata s pg) (4 * unat (ids ! i));
        next_block_loop i ids bid s
      })"

definition carry :: "u32 \<Rightarrow> nat \<Rightarrow> u16 list \<Rightarrow> u16 list" where
  "carry n_ptr i ids = (if ucast (ids ! i) \<ge> n_ptr then ids[i := 0, i + 1 := ids ! (i + 1) + 1] else ids)"

definition next_block :: "ptr_t \<Rightarrow> u16 list \<Rightarrow> fs \<Rightarrow> (u32 \<times> u16 list \<times> fs) option" where
  "next_block p ids s =
     (if ucast (ids ! 3) \<ge> n_ptrs s then Some (0, ids, s)
      else if unat (ids ! 0) < N_DIRECT_BLOCK
      then Some (i_blocks (fs_inode s p) (unat (ids ! 0)), ids[0 := ids ! 0 + 1], s)
      else do {
        let layer = get_layer (tl ids);
        (r, s) \<leftarrow> next_block_loop (layer + 1) ids (i_blocks (fs_inode s p) (N_DIRECT_BLOCK + layer)) s;
        (case r of
           None \<Rightarrow> Some (0, ids, s)
         | Some bid \<Rightarrow>
             (let ids = ids[1 := ids ! 1 + 1] in
              Some (bid, carry (n_ptrs s) 2 (carry (n_ptrs s) 1 ids), s)))
      })"

text \<open>The macro \<^verbatim>\<open>for_each_block\<close> with a body that may stop the loop.\<close>

partial_function (option) for_each_block ::
  "(u32 \<Rightarrow> fs \<Rightarrow> ('a option \<times> fs) option) \<Rightarrow> ptr_t \<Rightarrow> u16 list \<Rightarrow> fs \<Rightarrow> ('a option \<times> fs) option" where
  "for_each_block body p ids s = do {
     (bid, ids, s) \<leftarrow> next_block p ids s;
     if bid = 0 then Some (None, s)
     else do {
       (r, s) \<leftarrow> body bid s;
       (case r of Some x \<Rightarrow> Some (Some x, s) | None \<Rightarrow> for_each_block body p ids s)
     }
   }"

definition new_empty_block :: "ptr_t \<Rightarrow> fs \<Rightarrow> (u32 \<times> fs) option" where
  "new_empty_block p s = do {
     (bid, s) \<leftarrow> set_block_bitmap p s;
     (pg, s) \<leftarrow> ext2_block_read bid s;
     assertk (unat (sb_blockSize (fs_sb s)) \<le> BLOCK_BYTES);
     Some (bid, set_pdata pg (\<lambda>i. if i < unat (sb_blockSize (fs_sb s)) then 0 else pdata s pg i) s)
   }"

text \<open>What the pointer \<^verbatim>\<open>_bid\<close> of \<^verbatim>\<open>alloc_block\<close> points to.\<close>

datatype bid_slot = InInode nat | InPage nat nat

fun slot_get :: "ptr_t \<Rightarrow> bid_slot \<Rightarrow> fs \<Rightarrow> u32 option" where
  "slot_get p (InInode k) s = Some (i_blocks (fs_inode s p) k)"
| "slot_get p (InPage pg k) s = rd32 (pdata s pg) (4 * k)"

fun slot_set :: "ptr_t \<Rightarrow> bid_slot \<Rightarrow> u32 \<Rightarrow> fs \<Rightarrow> fs option" where
  "slot_set p (InInode k) v s = Some (upd_inode p (\<lambda>i. i\<lparr>i_blocks := (i_blocks i)(k := v)\<rparr>) s)"
| "slot_set p (InPage pg k) v s = store pg (wr32 (4 * k) v) s"

text \<open>The loop of \<^verbatim>\<open>alloc_block\<close> for \<^verbatim>\<open>i\<close> from \<open>k - 1\<close> down to -1; an old last block makes it use \<^verbatim>\<open>id[-1]\<close>.\<close>

fun alloc_ptr_loop :: "nat \<Rightarrow> ptr_t \<Rightarrow> (nat \<Rightarrow> u32) \<Rightarrow> bid_slot \<Rightarrow> fs \<Rightarrow> (u32 \<times> fs) option" where
  "alloc_ptr_loop 0 p ids slot s = do {
     bid \<leftarrow> slot_get p slot s;
     assertk (bid = 0);
     (bid, s) \<leftarrow> new_empty_block p s;
     s \<leftarrow> slot_set p slot bid s;
     let s = upd_inode p (\<lambda>i. i\<lparr>i_blockCnt := i_blockCnt i + 1\<rparr>) s;
     bid \<leftarrow> slot_get p slot s;
     Some (bid, s)
   }"
| "alloc_ptr_loop (Suc k) p ids slot s = do {
     bid \<leftarrow> slot_get p slot s;
     s \<leftarrow> (if bid = 0 then do {
         (bid, s) \<leftarrow> new_empty_block p s;
         s \<leftarrow> slot_set p slot bid s;
         Some (upd_inode p (\<lambda>i. i\<lparr>i_blockCnt := i_blockCnt i + 1\<rparr>) s)
       } else Some s);
     bid \<leftarrow> slot_get p slot s;
     (pg, s) \<leftarrow> ext2_block_read bid s;
     alloc_ptr_loop k p ids (InPage pg (unat (ids k))) s
   }"

definition alloc_block :: "ptr_t \<Rightarrow> u32 \<Rightarrow> fs \<Rightarrow> (u32 \<times> fs) option" where
  "alloc_block p bno s =
     (if bno < of_nat N_DIRECT_BLOCK then do {
        assertk (i_blocks (fs_inode s p) (unat bno) = 0);
        (bid, s) \<leftarrow> set_block_bitmap p s;
        Some (bid, upd_inode p (\<lambda>i. i\<lparr>i_blockCnt := i_blockCnt i + 1, i_blocks := (i_blocks i)(unat bno := bid)\<rparr>) s)
      } else do {
        (layer, ids) \<leftarrow> find_block_layer bno (n_ptrs s);
        alloc_ptr_loop (layer + 1) p ids (InInode (N_DIRECT_BLOCK + layer)) s
      })"

fun free_ptr_loop :: "(u32 \<Rightarrow> fs \<Rightarrow> fs option) \<Rightarrow> nat list \<Rightarrow> nat \<Rightarrow> fs \<Rightarrow> fs option" where
  "free_ptr_loop free [] pg s = Some s"
| "free_ptr_loop free (i # is) pg s = do {
     q \<leftarrow> rd32 (pdata s pg) (4 * i);
     if q \<noteq> 0 then do { s \<leftarrow> free q s; free_ptr_loop free is pg s } else Some s
   }"

primrec free_ptr :: "nat \<Rightarrow> u32 \<Rightarrow> fs \<Rightarrow> fs option" where
  "free_ptr 0 bid s = clear_block_bitmap bid s"
| "free_ptr (Suc layer) bid s = do {
     (pg, s) \<leftarrow> ext2_block_read bid s;
     s \<leftarrow> free_ptr_loop (free_ptr layer) [0..<unat (n_ptrs s)] pg s;
     clear_block_bitmap bid s
   }"

fun free_all :: "(nat \<times> nat) list \<Rightarrow> ptr_t \<Rightarrow> fs \<Rightarrow> fs option" where
  "free_all [] p s = Some s"
| "free_all ((k, layer) # ks) p s = do {
     let bid = i_blocks (fs_inode s p) k;
     s \<leftarrow> (if bid \<noteq> 0 then free_ptr layer bid s else Some s);
     free_all ks p s
   }"

definition free_blocks :: "ptr_t \<Rightarrow> fs \<Rightarrow> fs option" where
  "free_blocks p s = do {
     s \<leftarrow> free_all (map (\<lambda>i. (i, 0)) [0..<N_DIRECT_BLOCK]) p s;
     s \<leftarrow> free_all (map (\<lambda>i. (N_DIRECT_BLOCK + i, i + 1)) [0..<3]) p s;
     Some (upd_inode p (\<lambda>i. i\<lparr>i_blockCnt := 0\<rparr>) s)
   }"

end
