(* ===== verification/Ext2Dir.thy ===== *)
theory Ext2Dir
  imports Ext2Fs
begin

text \<open>
  The ext2 file system, part two: inodes (\<^verbatim>\<open>fs/ext2/inode.c\<close>), directories (\<^verbatim>\<open>fs/ext2/dir.c\<close>), the names kept in
  \<^verbatim>\<open>directory_t\<close> (\<^verbatim>\<open>fs/vfs.c\<close>), the operations of \<^verbatim>\<open>fs/ext2/ext2.c\<close>, and the flush of inodes and pages of
  \<^verbatim>\<open>fs/writeback.c\<close>. Names and data buffers of the caller are lists of bytes.
\<close>

section \<open>Names of directories\<close>

definition FILE_DNAME_LEN :: nat where "FILE_DNAME_LEN = 40"

definition dir_name_set :: "ptr_t \<Rightarrow> u8 list \<Rightarrow> fs \<Rightarrow> fs option" where
  "dir_name_set d name s = do {
     assertk (of_nat (length name) \<le> FILE_NAME_LEN);
     let cpy = c_MIN (length name) FILE_DNAME_LEN;
     let s = upd_dir d (\<lambda>r. r\<lparr>d_l_name := take cpy name @ drop cpy (d_l_name r), d_h_name := None, d_nameLen := of_nat (length name)\<rparr>) s;
     if length name > FILE_DNAME_LEN then do {
       (a, s) \<leftarrow> on_heap (kmalloc (of_nat (length name - cpy))) s;
       Some (upd_dir d (\<lambda>r. r\<lparr>d_h_name := Some (a, drop cpy name)\<rparr>) s)
     } else Some s
   }"

text \<open>The minimum is never above \<^verbatim>\<open>FILE_DNAME_LEN\<close>, so the second comparison is never reached.\<close>

definition dir_name_cmp :: "ptr_t \<Rightarrow> u8 list \<Rightarrow> fs \<Rightarrow> bool option" where
  "dir_name_cmp d name s = do {
     let r = fs_dir s d;
     let len = c_MIN FILE_DNAME_LEN (unat (d_nameLen r));
     if take len (d_l_name r) \<noteq> take len name then Some False
     else if len > FILE_DNAME_LEN then do {
       (a, h) \<leftarrow> d_h_name r;
       Some (h = drop len name)
     } else Some True
   }"

text \<open>
  A copy of the name in new memory. For a name of more than 40 bytes the rest of the copy is never
  written, so its contents are undefined.
\<close>

definition dir_name_dump :: "ptr_t \<Rightarrow> fs \<Rightarrow> (ptr_t \<times> u8 list \<times> fs) option" where
  "dir_name_dump d s = do {
     let r = fs_dir s d;
     (a, s) \<leftarrow> on_heap (kmalloc (ucast (d_nameLen r) + 1)) s;
     assertk (unat (d_nameLen r) \<le> FILE_DNAME_LEN);
     Some (a, take (unat (d_nameLen r)) (d_l_name r), s)
   }"

section \<open>Inodes\<close>

definition ext2_inode_init :: "u32 \<Rightarrow> fs \<Rightarrow> fs" where
  "ext2_inode_init szInfo s = s\<lparr>fs_lru_lock := spinlock_init,
     fs_cc := (fs_cc s)\<lparr>cc_heap := cache_alloc_create (fs_inoCache s) szInfo (cc_heap (fs_cc s))\<rparr>\<rparr>"

text \<open>The pointer to an inode on the disk: page and offset.\<close>

definition get_raw_inode :: "u32 \<Rightarrow> fs \<Rightarrow> (nat \<times> nat \<times> fs) option" where
  "get_raw_inode ino s = do {
     bIno \<leftarrow> umod (ino - 1) (sb_inodePerGroup (fs_sb s));
     inodePerBlock \<leftarrow> udiv (sb_blockSize (fs_sb s)) (sb_inodeSize (fs_sb s));
     g \<leftarrow> EXT2_INODE2GROUP ino s;
     gd \<leftarrow> group_desc g s;
     q \<leftarrow> udiv bIno inodePerBlock;
     (pg, s) \<leftarrow> ext2_block_read (gd_inodeTableAddr gd + q) s;
     Some (pg, unat (bIno * sb_inodeSize (fs_sb s)), s)
   }"

text \<open>The address of the field \<^verbatim>\<open>lru\<close> of an inode.\<close>

definition lru_node :: "ptr_t \<Rightarrow> ptr_t" where
  "lru_node p = p + 40"

text \<open>
  The first word of a new inode, its \<^verbatim>\<open>state\<close>, is the link the slab allocator left in the free chunk; the
  other fields keep what the memory held before.
\<close>

definition inode_get :: "fs \<Rightarrow> (ptr_t \<times> fs) option" where
  "inode_get s = do {
     (info, s) \<leftarrow> on_heap (cache_alloc (fs_inoCache s)) s;
     if info = 0 then Some (0, s)
     else do {
       l \<leftarrow> spinlock_lock (fs_lru_lock s);
       let s = upd_inode info (\<lambda>i. i\<lparr>i_state := kh_word (cc_heap (fs_cc s)) info\<rparr>) s;
       Some (info, s\<lparr>fs_lru := list_add_prev (lru_node info) (fs_inode_lru s) (fs_lru s), fs_lru_lock := spinlock_unlock l\<rparr>)
     }
   }"

definition inode_destroy :: "ptr_t \<Rightarrow> fs \<Rightarrow> fs option" where
  "inode_destroy p s = do {
     h \<leftarrow> cache_free (fs_inoCache s) p (cc_heap (fs_cc s));
     Some (s\<lparr>fs_cc := (fs_cc s)\<lparr>cc_heap := h\<rparr>\<rparr>)
   }"

definition raw_blocks :: "buf \<Rightarrow> nat \<Rightarrow> (nat \<Rightarrow> u32) \<Rightarrow> (nat \<Rightarrow> u32) option" where
  "raw_blocks b off old = do {
     assertk (off + 40 + 4 * N_BLOCKS \<le> BLOCK_BYTES);
     Some (\<lambda>k. if k < N_BLOCKS then the (rd32 b (off + 40 + 4 * k)) else old k)
   }"

text \<open>\<^verbatim>\<open>inode_cpy\<close> does not set \<^verbatim>\<open>state\<close>.\<close>

definition inode_cpy :: "u32 \<Rightarrow> fs \<Rightarrow> (ptr_t \<times> fs) option" where
  "inode_cpy ino s = do {
     (pg, ei, s) \<leftarrow> get_raw_inode ino s;
     (p, s) \<leftarrow> inode_get s;
     if p = 0 then Some (0, s)
     else do {
       let b = pdata s pg;
       sectors \<leftarrow> rd32 b (ei + 28);
       linkCnt \<leftarrow> rd16 b (ei + 26);
       mode \<leftarrow> rd16 b ei;
       size \<leftarrow> rd32 b (ei + 4);
       createTime \<leftarrow> rd32 b (ei + 12);
       modTime \<leftarrow> rd32 b (ei + 16);
       delTime \<leftarrow> rd32 b (ei + 20);
       blocks \<leftarrow> raw_blocks b ei (i_blocks (fs_inode s p));
       cnt \<leftarrow> udiv sectors (sb_blockSize (fs_sb s) div 512);
       let s = s\<lparr>fs_lru := list_header_init (lru_node p) (fs_lru s)\<rparr>;
       let s = upd_inode p (\<lambda>i. i\<lparr>i_refCnt := 0, i_linkCnt := linkCnt, i_permission := mode AND 0xfff, i_type := mode AND NOT 0xfff,
         i_size := ucast size, i_createTime := createTime, i_accessTime := now s, i_modifiedTime := modTime, i_deleteTime := delTime,
         i_offset := 0, i_dir := 0, i_sb := True, i_rwlock := rwlock_init, i_blocks := blocks, i_blockCnt := cnt\<rparr>) s;
       s \<leftarrow> mark_inode_dirty p I_TIME s;
       Some (p, s)
     }
   }"

section \<open>Directories in memory\<close>

definition ext2_dir_init :: "u32 \<Rightarrow> fs \<Rightarrow> fs" where
  "ext2_dir_init szDir s = s\<lparr>fs_cc := (fs_cc s)\<lparr>cc_heap := cache_alloc_create (fs_dirCache s) szDir (cc_heap (fs_cc s))\<rparr>\<rparr>"

definition directory_destroy :: "ptr_t \<Rightarrow> fs \<Rightarrow> fs option" where
  "directory_destroy d s = do {
     h \<leftarrow> cache_free (fs_dirCache s) d (cc_heap (fs_cc s));
     Some (s\<lparr>fs_cc := (fs_cc s)\<lparr>cc_heap := h\<rparr>\<rparr>)
   }"

definition directory_get :: "fs \<Rightarrow> (ptr_t \<times> fs) option" where
  "directory_get s = do {
     (d, s) \<leftarrow> on_heap (cache_alloc (fs_dirCache s)) s;
     assertk (d \<noteq> 0);
     Some (d, s)
   }"

definition directory_alloc :: "u8 list \<Rightarrow> u32 \<Rightarrow> ptr_t \<Rightarrow> ptr_t \<Rightarrow> fs \<Rightarrow> (ptr_t \<times> fs) option" where
  "directory_alloc name ino parent inode s = do {
     (d, s) \<leftarrow> directory_get s;
     s \<leftarrow> dir_name_set d name (upd_dir d (\<lambda>r. r\<lparr>d_ino := ino, d_inode := inode\<rparr>) s);
     Some (d, upd_dir d (\<lambda>r. r\<lparr>d_sb := i_sb (fs_inode s inode), d_parent := parent, d_child := [], d_link := [], d_rwLock := rwlock_init\<rparr>) s)
   }"

text \<open>\<open>src\<close> is an entry of a directory block: page and offset.\<close>

definition directory_cpy :: "nat \<Rightarrow> nat \<Rightarrow> ptr_t \<Rightarrow> fs \<Rightarrow> (ptr_t \<times> fs) option" where
  "directory_cpy pg off parent s = do {
     (d, s) \<leftarrow> directory_get s;
     ino \<leftarrow> rd32 (pdata s pg) off;
     len \<leftarrow> rd8 (pdata s pg) (off + 6);
     assertk (off + 8 + unat len \<le> BLOCK_BYTES);
     s \<leftarrow> dir_name_set d (bytes_at (pdata s pg) (off + 8) (unat len)) (upd_dir d (\<lambda>r. r\<lparr>d_ino := ino, d_inode := 0\<rparr>) s);
     assertk (d_sb (fs_dir s parent));
     Some (d, upd_dir d (\<lambda>r. r\<lparr>d_sb := True, d_parent := parent, d_child := [], d_link := [], d_rwLock := rwlock_init\<rparr>) s)
   }"

fun find_cache_loop :: "ptr_t list \<Rightarrow> u8 list \<Rightarrow> fs \<Rightarrow> ptr_t option" where
  "find_cache_loop [] name s = Some 0"
| "find_cache_loop (d # ds) name s = do {
     e \<leftarrow> (if (ucast (d_nameLen (fs_dir s d)) :: u32) = of_nat (length name) then dir_name_cmp d name s else Some False);
     if e then Some d else find_cache_loop ds name s
   }"

definition find_entry_cache :: "ptr_t \<Rightarrow> u8 list \<Rightarrow> fs \<Rightarrow> ptr_t option" where
  "find_entry_cache parent name s = find_cache_loop (d_child (fs_dir s parent)) name s"

section \<open>Directories on the disk\<close>

abbreviation blk_size :: "fs \<Rightarrow> nat" where
  "blk_size s \<equiv> unat (sb_blockSize (fs_sb s))"

definition find_entry_disk :: "ptr_t \<Rightarrow> u8 list \<Rightarrow> fs \<Rightarrow> (ptr_t \<times> fs) option" where
  "find_entry_disk parent name s = do {
     (r, s) \<leftarrow> for_each_block (\<lambda>bid s. do {
         (pg, s) \<leftarrow> ext2_block_read bid s;
         (r, b) \<leftarrow> dblock_find name (blk_size s) (pdata s pg);
         (case r of
            None \<Rightarrow> Some (None, s)
          | Some off \<Rightarrow> do { (d, s) \<leftarrow> directory_cpy pg off (i_dir (fs_inode s parent)) s; Some (Some d, s) })
       }) parent [0, 0, 0, 0] s;
     Some (case r of None \<Rightarrow> 0 | Some d \<Rightarrow> d, s)
   }"

text \<open>
  A block of the loop of \<^verbatim>\<open>create_dir_entry\<close>; when no block has room, a new one is appended.
\<close>

definition create_in_block :: "u8 list \<Rightarrow> u32 \<Rightarrow> u8 \<Rightarrow> u32 \<Rightarrow> fs \<Rightarrow> (unit option \<times> fs) option" where
  "create_in_block name ino type bid s = do {
     (pg, s) \<leftarrow> ext2_block_read bid s;
     (found, b) \<leftarrow> dblock_insert ino name type (blk_size s) (pdata s pg);
     let s = set_pdata pg b s;
     if found then do { s \<leftarrow> dirty_page pg s; Some (Some (), s) } else Some (None, s)
   }"

definition create_dir_entry :: "ptr_t \<Rightarrow> u8 list \<Rightarrow> u32 \<Rightarrow> u8 \<Rightarrow> fs \<Rightarrow> fs option" where
  "create_dir_entry parent name ino type s = do {
     (r, s) \<leftarrow> for_each_block (create_in_block name ino type) parent [0, 0, 0, 0] s;
     (case r of
        Some _ \<Rightarrow> Some s
      | None \<Rightarrow> do {
          bno \<leftarrow> next_free_bno parent s;
          (bid, s) \<leftarrow> alloc_block parent bno s;
          let s = upd_inode parent (\<lambda>i. i\<lparr>i_size := i_size i + ucast (sb_blockSize (fs_sb s))\<rparr>) s;
          (pg, s) \<leftarrow> ext2_block_read bid s;
          s \<leftarrow> store pg (wr32 0 0) s;
          s \<leftarrow> store pg (wr16 4 (ucast (sb_blockSize (fs_sb s)))) s;
          (_, b) \<leftarrow> new_dir_entry ino name type 0 (pdata s pg);
          dirty_page pg (set_pdata pg b s)
        })
   }"

definition make_empty_dir :: "ptr_t \<Rightarrow> fs \<Rightarrow> fs option" where
  "make_empty_dir p s = do {
     let bid = i_blocks (fs_inode s p) 0;
     assertk (bid \<noteq> 0);
     (pg, s) \<leftarrow> ext2_block_read bid s;
     s \<leftarrow> store pg (wr32 0 0) s;
     s \<leftarrow> store pg (wr16 4 (ucast (sb_blockSize (fs_sb s)))) s;
     let dir = fs_dir s (i_dir (fs_inode s p));
     (r, b) \<leftarrow> new_dir_entry (d_ino dir) [46] 2 0 (pdata s pg);
     off \<leftarrow> r;
     (r, b) \<leftarrow> new_dir_entry (d_ino (fs_dir s (d_parent dir))) [46, 46] 2 off b;
     dirty_page pg (set_pdata pg b s)
   }"

text \<open>Index 7 is one past the array, whose next element is undefined.\<close>

definition type_inode2dir :: "u32 \<Rightarrow> u32 option" where
  "type_inode2dir type = (let index = unat (drop_bit 13 type) in
     if index > 7 then Some 0 else if index < 7 then Some ([5, 3, 2, 4, 1, 7, 6] ! index) else None)"

definition append_link_to_parent :: "ptr_t \<Rightarrow> ptr_t \<Rightarrow> u16 \<Rightarrow> fs \<Rightarrow> fs option" where
  "append_link_to_parent parent d type s = do {
     type \<leftarrow> type_inode2dir (ucast type);
     (a, name, s) \<leftarrow> dir_name_dump d s;
     s \<leftarrow> create_dir_entry parent name (d_ino (fs_dir s d)) (ucast (ucast type :: u16)) s;
     let s = upd_dir (i_dir (fs_inode s parent)) (\<lambda>r. r\<lparr>d_child := d_child r @ [d]\<rparr>) s;
     free_heap a s
   }"

definition append_to_parent :: "ptr_t \<Rightarrow> ptr_t \<Rightarrow> fs \<Rightarrow> fs option" where
  "append_to_parent parent child s = do {
     let d = i_dir (fs_inode s child);
     type \<leftarrow> type_inode2dir (ucast (i_type (fs_inode s child)));
     (a, name, s) \<leftarrow> dir_name_dump d s;
     s \<leftarrow> create_dir_entry parent name (d_ino (fs_dir s d)) (ucast (ucast type :: u16)) s;
     let s = upd_dir (i_dir (fs_inode s parent)) (\<lambda>r. r\<lparr>d_child := d_child r @ [d]\<rparr>) s;
     s \<leftarrow> (if ext2_is_dir child s
          then mark_inode_dirty parent I_DATA (upd_inode parent (\<lambda>i. i\<lparr>i_linkCnt := i_linkCnt i + 1\<rparr>) s)
          else Some s);
     free_heap a s
   }"

definition dir_empty :: "ptr_t \<Rightarrow> fs \<Rightarrow> (bool \<times> fs) option" where
  "dir_empty p s = do {
     assertk (ext2_is_dir p s);
     if i_linkCnt (fs_inode s p) \<noteq> 2 then Some (False, s)
     else do {
       (r, s) \<leftarrow> for_each_block (\<lambda>bid s. do {
           (pg, s) \<leftarrow> ext2_block_read bid s;
           (r, b) \<leftarrow> for_each_dir visible_entry (DIR_END 0 (blk_size s)) 0 (pdata s pg);
           Some (r, s)
         }) p [0, 0, 0, 0] s;
       Some (r = None, s)
     }
   }"

definition remove_in_block :: "u8 list \<Rightarrow> u32 \<Rightarrow> fs \<Rightarrow> (unit option \<times> fs) option" where
  "remove_in_block name bid s = do {
     (pg, s) \<leftarrow> ext2_block_read bid s;
     (found, b) \<leftarrow> dblock_remove name (blk_size s) (pdata s pg);
     let s = set_pdata pg b s;
     if found then do { s \<leftarrow> dirty_page pg s; Some (Some (), s) } else Some (None, s)
   }"

text \<open>The memory of the dumped name is never released.\<close>

definition remove_from_parent :: "ptr_t \<Rightarrow> ptr_t \<Rightarrow> fs \<Rightarrow> fs option" where
  "remove_from_parent parent target s = do {
     assertk (parent \<noteq> 0 \<and> target \<noteq> 0);
     (a, name, s) \<leftarrow> dir_name_dump target s;
     (r, s) \<leftarrow> for_each_block (remove_in_block name) parent [0, 0, 0, 0] s;
     Some s
   }"

section \<open>Allocating and deleting inodes\<close>

definition find_group_inode :: "ptr_t \<Rightarrow> fs \<Rightarrow> (u32 \<times> fs) option" where
  "find_group_inode parent s = do {
     (e, s) \<leftarrow> dir_empty parent s;
     if e then do {
       (g, s) \<leftarrow> min_group_loop 14 [0..<unat (sb_groupCnt (fs_sb s))] 0xffffffff None s;
       g \<leftarrow> g;
       Some (g, s)
     } else do {
       g \<leftarrow> EXT2_INODE2GROUP (d_ino (fs_dir s (i_dir (fs_inode s parent)))) s;
       next_group_loop 14 g g s
     }
   }"

definition set_inode_bitmap :: "ptr_t \<Rightarrow> fs \<Rightarrow> (u32 \<times> fs) option" where
  "set_inode_bitmap parent s = do {
     (groupNo, s) \<leftarrow> find_group_inode parent s;
     gd \<leftarrow> group_desc groupNo s;
     (pg, s) \<leftarrow> ext2_block_read (gd_inodeBitmapAddr gd) s;
     (bit, b) \<leftarrow> set_next_zero_bit (sb_inodePerGroup (fs_sb s) div 8) (pdata s pg);
     let s = set_pdata pg b s;
     assertk (\<not> bit < 0);
     s \<leftarrow> dirty_page pg s;
     Some (of_int bit + 1 + groupNo * sb_blockPerGroup (fs_sb s), s)
   }"

definition clear_inode_bitmap :: "ptr_t \<Rightarrow> fs \<Rightarrow> fs option" where
  "clear_inode_bitmap p s = do {
     let ino = d_ino (fs_dir s (i_dir (fs_inode s p)));
     groupNo \<leftarrow> EXT2_INODE2GROUP ino s;
     gd \<leftarrow> group_desc groupNo s;
     (pg, s) \<leftarrow> ext2_block_read (gd_inodeBitmapAddr gd) s;
     let k = ino - 1;
     m \<leftarrow> rd8 (pdata s pg) (unat (k div 8));
     s \<leftarrow> store pg (wr8 (unat (k div 8)) (clear_bit8 m (unat (k mod 8)))) s;
     dirty_page pg s
   }"

text \<open>The counters of the group of an inode: free inodes at offset 14, directories at offset 16.\<close>

definition count_inode :: "u32 \<Rightarrow> u16 \<Rightarrow> u16 \<Rightarrow> fs \<Rightarrow> (nat \<times> fs) option" where
  "count_inode ino dfree ddir s = do {
     groupNo \<leftarrow> EXT2_INODE2GROUP ino s;
     (pg, off, s) \<leftarrow> get_raw_gd groupNo s;
     v \<leftarrow> rd16 (pdata s pg) (off + 14);
     s \<leftarrow> store pg (wr16 (off + 14) (v + dfree)) s;
     n \<leftarrow> rd16 (pdata s pg) (off + 16);
     s \<leftarrow> store pg (wr16 (off + 16) (n + ddir)) s;
     Some (pg, s)
   }"

text \<open>The new directory copies \<^verbatim>\<open>inode->sb\<close> before that field is set.\<close>

definition inode_alloc :: "ptr_t \<Rightarrow> u16 \<Rightarrow> u8 list \<Rightarrow> fs \<Rightarrow> (ptr_t \<times> fs) option" where
  "inode_alloc parent mode name s = do {
     (p, s) \<leftarrow> inode_get s;
     assertk (p \<noteq> 0);
     (ino, s) \<leftarrow> set_inode_bitmap parent s;
     (d, s) \<leftarrow> directory_alloc name ino (i_dir (fs_inode s parent)) p s;
     let type = mode AND NOT 0xfff;
     assertk (type = EXT2_IFREG \<or> type = EXT2_IFDIR);
     let isDir = (type = EXT2_IFDIR);
     let s = s\<lparr>fs_lru := list_header_init (lru_node p) (fs_lru s)\<rparr>;
     let s = upd_inode p (\<lambda>i. i\<lparr>i_refCnt := 0, i_linkCnt := if isDir then 2 else 1, i_permission := mode AND 0xfff, i_type := type,
       i_size := 0, i_createTime := now s, i_accessTime := now s, i_modifiedTime := now s, i_deleteTime := 0, i_offset := 0,
       i_dir := d, i_sb := True, i_rwlock := rwlock_init, i_blocks := (\<lambda>k. if k < N_BLOCKS then 0 else i_blocks i k), i_blockCnt := 0\<rparr>) s;
     (pg, s) \<leftarrow> count_inode ino (-1) (if isDir then 1 else 0) s;
     s \<leftarrow> dirty_page pg s;
     Some (p, s)
   }"

text \<open>The lock of the inode is taken and not released.\<close>

definition inode_delete :: "ptr_t \<Rightarrow> fs \<Rightarrow> fs option" where
  "inode_delete p s = do {
     let time = now s;
     lk \<leftarrow> wlock_lock (i_rwlock (fs_inode s p));
     let s = upd_inode p (\<lambda>i. i\<lparr>i_rwlock := lk\<rparr>) s;
     let isDir = ext2_is_dir p s;
     s \<leftarrow> free_blocks p s;
     let s = upd_inode p (\<lambda>i. i\<lparr>i_linkCnt := 0, i_deleteTime := time\<rparr>) s;
     s \<leftarrow> clear_inode_bitmap p s;
     let d = i_dir (fs_inode s p);
     let s = s\<lparr>fs_dir := (\<lambda>x. (fs_dir s x)\<lparr>d_child := remove1 d (d_child (fs_dir s x))\<rparr>)\<rparr>;
     (pg, s) \<leftarrow> count_inode (d_ino (fs_dir s d)) 1 (if isDir then -1 else 0) s;
     s \<leftarrow> mark_inode_dirty p I_DEL s;
     dirty_page pg s
   }"

definition write_blocks :: "nat \<Rightarrow> (nat \<Rightarrow> u32) \<Rightarrow> nat \<Rightarrow> fs \<Rightarrow> fs option" where
  "write_blocks off bl pg s = fold (\<lambda>k r. do { s \<leftarrow> r; store pg (wr32 (off + 40 + 4 * k) (bl k)) s }) [0..<N_BLOCKS] (Some s)"

definition ext2_write_back :: "ptr_t \<Rightarrow> fs \<Rightarrow> fs option" where
  "ext2_write_back p s = do {
     let d = i_dir (fs_inode s p);
     (pg, off, s) \<leftarrow> get_raw_inode (d_ino (fs_dir s d)) s;
     let i = fs_inode s p;
     s \<leftarrow> (if i_state i = I_TIME \<or> i_state i = I_NEW then do {
         s \<leftarrow> store pg (wr32 (off + 8) (i_accessTime i)) s;
         s \<leftarrow> store pg (wr32 (off + 20) (i_deleteTime i)) s;
         s \<leftarrow> store pg (wr32 (off + 16) (i_modifiedTime i)) s;
         store pg (wr32 (off + 12) (i_createTime i)) s
       } else Some s);
     s \<leftarrow> (if i_state i = I_DATA \<or> i_state i = I_NEW then do {
         s \<leftarrow> store pg (wr32 (off + 4) (ucast (i_size i))) s;
         s \<leftarrow> store pg (wr32 (off + 108) (ucast (drop_bit 32 (i_size i)))) s;
         s \<leftarrow> store pg (wr16 (off + 26) (i_linkCnt i)) s;
         s \<leftarrow> store pg (wr32 (off + 28) (i_blockCnt i * 8)) s;
         s \<leftarrow> write_blocks off (i_blocks i) pg s;
         store pg (wr16 off (i_type i OR i_permission i)) s
       } else Some s);
     s \<leftarrow> (if i_state i = I_DEL then do {
         assertk (i_linkCnt i = 0);
         s \<leftarrow> store pg (wr16 (off + 26) 0) s;
         s \<leftarrow> store pg (wr32 (off + 20) (i_deleteTime i)) s;
         s \<leftarrow> store pg (wr32 (off + 28) 0) s;
         s \<leftarrow> write_blocks off (\<lambda>_. 0) pg s;
         s \<leftarrow> directory_destroy d s;
         inode_destroy p s
       } else Some (upd_inode p (\<lambda>i. i\<lparr>i_state := I_OLD\<rparr>) s));
     dirty_page pg s
   }"

section \<open>Flushing\<close>

text \<open>The loop over the queue: writing an inode back does not queue another one.\<close>

fun flush_inode_loop :: "ptr_t list \<Rightarrow> fs \<Rightarrow> fs option" where
  "flush_inode_loop [] s = Some s"
| "flush_inode_loop (p # ps) s = do {
     s \<leftarrow> ext2_write_back p (s\<lparr>fs_cc := (fs_cc s)\<lparr>cc_inode_dirty := ps\<rparr>\<rparr>);
     flush_inode_loop ps s
   }"

definition flush_inode :: "fs \<Rightarrow> fs option" where
  "flush_inode s = (case cc_inode_dirty (fs_cc s) of
       [] \<Rightarrow> Some s
     | p # ps \<Rightarrow> do {
         s \<leftarrow> ext2_write_super_block (s\<lparr>fs_cc := (fs_cc s)\<lparr>cc_inode_dirty := ps\<rparr>\<rparr>);
         flush_inode_loop (p # ps) s
       })"

definition page_fsync :: "fs \<Rightarrow> fs option" where
  "page_fsync s = do {
     s \<leftarrow> flush_inode s;
     c \<leftarrow> flush_pages (fs_cc s);
     Some (s\<lparr>fs_cc := c\<rparr>)
   }"

text \<open>One round of the loop of \<^verbatim>\<open>page_flush_worker\<close>.\<close>

definition page_flush_round :: "fs \<Rightarrow> fs option" where
  "page_flush_round s = do {
     s \<leftarrow> page_fsync s;
     (ok, sc) \<leftarrow> ms_sleep 5000 (cc_sched (fs_cc s));
     assertk ok;
     Some (s\<lparr>fs_cc := (fs_cc s)\<lparr>cc_sched := sc\<rparr>\<rparr>)
   }"

section \<open>The operations of the file system\<close>

definition ext2_inode_mount :: "ptr_t \<Rightarrow> fs \<Rightarrow> fs option" where
  "ext2_inode_mount d s = do {
     s \<leftarrow> (if d_inode (fs_dir s d) = 0 then do {
         assertk (d_parent (fs_dir s d) \<noteq> 0 \<and> d_sb (fs_dir s d));
         (p, s) \<leftarrow> inode_cpy (d_ino (fs_dir s d)) s;
         let s = upd_dir d (\<lambda>r. r\<lparr>d_inode := p\<rparr>) s;
         assertk (p \<noteq> 0);
         if i_dir (fs_inode s p) = 0 then Some (upd_inode p (\<lambda>i. i\<lparr>i_dir := d\<rparr>) s)
         else if i_dir (fs_inode s p) \<noteq> d
         then Some (upd_dir (i_dir (fs_inode s p)) (\<lambda>r. r\<lparr>d_link := d_link r @ [d]\<rparr>) s)
         else Some s
       } else Some s);
     assertk (d_inode (fs_dir s d) \<noteq> 0);
     Some s
   }"

definition root_init :: "fs \<Rightarrow> (ptr_t \<times> fs) option" where
  "root_init s = do {
     (root, s) \<leftarrow> inode_cpy 2 s;
     (d, s) \<leftarrow> directory_alloc [47] 2 0 root s;
     assertk (root \<noteq> 0);
     let s = upd_dir d (\<lambda>r. r\<lparr>d_inode := root, d_sb := i_sb (fs_inode s root)\<rparr>) s;
     Some (root, upd_inode root (\<lambda>i. i\<lparr>i_dir := d\<rparr>) s)
   }"

definition ext2_open :: "ptr_t \<Rightarrow> int" where
  "ext2_open p = (if p = 0 then -1 else 0)"

definition ext2_close :: "ptr_t \<Rightarrow> fs \<Rightarrow> int \<times> fs" where
  "ext2_close p s =
     (if p = 0 then (-1, s)
      else (0, if ext2_is_dir p s \<and> i_offset (fs_inode s p) \<noteq> 0 then upd_inode p (\<lambda>i. i\<lparr>i_offset := 0\<rparr>) s else s))"

definition ext2_find :: "ptr_t \<Rightarrow> u8 list \<Rightarrow> fs \<Rightarrow> (ptr_t \<times> fs) option" where
  "ext2_find parent name s = do {
     d \<leftarrow> find_entry_cache parent name s;
     if d \<noteq> 0 then Some (d, s)
     else do {
       s \<leftarrow> ext2_inode_mount parent s;
       (d, s) \<leftarrow> find_entry_disk (d_inode (fs_dir s parent)) name s;
       if d = 0 then Some (0, s)
       else do {
         lk \<leftarrow> wlock_lock (d_rwLock (fs_dir s d));
         let s = upd_dir parent (\<lambda>r. r\<lparr>d_child := d_child r @ [d]\<rparr>) s;
         Some (d, upd_dir d (\<lambda>r. r\<lparr>d_rwLock := wlock_unlock lk\<rparr>) s)
       }
     }
   }"

text \<open>The bytes that \<^verbatim>\<open>ext2_read\<close> copies to the caller; their number is its result.\<close>

definition ext2_read :: "ptr_t \<Rightarrow> u32 \<Rightarrow> u32 \<Rightarrow> fs \<Rightarrow> (u8 list \<times> fs) option" where
  "ext2_read p offset sz s = do {
     let bs = sb_blockSize (fs_sb s);
     blkOffset \<leftarrow> umod offset bs;
     bno \<leftarrow> udiv offset bs;
     cnt \<leftarrow> udiv (i_size (fs_inode s p) + ucast bs - 1) (ucast bs);
     if ucast bno \<ge> cnt then Some ([], s)
     else do {
       let sz = c_MIN (bs - blkOffset) sz;
       (bid, s) \<leftarrow> get_bid p bno s;
       if bid = 0 then Some ([], s)
       else do {
         (pg, s) \<leftarrow> ext2_block_read bid s;
         c \<leftarrow> page_rlock pg (fs_cc s);
         assertk (unat blkOffset + unat sz \<le> BLOCK_BYTES);
         let data = bytes_at (cc_data c pg) (unat blkOffset) (unat sz);
         c \<leftarrow> page_runlock pg c;
         Some (data, s\<lparr>fs_cc := c\<rparr>)
       }
     }
   }"

definition ext2_read_page :: "ptr_t \<Rightarrow> u32 \<Rightarrow> fs \<Rightarrow> (nat \<times> fs) option" where
  "ext2_read_page p offset s = do {
     bno \<leftarrow> udiv offset (sb_blockSize (fs_sb s));
     (bid, s) \<leftarrow> get_bid p bno s;
     ext2_block_read bid s
   }"

text \<open>\<^verbatim>\<open>ext2_write\<close> of the bytes \<open>data\<close>; the result is the number written.\<close>

definition ext2_write :: "ptr_t \<Rightarrow> u32 \<Rightarrow> u8 list \<Rightarrow> fs \<Rightarrow> (u32 \<times> fs) option" where
  "ext2_write p offset data s = do {
     assertk (i_type (fs_inode s p) AND EXT2_IFREG \<noteq> 0);
     let bs = sb_blockSize (fs_sb s);
     blkOffset \<leftarrow> umod offset bs;
     bno \<leftarrow> udiv offset bs;
     let sz = c_MIN (bs - blkOffset) (of_nat (length data));
     nxt \<leftarrow> next_free_bno p s;
     (pg, s) \<leftarrow> (if bno < nxt then do { (bid, s) \<leftarrow> get_bid p bno s; ext2_block_read bid s }
                else do { (bid, s) \<leftarrow> alloc_block p bno s; ext2_block_get bid s });
     lk \<leftarrow> wlock_lock (i_rwlock (fs_inode s p));
     let s = upd_inode p (\<lambda>i. i\<lparr>i_size := ucast (offset + sz), i_rwlock := wlock_unlock lk\<rparr>) s;
     c \<leftarrow> page_wlock pg (fs_cc s);
     s \<leftarrow> store pg (wr_bytes (unat blkOffset) (take (unat sz) data)) (s\<lparr>fs_cc := c\<rparr>);
     let s = s\<lparr>fs_cc := page_wunlock pg (fs_cc s)\<rparr>;
     s \<leftarrow> dirty_page pg s;
     s \<leftarrow> mark_inode_dirty p I_DATA s;
     Some (sz, s)
   }"

definition EXT2_ALL_RWX :: u16 where "EXT2_ALL_RWX = 0x1FD"

definition ext2_mkdir :: "ptr_t \<Rightarrow> u8 list \<Rightarrow> fs \<Rightarrow> (int \<times> fs) option" where
  "ext2_mkdir parent name s =
     (if \<not> ext2_is_dir parent s then Some (-1, s)
      else do {
        (d, s) \<leftarrow> ext2_find (i_dir (fs_inode s parent)) name s;
        if d \<noteq> 0 then Some (-2, s)
        else do {
          (new, s) \<leftarrow> inode_alloc parent (EXT2_ALL_RWX OR EXT2_IFDIR) name s;
          (_, s) \<leftarrow> alloc_block new 0 s;
          let s = upd_inode new (\<lambda>i. i\<lparr>i_size := ucast (sb_blockSize (fs_sb s))\<rparr>) s;
          s \<leftarrow> make_empty_dir new s;
          s \<leftarrow> append_to_parent parent new s;
          s \<leftarrow> mark_inode_dirty new I_NEW s;
          Some (0, s)
        }
      })"

definition ext2_mkfile :: "ptr_t \<Rightarrow> u8 list \<Rightarrow> fs \<Rightarrow> (int \<times> fs) option" where
  "ext2_mkfile parent name s =
     (if \<not> ext2_is_dir parent s then Some (-1, s)
      else do {
        (d, s) \<leftarrow> ext2_find (i_dir (fs_inode s parent)) name s;
        if d \<noteq> 0 then Some (-2, s)
        else do {
          (new, s) \<leftarrow> inode_alloc parent (EXT2_ALL_RWX OR EXT2_IFREG) name s;
          s \<leftarrow> append_to_parent parent new s;
          s \<leftarrow> mark_inode_dirty new I_NEW s;
          Some (0, s)
        }
      })"

definition ext2_rmdir :: "ptr_t \<Rightarrow> fs \<Rightarrow> (int \<times> fs) option" where
  "ext2_rmdir p s = do {
     let d = i_dir (fs_inode s p);
     assertk (d \<noteq> 0 \<and> d_parent (fs_dir s d) \<noteq> 0);
     if \<not> ext2_is_dir p s then Some (-1, s)
     else if d_child (fs_dir s d) \<noteq> [] then Some (-2, s)
     else do {
       (e, s) \<leftarrow> dir_empty p s;
       if \<not> e then Some (-2, s)
       else do {
         s \<leftarrow> ext2_inode_mount (d_parent (fs_dir s d)) s;
         let parent = d_inode (fs_dir s (d_parent (fs_dir s d)));
         s \<leftarrow> remove_from_parent parent d s;
         s \<leftarrow> inode_delete p s;
         lk \<leftarrow> wlock_lock (i_rwlock (fs_inode s parent));
         let s = upd_inode parent (\<lambda>i. i\<lparr>i_linkCnt := i_linkCnt i - 1, i_rwlock := wlock_unlock lk\<rparr>) s;
         s \<leftarrow> mark_inode_dirty parent I_DATA s;
         Some (0, s)
       }
     }
   }"

definition ext2_link :: "ptr_t \<Rightarrow> ptr_t \<Rightarrow> u8 list \<Rightarrow> fs \<Rightarrow> (int \<times> fs) option" where
  "ext2_link src parent name s =
     (if i_type (fs_inode s src) AND EXT2_IFREG = 0 then Some (-1, s)
      else do {
        lk \<leftarrow> wlock_lock (i_rwlock (fs_inode s src));
        let s = upd_inode src (\<lambda>i. i\<lparr>i_linkCnt := i_linkCnt i + 1, i_rwlock := wlock_unlock lk\<rparr>) s;
        let sd = i_dir (fs_inode s src);
        (d, s) \<leftarrow> directory_alloc name (d_ino (fs_dir s sd)) (i_dir (fs_inode s parent)) src s;
        lk \<leftarrow> wlock_lock (d_rwLock (fs_dir s sd));
        let s = upd_dir sd (\<lambda>r. r\<lparr>d_link := d # d_link r, d_rwLock := wlock_unlock lk\<rparr>) s;
        s \<leftarrow> append_link_to_parent parent d (i_type (fs_inode s src)) s;
        s \<leftarrow> mark_inode_dirty src I_DATA s;
        Some (0, s)
      })"

definition ext2_unlink :: "ptr_t \<Rightarrow> fs \<Rightarrow> (int \<times> fs) option" where
  "ext2_unlink d s = do {
     assertk (d \<noteq> 0 \<and> d_parent (fs_dir s d) \<noteq> 0);
     s \<leftarrow> ext2_inode_mount d s;
     if ext2_is_dir (d_inode (fs_dir s d)) s then Some (-1, s)
     else do {
       s \<leftarrow> ext2_inode_mount (d_parent (fs_dir s d)) s;
       let p = d_inode (fs_dir s d);
       let parent = d_inode (fs_dir s (d_parent (fs_dir s d)));
       let s = upd_inode p (\<lambda>i. i\<lparr>i_linkCnt := i_linkCnt i - 1\<rparr>) s;
       s \<leftarrow> remove_from_parent parent d s;
       if i_linkCnt (fs_inode s p) = 0 then do { s \<leftarrow> inode_delete p s; Some (0, s) }
       else do { s \<leftarrow> mark_inode_dirty p I_DATA s; Some (0, s) }
     }
   }"

text \<open>The names \<^verbatim>\<open>ext2_ls\<close> prints.\<close>

fun ls_loop :: "ptr_t list \<Rightarrow> fs \<Rightarrow> (u8 list list \<times> fs) option" where
  "ls_loop [] s = Some ([], s)"
| "ls_loop (d # ds) s = do {
     (a, name, s) \<leftarrow> dir_name_dump d s;
     s \<leftarrow> free_heap a s;
     (names, s) \<leftarrow> ls_loop ds s;
     Some (name # names, s)
   }"

definition ext2_ls :: "ptr_t \<Rightarrow> fs \<Rightarrow> (u8 list list \<times> fs) option" where
  "ext2_ls p s = ls_loop (d_child (fs_dir s (i_dir (fs_inode s p)))) s"

end
