(* ===== verification/Vfs.thy ===== *)
theory Vfs
  imports Ext2Dir FdTable
begin

text \<open>
  The virtual file system, \<^verbatim>\<open>fs/vfs.c\<close>, over the ext2 operations and the descriptor table.

  A path is the list of its bytes before the terminating 0. The operations of a file system are those
  of ext2, the only one the kernel mounts. A \<^verbatim>\<open>struct open_file\<close> is found by its address, because tasks
  share the lists of open files after a fork. Using NULL as a structure is \<open>None\<close>. Changing a path in
  place to cut it at a separator is not kept: the path is only released afterwards.
\<close>

section \<open>Definitions\<close>

definition SEPARATOR :: u8 where "SEPARATOR = 47"

datatype SEEK_WHENCE = SEEK_SET | SEEK_CUR | SEEK_END

record open_file =
  of_inode :: ptr_t
  of_fd :: int
  of_next :: ptr_t

text \<open>\<open>vf_tree\<close> is \<^verbatim>\<open>vfs_tree\<close>: NULL, or the directory of its node.\<close>

record vfs =
  vf_fs :: fs
  vf_fd :: fd_hash
  vf_file :: "ptr_t \<Rightarrow> open_file"
  vf_tree :: "ptr_t option"

abbreviation vf_inode :: "vfs \<Rightarrow> ptr_t \<Rightarrow> inode" where
  "vf_inode v p \<equiv> fs_inode (vf_fs v) p"

abbreviation vf_sched :: "vfs \<Rightarrow> sched" where
  "vf_sched v \<equiv> cc_sched (fs_cc (vf_fs v))"

abbreviation upd_vinode :: "ptr_t \<Rightarrow> (inode \<Rightarrow> inode) \<Rightarrow> vfs \<Rightarrow> vfs" where
  "upd_vinode p f v \<equiv> v\<lparr>vf_fs := upd_inode p f (vf_fs v)\<rparr>"

definition set_open :: "ptr_t \<Rightarrow> ptr_t \<Rightarrow> vfs \<Rightarrow> vfs" where
  "set_open t f v = v\<lparr>vf_fs := (vf_fs v)\<lparr>fs_cc := (fs_cc (vf_fs v))\<lparr>cc_sched :=
     upd_task t (\<lambda>k. k\<lparr>ts_open := f\<rparr>) (vf_sched v)\<rparr>\<rparr>\<rparr>"

text \<open>A call into the file system, and the release of a block of memory.\<close>

definition on_fs :: "(fs \<Rightarrow> ('a \<times> fs) option) \<Rightarrow> vfs \<Rightarrow> ('a \<times> vfs) option" where
  "on_fs f v = do { (r, s) \<leftarrow> f (vf_fs v); Some (r, v\<lparr>vf_fs := s\<rparr>) }"

definition vfree :: "ptr_t \<Rightarrow> vfs \<Rightarrow> vfs option" where
  "vfree a v = do { s \<leftarrow> free_heap a (vf_fs v); Some (v\<lparr>vf_fs := s\<rparr>) }"

subsection \<open>Paths\<close>

definition cwd :: "u8 list \<Rightarrow> vfs \<Rightarrow> ptr_t option" where
  "cwd path v =
     (if path \<noteq> [] \<and> hd path = SEPARATOR then do {
        d \<leftarrow> vf_tree v;
        assertk (d \<noteq> 0 \<and> d_inode (fs_dir (vf_fs v) d) \<noteq> 0);
        Some (d_inode (fs_dir (vf_fs v) d))
      } else do {
        t \<leftarrow> CUR_TCB (vf_sched v);
        assertk (ts_cwd (sd_task (vf_sched v) t) \<noteq> 0);
        get_inode (ts_cwd (sd_task (vf_sched v) t)) (vf_fd v)
      })"

text \<open>The loop of \<^verbatim>\<open>find_dir\<close>: one component of the path after the other.\<close>

function find_dir_loop :: "u8 list \<Rightarrow> ptr_t \<Rightarrow> vfs \<Rightarrow> (ptr_t \<times> vfs) option" where
  "find_dir_loop path d v =
     (if path = [] then Some (d, v)
      else let name = takeWhile (\<lambda>c. c \<noteq> SEPARATOR) path; rest = dropWhile (\<lambda>c. c \<noteq> SEPARATOR) path in
        if rest = [] then on_fs (ext2_find d path) v
        else do {
          (d, v) \<leftarrow> on_fs (ext2_find d name) v;
          if d = 0 then Some (0, v) else find_dir_loop (tl rest) d v
        })"
  by pat_completeness auto

lemma length_dropWhile_tl: "xs \<noteq> [] \<Longrightarrow> length (tl (dropWhile P xs)) < length xs"
  using length_dropWhile_le [of P xs] by (cases xs; cases "dropWhile P xs") (auto simp del: dropWhile.simps)

termination find_dir_loop
  by (relation "measure (\<lambda>(path, _, _). length path)") (auto simp del: length_tl intro: length_dropWhile_tl)

declare find_dir_loop.simps [simp del]

definition find_dir :: "u8 list \<Rightarrow> vfs \<Rightarrow> (ptr_t \<times> vfs) option" where
  "find_dir path v = do {
     parent \<leftarrow> cwd path v;
     assertk (parent \<noteq> 0);
     find_dir_loop (if path \<noteq> [] \<and> hd path = SEPARATOR then tl path else path) (i_dir (vf_inode v parent)) v
   }"

definition vfs_find :: "u8 list \<Rightarrow> vfs \<Rightarrow> (ptr_t \<times> vfs) option" where
  "vfs_find path v = do {
     (d, v) \<leftarrow> find_dir path v;
     if d = 0 then Some (0, v)
     else do {
       s \<leftarrow> ext2_inode_mount d (vf_fs v);
       Some (d_inode (fs_dir s d), v\<lparr>vf_fs := s\<rparr>)
     }
   }"

text \<open>
  \<^verbatim>\<open>parse_path\<close> asks for room for the path and its terminating 0 and copies one byte more, which must
  not lie in the next block of memory (a block has at least \<^verbatim>\<open>SLAB_MIN\<close> bytes). The byte it then tests is always the terminating 0, so the
  copy is the path itself.
\<close>

definition parse_path :: "u8 list \<Rightarrow> vfs \<Rightarrow> (ptr_t \<times> u8 list \<times> vfs) option" where
  "parse_path path v = do {
     let len = (of_nat (length path) + 1 :: u32);
     (new, v) \<leftarrow> on_fs (on_heap (kmalloc len)) v;
     assertk (len + 1 \<le> max (ucast SLAB_MIN) (fixSize len));
     let bytes = path @ [0];
     let bytes = (if bytes ! (unat len - 1) = SEPARATOR then bytes[unat len - 1 := 0] else bytes);
     Some (new, takeWhile (\<lambda>c. c \<noteq> 0) bytes, v)
   }"

text \<open>The result of \<^verbatim>\<open>split_path\<close>: the parent and the last component; \<open>i\<close> is one more than the index the C loop stops at.\<close>

definition split_path :: "u8 list \<Rightarrow> vfs \<Rightarrow> (ptr_t \<times> u8 list \<times> vfs) option" where
  "split_path path v = do {
     let i = length (dropWhile (\<lambda>c. c \<noteq> SEPARATOR) (rev path));
     if i \<le> 1 then do { parent \<leftarrow> cwd path v; Some (parent, drop i path, v) }
     else do {
       (parent, v) \<leftarrow> vfs_find (take (i - 1) path) v;
       Some (parent, if parent = 0 then [] else drop i path, v)
     }
   }"

subsection \<open>Lists of open files\<close>

partial_function (option) open_find :: "ptr_t \<Rightarrow> ptr_t \<Rightarrow> vfs \<Rightarrow> ptr_t option" where
  "open_find p f v =
     (if f = 0 then Some 0 else if of_inode (vf_file v f) = p then Some f else open_find p (of_next (vf_file v f)) v)"

definition add_open_file :: "ptr_t \<Rightarrow> int \<Rightarrow> vfs \<Rightarrow> vfs option" where
  "add_open_file p fd v = do {
     t \<leftarrow> CUR_TCB (vf_sched v);
     f \<leftarrow> open_find p (ts_open (sd_task (vf_sched v) t)) v;
     if f \<noteq> 0 then do { assertk (of_fd (vf_file v f) = fd); Some v }
     else do {
       (a, v) \<leftarrow> on_fs (on_heap (kmalloc 12)) v;
       let v = v\<lparr>vf_file := (vf_file v)(a := \<lparr>of_inode = p, of_fd = fd, of_next = ts_open (sd_task (vf_sched v) t)\<rparr>)\<rparr>;
       Some (set_open t a v)
     }
   }"

text \<open>The loop of \<^verbatim>\<open>remove_open_file\<close>: \<open>prev\<close> is NULL or the file before \<open>f\<close>.\<close>

partial_function (option) remove_loop :: "ptr_t \<Rightarrow> ptr_t \<Rightarrow> ptr_t \<Rightarrow> ptr_t \<Rightarrow> vfs \<Rightarrow> (ptr_t \<times> vfs) option" where
  "remove_loop p t f prev v =
     (if f = 0 then None
      else if of_inode (vf_file v f) = p
      then Some (f, if prev = 0 then set_open t (of_next (vf_file v f)) v
                    else v\<lparr>vf_file := (vf_file v)(prev := (vf_file v prev)\<lparr>of_next := of_next (vf_file v f)\<rparr>)\<rparr>)
      else remove_loop p t (of_next (vf_file v f)) f v)"

definition remove_open_file :: "ptr_t \<Rightarrow> vfs \<Rightarrow> (ptr_t \<times> vfs) option" where
  "remove_open_file p v = do {
     t \<leftarrow> CUR_TCB (vf_sched v);
     remove_loop p t (ts_open (sd_task (vf_sched v) t)) 0 v
   }"

text \<open>\<open>src\<close> and \<open>dst\<close> are the tasks whose \<^verbatim>\<open>open\<close> fields the two pointers stand for.\<close>

partial_function (option) count_open :: "ptr_t \<Rightarrow> vfs \<Rightarrow> vfs option" where
  "count_open f v =
     (if f = 0 then Some v
      else count_open (of_next (vf_file v f)) (upd_vinode (of_inode (vf_file v f)) (\<lambda>i. i\<lparr>i_refCnt := i_refCnt i + 1\<rparr>) v))"

definition copy_open_file :: "ptr_t \<Rightarrow> ptr_t \<Rightarrow> vfs \<Rightarrow> vfs option" where
  "copy_open_file src dst v =
     (let f = ts_open (sd_task (vf_sched v) src) in count_open f (set_open dst f v))"

subsection \<open>Opening and closing\<close>

definition vfs_open :: "u8 list \<Rightarrow> vfs \<Rightarrow> (int \<times> vfs) option" where
  "vfs_open path v = do {
     (a, path, v) \<leftarrow> parse_path path v;
     (p, v) \<leftarrow> vfs_find path v;
     if p = 0 then Some (-1, v)
     else do {
       (fd, t) \<leftarrow> alloc_fd p (vf_fd v);
       let v = v\<lparr>vf_fd := t\<rparr>;
       if fd < 0 then Some (-1, v)
       else if ext2_open p \<noteq> 0 then Some (ext2_open p, v)
       else do {
         let v = upd_vinode p (\<lambda>i. i\<lparr>i_refCnt := i_refCnt i + 1\<rparr>) v;
         v \<leftarrow> vfree a v;
         v \<leftarrow> add_open_file p fd v;
         Some (fd, v)
       }
     }
   }"

definition vfs_close :: "int \<Rightarrow> vfs \<Rightarrow> (int \<times> vfs) option" where
  "vfs_close fd v = do {
     p \<leftarrow> get_inode fd (vf_fd v);
     if p = 0 then Some (-1, v)
     else do {
       let v = upd_vinode p (\<lambda>i. i\<lparr>i_refCnt := i_refCnt i - 1\<rparr>) v;
       (f, v) \<leftarrow> remove_open_file p v;
       if i_refCnt (vf_inode v p) = 0 then do {
         v \<leftarrow> vfree f v;
         t \<leftarrow> free_fd fd (vf_fd v);
         let (error, s) = ext2_close p (vf_fs v);
         let v = v\<lparr>vf_fd := t, vf_fs := s\<rparr>;
         if error \<noteq> 0 then Some (error, v) else Some (0, v)
       } else Some (0, v)
     }
   }"

partial_function (option) recycle_open_loop :: "ptr_t \<Rightarrow> vfs \<Rightarrow> vfs option" where
  "recycle_open_loop f v =
     (if f = 0 then Some v
      else do {
        let nxt = of_next (vf_file v f);
        (_, v) \<leftarrow> vfs_close (of_fd (vf_file v f)) v;
        recycle_open_loop nxt v
      })"

definition recycle_open_file :: "ptr_t \<Rightarrow> vfs \<Rightarrow> vfs option" where
  "recycle_open_file f v = do { assertk (f \<noteq> 0); recycle_open_loop f v }"

text \<open>\<^verbatim>\<open>_vfs_find\<close> enters the inode without counting a reference.\<close>

definition vfs_find_core :: "u8 list \<Rightarrow> vfs \<Rightarrow> (int \<times> vfs) option" where
  "vfs_find_core path v = do {
     (p, v) \<leftarrow> vfs_find path v;
     assertk (p \<noteq> 0);
     (fd, t) \<leftarrow> alloc_fd p (vf_fd v);
     assertk (fd \<ge> 0);
     v \<leftarrow> add_open_file p fd (v\<lparr>vf_fd := t\<rparr>);
     Some (fd, v)
   }"

subsection \<open>Reading, writing and positions\<close>

text \<open>The bytes read; their number is the result of \<^verbatim>\<open>vfs_read\<close>.\<close>

partial_function (option) vread_loop :: "ptr_t \<Rightarrow> int \<Rightarrow> vfs \<Rightarrow> (u8 list \<times> vfs) option" where
  "vread_loop p remain v =
     (if remain > 0 then do {
        (bytes, v) \<leftarrow> on_fs (ext2_read p (i_offset (vf_inode v p)) (of_int remain)) v;
        if bytes = [] then Some ([], v)
        else do {
          let v = upd_vinode p (\<lambda>i. i\<lparr>i_offset := i_offset i + of_nat (length bytes)\<rparr>) v;
          (more, v) \<leftarrow> vread_loop p (remain - int (length bytes)) v;
          Some (bytes @ more, v)
        }
      } else Some ([], v))"

definition vfs_read :: "int \<Rightarrow> u32 \<Rightarrow> vfs \<Rightarrow> (u8 list \<times> vfs) option" where
  "vfs_read fd sz v = do {
     p \<leftarrow> get_inode fd (vf_fd v);
     if p = 0 then Some ([], v) else vread_loop p (uint sz) v
   }"

definition vfs_read_page :: "int \<Rightarrow> u32 \<Rightarrow> vfs \<Rightarrow> (nat \<times> vfs) option" where
  "vfs_read_page fd offset v = do {
     p \<leftarrow> get_inode fd (vf_fd v);
     assertk (p \<noteq> 0);
     on_fs (ext2_read_page p offset) v
   }"

text \<open>The loop of \<^verbatim>\<open>vfs_write\<close>; the result is what remains unwritten.\<close>

partial_function (option) vwrite_loop :: "ptr_t \<Rightarrow> u8 list \<Rightarrow> vfs \<Rightarrow> (u8 list \<times> vfs) option" where
  "vwrite_loop p data v =
     (if data \<noteq> [] then do {
        (n, v) \<leftarrow> on_fs (ext2_write p (i_offset (vf_inode v p)) data) v;
        if n = 0 then Some (data, v)
        else vwrite_loop p (drop (unat n) data) (upd_vinode p (\<lambda>i. i\<lparr>i_offset := i_offset i + n\<rparr>) v)
      } else Some (data, v))"

definition vfs_write :: "int \<Rightarrow> u8 list \<Rightarrow> vfs \<Rightarrow> (u32 \<times> vfs) option" where
  "vfs_write fd data v = do {
     p \<leftarrow> get_inode fd (vf_fd v);
     if p = 0 then Some (0, v)
     else do {
       (rest, v) \<leftarrow> vwrite_loop p data v;
       Some (of_nat (length data) - of_nat (length rest), v)
     }
   }"

text \<open>
  \<^verbatim>\<open>offset\<close> is an \<^verbatim>\<open>int32_t\<close>. For \<^verbatim>\<open>SEEK_END\<close> it is converted to the 64 bits of \<^verbatim>\<open>size\<close>, for \<^verbatim>\<open>SEEK_CUR\<close> the sum with the
  unsigned \<^verbatim>\<open>node->offset\<close> has 32 bits.
\<close>

definition vfs_lseek :: "int \<Rightarrow> u32 \<Rightarrow> SEEK_WHENCE \<Rightarrow> vfs \<Rightarrow> (u32 \<times> vfs) option" where
  "vfs_lseek fd offset whence v = do {
     p \<leftarrow> get_inode fd (vf_fd v);
     if p = 0 then Some (-2, v)
     else (let move = (\<lambda>x. Some (x, upd_vinode p (\<lambda>i. i\<lparr>i_offset := x\<rparr>) v)); node = vf_inode v p in
       case whence of
         SEEK_SET \<Rightarrow> if sint offset < 0 then Some (-1, v) else move offset
       | SEEK_END \<Rightarrow>
           (let e = (i_size node + scast offset :: u64) in if sint e < 0 then Some (-1, v) else move (ucast e))
       | SEEK_CUR \<Rightarrow>
           (let e = (ucast (i_offset node + offset) :: 64 word) in if sint e < 0 then Some (-1, v) else move (ucast e)))
   }"

definition vfs_ftell :: "int \<Rightarrow> vfs \<Rightarrow> int option" where
  "vfs_ftell fd v = do {
     p \<leftarrow> get_inode fd (vf_fd v);
     Some (if p = 0 then -2 else uint (i_offset (vf_inode v p)))
   }"

subsection \<open>Creating and removing\<close>

definition vfs_mkdir :: "u8 list \<Rightarrow> vfs \<Rightarrow> (int \<times> vfs) option" where
  "vfs_mkdir path v = do {
     (a, path, v) \<leftarrow> parse_path path v;
     (parent, name, v) \<leftarrow> split_path path v;
     if parent = 0 then Some (-1, v)
     else do {
       (error, v) \<leftarrow> on_fs (ext2_mkdir parent name) v;
       if error \<noteq> 0 then Some (error, v) else do { v \<leftarrow> vfree a v; Some (0, v) }
     }
   }"

definition vfs_rmdir :: "u8 list \<Rightarrow> vfs \<Rightarrow> (int \<times> vfs) option" where
  "vfs_rmdir path v = do {
     (a, path, v) \<leftarrow> parse_path path v;
     (p, v) \<leftarrow> vfs_find path v;
     if p = 0 then Some (-1, v)
     else do {
       (error, v) \<leftarrow> on_fs (ext2_rmdir p) v;
       if error \<noteq> 0 then Some (error, v) else do { v \<leftarrow> vfree a v; Some (0, v) }
     }
   }"

definition vfs_mkfile :: "u8 list \<Rightarrow> vfs \<Rightarrow> (int \<times> vfs) option" where
  "vfs_mkfile path v = do {
     (a, path, v) \<leftarrow> parse_path path v;
     (parent, name, v) \<leftarrow> split_path path v;
     if parent = 0 then Some (-1, v)
     else do {
       (error, v) \<leftarrow> on_fs (ext2_mkfile parent name) v;
       if error \<noteq> 0 then Some (error, v) else do { v \<leftarrow> vfree a v; Some (0, v) }
     }
   }"

definition vfs_unlink :: "u8 list \<Rightarrow> vfs \<Rightarrow> (int \<times> vfs) option" where
  "vfs_unlink path v = do {
     (a, path, v) \<leftarrow> parse_path path v;
     (d, v) \<leftarrow> find_dir path v;
     if d = 0 then Some (-2, v)
     else do {
       s \<leftarrow> ext2_inode_mount d (vf_fs v);
       assertk (d_inode (fs_dir s d) \<noteq> 0);
       (error, v) \<leftarrow> on_fs (ext2_unlink d) (v\<lparr>vf_fs := s\<rparr>);
       if error \<noteq> 0 then Some (error, v) else do { v \<leftarrow> vfree a v; Some (0, v) }
     }
   }"

definition vfs_link :: "u8 list \<Rightarrow> u8 list \<Rightarrow> vfs \<Rightarrow> (int \<times> vfs) option" where
  "vfs_link src desc v = do {
     (a, n_src, v) \<leftarrow> parse_path src v;
     (b, n_desc, v) \<leftarrow> parse_path desc v;
     (sInode, v) \<leftarrow> vfs_find n_src v;
     if sInode = 0 then Some (-4, v)
     else do {
       (parent, name, v) \<leftarrow> split_path n_desc v;
       if parent = 0 then Some (-3, v)
       else do {
         (error, v) \<leftarrow> on_fs (ext2_link sInode parent name) v;
         if error \<noteq> 0 then Some (error, v)
         else do { v \<leftarrow> vfree b v; v \<leftarrow> vfree a v; Some (0, v) }
       }
     }
   }"

definition vfs_ls :: "u8 list \<Rightarrow> vfs \<Rightarrow> (u8 list list \<times> vfs) option" where
  "vfs_ls path v = do {
     (a, path, v) \<leftarrow> parse_path path v;
     (p, v) \<leftarrow> vfs_find path v;
     assertk (p \<noteq> 0);
     (names, v) \<leftarrow> on_fs (ext2_ls p) v;
     v \<leftarrow> vfree a v;
     Some (names, v)
   }"

subsection \<open>Mounting\<close>

definition vfs_mount :: "u8 list \<Rightarrow> ptr_t \<Rightarrow> vfs \<Rightarrow> vfs option" where
  "vfs_mount path p v = do {
     assertk (p \<noteq> 0);
     (case vf_tree v of
        None \<Rightarrow> do {
          assertk (path = [SEPARATOR]);
          (a, v) \<leftarrow> on_fs (on_heap (kmalloc 12)) v;
          Some (v\<lparr>vf_tree := Some (i_dir (vf_inode v p))\<rparr>)
        }
      | Some _ \<Rightarrow> Some v)
   }"

definition vfs_init :: "vfs \<Rightarrow> vfs" where
  "vfs_init v = v\<lparr>vf_tree := None\<rparr>"

text \<open>\<^verbatim>\<open>ext2_init\<close>; the parameters are the sizes of \<^verbatim>\<open>directory_t\<close>, \<^verbatim>\<open>ext2_inode_info_t\<close> and \<^verbatim>\<open>ext2_sb_info_t\<close>.\<close>

definition ext2_init :: "u32 \<Rightarrow> u32 \<Rightarrow> u32 \<Rightarrow> vfs \<Rightarrow> vfs option" where
  "ext2_init szDir szInfo szSb v = do {
     s \<leftarrow> superBlock_init szSb (ext2_inode_init szInfo (ext2_dir_init szDir (vf_fs v)));
     (root, s) \<leftarrow> root_init s;
     let s = s\<lparr>fs_sb := (fs_sb s)\<lparr>sb_root := root\<rparr>\<rparr>;
     vfs_mount [SEPARATOR] root (v\<lparr>vf_fs := s\<rparr>)
   }"

end
