(* ===== verification/Fs_Spec.thy ===== *)
theory Fs_Spec
  imports Vfs
begin

text \<open>
  Properties of the file system: the tree of block pointers, writing and reading a file through the
  page cache and the disk driver, closing files, and file positions.
\<close>

section \<open>The tree of block pointers\<close>

text \<open>
  The number of the block that \<open>ids\<close> leads to in the tree of depth \<open>layer + 1\<close>, when a block holds \<open>n\<close>
  pointers: it follows the direct blocks and the blocks of the smaller trees.
\<close>

definition tree_index :: "nat \<Rightarrow> nat \<Rightarrow> (nat \<Rightarrow> u32) \<Rightarrow> nat" where
  "tree_index n layer ids = N_DIRECT_BLOCK + (if layer \<ge> 1 then n else 0) + (if layer \<ge> 2 then n * n else 0) +
     unat (ids 0) + n * unat (ids 1) + n * n * unat (ids 2)"

lemma unat_powers:
  fixes n :: u32
  assumes "unat n \<le> 1024"
  shows "unat (n * n) = unat n * unat n" "unat (n * n * n) = unat n * unat n * unat n" "unat n * unat n * unat n \<le> 2 ^ 30"
proof -
  have 2: "unat n * unat n \<le> 1024 * 1024" using assms mult_le_mono by blast
  then have 3: "unat n * unat n * unat n \<le> 1024 * 1024 * 1024" using assms mult_le_mono by blast
  show sq: "unat (n * n) = unat n * unat n" using 2 by (simp add: unat_word_ariths)
  show "unat (n * n * n) = unat n * unat n * unat n" using 3 sq by (simp add: unat_word_ariths)
  show "unat n * unat n * unat n \<le> 2 ^ 30" using 3 by simp
qed

lemma digits3: "0 < n \<Longrightarrow> b mod n + n * (b div n mod n) + n * n * (b div (n * n)) = (b :: nat)"
  by (metis div_mult2_eq mod_div_mult_eq mod_mult2_eq add.commute mult.commute mult.assoc)

text \<open>The position of block \<open>b\<close> of the tree of depth \<open>layer + 1\<close>.\<close>

lemma digit_bounds:
  fixes b n :: nat
  assumes "0 < n"
  shows "b mod n < n" "b div n mod n < n" "b < n \<Longrightarrow> b div n mod n = 0" "b < n * n \<Longrightarrow> b div (n * n) = 0"
    "b < n * n * n \<Longrightarrow> b div (n * n) < n"
  using assms by (simp_all add: less_mult_imp_div_less mult.commute)

text \<open>The tree \<open>l\<close> and the block \<open>c\<close> in it determine the result.\<close>

lemma find_block_layer_eq:
  assumes "n \<noteq> 0" "n * n \<noteq> 0"
    "(c, l) = (let b = bno - of_nat N_DIRECT_BLOCK; (x, l) = (if n \<le> b then (b - n, 1) else (b, 0)) in if n * n \<le> x then (x - n * n, 2) else (x, l))"
  shows "find_block_layer bno n = (if c < n * n * n then Some (l, (\<lambda>_. 0)(0 := c mod n, 1 := c div n mod n, 2 := c div (n * n))) else None)"
  using assms by (auto simp: find_block_layer_def Let_def udiv_def assertk_def split: if_splits)

text \<open>
  C12. \<^verbatim>\<open>find_block_layer\<close> numbers the blocks of a file without gap or overlap. For a block size with at
  most 1024 pointers per block and a block number behind the direct ones, it returns the depth of the
  tree and one index per level, each within its block of pointers, from which the number is recovered;
  so no two blocks share a position. It panics exactly for the numbers behind the last tree.
\<close>

theorem find_block_layer_correct:
  assumes "0 < unat n" "unat n \<le> 1024" "N_DIRECT_BLOCK \<le> unat bno"
  shows "case find_block_layer bno n of
      None \<Rightarrow> N_DIRECT_BLOCK + unat n + unat n * unat n + unat n * unat n * unat n \<le> unat bno
    | Some (layer, ids) \<Rightarrow> layer \<le> 2 \<and> (\<forall>k \<le> layer. ids k < n) \<and> (\<forall>k > layer. ids k = 0) \<and>
        unat bno = tree_index (unat n) layer ids"
proof -
  define N where "N = unat n"
  have N: "0 < N" "unat n = N" using assms(1) by (simp_all add: N_def)
  note P = unat_powers [OF assms(2), unfolded N(2)]
  define b where "b = bno - of_nat N_DIRECT_BLOCK"
  have "(of_nat N_DIRECT_BLOCK :: u32) \<le> bno" using assms(3) by (simp add: word_le_nat_alt N_DIRECT_BLOCK_def)
  then have b: "unat bno = N_DIRECT_BLOCK + unat b"
    using assms(3) by (simp add: b_def unat_sub N_DIRECT_BLOCK_def)
  have n0: "n \<noteq> 0" "n * n \<noteq> 0" using N P(1) by auto
  have le: "N \<le> N * N" "N * N \<le> N * N * N" using N(1) by simp_all
  have sub: "unat (x - y) = unat x - unat y" if "y \<le> x" for x y :: u32 using that by (rule unat_sub)
  have ids: "ids k < n \<longleftrightarrow> unat (ids k) < N" for ids :: "nat \<Rightarrow> u32" and k by (simp add: word_less_nat_alt N)
  note found = find_block_layer_eq [OF n0, of _ _ bno, folded b_def]
  consider "unat b < N" | "N \<le> unat b" "unat b - N < N * N" | "N \<le> unat b" "N * N \<le> unat b - N" by linarith
  then show ?thesis
  proof cases
    case 1
    then have lt: "unat b < N * N" "unat b < N * N * N" using le by linarith+
    have c: "\<not> n \<le> b" "\<not> n * n \<le> b" "b < n * n * n" using 1 lt by (simp_all add: word_le_nat_alt word_less_nat_alt N P)
    then show ?thesis
      using found [of b 0] 1 lt digit_bounds [OF N(1), of "unat b"]
      by (auto simp: tree_index_def b ids unat_mod unat_div N P word_unat_eq_iff)
  next
    case 2
    have c: "n \<le> b" using 2 by (simp add: word_le_nat_alt N)
    let ?c = "b - n"
    have u: "unat ?c = unat b - N" using sub [OF c] N by simp
    have lt: "unat ?c < N * N" "unat ?c < N * N * N" using 2 le u by linarith+
    then have "\<not> n * n \<le> ?c" "?c < n * n * n" by (simp_all add: word_le_nat_alt word_less_nat_alt P)
    then show ?thesis
      using found [of ?c 1] c 2 lt digit_bounds [OF N(1), of "unat ?c"] digits3 [OF N(1), of "unat ?c"]
      by (auto simp: tree_index_def b ids unat_mod unat_div N P u word_unat_eq_iff le_Suc_eq)
  next
    case 3
    have c: "n \<le> b" using 3 by (simp add: word_le_nat_alt N)
    have c2: "n * n \<le> b - n" using 3 sub [OF c] N by (simp add: word_le_nat_alt P)
    let ?c = "b - n - n * n"
    define r where "r = unat ?c"
    have u: "unat ?c = r" "unat b = N + N * N + r" using sub [OF c] sub [OF c2] N P 3 by (simp_all add: r_def)
    show ?thesis
      using found [of ?c 2] c c2 digit_bounds [OF N(1), of r] digits3 [OF N(1), of r]
      by (auto simp: tree_index_def b ids unat_mod unat_div N P u word_unat_eq_iff word_less_nat_alt le_Suc_eq numeral_2_eq_2)
  qed
qed

theorem find_block_layer_correct_witness:
  "find_block_layer 1036 1024 = Some (1, \<lambda>_. 0) \<and> find_block_layer 0x50000000 1024 = None \<and>
   (case find_block_layer 1050000 1024 of Some (layer, ids) \<Rightarrow> layer = 2 \<and> ids 0 = 388 \<and> ids 1 = 0 \<and> 1050000 = tree_index 1024 2 ids | None \<Rightarrow> False)"
proof -
  have 1: "find_block_layer 1050000 1024 = Some (2, (\<lambda>_. 0)(0 := 388, 1 := 0, 2 := 0))"
    "find_block_layer 0x50000000 1024 = None" "find_block_layer 1036 1024 = Some (1, (\<lambda>_. 0)(0 := 0, 1 := 0, 2 := 0))"
    by (simp_all add: find_block_layer_def udiv_def assertk_def N_DIRECT_BLOCK_def)
  moreover have "1050000 = tree_index 1024 2 ((\<lambda>_. 0)(0 := 388, 1 := 0, 2 := 0))"
    using find_block_layer_correct [of 1024 1050000] by (simp add: 1 N_DIRECT_BLOCK_def)
  ultimately show ?thesis by (auto simp: fun_eq_iff)
qed


section \<open>The queue of changed inodes and the page cache\<close>

lemma cache_inode_queue [simp]:
  "cache_inv q (c\<lparr>cc_inode_dirty := x\<rparr>) = cache_inv q c" "cache_view (c\<lparr>cc_inode_dirty := x\<rparr>) k i = cache_view c k i"
proof -
  have "page_good q (c\<lparr>cc_inode_dirty := x\<rparr>) = page_good q c" by (simp add: page_good_def fun_eq_iff)
  then show "cache_inv q (c\<lparr>cc_inode_dirty := x\<rparr>) = cache_inv q c" by (simp add: cache_inv_def cache_rest_def)
  show "cache_view (c\<lparr>cc_inode_dirty := x\<rparr>) k i = cache_view c k i" by (simp add: cache_view_def split: option.split)
qed

text \<open>The operations on pages do not touch the queue of inodes.\<close>

lemma wunlock_inode_queue [simp]: "cc_inode_dirty (page_wunlock p c) = cc_inode_dirty c"
  by (simp add: page_wunlock_def)

lemma lock_inode_queue:
  "page_rlock p c = Some c' \<Longrightarrow> cc_inode_dirty c' = cc_inode_dirty c" "page_runlock p c = Some c' \<Longrightarrow> cc_inode_dirty c' = cc_inode_dirty c"
  "page_wlock p c = Some c' \<Longrightarrow> cc_inode_dirty c' = cc_inode_dirty c"
  "sleeplock_lock p c = Some c' \<Longrightarrow> cc_inode_dirty c' = cc_inode_dirty c"
  "sleeplock_unlock p c = Some c' \<Longrightarrow> cc_inode_dirty c' = cc_inode_dirty c"
  by (auto simp: page_rlock_def page_runlock_def page_wlock_def page_wunlock_def sleeplock_lock_def sleeplock_unlock_def Let_def
      split: Option.bind_splits if_splits)

lemma disk_irq_inode_queue: "disk_irq c = Some c' \<Longrightarrow> cc_inode_dirty c' = cc_inode_dirty c"
  by (auto simp: disk_irq_def disk_isr_def Let_def split: Option.bind_splits option.splits)

lemma page_rw_inode_queue: "page_rw p c = Some c' \<Longrightarrow> cc_inode_dirty c' = cc_inode_dirty c"
  by (auto simp: page_rw_def rw_start_def rw_finish_def sleep_for_irq_def Let_def
      split: Option.bind_splits option.splits if_splits irq_time.splits dest!: disk_irq_inode_queue)

lemma page_read_inode_queue: "page_read p c = Some c' \<Longrightarrow> cc_inode_dirty c' = cc_inode_dirty c"
  by (auto simp: page_read_def split: Option.bind_splits if_splits dest!: lock_inode_queue page_rw_inode_queue)

lemma new_buf_inode_queue: "new_buf n c = Some (p, c') \<Longrightarrow> cc_inode_dirty c' = cc_inode_dirty c"
  by (auto simp: new_buf_def Let_def split: Option.bind_splits)

lemma page_get_inode_queue: "page_get n c = Some (p, c') \<Longrightarrow> cc_inode_dirty c' = cc_inode_dirty c"
  by (auto simp: page_get_def split: Option.bind_splits option.splits if_splits dest!: new_buf_inode_queue)

lemma page_read_no_inode_queue: "page_read_no n c = Some (p, c') \<Longrightarrow> cc_inode_dirty c' = cc_inode_dirty c"
  by (auto simp: page_read_no_def split: Option.bind_splits dest!: page_get_inode_queue page_read_inode_queue)

lemma mark_page_dirty_inode_queue: "mark_page_dirty p c = Some c' \<Longrightarrow> cc_inode_dirty c' = cc_inode_dirty c"
  by (auto simp: mark_page_dirty_def Let_def split: Option.bind_splits if_splits dest!: lock_inode_queue)

section \<open>Writing and reading a file\<close>

lemma page_store_ok:
  assumes inv: "cache_inv (cc_dirty c) c" and p: "p \<in> set (cc_list c)"
  shows "\<exists>c1 c'. page_wlock p c = Some c1 \<and> cc_data c1 = cc_data c \<and>
    mark_page_dirty p (page_wunlock p (c1\<lparr>cc_data := (cc_data c)(p := d)\<rparr>)) = Some c' \<and> cache_inv (cc_dirty c') c' \<and>
    cc_list c' = cc_list c \<and> cc_info c' = cc_info c \<and> cc_disk c' = cc_disk c \<and> cc_inode_dirty c' = cc_inode_dirty c \<and>
    (\<forall>k i. cache_view c' k i = (if k = pc_no_secs (cc_info c p) then d i else cache_view c k i))"
proof -
  have "idle_lock (pg_rwlock (cpage c p))" using inv p by (auto simp: cache_inv_def page_good_def)
  then obtain k1 where k1: "wlock_lock (pg_rwlock (cpage c p)) = Some k1" "idle_lock (wlock_unlock k1)" using idle_write by blast
  let ?c = "relock p (wlock_unlock k1) c"
  have eq: "page_wunlock p ((relock p k1 c)\<lparr>cc_data := (cc_data c)(p := d)\<rparr>) = ?c\<lparr>cc_data := (cc_data ?c)(p := d)\<rparr>"
    by (simp add: page_wunlock_def)
  have r: "cache_inv (cc_dirty ?c) ?c" "cache_view ?c n i = cache_view c n i" for n i using relock_inv [OF inv k1(2)] by simp_all
  obtain c' where c': "mark_page_dirty p (?c\<lparr>cc_data := (cc_data ?c)(p := d)\<rparr>) = Some c'" "cache_inv (cc_dirty c') c'"
    "cc_list c' = cc_list ?c" "cc_info c' = cc_info ?c" "cc_disk c' = cc_disk ?c"
    "\<forall>k i. cache_view c' k i = (if k = pc_no_secs (cc_info ?c p) then d i else cache_view ?c k i)"
    using mark_page_dirty_ok [OF r(1), of p d] p by auto
  have "cc_inode_dirty c' = cc_inode_dirty c" using mark_page_dirty_inode_queue [OF c'(1)] by simp
  then show ?thesis using k1(1) c' eq r(2) by (intro exI [of _ "relock p k1 c"] exI [of _ c']) (simp add: page_wlock_def)
qed

text \<open>An inode whose state is one of the marks is in the queue already, one in another state must not be.\<close>

definition queue_ok :: "ptr_t \<Rightarrow> fs \<Rightarrow> bool" where
  "queue_ok p s \<longleftrightarrow> i_state (fs_inode s p) \<in> {I_NEW, I_DATA, I_TIME, I_DEL} \<or> p \<notin> set (cc_inode_dirty (fs_cc s))"

text \<open>Only the state of the inode and the queue of inodes change.\<close>

definition marks_inode :: "ptr_t \<Rightarrow> fs \<Rightarrow> fs \<Rightarrow> bool" where
  "marks_inode p s s' \<longleftrightarrow> (\<exists>v q. s' = s\<lparr>fs_inode := (fs_inode s)(p := (fs_inode s p)\<lparr>i_state := v\<rparr>), fs_cc := (fs_cc s)\<lparr>cc_inode_dirty := q\<rparr>\<rparr>)"

lemma marks_inode_refl: "marks_inode p s s"
  unfolding marks_inode_def
  by (intro exI [of _ "i_state (fs_inode s p)"] exI [of _ "cc_inode_dirty (fs_cc s)"]) simp

lemma marks_inode_state: "marks_inode p s (upd_inode p (\<lambda>i. i\<lparr>i_state := v\<rparr>) s)"
  unfolding marks_inode_def by (intro exI [of _ v] exI [of _ "cc_inode_dirty (fs_cc s)"]) simp

lemma marks_inode_put:
  "p \<notin> set (cc_inode_dirty (fs_cc s)) \<Longrightarrow> \<exists>s'. put_inode p (upd_inode p (\<lambda>i. i\<lparr>i_state := v\<rparr>) s) = Some s' \<and> marks_inode p s s'"
  by (auto simp: put_inode_def marks_inode_def)

lemma mark_inode_dirty_ok:
  assumes "queue_ok p s"
  shows "\<exists>s'. mark_inode_dirty p st s = Some s' \<and> marks_inode p s s'"
proof (cases "i_state (fs_inode s p) \<in> {I_NEW, I_DATA, I_TIME, I_DEL}")
  case True
  then show ?thesis using marks_inode_refl marks_inode_state by (auto simp: mark_inode_dirty_def Let_def)
next
  case False
  then have "p \<notin> set (cc_inode_dirty (fs_cc s))" using assms by (simp add: queue_ok_def)
  then show ?thesis using False marks_inode_put by (simp add: mark_inode_dirty_def Let_def)
qed

lemma ext2_block_read_ok:
  assumes bs: "sb_blockSize (fs_sb s) = 4096" and inv: "cache_inv (cc_dirty (fs_cc s)) (fs_cc s)" and n: "page_sector (8 * bid)"
    and mem: "memory_ok (fs_cc s) \<or> (\<exists>x\<in>set (cc_list (fs_cc s)). pc_no_secs (cc_info (fs_cc s) x) = 8 * bid)"
  shows "\<exists>pg c. ext2_block_read bid s = Some (pg, s\<lparr>fs_cc := c\<rparr>) \<and> cache_inv (cc_dirty c) c \<and> pg \<in> set (cc_list c) \<and>
    pc_no_secs (cc_info c pg) = 8 * bid \<and> (\<forall>i < 4096. cc_data c pg i = cache_view (fs_cc s) (8 * bid) i) \<and>
    (\<forall>k i. page_sector k \<longrightarrow> i < 4096 \<longrightarrow> cache_view c k i = cache_view (fs_cc s) k i) \<and>
    cc_inode_dirty c = cc_inode_dirty (fs_cc s) \<and> ata_prompt (cc_disk c) = ata_prompt (cc_disk (fs_cc s))"
proof -
  obtain pg c where c: "page_read_no (8 * bid) (fs_cc s) = Some (pg, c)" "cache_inv (cc_dirty c) c" "pg \<in> set (cc_list c)"
    "pc_no_secs (cc_info c pg) = 8 * bid" "\<forall>i < 4096. cc_data c pg i = cache_view (fs_cc s) (8 * bid) i"
    "\<forall>k i. page_sector k \<longrightarrow> i < 4096 \<longrightarrow> cache_view c k i = cache_view (fs_cc s) k i"
    "ata_prompt (cc_disk c) = ata_prompt (cc_disk (fs_cc s))"
    using page_read_no_ok [OF inv n mem] by blast
  then show ?thesis using page_read_no_inode_queue [OF c(1)]
    by (intro exI [of _ pg] exI [of _ c]) (simp add: ext2_block_read_def on_cache_def EXT2_BLOCK2LBA_def bs)
qed

text \<open>
  A regular file of less than 4 GB whose block for \<open>offset\<close> is a direct one and present. The block size
  is the 4 KB of a page.
\<close>

definition file_block :: "ptr_t \<Rightarrow> u32 \<Rightarrow> fs \<Rightarrow> u32" where
  "file_block p offset s = i_blocks (fs_inode s p) (unat offset div 4096)"

definition has_block :: "ptr_t \<Rightarrow> u32 \<Rightarrow> fs \<Rightarrow> bool" where
  "has_block p offset s \<longleftrightarrow> sb_blockSize (fs_sb s) = 4096 \<and> unat (i_size (fs_inode s p)) < 2 ^ 32 \<and>
     unat offset div 4096 < N_DIRECT_BLOCK \<and> 4096 * (unat offset div 4096) < unat (i_size (fs_inode s p)) \<and>
     file_block p offset s \<noteq> 0 \<and> page_sector (8 * file_block p offset s)"

lemma unat_io_chunk:
  assumes "n < 2 ^ 32"
  shows "unat (c_MIN (4096 - offset mod 4096) (of_nat n :: u32)) = min (4096 - unat offset mod 4096) n"
    "unat (offset mod 4096 :: u32) = unat offset mod 4096" "unat (offset div 4096 :: u32) = unat offset div 4096"
proof -
  show m: "unat (offset mod 4096 :: u32) = unat offset mod 4096" "unat (offset div 4096 :: u32) = unat offset div 4096"
    by (simp_all only: unat_mod unat_div) simp_all
  have "offset mod 4096 \<le> 4096" by (simp add: word_le_nat_alt m less_imp_le)
  then have "unat (4096 - offset mod 4096) = 4096 - unat offset mod 4096" by (simp add: unat_sub m)
  then show "unat (c_MIN (4096 - offset mod 4096) (of_nat n :: u32)) = min (4096 - unat offset mod 4096) n"
    using assms by (auto simp: c_MIN_def word_less_nat_alt unat_of_nat)
qed

lemma block_count:
  fixes sz :: u64
  assumes "unat sz < 2 ^ 32"
  shows "unat ((sz + 4096 - 1) div 4096) = (unat sz + 4095) div 4096"
proof -
  have "unat (sz + 4095) = unat sz + 4095" using assms by (simp add: unat_word_ariths)
  moreover have "unat (4096 :: u64) = 4096" "sz + 4096 - 1 = sz + 4095" by simp_all
  ultimately show ?thesis by (simp only: unat_div)
qed

lemma block_inside: "4096 * b < n \<longleftrightarrow> b < (n + 4095) div (4096 :: nat)"
  using less_eq_div_iff_mult_less_eq [of 4096 "Suc b" "n + 4095"] by auto

lemma next_free_bno_eq:
  assumes "sb_blockSize (fs_sb s) = 4096" "unat (i_size (fs_inode s p)) < 2 ^ 32"
  shows "\<exists>nxt. next_free_bno p s = Some nxt \<and> unat nxt = (unat (i_size (fs_inode s p)) + 4095) div 4096"
proof -
  have "(unat (i_size (fs_inode s p)) + 4095) div 4096 < 2 ^ 32" using assms(2) by simp
  then show ?thesis
    using assms(1) block_count [OF assms(2)] by (simp add: next_free_bno_def udiv_def unsigned_ucast_eq unsigned_take_bit_eq take_bit_nat_eq_self)
qed

lemma get_bid_direct: "unat bno < N_DIRECT_BLOCK \<Longrightarrow> get_bid p bno s = Some (i_blocks (fs_inode s p) (unat bno), s)"
  by (simp add: get_bid_def word_less_nat_alt N_DIRECT_BLOCK_def)

text \<open>What a write of \<open>data\<close> at \<open>offset\<close> leaves: \<open>n\<close> bytes in the block, the new size, nothing else.\<close>

definition written :: "ptr_t \<Rightarrow> u32 \<Rightarrow> u8 list \<Rightarrow> nat \<Rightarrow> fs \<Rightarrow> fs \<Rightarrow> bool" where
  "written p offset data n s s' \<longleftrightarrow> (let lba = 8 * file_block p offset s; b = unat offset mod 4096 in
     cache_inv (cc_dirty (fs_cc s')) (fs_cc s') \<and> fs_sb s' = fs_sb s \<and> ata_prompt (cc_disk (fs_cc s')) = ata_prompt (cc_disk (fs_cc s)) \<and>
     (\<exists>x\<in>set (cc_list (fs_cc s')). pc_no_secs (cc_info (fs_cc s') x) = lba) \<and>
     i_blocks (fs_inode s' p) = i_blocks (fs_inode s p) \<and> i_size (fs_inode s' p) = of_nat (unat offset + n) \<and>
     (\<forall>q. q \<noteq> p \<longrightarrow> fs_inode s' q = fs_inode s q) \<and>
     (\<forall>k i. page_sector k \<longrightarrow> i < 4096 \<longrightarrow> cache_view (fs_cc s') k i =
        (if k = lba \<and> b \<le> i \<and> i < b + n then data ! (i - b) else cache_view (fs_cc s) k i)))"

lemma ext2_write_ok:
  assumes blk: "has_block p offset s" and inv: "cache_inv (cc_dirty (fs_cc s)) (fs_cc s)" and mem: "memory_ok (fs_cc s)"
    and reg: "i_type (fs_inode s p) AND EXT2_IFREG \<noteq> 0" and idle: "idle_lock (i_rwlock (fs_inode s p))" and q: "queue_ok p s"
    and len: "length data < 2 ^ 32"
  shows "\<exists>n s'. ext2_write p offset data s = Some (n, s') \<and> unat n = min (4096 - unat offset mod 4096) (length data) \<and>
    written p offset data (unat n) s s'"
proof -
  define n where "n = c_MIN (4096 - offset mod 4096) (of_nat (length data) :: u32)"
  define b where "b = unat offset mod 4096"
  define bid where "bid = file_block p offset s"
  note w = unat_io_chunk [OF len, of offset]
  have n: "unat n = min (4096 - b) (length data)" using w by (simp add: n_def b_def)
  have bs: "sb_blockSize (fs_sb s) = 4096" "unat (i_size (fs_inode s p)) < 2 ^ 32" "page_sector (8 * bid)"
    "unat (offset div 4096) < N_DIRECT_BLOCK" "bid = i_blocks (fs_inode s p) (unat (offset div 4096))"
    using blk by (simp_all add: has_block_def bid_def file_block_def w)
  obtain nxt where nxt: "next_free_bno p s = Some nxt" "offset div 4096 < nxt"
    using next_free_bno_eq [OF bs(1,2)] blk by (auto simp: has_block_def word_less_nat_alt w block_inside)
  obtain pg c where c: "ext2_block_read bid s = Some (pg, s\<lparr>fs_cc := c\<rparr>)" "cache_inv (cc_dirty c) c" "pg \<in> set (cc_list c)"
    "pc_no_secs (cc_info c pg) = 8 * bid" "\<forall>i < 4096. cc_data c pg i = cache_view (fs_cc s) (8 * bid) i"
    "\<forall>k i. page_sector k \<longrightarrow> i < 4096 \<longrightarrow> cache_view c k i = cache_view (fs_cc s) k i" "cc_inode_dirty c = cc_inode_dirty (fs_cc s)"
    and pr: "ata_prompt (cc_disk c) = ata_prompt (cc_disk (fs_cc s))"
    using ext2_block_read_ok [OF bs(1) inv bs(3)] mem by blast
  obtain lk where lk: "wlock_lock (i_rwlock (fs_inode s p)) = Some lk" using idle_write [OF idle] by blast
  define d where "d = (\<lambda>j. if b \<le> j \<and> j < b + unat n then data ! (j - b) else cc_data c pg j)"
  have fit: "b + unat n \<le> 4096" "length (take (unat n) data) = unat n" using n by (auto simp: b_def)
  have wr: "wr_bytes b (take (unat n) data) (cc_data c pg) = Some d" using fit by (auto simp: wr_bytes_def d_def fun_eq_iff)
  obtain c1 c2 where c2: "page_wlock pg c = Some c1" "cc_data c1 = cc_data c"
    "mark_page_dirty pg (page_wunlock pg (c1\<lparr>cc_data := (cc_data c)(pg := d)\<rparr>)) = Some c2" "cache_inv (cc_dirty c2) c2"
    "cc_list c2 = cc_list c" "cc_info c2 = cc_info c" "cc_inode_dirty c2 = cc_inode_dirty c"
    "\<forall>k i. cache_view c2 k i = (if k = pc_no_secs (cc_info c pg) then d i else cache_view c k i)" "cc_disk c2 = cc_disk c"
    using page_store_ok [OF c(2,3)] by blast
  define s2 where "s2 = (upd_inode p (\<lambda>i. i\<lparr>i_size := ucast (offset + n), i_rwlock := wlock_unlock lk\<rparr>) s)\<lparr>fs_cc := c2\<rparr>"
  have f: "fs_cc s2 = c2" "fs_sb s2 = fs_sb s" "fs_inode s2 p = (fs_inode s p)\<lparr>i_size := ucast (offset + n), i_rwlock := wlock_unlock lk\<rparr>"
    "r \<noteq> p \<Longrightarrow> fs_inode s2 r = fs_inode s r" for r by (simp_all add: s2_def)
  have "queue_ok p s2" using q c(7) c2(7) by (simp add: queue_ok_def f)
  then obtain s' where s': "mark_inode_dirty p I_DATA s2 = Some s'" "marks_inode p s2 s'" using mark_inode_dirty_ok by blast
  have call: "ext2_write p offset data s = Some (n, s')"
    using reg bs nxt c(1) lk wr c2 s'(1)
    by (simp add: ext2_write_def umod_def udiv_def Let_def get_bid_direct n_def [symmetric] w(2) b_def [symmetric] store_def dirty_page_def s2_def)
  have view: "cache_view c2 k i = (if k = 8 * bid \<and> b \<le> i \<and> i < b + unat n then data ! (i - b) else cache_view (fs_cc s) k i)"
    if "page_sector k" "i < 4096" for k i
    using that c(4,5,6) c2(8) by (auto simp: d_def)
  have "unat offset < 4096 * N_DIRECT_BLOCK" using bs(4) by (simp add: w N_DIRECT_BLOCK_def)
  then have sum: "ucast (offset + n) = (of_nat (unat offset + unat n) :: u64)"
    using fit by (simp add: word_unat_eq_iff unat_of_nat unat_ucast_le unat_word_ariths N_DIRECT_BLOCK_def)
  have "written p offset data (unat n) s s'"
    using s'(2) c(3,4) c2(4,5,6,9) pr view sum unfolding written_def Let_def marks_inode_def
    by (auto simp: f bid_def [symmetric] b_def [symmetric])
  then show ?thesis using call n by (auto simp: b_def)
qed

lemma block_end:
  assumes "sb_blockSize (fs_sb s) = 4096" "unat (i_size (fs_inode s p)) < 2 ^ 32"
  shows "udiv (i_size (fs_inode s p) + ucast (sb_blockSize (fs_sb s)) - 1) (ucast (sb_blockSize (fs_sb s))) =
      Some ((i_size (fs_inode s p) + 4096 - 1) div 4096)"
    "(i_size (fs_inode s p) + 4096 - 1) div 4096 \<le> ucast (offset div 4096 :: u32) \<longleftrightarrow>
      unat (i_size (fs_inode s p)) \<le> 4096 * (unat offset div 4096)"
proof -
  show "udiv (i_size (fs_inode s p) + ucast (sb_blockSize (fs_sb s)) - 1) (ucast (sb_blockSize (fs_sb s))) =
      Some ((i_size (fs_inode s p) + 4096 - 1) div 4096)" by (simp add: udiv_def assms(1))
  have "unat (ucast (offset div 4096 :: u32) :: u64) = unat offset div 4096"
    using unat_io_chunk(3) [of 0 offset] by (simp add: unat_ucast_le)
  then show "(i_size (fs_inode s p) + 4096 - 1) div 4096 \<le> ucast (offset div 4096 :: u32) \<longleftrightarrow>
      unat (i_size (fs_inode s p)) \<le> 4096 * (unat offset div 4096)"
    using block_inside [of "unat offset div 4096" "unat (i_size (fs_inode s p))"]
    unfolding word_le_nat_alt block_count [OF assms(2)] by (simp add: linorder_not_less [symmetric])
qed

lemma ext2_read_end:
  assumes "sb_blockSize (fs_sb s) = 4096" "unat (i_size (fs_inode s p)) < 2 ^ 32"
    "unat (i_size (fs_inode s p)) \<le> 4096 * (unat offset div 4096)"
  shows "ext2_read p offset m s = Some ([], s)"
  using block_end(1) [OF assms(1,2)] block_end(2) [OF assms(1,2), of offset] assms(3) unfolding ext2_read_def
  by (simp add: assms(1) umod_def udiv_def)

lemma ext2_read_ok:
  assumes blk: "has_block p offset s" and inv: "cache_inv (cc_dirty (fs_cc s)) (fs_cc s)"
    and mem: "memory_ok (fs_cc s) \<or> (\<exists>x\<in>set (cc_list (fs_cc s)). pc_no_secs (cc_info (fs_cc s) x) = 8 * file_block p offset s)"
  shows "\<exists>s'. ext2_read p offset m s = Some (map (\<lambda>i. cache_view (fs_cc s) (8 * file_block p offset s) (unat offset mod 4096 + i))
    [0..<min (4096 - unat offset mod 4096) (unat m)], s')"
proof -
  define bid where "bid = file_block p offset s"
  define b where "b = unat offset mod 4096"
  have b: "b < 4096" by (simp add: b_def)
  define n where "n = c_MIN (4096 - offset mod 4096) m"
  have w: "unat (c_MIN (4096 - offset mod 4096) m) = min (4096 - unat offset mod 4096) (unat m)"
    "unat (offset mod 4096) = unat offset mod 4096" "unat (offset div 4096) = unat offset div 4096"
    using unat_io_chunk [OF unat_u32_lt [of m], of offset] by simp_all
  have bs: "sb_blockSize (fs_sb s) = 4096" "unat (i_size (fs_inode s p)) < 2 ^ 32" "page_sector (8 * bid)" "bid \<noteq> 0"
    "unat (offset div 4096) < N_DIRECT_BLOCK" "bid = i_blocks (fs_inode s p) (unat (offset div 4096))"
    using blk w by (simp_all add: has_block_def bid_def file_block_def)
  have n: "unat n = min (4096 - b) (unat m)" using w by (simp add: n_def b_def)
  obtain pg c where c: "ext2_block_read bid s = Some (pg, s\<lparr>fs_cc := c\<rparr>)" "cache_inv (cc_dirty c) c" "pg \<in> set (cc_list c)"
    "\<forall>i < 4096. cc_data c pg i = cache_view (fs_cc s) (8 * bid) i"
    using ext2_block_read_ok [OF bs(1) inv bs(3)] mem unfolding bid_def by blast
  have "idle_lock (pg_rwlock (cpage c pg))" using c(2,3) by (auto simp: cache_inv_def page_good_def)
  then obtain k1 k2 where k: "page_rlock pg c = Some (relock pg k1 c)" "page_runlock pg (relock pg k1 c) = Some (relock pg k2 c)"
    using page_read_unlock by blast
  have fit: "b + unat n \<le> 4096" using n b by simp
  have "\<not> (i_size (fs_inode s p) + 4096 - 1) div 4096 \<le> ucast (offset div 4096 :: u32)"
    using block_end(2) [OF bs(1,2), of offset] blk by (simp add: has_block_def)
  then have "ext2_read p offset m s = Some (bytes_at (cc_data c pg) b (unat n), s\<lparr>fs_cc := relock pg k2 c\<rparr>)"
    using block_end(1) [OF bs(1,2)] bs c(1) k fit unfolding ext2_read_def
    by (simp add: umod_def udiv_def Let_def get_bid_direct n_def [symmetric] w(2) b_def [symmetric])
  moreover have "bytes_at (cc_data c pg) b (unat n) = map (\<lambda>i. cache_view (fs_cc s) (8 * bid) (b + i)) [0..<unat n]"
    using c(4) fit by (simp add: bytes_at_def)
  ultimately show ?thesis using n by (simp add: bid_def b_def)
qed

lemma written_view:
  assumes "written p offset data n s s'" "page_sector (8 * file_block p offset s)" "unat offset mod 4096 + n \<le> 4096" "i < n"
  shows "cache_view (fs_cc s') (8 * file_block p offset s) (unat offset mod 4096 + i) = data ! i"
  using assms by (simp add: written_def Let_def)

lemma written_size:
  assumes "written p offset data n s s'" "has_block p offset s" "n \<le> 4096"
  shows "unat (i_size (fs_inode s' p)) = unat offset + n" "unat (i_size (fs_inode s' p)) < 2 ^ 32" "sb_blockSize (fs_sb s') = 4096"
    "0 < n \<Longrightarrow> has_block p offset s'" "file_block p offset s' = file_block p offset s"
proof -
  have "unat offset div 4096 < 12" using assms(2) by (simp add: has_block_def N_DIRECT_BLOCK_def)
  then have "unat offset < 49152" by linarith
  moreover have "i_size (fs_inode s' p) = of_nat (unat offset + n)" using assms(1) unfolding written_def Let_def by blast
  ultimately show sz: "unat (i_size (fs_inode s' p)) = unat offset + n" using assms(3) by (simp only: unat_of_nat) simp
  show "unat (i_size (fs_inode s' p)) < 2 ^ 32" using sz \<open>unat offset < 49152\<close> assms(3) by simp
  show "sb_blockSize (fs_sb s') = 4096" using assms(1,2) by (simp add: written_def Let_def has_block_def)
  show fb: "file_block p offset s' = file_block p offset s" using assms(1) by (simp add: written_def Let_def file_block_def)
  show "has_block p offset s'" if "0 < n"
    using assms fb sz \<open>unat offset < 49152\<close> that by (simp add: has_block_def written_def Let_def)
qed

text \<open>The conditions of a write: the cache is well-formed and has memory, and the inode can be locked and queued.\<close>

definition can_write :: "ptr_t \<Rightarrow> fs \<Rightarrow> bool" where
  "can_write p s \<longleftrightarrow> cache_inv (cc_dirty (fs_cc s)) (fs_cc s) \<and> memory_ok (fs_cc s) \<and> i_type (fs_inode s p) AND EXT2_IFREG \<noteq> 0 \<and>
     idle_lock (i_rwlock (fs_inode s p)) \<and> queue_ok p s"

lemma can_write_ok:
  assumes "can_write p s" "has_block p offset s" "length data < 2 ^ 32"
  shows "\<exists>n s'. ext2_write p offset data s = Some (n, s') \<and> unat n = min (4096 - unat offset mod 4096) (length data) \<and>
    written p offset data (unat n) s s'"
  using ext2_write_ok [OF assms(2) _ _ _ _ _ assms(3)] assms(1) unfolding can_write_def by blast

text \<open>A file of two blocks behind an empty cache, for the witnesses.\<close>

lemma demo_file:
  obtains s p where "can_write p s" "has_block p 100 s" "has_block p 5000 s" "file_block p 100 s = 1"
    "ata_prompt (cc_disk (fs_cc s))"
proof (rule demo_cache)
  fix c s0 assume c: "cache_inv (cc_dirty c) c" "memory_ok c" "ata_prompt (cc_disk c)"
  define s where "s = (s0 :: fs)\<lparr>fs_cc := c\<lparr>cc_inode_dirty := []\<rparr>, fs_sb := (fs_sb s0)\<lparr>sb_blockSize := 4096\<rparr>, fs_inode := (\<lambda>p. (fs_inode s0 p)
    \<lparr>i_type := EXT2_IFREG, i_size := 8192, i_rwlock := rwlock_init, i_blocks := (\<lambda>k. of_nat (k + 1))\<rparr>)\<rparr>"
  have "memory_ok (c\<lparr>cc_inode_dirty := []\<rparr>)" using c(2) by (simp add: memory_ok_def)
  then have "can_write 0 s" using c(1)
    by (simp add: can_write_def s_def queue_ok_def EXT2_IFREG_def idle_lock_def rwlock_init_def spinlock_init_def SPINLOCK_UNLOCK_def)
  then show thesis by (rule that) (use c(3) in \<open>simp_all add: has_block_def file_block_def s_def N_DIRECT_BLOCK_def page_sector_def\<close>)
qed

text \<open>
  C1. A file reads back what was written, and the disk receives it. For a regular file whose block at
  the offset is a direct one, \<^verbatim>\<open>ext2_write\<close> returns the number of bytes up to the end of the data or of
  the block; \<^verbatim>\<open>ext2_read\<close> at that offset then returns exactly these bytes; a flush of the page cache puts
  them into the sectors of the block; and the contents of every other sector, and of the rest of the
  block, are as before. The interrupts of the disk requests this takes come before the task tests for
  them or after it has gone to sleep and others have run, as the trace in the invariant of the
  cache says; the flush needs a drive that takes the data of a write as soon as the command is
  written (\<open>ata_prompt\<close>).
\<close>

theorem ext2_write_read:
  assumes "can_write p s" "has_block p offset s" "length data < 2 ^ 32" "data \<noteq> []" "ata_prompt (cc_disk (fs_cc s))"
  shows "\<exists>n s' s'' c. ext2_write p offset data s = Some (n, s') \<and> unat n = min (4096 - unat offset mod 4096) (length data) \<and>
    ext2_read p offset n s' = Some (take (unat n) data, s'') \<and> flush_pages (fs_cc s') = Some c \<and>
    (\<forall>k i. page_sector k \<longrightarrow> i < 4096 \<longrightarrow> disk_page (cc_disk c) k i =
       (if k = 8 * file_block p offset s \<and> unat offset mod 4096 \<le> i \<and> i < unat offset mod 4096 + unat n
        then data ! (i - unat offset mod 4096) else cache_view (fs_cc s) k i))"
proof -
  obtain n s' where w: "ext2_write p offset data s = Some (n, s')" "unat n = min (4096 - unat offset mod 4096) (length data)"
    "written p offset data (unat n) s s'" using can_write_ok [OF assms(1-3)] by blast
  have b: "unat offset mod 4096 < 4096" by simp
  then have n: "0 < unat n" "unat n \<le> 4096" "unat offset mod 4096 + unat n \<le> 4096" "unat n \<le> length data"
    using w(2) assms(4) by auto
  note z = written_size [OF w(3) assms(2) n(2)]
  have c: "cache_inv (cc_dirty (fs_cc s')) (fs_cc s')" "\<exists>x\<in>set (cc_list (fs_cc s')). pc_no_secs (cc_info (fs_cc s') x) = 8 * file_block p offset s"
    using w(3) by (auto simp: written_def Let_def)
  have sec: "page_sector (8 * file_block p offset s)" using assms(2) by (simp add: has_block_def)
  have "map (\<lambda>i. cache_view (fs_cc s') (8 * file_block p offset s) (unat offset mod 4096 + i)) [0..<unat n] = take (unat n) data"
    using written_view [OF w(3) sec n(3)] n(4) by (intro nth_equalityI) simp_all
  moreover have "min (4096 - unat offset mod 4096) (unat n) = unat n" using n(3) by simp
  ultimately obtain s'' where r: "ext2_read p offset n s' = Some (take (unat n) data, s'')"
    using ext2_read_ok [OF z(4) c(1), of n] c(2) n(1) z(5) by auto
  obtain c' where f: "flush_pages (fs_cc s') = Some c'" "cache_inv [] c'"
    "\<forall>k i. page_sector k \<longrightarrow> i < 4096 \<longrightarrow> cache_view c' k i = cache_view (fs_cc s') k i"
    using flush_loop_ok [OF c(1)] w(3) assms(5) unfolding flush_pages_def written_def Let_def by auto
  have "disk_page (cc_disk c') k i = (if k = 8 * file_block p offset s \<and> unat offset mod 4096 \<le> i \<and> i < unat offset mod 4096 + unat n
        then data ! (i - unat offset mod 4096) else cache_view (fs_cc s) k i)" if "page_sector k" "i < 4096" for k i
    using w(3) f(2,3) that by (simp add: clean_view written_def Let_def)
  then show ?thesis using w(1,2) r f(1) by blast
qed

theorem ext2_write_read_witness:
  "\<exists>s p n s' s'' c. ext2_write p 100 [7, 8, 9] s = Some (n, s') \<and> n = 3 \<and> ext2_read p 100 n s' = Some ([7, 8, 9], s'') \<and>
    flush_pages (fs_cc s') = Some c \<and> disk_page (cc_disk c) 8 101 = 8"
proof (rule demo_file)
  fix s p assume s: "can_write p s" "has_block p 100 s" "file_block p 100 s = 1" "ata_prompt (cc_disk (fs_cc s))"
  obtain n s' s'' c where "ext2_write p 100 [7, 8, 9] s = Some (n, s')" "unat n = 3" "ext2_read p 100 n s' = Some ([7, 8, 9], s'')"
    "flush_pages (fs_cc s') = Some c" "disk_page (cc_disk c) 8 101 = 8"
    using ext2_write_read [OF s(1,2) _ _ s(4), of "[7, 8, 9]"] s(3) by (auto simp: page_sector_def)
  moreover from this(2) have "n = 3" by (simp add: word_unat_eq_iff)
  ultimately show ?thesis by blast
qed

text \<open>
  A write in the middle cuts the file off. The size after \<^verbatim>\<open>ext2_write\<close> is the end of the bytes just
  written, even when the file was longer: a later block that could be read before the write gives
  nothing after it.
\<close>

theorem ext2_write_truncates:
  assumes "can_write p s" "has_block p offset s" "length data < 2 ^ 32" "has_block p later s" "0 < unat m"
    "unat offset + length data \<le> 4096 * (unat later div 4096)"
  shows "(\<exists>bytes r. ext2_read p later m s = Some (bytes, r) \<and> bytes \<noteq> []) \<and>
    (\<exists>n s'. ext2_write p offset data s = Some (n, s') \<and> ext2_read p later m s' = Some ([], s'))"
proof -
  have "cache_inv (cc_dirty (fs_cc s)) (fs_cc s)" "memory_ok (fs_cc s)" using assms(1) by (auto simp: can_write_def)
  moreover have "0 < min (4096 - unat later mod 4096) (unat m)" using assms(5) by simp
  ultimately have r: "\<exists>bytes r. ext2_read p later m s = Some (bytes, r) \<and> bytes \<noteq> []"
    using ext2_read_ok [OF assms(4), of m] by fastforce
  obtain n s' where w: "ext2_write p offset data s = Some (n, s')" "unat n = min (4096 - unat offset mod 4096) (length data)"
    "written p offset data (unat n) s s'" using can_write_ok [OF assms(1-3)] by blast
  have "unat n \<le> 4096" "unat n \<le> length data" using w(2) by simp_all
  note z = written_size [OF w(3) assms(2) this(1)]
  have "unat (i_size (fs_inode s' p)) \<le> 4096 * (unat later div 4096)" using z(1) \<open>unat n \<le> length data\<close> assms(6) by simp
  then show ?thesis using r w(1) ext2_read_end [OF z(3,2)] by blast
qed

theorem ext2_write_truncates_witness:
  "\<exists>s p n s'. (\<exists>bytes r. ext2_read p 5000 10 s = Some (bytes, r) \<and> bytes \<noteq> []) \<and>
    ext2_write p 100 [7] s = Some (n, s') \<and> ext2_read p 5000 10 s' = Some ([], s')"
proof (rule demo_file)
  fix s p assume s: "can_write p s" "has_block p 100 s" "has_block p 5000 s"
  then show ?thesis using ext2_write_truncates [OF s(1,2) _ s(3), of "[7]" 10] by auto
qed

end
