(* ===== verification/Open_Spec.thy ===== *)
theory Open_Spec
  imports Vfs
begin

text \<open>
  Properties of the virtual file system: the lists of open files as linked lists, opening and closing
  the same file twice, file positions, and the copies of paths.
\<close>

section \<open>Lists of open files\<close>

text \<open>The files from \<open>f\<close> to \<open>e\<close>, in the order of their links.\<close>

fun file_path :: "(ptr_t \<Rightarrow> open_file) \<Rightarrow> ptr_t \<Rightarrow> ptr_t list \<Rightarrow> ptr_t \<Rightarrow> bool" where
  "file_path F f [] e \<longleftrightarrow> f = e"
| "file_path F f (x # xs) e \<longleftrightarrow> f = x \<and> x \<noteq> 0 \<and> file_path F (of_next (F x)) xs e"

lemma file_path_append: "file_path F f (xs @ ys) e \<longleftrightarrow> (\<exists>g. file_path F f xs g \<and> file_path F g ys e)"
  by (induction xs arbitrary: f) auto

lemma file_path_upd [simp]: "u \<notin> set xs \<Longrightarrow> file_path (F(u := g)) f xs e = file_path F f xs e"
  by (induction xs arbitrary: f) auto

lemma file_path_nonnull: "file_path F f xs e \<Longrightarrow> 0 \<notin> set xs"
  by (induction xs arbitrary: f) auto

lemma open_find_path:
  "file_path (vf_file v) f xs 0 \<Longrightarrow> open_find p f v = Some (case find (\<lambda>x. of_inode (vf_file v x) = p) xs of None \<Rightarrow> 0 | Some x \<Rightarrow> x)"
proof (induction xs arbitrary: f)
  case Nil
  then show ?case by (subst open_find.simps) simp
next
  case (Cons x xs)
  then show ?case by (subst open_find.simps) simp
qed

text \<open>\<open>t\<close> is a task, \<open>xs\<close> the files in its list.\<close>

definition opened :: "ptr_t \<Rightarrow> ptr_t list \<Rightarrow> vfs \<Rightarrow> bool" where
  "opened t xs v \<longleftrightarrow> file_path (vf_file v) (ts_open (sd_task (vf_sched v) t)) xs 0 \<and> distinct xs"

lemma set_open_simps [simp]:
  "vf_file (set_open t f v) = vf_file v" "vf_fd (set_open t f v) = vf_fd v" "vf_inode (set_open t f v) p = vf_inode v p"
  "vf_sched (set_open t f v) = upd_task t (\<lambda>k. k\<lparr>ts_open := f\<rparr>) (vf_sched v)"
  by (simp_all add: set_open_def)

lemma remove_loop_found:
  assumes "file_path (vf_file v) (ts_open (sd_task (vf_sched v) t)) ys f" "file_path (vf_file v) f (zs @ x # ws) 0"
    "distinct (ys @ zs @ x # ws)" "prev = (if ys = [] then 0 else last ys)"
    "of_inode (vf_file v x) = p" "\<forall>z\<in>set zs. of_inode (vf_file v z) \<noteq> p"
  shows "\<exists>v'. remove_loop p t f prev v = Some (x, v') \<and> opened t (ys @ zs @ ws) v' \<and> vf_fd v' = vf_fd v \<and>
    (\<forall>a. vf_inode v' a = vf_inode v a) \<and> (\<forall>a. of_inode (vf_file v' a) = of_inode (vf_file v a)) \<and>
    (\<exists>g. vf_sched v' = upd_task t (\<lambda>k. k\<lparr>ts_open := g\<rparr>) (vf_sched v))"
  using assms
proof (induction zs arbitrary: f ys prev)
  case Nil
  let ?n = "of_next (vf_file v x)"
  have x: "f = x" "x \<noteq> 0" "file_path (vf_file v) ?n ws 0" using Nil by auto
  show ?case
  proof (cases "ys = []")
    case True
    then have "remove_loop p t f prev v = Some (x, set_open t ?n v)" using Nil x by (subst remove_loop.simps) simp
    then show ?thesis using True Nil x by (intro exI [of _ "set_open t ?n v"] conjI exI [of _ ?n]) (simp_all add: opened_def fun_upd_def)
  next
    case False
    then obtain us u where ys: "ys = us @ [u]" by (metis rev_exhaust)
    let ?v = "v\<lparr>vf_file := (vf_file v)(u := (vf_file v u)\<lparr>of_next := ?n\<rparr>)\<rparr>"
    have u: "u \<noteq> 0" "prev = u" using file_path_nonnull [OF Nil(1)] ys Nil by auto
    then have r: "remove_loop p t f prev v = Some (x, ?v)" using Nil x by (subst remove_loop.simps) simp
    have d: "u \<notin> set us" "u \<notin> set ws" "distinct (us @ [u] @ ws)" using Nil ys by auto
    have "file_path (vf_file v) (ts_open (sd_task (vf_sched v) t)) us u" using Nil(1) ys by (simp add: file_path_append)
    then have "opened t (ys @ [] @ ws) ?v"
      using x(3) d u(1) unfolding opened_def ys by (auto simp: file_path_append)
    moreover have "vf_sched ?v = upd_task t (\<lambda>k. k\<lparr>ts_open := ts_open (sd_task (vf_sched v) t)\<rparr>) (vf_sched v)" by simp
    ultimately show ?thesis using r by (intro exI [of _ ?v] conjI exI [of _ "ts_open (sd_task (vf_sched v) t)"]) auto
  qed
next
  case (Cons z zs)
  let ?n = "of_next (vf_file v z)"
  have z: "f = z" "z \<noteq> 0" "file_path (vf_file v) ?n (zs @ x # ws) 0" "of_inode (vf_file v z) \<noteq> p" using Cons.prems by auto
  have "remove_loop p t f prev v = remove_loop p t ?n z v" using z by (subst remove_loop.simps) simp
  moreover have "file_path (vf_file v) (ts_open (sd_task (vf_sched v) t)) (ys @ [z]) ?n"
    using Cons.prems(1) z by (auto simp: file_path_append)
  ultimately show ?case using Cons.IH [of "ys @ [z]" ?n z] z Cons.prems by simp
qed

lemma remove_loop_missing:
  "file_path (vf_file v) f xs 0 \<Longrightarrow> \<forall>x\<in>set xs. of_inode (vf_file v x) \<noteq> p \<Longrightarrow> remove_loop p t f prev v = None"
proof (induction xs arbitrary: f prev)
  case Nil
  then show ?case by (subst remove_loop.simps) simp
next
  case (Cons x xs)
  then show ?case by (subst remove_loop.simps) simp
qed

lemma CUR_TCB_set_open: "s' = upd_task t (\<lambda>k. k\<lparr>ts_open := g\<rparr>) s \<Longrightarrow> CUR_TCB s' = CUR_TCB s"
  by (simp add: CUR_TCB_def)

lemma remove_open_file_ok:
  assumes "CUR_TCB (vf_sched v) = Some t" "opened t xs v" "distinct (map (\<lambda>x. of_inode (vf_file v x)) xs)" "x \<in> set xs"
  shows "\<exists>v'. remove_open_file (of_inode (vf_file v x)) v = Some (x, v') \<and> opened t (remove1 x xs) v' \<and> vf_fd v' = vf_fd v \<and>
    (\<forall>a. vf_inode v' a = vf_inode v a) \<and> (\<forall>a. of_inode (vf_file v' a) = of_inode (vf_file v a)) \<and> CUR_TCB (vf_sched v') = Some t"
proof -
  obtain zs ws where xs: "xs = zs @ x # ws" "x \<notin> set zs" using split_list_first [OF assms(4)] by blast
  have "\<forall>z\<in>set zs. of_inode (vf_file v z) \<noteq> of_inode (vf_file v x)" using assms(3) by (auto simp: xs intro: rev_image_eqI)
  then obtain v' where "remove_loop (of_inode (vf_file v x)) t (ts_open (sd_task (vf_sched v) t)) 0 v = Some (x, v')"
    "opened t (zs @ ws) v'" "vf_fd v' = vf_fd v" "\<forall>a. vf_inode v' a = vf_inode v a" "\<forall>a. of_inode (vf_file v' a) = of_inode (vf_file v a)"
    "CUR_TCB (vf_sched v') = CUR_TCB (vf_sched v)"
    using remove_loop_found [of v t "[]" "ts_open (sd_task (vf_sched v) t)" zs x ws 0 "of_inode (vf_file v x)"] assms(2) CUR_TCB_set_open
    by (auto simp: opened_def xs)
  then show ?thesis using assms(1) xs(2) by (simp add: remove_open_file_def xs(1) remove1_append)
qed

lemma remove_open_file_missing:
  assumes "CUR_TCB (vf_sched v) = Some t" "opened t xs v" "\<forall>x\<in>set xs. of_inode (vf_file v x) \<noteq> p"
  shows "remove_open_file p v = None"
  using assms remove_loop_missing [of v _ xs p] by (simp add: remove_open_file_def opened_def)

lemma add_open_file_again:
  assumes "CUR_TCB (vf_sched v) = Some t" "opened t xs v" "distinct (map (\<lambda>x. of_inode (vf_file v x)) xs)" "x \<in> set xs"
  shows "add_open_file (of_inode (vf_file v x)) (of_fd (vf_file v x)) v = Some v"
proof -
  let ?f = "find (\<lambda>y. of_inode (vf_file v y) = of_inode (vf_file v x)) xs"
  obtain y where y: "?f = Some y" using assms(4) find_None_iff [of "\<lambda>y. of_inode (vf_file v y) = of_inode (vf_file v x)" xs] by fastforce
  then have "y \<in> set xs" "of_inode (vf_file v y) = of_inode (vf_file v x)" by (auto simp: find_Some_iff)
  then have "y = x" using assms(3,4) by (auto simp: distinct_map inj_on_def)
  moreover have "x \<noteq> 0" using file_path_nonnull assms(2,4) unfolding opened_def by metis
  ultimately show ?thesis using assms(1,2) y open_find_path [of v _ xs] by (simp add: add_open_file_def opened_def)
qed

section \<open>Properties\<close>

text \<open>
  C31. Opening a file twice makes the second close panic. The task has the inode in its list of open
  files. A second open counts another reference and leaves the list as it is; the first close takes
  the inode out of the list although a reference remains; the second close no longer finds it and
  stops the kernel.
\<close>

theorem open_twice_close_panics:
  assumes "CUR_TCB (vf_sched v) = Some t" "opened t xs v" "distinct (map (\<lambda>x. of_inode (vf_file v x)) xs)" "x \<in> set xs"
    "get_inode (of_fd (vf_file v x)) (vf_fd v) = Some (of_inode (vf_file v x))" "of_inode (vf_file v x) \<noteq> 0"
    "i_refCnt (vf_inode v (of_inode (vf_file v x))) \<noteq> 0"
  shows "\<exists>v1 v2. add_open_file (of_inode (vf_file v x)) (of_fd (vf_file v x))
      (upd_vinode (of_inode (vf_file v x)) (\<lambda>i. i\<lparr>i_refCnt := i_refCnt i + 1\<rparr>) v) = Some v1 \<and>
    vfs_close (of_fd (vf_file v x)) v1 = Some (0, v2) \<and> vfs_close (of_fd (vf_file v x)) v2 = None"
proof -
  define p where "p = of_inode (vf_file v x)"
  define fd where "fd = of_fd (vf_file v x)"
  define v1 where "v1 = upd_vinode p (\<lambda>i. i\<lparr>i_refCnt := i_refCnt i + 1\<rparr>) v"
  define w where "w = upd_vinode p (\<lambda>i. i\<lparr>i_refCnt := i_refCnt i - 1\<rparr>) v1"
  have f: "vf_file v1 = vf_file v" "vf_fd v1 = vf_fd v" "vf_sched v1 = vf_sched v" "opened t xs v1 = opened t xs v"
    "vf_file w = vf_file v" "vf_fd w = vf_fd v" "vf_sched w = vf_sched v" "opened t xs w = opened t xs v" "vf_inode w p = vf_inode v p"
    by (simp_all add: v1_def w_def opened_def)
  have open2: "add_open_file p fd v1 = Some v1" using add_open_file_again [of v1 t xs x] assms(1-4) f by (simp add: p_def fd_def)
  have get: "get_inode fd (vf_fd v) = Some p" "p \<noteq> 0" using assms(5,6) by (simp_all add: p_def fd_def)
  obtain v2 where v2: "remove_open_file p w = Some (x, v2)" "opened t (remove1 x xs) v2" "vf_fd v2 = vf_fd v"
    "\<forall>a. vf_inode v2 a = vf_inode w a" "\<forall>a. of_inode (vf_file v2 a) = of_inode (vf_file v a)" "CUR_TCB (vf_sched v2) = Some t"
    using remove_open_file_ok [of w t xs x] assms(1-4) f by (auto simp: p_def)
  have "i_refCnt (vf_inode v2 p) \<noteq> 0" using v2(4) f(9) assms(7) by (simp add: p_def)
  then have close1: "vfs_close fd v1 = Some (0, v2)" using get v2(1) f(2) by (simp add: vfs_close_def w_def)
  have none: "\<forall>y\<in>set (remove1 x xs). of_inode (vf_file v2 y) \<noteq> p"
    using assms(2-4) v2(5) by (auto simp: p_def opened_def distinct_map inj_on_def)
  have "remove_open_file p (upd_vinode p (\<lambda>i. i\<lparr>i_refCnt := i_refCnt i - 1\<rparr>) v2) = None"
    by (rule remove_open_file_missing [of _ t "remove1 x xs"]) (use v2(2,6) none in \<open>simp_all add: opened_def\<close>)
  then have "vfs_close fd v2 = None" using get v2(3) by (simp add: vfs_close_def)
  then show ?thesis using open2 close1 unfolding p_def fd_def v1_def by blast
qed

theorem open_twice_close_panics_witness:
  "\<exists>v v1 v2. add_open_file 0xc0200000 5 v = Some v1 \<and> vfs_close 5 v1 = Some (0, v2) \<and> vfs_close 5 v2 = None"
proof -
  fix v0 :: vfs and s0 :: sched and k0 :: task_struct
  define v where "v = v0\<lparr>vf_fs := (vf_fs v0)\<lparr>fs_cc := (fs_cc (vf_fs v0))\<lparr>cc_sched := s0\<lparr>sd_task := (\<lambda>_. k0\<lparr>ts_magic := TASK_MAGIC, ts_open := 64\<rparr>)\<rparr>\<rparr>,
      fs_inode := (\<lambda>p. (vf_inode v0 p)\<lparr>i_refCnt := 1\<rparr>)\<rparr>,
    vf_fd := (vf_fd v0)\<lparr>fh_file_table := (\<lambda>_. 0xc0200000)\<rparr>, vf_file := (\<lambda>_. \<lparr>of_inode = 0xc0200000, of_fd = 5, of_next = 0\<rparr>)\<rparr>"
  have "CUR_TCB (vf_sched v) = Some (sd_cur s0)" "opened (sd_cur s0) [64] v" "get_inode 5 (vf_fd v) = Some 0xc0200000"
    by (simp_all add: v_def CUR_TCB_def opened_def get_inode_def hash_findi_def FILE_TABLE_SIZE_def)
  then show ?thesis using open_twice_close_panics [of v "sd_cur s0" "[64]" 64] by (auto simp: v_def)
qed

lemma sint_of_int64: "- (2 ^ 63) \<le> x \<Longrightarrow> x < 2 ^ 63 \<Longrightarrow> sint (of_int x :: u64) = x"
  by (simp add: int_word_sint mod_pos_pos_trivial)

lemma ucast_of_int: "ucast (of_int x :: u64) = (of_int x :: u32)"
  by (simp add: ucast_eq unsigned_of_int word_of_int_eq_iff)

lemma sint32_bounds: "- (2 ^ 31) \<le> sint (x :: u32)" "sint (x :: u32) < 2 ^ 31"
  using sint_greater_eq [of x] sint_less [of x] by simp_all

text \<open>The result and the state after a move to position \<open>e\<close> of the inode \<open>p\<close>.\<close>

definition moved :: "ptr_t \<Rightarrow> vfs \<Rightarrow> int \<Rightarrow> (u32 \<times> vfs) option" where
  "moved p v e = Some (of_int e, upd_vinode p (\<lambda>i. i\<lparr>i_offset := of_int e\<rparr>) v)"

text \<open>
  C32. File positions. \<^verbatim>\<open>SEEK_SET\<close> moves to a position that is not negative and refuses any other; \<^verbatim>\<open>SEEK_END\<close>
  moves relative to the size and refuses a position before the start. \<^verbatim>\<open>SEEK_CUR\<close> never refuses: its sum is
  computed without sign, so a position before the start of the file becomes one close to 4 GB, and
  \<^verbatim>\<open>vfs_ftell\<close> then reports it.
\<close>

theorem lseek_cur_wraps:
  assumes "get_inode fd (vf_fd v) = Some p" "p \<noteq> 0" "uint (i_size (vf_inode v p)) < 2 ^ 62"
  shows "vfs_lseek fd off SEEK_SET v = (if sint off < 0 then Some (-1, v) else moved p v (sint off)) \<and>
    vfs_lseek fd off SEEK_END v = (let e = uint (i_size (vf_inode v p)) + sint off in if e < 0 then Some (-1, v) else moved p v e) \<and>
    (let e = uint (i_offset (vf_inode v p)) + sint off in vfs_lseek fd off SEEK_CUR v = moved p v e \<and>
      (e < 0 \<longrightarrow> map_option (\<lambda>(_, v). vfs_ftell fd v) (vfs_lseek fd off SEEK_CUR v) = Some (Some (e + 2 ^ 32))))"
proof -
  let ?sz = "i_size (vf_inode v p)" and ?pos = "i_offset (vf_inode v p)"
  note b = sint32_bounds [of off]
  have 1: "vfs_lseek fd off SEEK_SET v = (if sint off < 0 then Some (-1, v) else moved p v (sint off))"
    unfolding vfs_lseek_def moved_def Let_def assms(1) using assms(2) by (simp only: bind.bind_lunit if_False SEEK_WHENCE.case of_int_sint scast_id)
  have sum: "?sz + scast off = (of_int (uint ?sz + sint off) :: u64)" by simp
  have "sint (?sz + scast off) = uint ?sz + sint off" unfolding sum
    using b assms(3) add_mono [OF uint_ge_0 [of ?sz] b(1)] by (intro sint_of_int64) simp_all
  moreover have "ucast (?sz + scast off) = (of_int (uint ?sz + sint off) :: u32)" unfolding sum by (rule ucast_of_int)
  ultimately have 2: "vfs_lseek fd off SEEK_END v = (let e = uint ?sz + sint off in if e < 0 then Some (-1, v) else moved p v e)"
    using assms(1,2) by (simp add: vfs_lseek_def moved_def Let_def)
  define e where "e = uint ?pos + sint off"
  have cur: "?pos + off = of_int e" by (simp add: e_def)
  have lt: "uint (?pos + off) < 2 ^ 32" using uint_bounded [of "?pos + off"] by simp
  have up: "ucast (?pos + off) = (of_int (uint (?pos + off)) :: u64)" by (rule ucast_eq)
  have "sint (ucast (?pos + off) :: u64) = uint (?pos + off)" unfolding up
    using lt order_trans [OF _ uint_ge_0 [of "?pos + off"], of "- (2 ^ 63)"] by (intro sint_of_int64) simp_all
  moreover have "ucast (ucast (?pos + off) :: u64) = (of_int e :: u32)" unfolding up ucast_of_int using cur by simp
  ultimately have 3: "vfs_lseek fd off SEEK_CUR v = moved p v e"
    using assms(1,2) uint_ge_0 [of "?pos + off"] by (simp add: vfs_lseek_def moved_def Let_def)
  have "uint (of_int e :: u32) = e + 2 ^ 32" if "e < 0"
  proof -
    have "- (2 ^ 31) \<le> e" using add_mono [OF uint_ge_0 [of ?pos] b(1)] by (simp add: e_def)
    then have "(e + 2 ^ 32) mod 2 ^ 32 = e + 2 ^ 32" using that by (intro mod_pos_pos_trivial) simp_all
    then show ?thesis by (simp add: unsigned_of_int take_bit_eq_mod)
  qed
  then have "e < 0 \<longrightarrow> map_option (\<lambda>(_, v). vfs_ftell fd v) (vfs_lseek fd off SEEK_CUR v) = Some (Some (e + 2 ^ 32))"
    using assms(1,2) unfolding 3 by (simp add: moved_def vfs_ftell_def)
  then show ?thesis using 1 2 3 unfolding e_def Let_def by blast
qed

theorem lseek_cur_wraps_witness:
  "\<exists>v v'. vfs_lseek 5 (-10) SEEK_CUR v = Some (-7, v') \<and> vfs_ftell 5 v = Some 3 \<and> vfs_ftell 5 v' = Some 4294967289 \<and>
    vfs_lseek 5 (-10) SEEK_END v = Some (-1, v)"
proof -
  fix v0 :: vfs
  define v where "v = v0\<lparr>vf_fs := (vf_fs v0)\<lparr>fs_inode := (\<lambda>p. (vf_inode v0 p)\<lparr>i_offset := 3, i_size := 4\<rparr>)\<rparr>,
    vf_fd := (vf_fd v0)\<lparr>fh_file_table := (\<lambda>_. 0xc0200000)\<rparr>\<rparr>"
  have g: "get_inode 5 (vf_fd v) = Some 0xc0200000" by (simp add: v_def get_inode_def hash_findi_def FILE_TABLE_SIZE_def)
  have i: "i_offset (vf_inode v 0xc0200000) = 3" "i_size (vf_inode v 0xc0200000) = 4" by (simp_all add: v_def)
  define v' where "v' = upd_vinode 0xc0200000 (\<lambda>i. i\<lparr>i_offset := -7\<rparr>) v"
  have "sint (-10 :: u32) = -10" using int_word_sint [of "-10", where 'a = 32] by simp
  note l = lseek_cur_wraps [OF g, of "-10", unfolded i this Let_def]
  then have "vfs_lseek 5 (-10) SEEK_END v = Some (-1, v)" "vfs_lseek 5 (-10) SEEK_CUR v = Some (-7, v')" by (simp_all add: moved_def v'_def)
  moreover from this(2) l have "vfs_ftell 5 v' = Some 4294967289" by auto
  moreover have "vfs_ftell 5 v = Some 3" by (simp add: vfs_ftell_def g i)
  ultimately show ?thesis by blast
qed

end
