(* ===== verification/Umalloc.thy ===== *)
theory Umalloc
  imports Uvm
begin

text \<open>
  The heap of a user process: \<^verbatim>\<open>userspace/malloc.c\<close>, over the system call \<^verbatim>\<open>sbrk\<close> of \<^verbatim>\<open>mm/uvm.c\<close>.

  The state holds the headers of the chunks by their address, the two list pointers and the address
  space of the process. A header outside the pages that \<^verbatim>\<open>sbrk\<close> has mapped is not accessible: reading
  or writing it faults. \<^verbatim>\<open>assert\<close> of \<^verbatim>\<open>userspace/lib.h\<close> ends the process. Both are \<open>None\<close>. The program
  that uses the heap writes to its own blocks only.
\<close>

section \<open>Definitions\<close>

record chunk_t =
  ck_next :: ptr_t
  ck_size :: u32
  ck_used :: bool
  ck_magic :: "31 word"

record uheap =
  uh_chunk :: "ptr_t \<Rightarrow> chunk_t"
  uh_head :: ptr_t
  uh_tail :: ptr_t
  uh_mm :: mm_struct
  uh_um :: umem

definition HEAP_MAGIC :: "31 word" where "HEAP_MAGIC = 0x35e92b2e"

definition ALIGN :: "u32 \<Rightarrow> u32 \<Rightarrow> u32" where
  "ALIGN s align = (s + align - 1) AND NOT (align - 1)"

text \<open>The header at \<open>p\<close>, when the 12 bytes of it lie in the heap area.\<close>

definition heap_mapped :: "ptr_t \<Rightarrow> uheap \<Rightarrow> bool" where
  "heap_mapped p h \<longleftrightarrow> unat (ar_va (mm_brk (uh_mm h))) - unat (ar_size (mm_brk (uh_mm h))) \<le> unat p \<and>
     unat p + 12 \<le> unat (ar_va (mm_brk (uh_mm h)))"

definition hdr_at :: "ptr_t \<Rightarrow> uheap \<Rightarrow> chunk_t option" where
  "hdr_at p h = (if heap_mapped p h then Some (uh_chunk h p) else None)"

abbreviation upd_chunk :: "ptr_t \<Rightarrow> (chunk_t \<Rightarrow> chunk_t) \<Rightarrow> uheap \<Rightarrow> uheap" where
  "upd_chunk p f h \<equiv> h\<lparr>uh_chunk := (uh_chunk h)(p := f (uh_chunk h p))\<rparr>"

definition alloc_addr :: "ptr_t \<Rightarrow> ptr_t" where "alloc_addr addr = addr + 12"

definition chunk_header :: "ptr_t \<Rightarrow> ptr_t" where "chunk_header addr = addr - 12"

definition chunk_init :: "ptr_t \<Rightarrow> ptr_t \<Rightarrow> u32 \<Rightarrow> uheap \<Rightarrow> uheap option" where
  "chunk_init new nxt sz h = do {
     assertk (heap_mapped new h);
     Some (upd_chunk new (\<lambda>c. c\<lparr>ck_next := nxt, ck_used := False, ck_magic := HEAP_MAGIC, ck_size := sz\<rparr>) h)
   }"

definition alloc_chunk :: "ptr_t \<Rightarrow> u32 \<Rightarrow> uheap \<Rightarrow> (ptr_t \<times> uheap) option" where
  "alloc_chunk chunk sz h = do {
     c \<leftarrow> hdr_at chunk h;
     assertk (\<not> ck_used c \<and> ck_magic c = HEAP_MAGIC);
     let free_size = ck_size c - sz;
     (sz, h) \<leftarrow> (if free_size < 12 + 2 then Some (ck_size c, h)
       else do {
         let new = chunk + sz;
         h \<leftarrow> chunk_init new (ck_next c) free_size h;
         let h = upd_chunk chunk (\<lambda>c. c\<lparr>ck_next := new\<rparr>) h;
         Some (sz, if chunk = uh_tail h then h\<lparr>uh_tail := new\<rparr> else h)
       });
     Some (alloc_addr chunk, upd_chunk chunk (\<lambda>c. c\<lparr>ck_used := True, ck_size := sz\<rparr>) h)
   }"

text \<open>The search of \<^verbatim>\<open>malloc\<close> for a free chunk that is large enough; 0 when the list ends.\<close>

partial_function (option) malloc_loop :: "ptr_t \<Rightarrow> u32 \<Rightarrow> uheap \<Rightarrow> ptr_t option" where
  "malloc_loop hdr sz h = (if hdr = 0 then Some 0 else do {
     c \<leftarrow> hdr_at hdr h;
     if \<not> ck_used c \<and> sz \<le> ck_size c then Some hdr else malloc_loop (ck_next c) sz h
   })"

definition malloc :: "u32 \<Rightarrow> uheap \<Rightarrow> (ptr_t \<times> uheap) option" where
  "malloc sz h = do {
     let sz = ALIGN (sz + 12) 2;
     hdr \<leftarrow> malloc_loop (uh_head h) sz h;
     if hdr \<noteq> 0 then alloc_chunk hdr sz h
     else do {
       (b, mm, um) \<leftarrow> sbrk 4096 (Some (uh_mm h)) (uh_um h);
       let h = h\<lparr>uh_mm := mm, uh_um := um\<rparr>;
       assertk (b \<noteq> 0);
       let h = (if uh_head h = 0 then h\<lparr>uh_head := b\<rparr> else h);
       h \<leftarrow> chunk_init b 0 4096 h;
       alloc_chunk b sz (h\<lparr>uh_tail := b\<rparr>)
     }
   }"

text \<open>The loop of \<^verbatim>\<open>free\<close> over the free chunks behind \<open>chunk\<close>.\<close>

partial_function (option) free_loop_merge :: "ptr_t \<Rightarrow> ptr_t \<Rightarrow> u32 \<Rightarrow> uheap \<Rightarrow> (ptr_t \<times> u32) option" where
  "free_loop_merge chunk p sz h = (if p = 0 then Some (p, sz) else do {
     c \<leftarrow> hdr_at p h;
     if ck_used c then Some (p, sz)
     else do {
       assertk (ck_magic (uh_chunk h chunk) = HEAP_MAGIC);
       free_loop_merge chunk (ck_next c) (sz + ck_size c) h
     }
   })"

definition free :: "ptr_t \<Rightarrow> uheap \<Rightarrow> uheap option" where
  "free addr h = do {
     let chunk = chunk_header addr;
     c \<leftarrow> hdr_at chunk h;
     assertk (ck_used c \<and> ck_magic c = HEAP_MAGIC);
     let h = upd_chunk chunk (\<lambda>c. c\<lparr>ck_used := False\<rparr>) h;
     (p, sz) \<leftarrow> free_loop_merge chunk (ck_next c) (ck_size c) h;
     if p \<noteq> ck_next c then do {
       let h = upd_chunk chunk (\<lambda>c. c\<lparr>ck_next := p, ck_size := sz\<rparr>) h;
       Some (if p = 0 then h\<lparr>uh_tail := chunk\<rparr> else h)
     } else Some h
   }"

section \<open>Chunks that tile a page\<close>

text \<open>The chunks \<open>cs\<close> cover the addresses from \<open>a\<close> to \<open>e\<close> without a gap; the last one points to \<open>nx\<close>.\<close>

fun hd0 :: "ptr_t \<Rightarrow> ptr_t list \<Rightarrow> ptr_t" where
  "hd0 nx [] = nx"
| "hd0 nx (c # cs) = c"

abbreviation csize :: "uheap \<Rightarrow> ptr_t \<Rightarrow> nat" where
  "csize h c \<equiv> unat (ck_size (uh_chunk h c))"

fun ctiles :: "uheap \<Rightarrow> nat \<Rightarrow> nat \<Rightarrow> ptr_t \<Rightarrow> ptr_t list \<Rightarrow> bool" where
  "ctiles h a e nx [] \<longleftrightarrow> a = e"
| "ctiles h a e nx (c # cs) \<longleftrightarrow> unat c = a \<and> ck_magic (uh_chunk h c) = HEAP_MAGIC \<and> 12 \<le> csize h c \<and> even (csize h c) \<and>
     ck_next (uh_chunk h c) = hd0 nx cs \<and> ctiles h (a + csize h c) e nx cs"

lemma hd0_append [simp]: "hd0 nx (xs @ ys) = hd0 (hd0 nx ys) xs"
  by (cases xs) auto

lemma ctiles_append: "ctiles h a e nx (xs @ ys) \<longleftrightarrow> (\<exists>m. ctiles h a m (hd0 nx ys) xs \<and> ctiles h m e nx ys)"
  by (induction xs arbitrary: a) auto

lemma ctiles_le: "ctiles h a e nx cs \<Longrightarrow> a \<le> e"
  by (induction cs arbitrary: a) force+

lemma ctiles_range: "ctiles h a e nx cs \<Longrightarrow> c \<in> set cs \<Longrightarrow> a \<le> unat c \<and> unat c + csize h c \<le> e \<and> 12 \<le> csize h c"
proof (induction cs arbitrary: a)
  case (Cons d cs)
  show ?case
  proof (cases "c = d")
    case True
    then show ?thesis using Cons.prems ctiles_le [of h "a + csize h d" e nx cs] by auto
  next
    case False
    then show ?thesis using Cons.IH [of "a + csize h d"] Cons.prems by auto
  qed
qed simp

lemma ctiles_even: "ctiles h a e nx cs \<Longrightarrow> even (e - a)"
proof (induction cs arbitrary: a)
  case (Cons c cs)
  then show ?case using ctiles_le [of h "a + csize h c" e nx cs] by fastforce
qed simp

lemma ctiles_cong: "(\<And>c. c \<in> set cs \<Longrightarrow> uh_chunk h' c = uh_chunk h c) \<Longrightarrow> ctiles h' a e nx cs = ctiles h a e nx cs"
  by (induction cs arbitrary: a) auto

lemma ctiles_split:
  assumes "ctiles h a e nx (xs @ c # ys)"
  obtains "ctiles h a (unat c) c xs" "ctiles h (unat c + csize h c) e nx ys" "ck_next (uh_chunk h c) = hd0 nx ys"
    "ck_magic (uh_chunk h c) = HEAP_MAGIC" "12 \<le> csize h c" "even (csize h c)" "a \<le> unat c" "unat c + csize h c \<le> e"
  using assms by (auto simp: ctiles_append dest: ctiles_le)

text \<open>Chunks before and behind \<open>c\<close> are elsewhere.\<close>

lemma ctiles_elsewhere:
  assumes "ctiles h a e nx (xs @ c # ys)"
  shows "x \<in> set xs \<Longrightarrow> unat x + csize h x \<le> unat c" "y \<in> set ys \<Longrightarrow> unat c + csize h c \<le> unat y"
  using assms ctiles_range by (auto elim!: ctiles_split)

section \<open>The invariant of the heap\<close>

text \<open>
  The pages taken from \<^verbatim>\<open>sbrk\<close>, each with the chunks that tile it. The list from \<^verbatim>\<open>head\<close> runs through the
  first page only. \<open>blocks\<close> is what the program holds: addresses and usable lengths.
\<close>

definition region :: "uheap \<Rightarrow> ptr_t list \<Rightarrow> bool" where
  "region h r \<longleftrightarrow> r \<noteq> [] \<and> ctiles h (unat (hd r)) (unat (hd r) + 4096) 0 r"

definition heap_lo :: "uheap \<Rightarrow> nat" where
  "heap_lo h = unat (ar_va (mm_brk (uh_mm h))) - unat (ar_size (mm_brk (uh_mm h)))"

definition heap_inv :: "ptr_t list list \<Rightarrow> uheap \<Rightarrow> bool" where
  "heap_inv rs h \<longleftrightarrow> 0 < heap_lo h \<and> even (unat (ar_va (mm_brk (uh_mm h)))) \<and>
     (\<forall>r\<in>set rs. region h r \<and> even (unat (hd r)) \<and> heap_lo h \<le> unat (hd r) \<and> unat (hd r) + 4096 \<le> unat (ar_va (mm_brk (uh_mm h)))) \<and>
     sorted_wrt (\<lambda>r s. unat (hd r) + 4096 \<le> unat (hd s)) rs \<and>
     uh_head h = (case rs of [] \<Rightarrow> 0 | r # _ \<Rightarrow> hd r)"

definition rblocks :: "uheap \<Rightarrow> ptr_t list \<Rightarrow> (ptr_t \<times> nat) set" where
  "rblocks h r = (\<lambda>c. (alloc_addr c, csize h c - 12)) ` {c \<in> set r. ck_used (uh_chunk h c)}"

definition blocks :: "ptr_t list list \<Rightarrow> uheap \<Rightarrow> (ptr_t \<times> nat) set" where
  "blocks rs h = (\<Union>r\<in>set rs. rblocks h r)"

lemma blocks_simps [simp]:
  "blocks (rs @ ss) h = blocks rs h \<union> blocks ss h" "blocks (r # rs) h = rblocks h r \<union> blocks rs h" "blocks [] h = {}"
  by (auto simp: blocks_def)

lemma rblocks_simps:
  "rblocks h (xs @ ys) = rblocks h xs \<union> rblocks h ys"
  "rblocks h (c # cs) = (if ck_used (uh_chunk h c) then {(alloc_addr c, csize h c - 12)} else {}) \<union> rblocks h cs"
  "rblocks h [] = {}"
  by (auto simp: rblocks_def)

lemma rblocks_cong: "(\<And>c. c \<in> set r \<Longrightarrow> uh_chunk h' c = uh_chunk h c) \<Longrightarrow> rblocks h' r = rblocks h r"
  unfolding rblocks_def by (intro image_cong) auto

text \<open>Two blocks never overlap.\<close>

lemma ctiles_apart:
  assumes "ctiles h a e nx cs" "c \<in> set cs" "d \<in> set cs" "c \<noteq> d"
  shows "unat c + csize h c \<le> unat d \<or> unat d + csize h d \<le> unat c"
proof -
  obtain xs ys where cs: "cs = xs @ c # ys" using assms(2) split_list by metis
  then show ?thesis using assms ctiles_elsewhere [of h a e nx xs c ys d] by auto
qed

lemma region_range: "region h r \<Longrightarrow> c \<in> set r \<Longrightarrow> unat (hd r) \<le> unat c \<and> unat c + csize h c \<le> unat (hd r) + 4096 \<and> 12 \<le> csize h c"
  unfolding region_def using ctiles_range by blast

lemma chunks_apart:
  assumes inv: "heap_inv rs h" and c: "r \<in> set rs" "c \<in> set r" and d: "s \<in> set rs" "d \<in> set s" and "c \<noteq> d"
  shows "unat c + csize h c \<le> unat d \<or> unat d + csize h d \<le> unat c"
proof (cases "r = s")
  case True
  have "region h s" using inv d by (auto simp: heap_inv_def)
  then show ?thesis unfolding region_def using True assms ctiles_apart by blast
next
  case False
  obtain i j where ij: "i < length rs" "rs ! i = r" "j < length rs" "rs ! j = s" using c d by (auto simp: in_set_conv_nth)
  then have "i < j \<or> j < i" using False by (metis nat_neq_iff)
  then have "unat (hd r) + 4096 \<le> unat (hd s) \<or> unat (hd s) + 4096 \<le> unat (hd r)"
    using inv ij by (auto simp: heap_inv_def sorted_wrt_iff_nth_less)
  moreover have "region h r" "region h s" using inv c d by (auto simp: heap_inv_def)
  ultimately show ?thesis using region_range [of h r c] region_range [of h s d] c(2) d(2) by linarith
qed

lemma unat_alloc_addr:
  assumes "heap_inv rs h" "r \<in> set rs" "c \<in> set r"
  shows "unat (alloc_addr c) = unat c + 12" "even (unat c)"
proof -
  have r: "region h r" "even (unat (hd r))" "unat (hd r) + 4096 \<le> unat (ar_va (mm_brk (uh_mm h)))" using assms by (auto simp: heap_inv_def)
  have "unat c + 12 < 2 ^ 32" using region_range [OF r(1) assms(3)] r(3) unat_u32_lt [of "ar_va (mm_brk (uh_mm h))"] by linarith
  then show "unat (alloc_addr c) = unat c + 12" by (simp add: alloc_addr_def unat_add_no_wrap)
  have "even (unat c)" if "ctiles h a e nx cs" "even a" "c \<in> set cs" for a e nx cs
    using that by (induction cs arbitrary: a) auto
  then show "even (unat c)" using r assms(3) by (auto simp: region_def)
qed

lemma blocks_apart:
  assumes "heap_inv rs h" "(p, m) \<in> blocks rs h" "(q, k) \<in> blocks rs h" "p \<noteq> q"
  shows "unat p + m \<le> unat q \<or> unat q + k \<le> unat p"
proof -
  obtain r c where c: "r \<in> set rs" "c \<in> set r" "p = alloc_addr c" "m = csize h c - 12" using assms(2) by (auto simp: blocks_def rblocks_def)
  obtain s d where d: "s \<in> set rs" "d \<in> set s" "q = alloc_addr d" "k = csize h d - 12" using assms(3) by (auto simp: blocks_def rblocks_def)
  have "c \<noteq> d" using c d assms(4) by auto
  moreover have "region h r" "region h s" using assms(1) c d by (auto simp: heap_inv_def)
  ultimately show ?thesis
    using chunks_apart [OF assms(1) c(1,2) d(1,2)] region_range [of h r c] region_range [of h s d]
      unat_alloc_addr [OF assms(1) c(1,2)] unat_alloc_addr [OF assms(1) d(1,2)] c d by auto
qed

text \<open>A step that changes the chunks of one page.\<close>

lemma heap_inv_upd:
  assumes inv: "heap_inv (rs @ r # ss) h" and r': "region h' r'" "hd r' = hd r"
    and same: "\<And>c. unat c < unat (hd r) \<or> unat (hd r) + 4096 \<le> unat c \<Longrightarrow> uh_chunk h' c = uh_chunk h c"
    and h': "uh_mm h' = uh_mm h" "uh_head h' = uh_head h"
  shows "heap_inv (rs @ r' # ss) h'" "blocks (rs @ r' # ss) h' = blocks rs h \<union> rblocks h' r' \<union> blocks ss h"
proof -
  have far: "uh_chunk h' c = uh_chunk h c" if s: "s \<in> set rs \<union> set ss" and c: "c \<in> set s" for s c
  proof -
    have "region h s" using inv s by (auto simp: heap_inv_def)
    moreover have "unat (hd r) + 4096 \<le> unat (hd s) \<or> unat (hd s) + 4096 \<le> unat (hd r)"
      using inv s by (auto simp: heap_inv_def sorted_wrt_append)
    ultimately show ?thesis using region_range [of h s c] c by (intro same) auto
  qed
  have "region h' s = region h s" if "s \<in> set rs \<union> set ss" for s
    using ctiles_cong [OF far [OF that]] by (simp add: region_def)
  then show "heap_inv (rs @ r' # ss) h'"
    using inv r' h' by (cases rs) (auto simp: heap_inv_def heap_lo_def sorted_wrt_append)
  have "rblocks h' s = rblocks h s" if "s \<in> set rs \<union> set ss" for s using rblocks_cong far that by blast
  then show "blocks (rs @ r' # ss) h' = blocks rs h \<union> rblocks h' r' \<union> blocks ss h" by (auto simp: blocks_def)
qed

lemma chunk_mapped:
  assumes "heap_inv rs h" "r \<in> set rs" "c \<in> set r"
  shows "heap_mapped c h" "c \<noteq> 0"
proof -
  have "region h r" "heap_lo h \<le> unat (hd r)" "unat (hd r) + 4096 \<le> unat (ar_va (mm_brk (uh_mm h)))" "0 < heap_lo h"
    using assms by (auto simp: heap_inv_def)
  then show "heap_mapped c h" "c \<noteq> 0"
    using region_range [of h r c] assms(3) unfolding heap_mapped_def heap_lo_def by auto
qed

section \<open>Allocation and release inside one page\<close>

lemma malloc_loop_chain:
  assumes "ctiles h a e 0 cs" "\<And>c. c \<in> set cs \<Longrightarrow> heap_mapped c h \<and> c \<noteq> 0"
  shows "malloc_loop (hd0 0 cs) sz h = Some (case find (\<lambda>c. \<not> ck_used (uh_chunk h c) \<and> sz \<le> ck_size (uh_chunk h c)) cs of None \<Rightarrow> 0 | Some c \<Rightarrow> c)"
  using assms
proof (induction cs arbitrary: a)
  case Nil
  then show ?case by (simp add: malloc_loop.simps)
next
  case (Cons c cs)
  then have "malloc_loop (hd0 0 cs) sz h = Some (case find (\<lambda>c. \<not> ck_used (uh_chunk h c) \<and> sz \<le> ck_size (uh_chunk h c)) cs of None \<Rightarrow> 0 | Some c \<Rightarrow> c)"
    by auto
  then show ?case using Cons.prems by (subst malloc_loop.simps) (auto simp: hdr_at_def)
qed

lemma free_merge_chain:
  assumes "ctiles h a e 0 cs" "\<And>c. c \<in> set cs \<Longrightarrow> heap_mapped c h \<and> c \<noteq> 0" "ck_magic (uh_chunk h k) = HEAP_MAGIC"
  shows "\<exists>free used. cs = free @ used \<and> free_loop_merge k (hd0 0 cs) sz h = Some (hd0 0 used, sz + sum_list (map (\<lambda>c. ck_size (uh_chunk h c)) free)) \<and>
    (\<forall>c\<in>set free. \<not> ck_used (uh_chunk h c))"
  using assms
proof (induction cs arbitrary: a sz)
  case Nil
  then show ?case by (simp add: free_loop_merge.simps)
next
  case (Cons c cs)
  show ?case
  proof (cases "ck_used (uh_chunk h c)")
    case True
    then have "free_loop_merge k (hd0 0 (c # cs)) sz h = Some (c, sz)" using Cons.prems by (subst free_loop_merge.simps) (auto simp: hdr_at_def)
    then show ?thesis by (intro exI [of _ "[]"] exI [of _ "c # cs"]) simp
  next
    case False
    then have "free_loop_merge k (hd0 0 (c # cs)) sz h = free_loop_merge k (hd0 0 cs) (sz + ck_size (uh_chunk h c)) h"
      using Cons.prems by (subst free_loop_merge.simps) (auto simp: hdr_at_def)
    moreover have "ctiles h (a + csize h c) e 0 cs" "\<And>x. x \<in> set cs \<Longrightarrow> heap_mapped x h \<and> x \<noteq> 0" using Cons.prems by auto
    then obtain free used where "cs = free @ used"
      "free_loop_merge k (hd0 0 cs) (sz + ck_size (uh_chunk h c)) h = Some (hd0 0 used, sz + ck_size (uh_chunk h c) + sum_list (map (\<lambda>c. ck_size (uh_chunk h c)) free))"
      "\<forall>c\<in>set free. \<not> ck_used (uh_chunk h c)"
      using Cons.IH Cons.prems(3) by blast
    ultimately show ?thesis using False by (intro exI [of _ "c # free"] exI [of _ used]) (simp add: add.assoc)
  qed
qed

text \<open>The sizes of merged chunks add up to the distance between the addresses.\<close>

lemma ctiles_sum:
  assumes "ctiles h a e nx cs" "e < 2 ^ 32"
  shows "a + unat (sum_list (map (\<lambda>c. ck_size (uh_chunk h c)) cs)) = e"
  using assms
proof (induction cs arbitrary: a)
  case (Cons c cs)
  then have "a + csize h c + unat (sum_list (map (\<lambda>c. ck_size (uh_chunk h c)) cs)) = e" by auto
  then show ?case using Cons.prems(2) by (simp add: unat_add_no_wrap)
qed simp

lemma region_alloc:
  assumes r: "region h (xs @ c # ys)" and top: "unat (hd (xs @ c # ys)) + 4096 < 2 ^ 32"
    and map: "\<And>p. unat (hd (xs @ c # ys)) \<le> unat p \<Longrightarrow> unat p + 12 \<le> unat (hd (xs @ c # ys)) + 4096 \<Longrightarrow> heap_mapped p h"
    and c: "\<not> ck_used (uh_chunk h c)" "sz \<le> ck_size (uh_chunk h c)" and sz: "12 \<le> unat sz" "even (unat sz)"
  shows "\<exists>h' zs m. alloc_chunk c sz h = Some (alloc_addr c, h') \<and> region h' (xs @ c # zs) \<and> unat sz \<le> m \<and>
     rblocks h' (xs @ c # zs) = insert (alloc_addr c, m - 12) (rblocks h (xs @ c # ys)) \<and>
     (\<forall>p. unat p < unat (hd (xs @ c # ys)) \<or> unat (hd (xs @ c # ys)) + 4096 \<le> unat p \<longrightarrow> uh_chunk h' p = uh_chunk h p) \<and>
     uh_mm h' = uh_mm h \<and> uh_head h' = uh_head h"
proof -
  let ?b = "unat (hd (xs @ c # ys))" and ?new = "c + sz" and ?f = "ck_size (uh_chunk h c) - sz"
  have t: "ctiles h ?b (?b + 4096) 0 (xs @ c # ys)" using r by (simp add: region_def)
  obtain parts: "ctiles h ?b (unat c) c xs" "ctiles h (unat c + csize h c) (?b + 4096) 0 ys" "ck_next (uh_chunk h c) = hd0 0 ys"
    "ck_magic (uh_chunk h c) = HEAP_MAGIC" "12 \<le> csize h c" "even (csize h c)" "?b \<le> unat c" "unat c + csize h c \<le> ?b + 4096"
    using t by (rule ctiles_split)
  have hdc: "hdr_at c h = Some (uh_chunk h c)" using map [of c] parts by (simp add: hdr_at_def)
  have szle: "unat sz \<le> csize h c" using c(2) by (simp add: word_le_nat_alt)
  have f: "unat ?f = csize h c - unat sz" using szle by (rule unat_sub_no_wrap)
  have new: "unat ?new = unat c + unat sz" using szle parts top by (intro unat_add_no_wrap) simp
  have cx: "c \<notin> set xs" "c \<notin> set ys" using ctiles_elsewhere [OF t] ctiles_range [OF t] parts(5) by fastforce+
  have hdxs: "hd (xs @ c # zs) = hd (xs @ c # ys)" for zs by (cases xs) auto
  show ?thesis
  proof (cases "?f < 12 + 2")
    case True
    define h' where "h' = upd_chunk c (\<lambda>k. k\<lparr>ck_used := True, ck_size := ck_size (uh_chunk h c)\<rparr>) h"
    have "alloc_chunk c sz h = Some (alloc_addr c, h')" using True c parts hdc by (simp add: alloc_chunk_def h'_def)
    moreover have same: "ctiles h' a e nx xs = ctiles h a e nx xs" "ctiles h' a e nx ys = ctiles h a e nx ys" for a e nx
      using cx by (auto intro!: ctiles_cong simp: h'_def)
    have rb: "rblocks h' xs = rblocks h xs" "rblocks h' ys = rblocks h ys" using cx by (auto intro!: rblocks_cong simp: h'_def)
    have "region h' (xs @ c # ys)" using parts unfolding region_def ctiles_append by (auto simp: same) (auto simp: h'_def)
    moreover have "rblocks h' (xs @ c # ys) = insert (alloc_addr c, csize h c - 12) (rblocks h (xs @ c # ys))"
      unfolding rblocks_simps rb using c by (simp add: h'_def Un_commute)
    moreover have "uh_chunk h' p = uh_chunk h p" if "unat p < ?b \<or> ?b + 4096 \<le> unat p" for p
      using that parts by (auto simp: h'_def)
    ultimately show ?thesis using szle by (intro exI [of _ h'] exI [of _ ys] exI [of _ "csize h c"]) (auto simp: h'_def)
  next
    case False
    have fs: "14 \<le> csize h c - unat sz" using False f by (simp add: word_less_nat_alt)
    have nc: "?new \<noteq> c" using new sz by auto
    have nx: "?new \<notin> set xs" "?new \<notin> set ys" using ctiles_elsewhere [OF t] ctiles_range [OF t] new fs szle by fastforce+
    define h' where "h' = (h\<lparr>uh_chunk := (uh_chunk h)(?new := (uh_chunk h ?new)\<lparr>ck_next := hd0 0 ys, ck_used := False, ck_magic := HEAP_MAGIC, ck_size := ?f\<rparr>,
      c := (uh_chunk h c)\<lparr>ck_next := ?new, ck_used := True, ck_size := sz\<rparr>), uh_tail := if c = uh_tail h then ?new else uh_tail h\<rparr>)"
    have "heap_mapped ?new h" using map [of ?new] new parts fs szle by simp
    then have "alloc_chunk c sz h = Some (alloc_addr c, h')"
      using False c parts hdc nc by (simp add: alloc_chunk_def chunk_init_def Let_def h'_def fun_upd_twist)
    moreover have same: "ctiles h' a e nx xs = ctiles h a e nx xs" "ctiles h' a e nx ys = ctiles h a e nx ys" for a e nx
      using cx nx by (auto intro!: ctiles_cong simp: h'_def)
    have rb: "rblocks h' xs = rblocks h xs" "rblocks h' ys = rblocks h ys" using cx nx by (auto intro!: rblocks_cong simp: h'_def)
    have "even (unat ?f)" using f sz parts szle by simp
    then have "region h' (xs @ c # ?new # ys)"
      using parts fs f new szle nc sz unfolding region_def ctiles_append hdxs [of "?new # ys"] by (auto simp: same) (auto simp: h'_def)
    moreover have "rblocks h' (xs @ c # ?new # ys) = insert (alloc_addr c, unat sz - 12) (rblocks h (xs @ c # ys))"
      unfolding rblocks_simps rb using c nc by (simp add: h'_def Un_commute)
    moreover have "uh_chunk h' p = uh_chunk h p" if "unat p < ?b \<or> ?b + 4096 \<le> unat p" for p
      using that parts new fs szle by (auto simp: h'_def)
    ultimately show ?thesis by (intro exI [of _ h'] exI [of _ "?new # ys"] exI [of _ "unat sz"]) (auto simp: h'_def)
  qed
qed

lemma rblocks_free: "(\<And>c. c \<in> set r \<Longrightarrow> \<not> ck_used (uh_chunk h c)) \<Longrightarrow> rblocks h r = {}"
  by (auto simp: rblocks_def)

lemma rblocks_notin: "c \<notin> set r \<Longrightarrow> (alloc_addr c, m) \<notin> rblocks h r"
  by (auto simp: rblocks_def alloc_addr_def)

text \<open>The call of \<^verbatim>\<open>free\<close> on a chunk: the free chunks \<open>fr\<close> behind it are merged into it.\<close>

lemma hd0_stop:
  assumes "ctiles h a e 0 (fr @ us)" "0 \<notin> set fr"
  shows "hd0 0 us = hd0 0 (fr @ us) \<longleftrightarrow> fr = []"
proof (cases fr)
  case (Cons f fs)
  have "hd0 0 us \<noteq> f"
  proof (cases us)
    case Nil
    then show ?thesis using Cons assms(2) by auto
  next
    case (Cons u us')
    have "ctiles h a e 0 ([] @ f # (fs @ u # us'))" using assms(1) Cons \<open>fr = f # fs\<close> by simp
    then show ?thesis using ctiles_elsewhere(2) [of h a e 0 "[]" f "fs @ u # us'" u] ctiles_range [of h a e 0 _ f] Cons by fastforce
  qed
  then show ?thesis using Cons by simp
qed simp

definition freed :: "ptr_t \<Rightarrow> ptr_t list \<Rightarrow> ptr_t list \<Rightarrow> uheap \<Rightarrow> uheap" where
  "freed c fr us h = h\<lparr>uh_chunk := (uh_chunk h)(c := (uh_chunk h c)\<lparr>ck_used := False, ck_next := hd0 0 us,
       ck_size := ck_size (uh_chunk h c) + sum_list (map (\<lambda>x. ck_size (uh_chunk h x)) fr)\<rparr>),
     uh_tail := if fr \<noteq> [] \<and> hd0 0 us = 0 then c else uh_tail h\<rparr>"

lemma freed_simps [simp]:
  "uh_mm (freed c fr us h) = uh_mm h" "uh_head (freed c fr us h) = uh_head h"
  "x \<noteq> c \<Longrightarrow> uh_chunk (freed c fr us h) x = uh_chunk h x"
  "uh_chunk (freed c fr us h) c = (uh_chunk h c)\<lparr>ck_used := False, ck_next := hd0 0 us,
     ck_size := ck_size (uh_chunk h c) + sum_list (map (\<lambda>x. ck_size (uh_chunk h x)) fr)\<rparr>"
  by (simp_all add: freed_def)

lemma free_call:
  assumes t: "ctiles h a e 0 ys" and c: "heap_mapped c h" "ck_used (uh_chunk h c)" "ck_magic (uh_chunk h c) = HEAP_MAGIC"
    "ck_next (uh_chunk h c) = hd0 0 ys" "c \<notin> set ys" and map: "\<And>p. p \<in> set ys \<Longrightarrow> heap_mapped p h \<and> p \<noteq> 0"
  shows "\<exists>fr us. ys = fr @ us \<and> (\<forall>x\<in>set fr. \<not> ck_used (uh_chunk h x)) \<and> free (alloc_addr c) h = Some (freed c fr us h)"
proof -
  let ?h = "upd_chunk c (\<lambda>k. k\<lparr>ck_used := False\<rparr>) h"
  have same: "uh_chunk ?h x = uh_chunk h x" if "x \<in> set ys" for x using that c(5) by auto
  have t1: "ctiles ?h a e 0 ys" using t ctiles_cong [OF same] by blast
  have t2: "heap_mapped x ?h \<and> x \<noteq> 0" if "x \<in> set ys" for x using map [of x] that by (simp add: heap_mapped_def)
  have t3: "ck_magic (uh_chunk ?h c) = HEAP_MAGIC" using c(3) by simp
  obtain fr us where fu: "ys = fr @ us" and loop: "free_loop_merge c (hd0 0 ys) (ck_size (uh_chunk h c)) ?h =
      Some (hd0 0 us, ck_size (uh_chunk h c) + sum_list (map (\<lambda>x. ck_size (uh_chunk ?h x)) fr))"
    and free: "\<forall>x\<in>set fr. \<not> ck_used (uh_chunk ?h x)"
    using free_merge_chain [OF t1 t2 t3, of "ck_size (uh_chunk h c)"] by blast
  have sm: "sum_list (map (\<lambda>x. ck_size (uh_chunk ?h x)) fr) = sum_list (map (\<lambda>x. ck_size (uh_chunk h x)) fr)"
    using same fu by (intro arg_cong [of _ _ sum_list] map_cong) auto
  have stop: "hd0 0 us = hd0 0 ys \<longleftrightarrow> fr = []" using hd0_stop t map unfolding fu by fastforce
  have "free (alloc_addr c) h = Some (freed c fr us h)"
  proof (cases "fr = []")
    case True
    then have e: "(uh_chunk h c)\<lparr>ck_used := False, ck_next := hd0 0 us, ck_size := ck_size (uh_chunk h c)\<rparr> = (uh_chunk h c)\<lparr>ck_used := False\<rparr>"
      using c(4) fu by (cases "uh_chunk h c") simp
    have "freed c fr us h = ?h" using True e unfolding freed_def by simp
    then show ?thesis using c loop True fu by (simp add: free_def chunk_header_def alloc_addr_def hdr_at_def)
  next
    case False
    then show ?thesis using c loop [unfolded sm] stop
      by (simp add: free_def chunk_header_def alloc_addr_def hdr_at_def freed_def)
  qed
  moreover have "\<forall>x\<in>set fr. \<not> ck_used (uh_chunk h x)" using free same fu by auto
  ultimately show ?thesis using fu by blast
qed

lemma region_freed:
  assumes r: "region h (xs @ c # fr @ us)" and top: "unat (hd (xs @ c # fr @ us)) + 4096 < 2 ^ 32"
    and fr: "\<forall>x\<in>set fr. \<not> ck_used (uh_chunk h x)" and c: "ck_used (uh_chunk h c)"
  shows "region (freed c fr us h) (xs @ c # us)"
    "rblocks (freed c fr us h) (xs @ c # us) = rblocks h (xs @ c # fr @ us) - {(alloc_addr c, csize h c - 12)}"
proof -
  let ?b = "unat (hd (xs @ c # fr @ us))" and ?h = "freed c fr us h"
  have t: "ctiles h ?b (?b + 4096) 0 (xs @ c # fr @ us)" using r by (simp add: region_def)
  obtain parts: "ctiles h ?b (unat c) c xs" "ctiles h (unat c + csize h c) (?b + 4096) 0 (fr @ us)"
    "ck_magic (uh_chunk h c) = HEAP_MAGIC" "12 \<le> csize h c" "even (csize h c)" using t by (rule ctiles_split)
  have cx: "c \<notin> set xs" "c \<notin> set us" "c \<notin> set fr" using ctiles_elsewhere [OF t] ctiles_range [OF t] parts(4) by fastforce+
  obtain m where m: "ctiles h (unat c + csize h c) m (hd0 0 us) fr" "ctiles h m (?b + 4096) 0 us" using parts(2) by (auto simp: ctiles_append)
  have total: "unat (ck_size (uh_chunk h c) + sum_list (map (\<lambda>x. ck_size (uh_chunk h x)) fr)) = m - unat c" "unat c + csize h c \<le> m" "m \<le> ?b + 4096"
    using ctiles_sum [OF m(1)] ctiles_le [OF m(1)] ctiles_le [OF m(2)] top by (auto simp: unat_add_no_wrap)
  have same: "uh_chunk ?h x = uh_chunk h x" if "x \<in> set xs \<union> set us" for x using that cx by (intro freed_simps(3)) auto
  have "hd (xs @ c # us) = hd (xs @ c # fr @ us)" by (cases xs) auto
  moreover have "ctiles ?h a e nx xs = ctiles h a e nx xs" "ctiles ?h a e nx us = ctiles h a e nx us" for a e nx
    using same by (auto intro!: ctiles_cong)
  moreover have "even (m - unat c)" using ctiles_even [OF m(1)] parts(5) total(2) by simp
  ultimately show "region ?h (xs @ c # us)" using parts m total unfolding region_def ctiles_append by auto
  have "rblocks ?h xs = rblocks h xs" "rblocks ?h us = rblocks h us" using same by (auto intro!: rblocks_cong)
  moreover have "rblocks h fr = {}" using fr by (intro rblocks_free) auto
  ultimately show "rblocks ?h (xs @ c # us) = rblocks h (xs @ c # fr @ us) - {(alloc_addr c, csize h c - 12)}"
    using c rblocks_notin cx by (auto simp: rblocks_simps)
qed

section \<open>Allocation and release in the heap\<close>

lemma region_top:
  assumes "heap_inv rs h" "r \<in> set rs"
  shows "region h r" "unat (hd r) + 4096 < 2 ^ 32"
    "unat (hd r) \<le> unat p \<Longrightarrow> unat p + 12 \<le> unat (hd r) + 4096 \<Longrightarrow> heap_mapped p h"
proof -
  have r: "region h r" "heap_lo h \<le> unat (hd r)" "unat (hd r) + 4096 \<le> unat (ar_va (mm_brk (uh_mm h)))" using assms by (auto simp: heap_inv_def)
  then show "region h r" "unat (hd r) + 4096 < 2 ^ 32" using unat_u32_lt [of "ar_va (mm_brk (uh_mm h))"] by auto
  show "unat (hd r) \<le> unat p \<Longrightarrow> unat p + 12 \<le> unat (hd r) + 4096 \<Longrightarrow> heap_mapped p h" using r by (simp add: heap_mapped_def heap_lo_def)
qed

lemma unused_fresh:
  assumes "heap_inv rs h" "r \<in> set rs" "c \<in> set r" "\<not> ck_used (uh_chunk h c)"
  shows "alloc_addr c \<notin> fst ` blocks rs h"
  using assms(4) by (auto simp: blocks_def rblocks_def alloc_addr_def)

lemma alloc_in_heap:
  assumes inv: "heap_inv (rs @ (xs @ c # ys) # ss) h" and c: "\<not> ck_used (uh_chunk h c)" "sz \<le> ck_size (uh_chunk h c)"
    and sz: "12 \<le> unat sz" "even (unat sz)"
  shows "\<exists>h' rs' m. alloc_chunk c sz h = Some (alloc_addr c, h') \<and> heap_inv rs' h' \<and> unat sz \<le> m \<and>
    blocks rs' h' = insert (alloc_addr c, m - 12) (blocks (rs @ (xs @ c # ys) # ss) h) \<and> uh_mm h' = uh_mm h"
proof -
  let ?r = "xs @ c # ys"
  have r: "?r \<in> set (rs @ ?r # ss)" by simp
  obtain h' zs m where h': "alloc_chunk c sz h = Some (alloc_addr c, h')" "region h' (xs @ c # zs)" "unat sz \<le> m"
    "rblocks h' (xs @ c # zs) = insert (alloc_addr c, m - 12) (rblocks h ?r)"
    "\<forall>p. unat p < unat (hd ?r) \<or> unat (hd ?r) + 4096 \<le> unat p \<longrightarrow> uh_chunk h' p = uh_chunk h p" "uh_mm h' = uh_mm h" "uh_head h' = uh_head h"
    using region_alloc [OF region_top [OF inv r] c sz] by blast
  have "hd (xs @ c # zs) = hd ?r" by (cases xs) auto
  then have "heap_inv (rs @ (xs @ c # zs) # ss) h'"
    "blocks (rs @ (xs @ c # zs) # ss) h' = blocks rs h \<union> rblocks h' (xs @ c # zs) \<union> blocks ss h"
    using heap_inv_upd [OF inv h'(2)] h' by blast+
  then show ?thesis using h' by (intro exI [of _ h'] exI [of _ "rs @ (xs @ c # zs) # ss"] exI [of _ m]) auto
qed

lemma sbrk_result:
  assumes "sbrk 4096 (Some mm) u = Some (b, mm', u')"
  shows "b = ar_va (mm_brk mm)" "mm_brk mm' = (mm_brk mm)\<lparr>ar_va := ar_va (mm_brk mm) + 4096, ar_size := ar_size (mm_brk mm) + 4096\<rparr>"
proof -
  have "PAGE_CEIL 4096 = 4096" by (simp add: PAGE_CEIL_eq mask_eq_exp_minus_1)
  then show "b = ar_va (mm_brk mm)" "mm_brk mm' = (mm_brk mm)\<lparr>ar_va := ar_va (mm_brk mm) + 4096, ar_size := ar_size (mm_brk mm) + 4096\<rparr>"
    using assms by (auto simp: sbrk_def Let_def returned)
qed

text \<open>The state after a new page has been taken and its chunk header written.\<close>

definition grown :: "ptr_t \<Rightarrow> mm_struct \<Rightarrow> umem \<Rightarrow> uheap \<Rightarrow> uheap" where
  "grown b mm u h = (upd_chunk b (\<lambda>c. c\<lparr>ck_next := 0, ck_used := False, ck_magic := HEAP_MAGIC, ck_size := 4096\<rparr>)
     (h\<lparr>uh_mm := mm, uh_um := u, uh_head := if uh_head h = 0 then b else uh_head h\<rparr>))\<lparr>uh_tail := b\<rparr>"

lemma heap_grow:
  assumes inv: "heap_inv rs h" and sb: "sbrk 4096 (Some (uh_mm h)) (uh_um h) = Some (b, mm, u)"
    and top: "unat (ar_va (mm_brk (uh_mm h))) + 4096 < 2 ^ 32"
  shows "heap_inv (rs @ [[b]]) (grown b mm u h)" "blocks (rs @ [[b]]) (grown b mm u h) = blocks rs h"
    "heap_mapped b (h\<lparr>uh_mm := mm\<rparr>)" "b \<noteq> 0"
proof -
  let ?h = "grown b mm u h"
  note s = sbrk_result [OF sb]
  have lo: "0 < heap_lo h" "even (unat b)" using inv s(1) by (auto simp: heap_inv_def)
  have va: "unat (ar_va (mm_brk mm)) = unat b + 4096" using s top by (simp add: unat_add_no_wrap)
  have "unat (ar_size (mm_brk (uh_mm h))) < unat b" using lo(1) s(1) by (simp add: heap_lo_def)
  then have sz: "unat (ar_size (mm_brk mm)) = unat (ar_size (mm_brk (uh_mm h))) + 4096" using s top by (simp add: unat_add_no_wrap)
  have lo': "heap_lo ?h = heap_lo h" "heap_lo h \<le> unat b" using va sz s(1) by (simp_all add: heap_lo_def grown_def)
  show b0: "b \<noteq> 0" and "heap_mapped b (h\<lparr>uh_mm := mm\<rparr>)" using lo lo' va by (auto simp: heap_mapped_def heap_lo_def grown_def)
  have near: "unat (hd r) + 4096 \<le> unat b" "region h r" if "r \<in> set rs" for r using inv that s(1) by (auto simp: heap_inv_def)
  have same: "uh_chunk ?h c = uh_chunk h c" if "r \<in> set rs" "c \<in> set r" for r c
    using near [OF that(1)] region_range [of h r c] that(2) by (auto simp: grown_def)
  have old: "region ?h r = region h r" if "r \<in> set rs" for r using ctiles_cong [OF same [OF that]] by (simp add: region_def)
  have new: "region ?h [b]" by (simp add: region_def grown_def)
  have "uh_head h = 0 \<longleftrightarrow> rs = []"
    using inv lo(1) by (cases rs) (auto simp: heap_inv_def)
  then have "uh_head ?h = (case rs @ [[b]] of [] \<Rightarrow> 0 | r # _ \<Rightarrow> hd r)" using inv by (cases rs) (auto simp: heap_inv_def grown_def)
  moreover have "uh_mm ?h = mm" by (simp add: grown_def)
  ultimately show "heap_inv (rs @ [[b]]) ?h"
    using inv new near lo lo' va old s(1) unfolding heap_inv_def by (auto simp: sorted_wrt_append)
  have "rblocks ?h r = rblocks h r" if "r \<in> set rs" for r using rblocks_cong same that by blast
  moreover have "rblocks ?h [b] = {}" by (simp add: rblocks_simps grown_def)
  ultimately show "blocks (rs @ [[b]]) ?h = blocks rs h" by (simp add: blocks_def)
qed

text \<open>\<^verbatim>\<open>malloc\<close> can get a page from the kernel if it needs one, and the request fits into a page.\<close>

definition malloc_ready :: "u32 \<Rightarrow> uheap \<Rightarrow> bool" where
  "malloc_ready n h \<longleftrightarrow> unat n \<le> 4084 \<and> sbrk 4096 (Some (uh_mm h)) (uh_um h) \<noteq> None \<and> unat (ar_va (mm_brk (uh_mm h))) + 4096 < 2 ^ 32"

lemma unat_ALIGN: "unat n + 13 < 2 ^ 32 \<Longrightarrow> unat (ALIGN (n + 12) 2) = (unat n + 13) div 2 * 2"
proof -
  assume n: "unat n + 13 < 2 ^ 32"
  then have "unat (n + 12 + 2 - 1) = unat n + 13" by (simp add: unat_add_no_wrap)
  moreover have "ALIGN (n + 12) 2 = (n + 12 + 2 - 1) AND NOT (mask 1)" by (simp add: ALIGN_def)
  ultimately show ?thesis by (simp only: unat_and_not_mask) simp
qed

lemma malloc_size:
  assumes "malloc_ready n h"
  shows "12 \<le> unat (ALIGN (n + 12) 2)" "even (unat (ALIGN (n + 12) 2))" "unat n + 12 \<le> unat (ALIGN (n + 12) 2)" "unat (ALIGN (n + 12) 2) \<le> 4096"
proof -
  have n: "unat n \<le> 4084" using assms by (simp add: malloc_ready_def)
  then have "unat (ALIGN (n + 12) 2) = (unat n + 13) div 2 * 2" by (intro unat_ALIGN) simp
  then show "12 \<le> unat (ALIGN (n + 12) 2)" "even (unat (ALIGN (n + 12) 2))" "unat n + 12 \<le> unat (ALIGN (n + 12) 2)" "unat (ALIGN (n + 12) 2) \<le> 4096"
    using n by auto
qed

lemma malloc_search:
  assumes "heap_inv rs h"
  shows "(\<exists>r ss c. rs = r # ss \<and> c \<in> set r \<and> \<not> ck_used (uh_chunk h c) \<and> sz \<le> ck_size (uh_chunk h c) \<and> malloc_loop (uh_head h) sz h = Some c) \<or>
    (\<forall>r ss c. rs = r # ss \<longrightarrow> c \<in> set r \<longrightarrow> ck_used (uh_chunk h c) \<or> \<not> sz \<le> ck_size (uh_chunk h c)) \<and> malloc_loop (uh_head h) sz h = Some 0"
proof (cases rs)
  case Nil
  then show ?thesis using assms by (simp add: heap_inv_def malloc_loop.simps)
next
  case (Cons r ss)
  have r: "r \<in> set rs" using Cons by simp
  then have t: "ctiles h (unat (hd r)) (unat (hd r) + 4096) 0 r" "r \<noteq> []" using assms by (auto simp: heap_inv_def region_def)
  have "uh_head h = hd0 0 r" using assms Cons t(2) by (cases r) (auto simp: heap_inv_def)
  then have loop: "malloc_loop (uh_head h) sz h = Some (case find (\<lambda>c. \<not> ck_used (uh_chunk h c) \<and> sz \<le> ck_size (uh_chunk h c)) r of None \<Rightarrow> 0 | Some c \<Rightarrow> c)"
    using malloc_loop_chain [OF t(1)] chunk_mapped [OF assms r] by simp
  show ?thesis
  proof (cases "find (\<lambda>c. \<not> ck_used (uh_chunk h c) \<and> sz \<le> ck_size (uh_chunk h c)) r")
    case None
    then have "malloc_loop (uh_head h) sz h = Some 0" using loop by simp
    then show ?thesis using None Cons by (simp add: find_None_iff)
  next
    case (Some c)
    then have "c \<in> set r" "\<not> ck_used (uh_chunk h c)" "sz \<le> ck_size (uh_chunk h c)" by (auto simp: find_Some_iff)
    then show ?thesis using loop Cons Some by auto
  qed
qed

lemma malloc_grow:
  assumes "heap_inv rs h" "sbrk 4096 (Some (uh_mm h)) (uh_um h) = Some (b, mm, u)" "unat (ar_va (mm_brk (uh_mm h))) + 4096 < 2 ^ 32"
    "malloc_loop (uh_head h) (ALIGN (n + 12) 2) h = Some 0"
  shows "malloc n h = alloc_chunk b (ALIGN (n + 12) 2) (grown b mm u h)"
  using heap_grow(3,4) [OF assms(1-3)] assms(2,4)
  by (auto simp: malloc_def Let_def chunk_init_def grown_def heap_mapped_def)

lemma malloc_ok:
  assumes inv: "heap_inv rs h" and ready: "malloc_ready n h"
  shows "\<exists>p h' rs' m. malloc n h = Some (p, h') \<and> heap_inv rs' h' \<and> unat n \<le> m \<and> p \<notin> fst ` blocks rs h \<and> blocks rs' h' = insert (p, m) (blocks rs h)"
proof -
  let ?sz = "ALIGN (n + 12) 2"
  note sz = malloc_size [OF ready]
  consider (old) r ss c where "rs = r # ss" "c \<in> set r" "\<not> ck_used (uh_chunk h c)" "?sz \<le> ck_size (uh_chunk h c)" "malloc_loop (uh_head h) ?sz h = Some c"
    | (new) "malloc_loop (uh_head h) ?sz h = Some 0" using malloc_search [OF inv, of ?sz] by blast
  then show ?thesis
  proof cases
    case old
    obtain xs ys where r: "r = xs @ c # ys" using split_list [OF old(2)] by blast
    obtain h' rs' m where "alloc_chunk c ?sz h = Some (alloc_addr c, h')" "heap_inv rs' h'" "unat ?sz \<le> m"
      "blocks rs' h' = insert (alloc_addr c, m - 12) (blocks rs h)"
      using alloc_in_heap [of "[]" xs c ys ss h ?sz] inv old sz r by auto
    moreover have "c \<noteq> 0" using chunk_mapped [OF inv _ old(2)] old(1) by simp
    then have "malloc n h = alloc_chunk c ?sz h" using old(5) by (simp add: malloc_def)
    ultimately show ?thesis using unused_fresh [OF inv _ old(2,3)] old(1) sz(3)
      by (intro exI [of _ "alloc_addr c"] exI [of _ h'] exI [of _ rs'] exI [of _ "m - 12"]) auto
  next
    case new
    obtain b mm u where b: "sbrk 4096 (Some (uh_mm h)) (uh_um h) = Some (b, mm, u)" and top: "unat (ar_va (mm_brk (uh_mm h))) + 4096 < 2 ^ 32"
      using ready by (auto simp: malloc_ready_def)
    let ?h = "grown b mm u h"
    note g = heap_grow [OF inv b top]
    have c: "\<not> ck_used (uh_chunk ?h b)" "?sz \<le> ck_size (uh_chunk ?h b)" using sz(4) by (simp_all add: grown_def word_le_nat_alt)
    obtain h' rs' m where "alloc_chunk b ?sz ?h = Some (alloc_addr b, h')" "heap_inv rs' h'" "unat ?sz \<le> m"
      "blocks rs' h' = insert (alloc_addr b, m - 12) (blocks rs h)"
      using alloc_in_heap [of rs "[]" b "[]" "[]" ?h ?sz] g c sz by auto
    then show ?thesis using unused_fresh [OF g(1) _ _ c(1), of "[b]"] g(2) malloc_grow [OF inv b top new] sz(3)
      by (intro exI [of _ "alloc_addr b"] exI [of _ h'] exI [of _ rs'] exI [of _ "m - 12"]) auto
  qed
qed

lemma free_ok:
  assumes inv: "heap_inv rs h" and p: "(p, m) \<in> blocks rs h"
  shows "\<exists>h' rs'. free p h = Some h' \<and> heap_inv rs' h' \<and> blocks rs' h' = blocks rs h - {(p, m)}"
proof -
  obtain r c where c: "r \<in> set rs" "c \<in> set r" "p = alloc_addr c" "m = csize h c - 12" "ck_used (uh_chunk h c)"
    using p by (auto simp: blocks_def rblocks_def)
  obtain ra rb where rs: "rs = ra @ r # rb" using split_list [OF c(1)] by blast
  obtain xs ys where r: "r = xs @ c # ys" using split_list [OF c(2)] by blast
  note top = region_top [OF inv c(1)] and mapped = chunk_mapped [OF inv c(1)]
  have t: "ctiles h (unat (hd r)) (unat (hd r) + 4096) 0 (xs @ c # ys)" using top(1) r by (simp add: region_def)
  have "c \<notin> set ys" using ctiles_elsewhere(2) [OF t] ctiles_range [OF t, of c] by fastforce
  then obtain fr us where f: "ys = fr @ us" "\<forall>x\<in>set fr. \<not> ck_used (uh_chunk h x)" "free p h = Some (freed c fr us h)"
    using t c(3,5) mapped r by (auto elim!: ctiles_split dest!: free_call [of h _ _ ys c])
  note freed = region_freed [of h xs c fr us, folded f(1), folded r, OF top(1,2) f(2) c(5)]
  have hd: "hd (xs @ c # us) = hd r" using r by (cases xs) auto
  have same: "uh_chunk (freed c fr us h) x = uh_chunk h x" if "unat x < unat (hd r) \<or> unat (hd r) + 4096 \<le> unat x" for x
    using that ctiles_range [OF t, of c] by (intro freed_simps(3)) auto
  have "heap_inv (ra @ (xs @ c # us) # rb) (freed c fr us h)"
    "blocks (ra @ (xs @ c # us) # rb) (freed c fr us h) = blocks ra h \<union> rblocks (freed c fr us h) (xs @ c # us) \<union> blocks rb h"
    using heap_inv_upd [OF inv [unfolded rs] freed(1) hd same] by simp_all
  moreover have "c \<notin> set s" if "s \<in> set ra \<union> set rb" for s
  proof -
    have "region h s" "unat (hd r) + 4096 \<le> unat (hd s) \<or> unat (hd s) + 4096 \<le> unat (hd r)"
      using inv that by (auto simp: heap_inv_def rs sorted_wrt_append)
    then show ?thesis using region_range [of h s c] region_range [OF top(1) c(2)] by auto
  qed
  then have "(p, m) \<notin> blocks ra h \<union> blocks rb h" using rblocks_notin c(3) by (auto simp: blocks_def)
  ultimately show ?thesis using f(3) freed(2) c(3,4) rs by (intro exI [of _ "freed c fr us h"] exI [of _ "ra @ (xs @ c # us) # rb"]) auto
qed

section \<open>The contract of a heap\<close>

text \<open>
  What a program relies on: a request returns a new block of at least the size asked for and changes
  nothing else it holds, a release takes exactly that block away, and two blocks never overlap.
\<close>

locale block_heap =
  fixes alloc :: "u32 \<Rightarrow> 's \<Rightarrow> (ptr_t \<times> 's) option" and release :: "ptr_t \<Rightarrow> 's \<Rightarrow> 's option"
    and ok :: "'w \<Rightarrow> 's \<Rightarrow> bool" and held :: "'w \<Rightarrow> 's \<Rightarrow> (ptr_t \<times> nat) set" and ready :: "u32 \<Rightarrow> 's \<Rightarrow> bool"
  assumes alloc_law: "ok w s \<Longrightarrow> ready n s \<Longrightarrow> \<exists>p s' w' m. alloc n s = Some (p, s') \<and> ok w' s' \<and> unat n \<le> m \<and>
      p \<notin> fst ` held w s \<and> held w' s' = insert (p, m) (held w s)"
    and release_law: "ok w s \<Longrightarrow> (p, m) \<in> held w s \<Longrightarrow> \<exists>s' w'. release p s = Some s' \<and> ok w' s' \<and> held w' s' = held w s - {(p, m)}"
    and apart_law: "ok w s \<Longrightarrow> (p, m) \<in> held w s \<Longrightarrow> (q, k) \<in> held w s \<Longrightarrow> p \<noteq> q \<Longrightarrow> unat p + m \<le> unat q \<or> unat q + k \<le> unat p"
begin

lemma alloc_apart:
  assumes "ok w s" "ready n s"
  shows "\<exists>p s' w' m. alloc n s = Some (p, s') \<and> ok w' s' \<and> unat n \<le> m \<and> held w' s' = insert (p, m) (held w s) \<and>
    (\<forall>(q, k)\<in>held w s. q \<noteq> p \<and> (unat q + k \<le> unat p \<or> unat p + m \<le> unat q))"
proof -
  obtain p s' w' m where a: "alloc n s = Some (p, s')" "ok w' s'" "unat n \<le> m" "p \<notin> fst ` held w s" "held w' s' = insert (p, m) (held w s)"
    using alloc_law [OF assms] by blast
  have "q \<noteq> p \<and> (unat q + k \<le> unat p \<or> unat p + m \<le> unat q)" if "(q, k) \<in> held w s" for q k
  proof -
    have "q \<noteq> p" using that a(4) by (auto simp: rev_image_eqI)
    then show ?thesis using apart_law [OF a(2), of q k p m] a(5) that by auto
  qed
  then show ?thesis using a by blast
qed

lemma alloc_release:
  assumes "ok w s" "ready n s"
  shows "\<exists>p s1 s2 w2. alloc n s = Some (p, s1) \<and> release p s1 = Some s2 \<and> ok w2 s2 \<and> held w2 s2 = held w s"
proof -
  obtain p s1 w1 m where a: "alloc n s = Some (p, s1)" "ok w1 s1" "p \<notin> fst ` held w s" "held w1 s1 = insert (p, m) (held w s)"
    using alloc_law [OF assms] by blast
  then obtain s2 w2 where "release p s1 = Some s2" "ok w2 s2" "held w2 s2 = held w1 s1 - {(p, m)}"
    using release_law [OF a(2), of p m] by auto
  moreover have "(p, m) \<notin> held w s" using a(3) by (auto simp: rev_image_eqI)
  ultimately show ?thesis using a by auto
qed

end

interpretation uh: block_heap malloc free heap_inv blocks malloc_ready
  by unfold_locales (fact malloc_ok, fact free_ok, fact blocks_apart)

section \<open>The kernel side\<close>

text \<open>\<^verbatim>\<open>sbrk\<close> succeeds when a page is free and the page table of the break exists.\<close>

lemma split_block_data:
  "split_block pg d j s = Some s' \<Longrightarrow> pg_data (ba_pages s' i) = pg_data (ba_pages s i) \<and> ba_addr s' = ba_addr s \<and> ba_npages s' = ba_npages s"
proof (induction pg d j s rule: split_block.induct)
  case (2 pg d j s)
  then show ?case by (auto simp: Let_def split: if_splits)
qed simp

lemma alloc_page_data:
  assumes "alloc_page_core sz s = Some (pg, s')"
  shows "pg_data (ba_pages s' i) = pg_data (ba_pages s i)" "ba_addr s' = ba_addr s" "ba_npages s' = ba_npages s"
  using assms by (auto simp: alloc_page_core_def Let_def returned split: if_splits dest!: split_block_data [of _ _ _ _ _ i])

lemma sbrk_ok:
  assumes "buddy_inv (um_pmm u)" "free_region (um_pmm u) i 0" "4096 dvd unat (ba_addr (um_pmm u))"
    and t: "table_at u (mm_pgdir mm) d D" "d < 1024" "j < 1024" and va: "ar_va (mm_brk mm) = vaddr d j"
  shows "sbrk 4096 (Some mm) u \<noteq> None"
proof -
  have "fixSize 4096 = ORDER_SIZE 0" by (simp add: fixSize_def IS_POWER_OF_2_def ORDER_SIZE_eq)
  then obtain pg s where a: "alloc_page_core 4096 (um_pmm u) = Some (pg, s)"
    using alloc_page_cases [OF assms(1), of 4096 0] assms(2) by (auto split: option.splits)
  have "get_page x s = get_page x (um_pmm u)" for x by (simp add: get_page_def alloc_page_data [OF a])
  then have "table_at (upd_um_pmm s u) (mm_pgdir mm) d D" using t(1) alloc_page_data [OF a] by (simp add: table_at_def)
  note it = vm_page_iter_table [OF this t(2,3), of True]
  have al: "PAGE_CEIL (vaddr d j) = vaddr d j" "PAGE_CEIL 4096 = 4096"
    using unat_vaddr [OF t(2,3)] by (simp_all add: PAGE_CEIL_eq word_unat_eq_iff unat_and_not_mask)
  have "4096 dvd unat (page_addr pg s)"
    using assms(3) alloc_page_data [OF a] by (simp add: page_addr_def unat_word_ariths unsigned_push_bit_eq push_bit_eq_mult dvd_mod)
  then have "page_addr pg s AND PAGE_MASK = 0" by (simp add: page_aligned_iff)
  then show ?thesis using a it va al by (simp add: sbrk_def vm_maps_def Let_def vm_maps_loop.simps)
qed

text \<open>An address space with a page table for its break, and a kernel with free pages.\<close>

lemma demo_uspace:
  obtains mm u where "unat (ar_va (mm_brk mm)) = 0x2006000" "ar_size (mm_brk mm) = sz" "sbrk 4096 (Some mm) u \<noteq> None"
proof (rule small_buddy)
  fix s assume s: "buddy_inv s" "in_use s = (\<lambda>_. None)" "ba_pageCnt s = 4" "free_region s 0 0" "ba_npages s = 4" "ba_addr s = 0x100000"
  fix u0 :: umem and h0 :: kheap and k0 :: kmem and m0 :: mm_struct
  have fx: "fixSize 4096 = ORDER_SIZE 0" by (simp add: fixSize_def IS_POWER_OF_2_def ORDER_SIZE_eq)
  obtain pg s1 where a: "alloc_page_core 4096 s = Some (pg, s1)"
    using alloc_page_cases [OF s(1) fx] s(4) by (auto split: option.splits)
  then have a1: "buddy_inv s1" "in_use s1 = (in_use s)(pg \<mapsto> 0)" "free_region s pg 0" "ba_pageCnt s1 = 4"
    using alloc_page_cases [OF s(1) fx] s(3) by simp_all
  define i where "i = (if pg = 0 then 1 else 0 :: nat)"
  have fr: "free_region s1 i 0" using a1 s(2) by (auto simp: free_region_def i_def)
  have pg: "pg < 4" using a1(3) s(3) by (simp add: free_region_def)
  define u where "u = u0\<lparr>um_heap := h0\<lparr>kh_mem := k0\<lparr>km_pmm := s1, km_word := (\<lambda>_. page_addr pg s1 OR 7)\<rparr>\<rparr>\<rparr>"
  have ad: "ba_addr s1 = 0x100000" "ba_npages s1 = 4" using alloc_page_data [OF a] s(5,6) by simp_all
  define mm where "mm = m0\<lparr>mm_brk := \<lparr>ar_va = vaddr 8 6, ar_size = sz, ar_flag = 7\<rparr>, mm_pgdir := 0xc0200000\<rparr>"
  have al: "4096 dvd unat (page_addr pg s1)" "get_page (page_addr pg s1) s1 = Some (Some pg)"
    using unat_page_addr [of s1 pg] get_page_page_addr [of s1 pg] ad pg by simp_all
  have "PAGE_CEIL (page_addr pg s1 OR 7) = page_addr pg s1" using al(1) by (rule PAGE_CEIL_or_flags) simp
  moreover have "(page_addr pg s1 OR 7) AND VM_PRES \<noteq> 0"
  proof -
    have "bit ((page_addr pg s1 OR 7) AND VM_PRES) 0" by (simp add: VM_PRES_def bit_simps)
    then show ?thesis by auto
  qed
  ultimately have "table_at u (mm_pgdir mm) 8 (pg_data (ba_pages s1 pg))" using al(2) by (simp add: table_at_def u_def)
  then have "sbrk 4096 (Some mm) u \<noteq> None"
    using sbrk_ok [of u i mm 8 _ 6] a1(1) fr ad by (simp add: u_def mm_def)
  then show thesis using unat_vaddr [of 8 6] by (intro that [of mm u]) (auto simp: mm_def)
qed

text \<open>A process without a heap, and one whose first page is one block.\<close>

lemma demo_uheap:
  assumes "unat n \<le> 4084"
  obtains h where "heap_inv [] h" "malloc_ready n h" "unat (ar_va (mm_brk (uh_mm h))) = 0x2006000"
proof (rule demo_uspace [of 0])
  fix mm u assume "unat (ar_va (mm_brk mm)) = 0x2006000" "ar_size (mm_brk mm) = 0" "sbrk 4096 (Some mm) u \<noteq> None"
  then show thesis using assms
    by (intro that [of "\<lparr>uh_chunk = undefined, uh_head = 0, uh_tail = 0, uh_mm = mm, uh_um = u\<rparr>"])
      (auto simp: heap_inv_def heap_lo_def malloc_ready_def)
qed

lemma demo_full_page:
  assumes "unat n \<le> 4084"
  obtains h where "heap_inv [[0x2005000]] h" "malloc_ready n h" "ck_used (uh_chunk h 0x2005000)" "ar_va (mm_brk (uh_mm h)) = 0x2006000"
proof (rule demo_uspace [of 4096])
  fix mm u assume a: "unat (ar_va (mm_brk mm)) = 0x2006000" "ar_size (mm_brk mm) = 4096" "sbrk 4096 (Some mm) u \<noteq> None"
  then have "ar_va (mm_brk mm) = 0x2006000" by (simp add: word_unat_eq_iff)
  then show thesis using a assms
    by (intro that [of "\<lparr>uh_chunk = \<lambda>_. \<lparr>ck_next = 0, ck_size = 4096, ck_used = True, ck_magic = HEAP_MAGIC\<rparr>, uh_head = 0x2005000,
        uh_tail = 0x2005000, uh_mm = mm, uh_um = u\<rparr>"]) (auto simp: heap_inv_def heap_lo_def malloc_ready_def region_def)
qed

section \<open>Properties\<close>

text \<open>
  C22. Allocation for a process. On a well-formed heap a request of at most 4084 bytes returns, if the
  kernel can extend the heap by a page: the block is 2-byte aligned, at least as long as requested,
  overlaps no block the program holds, and all blocks it held stay as they are.
\<close>

theorem malloc_correct:
  assumes "heap_inv rs h" "malloc_ready n h"
  shows "\<exists>p h' rs' m. malloc n h = Some (p, h') \<and> heap_inv rs' h' \<and> unat n \<le> m \<and> even (unat p) \<and> blocks rs' h' = insert (p, m) (blocks rs h) \<and>
    (\<forall>(q, k)\<in>blocks rs h. q \<noteq> p \<and> (unat q + k \<le> unat p \<or> unat p + m \<le> unat q))"
proof -
  obtain p h' rs' m where a: "malloc n h = Some (p, h')" "heap_inv rs' h'" "unat n \<le> m" "blocks rs' h' = insert (p, m) (blocks rs h)"
    "\<forall>(q, k)\<in>blocks rs h. q \<noteq> p \<and> (unat q + k \<le> unat p \<or> unat p + m \<le> unat q)"
    using uh.alloc_apart [OF assms] by blast
  have "(p, m) \<in> blocks rs' h'" using a(4) by simp
  then obtain r c where "r \<in> set rs'" "c \<in> set r" "p = alloc_addr c" by (auto simp: blocks_def rblocks_def)
  then have "even (unat p)" using unat_alloc_addr [OF a(2)] by simp
  then show ?thesis using a by blast
qed

theorem malloc_correct_witness:
  "\<exists>h p h' rs m. malloc 100 h = Some (p, h') \<and> heap_inv rs h' \<and> blocks rs h' = {(p, m)} \<and> 100 \<le> m \<and> even (unat p)"
proof (rule demo_uheap [of 100])
  fix h assume "heap_inv [] h" "malloc_ready 100 h"
  from malloc_correct [OF this] obtain p h' rs m where "malloc 100 h = Some (p, h')" "heap_inv rs h'" "unat (100 :: u32) \<le> m" "even (unat p)"
    "blocks rs h' = insert (p, m) (blocks [] h)" by blast
  then show ?thesis by (intro exI [of _ h] exI [of _ p] exI [of _ h'] exI [of _ rs] exI [of _ m]) simp
qed simp





text \<open>
  Only the first page is searched. A new page is never linked to the chunks before it: when no
  chunk of the first page fits, \<^verbatim>\<open>malloc\<close> extends the heap, whatever lies free in the other pages.
\<close>

theorem malloc_ignores_later_pages:
  assumes "heap_inv (r # ss) h" "malloc_ready n h" "\<And>c. c \<in> set r \<Longrightarrow> ck_used (uh_chunk h c) \<or> csize h c < unat n + 12"
  shows "\<exists>h'. malloc n h = Some (ar_va (mm_brk (uh_mm h)) + 12, h') \<and>
    ar_va (mm_brk (uh_mm h')) = ar_va (mm_brk (uh_mm h)) + 4096"
proof -
  let ?sz = "ALIGN (n + 12) 2"
  have sz: "12 \<le> unat ?sz" "even (unat ?sz)" "unat ?sz \<le> 4096" using malloc_size [OF assms(2)] by auto
  have "ck_used (uh_chunk h c) \<or> \<not> ?sz \<le> ck_size (uh_chunk h c)" if "c \<in> set r" for c
    using assms(3) [OF that] malloc_size(3) [OF assms(2)] by (auto simp: word_le_nat_alt)
  then have loop: "malloc_loop (uh_head h) ?sz h = Some 0" using malloc_search [OF assms(1), of ?sz] by blast
  obtain b mm u where b: "sbrk 4096 (Some (uh_mm h)) (uh_um h) = Some (b, mm, u)" and top: "unat (ar_va (mm_brk (uh_mm h))) + 4096 < 2 ^ 32"
    using assms(2) by (auto simp: malloc_ready_def)
  let ?h = "grown b mm u h"
  have "\<not> ck_used (uh_chunk ?h b)" "?sz \<le> ck_size (uh_chunk ?h b)" "uh_mm ?h = mm" using sz(3) by (simp_all add: grown_def word_le_nat_alt)
  then obtain h' where "alloc_chunk b ?sz ?h = Some (alloc_addr b, h')" "uh_mm h' = mm"
    using alloc_in_heap [of "r # ss" "[]" b "[]" "[]" ?h ?sz] heap_grow(1) [OF assms(1) b top] sz by auto
  then show ?thesis using malloc_grow [OF assms(1) b top loop] sbrk_result [OF b] by (simp add: alloc_addr_def)
qed

theorem malloc_ignores_later_pages_witness:
  "\<exists>h h'. heap_inv [[0x2005000]] h \<and> malloc 100 h = Some (0x200600c, h') \<and> ar_va (mm_brk (uh_mm h')) = 0x2007000"
proof (rule demo_full_page [of 100])
  fix h assume h: "heap_inv [[0x2005000]] h" "malloc_ready 100 h" "ck_used (uh_chunk h 0x2005000)" "ar_va (mm_brk (uh_mm h)) = 0x2006000"
  then show ?thesis using malloc_ignores_later_pages [OF h(1,2)] by auto
qed simp

end
