(* ===== verification/Pci.thy ===== *)
theory Pci
  imports Klib
begin

text \<open>
  The PCI configuration space: \<^verbatim>\<open>drivers/pci.c\<close> and \<^verbatim>\<open>include/drivers/pci.h\<close>.

  The devices on the bus are outside the program: \<open>pb_reg\<close> gives the register at each configuration
  address, \<open>pb_wr\<close> what the device keeps of a written value. Every access first writes the address
  register, so its old content does not matter. Bit fields are words of their width.
\<close>

section \<open>Definitions\<close>

record pci_dev =
  pd_vendor_id :: u16
  pd_dev_id :: u16
  pd_class_code :: u8
  pd_subclass :: u8
  pd_prg_if :: u8
  pd_hd_type :: "7 word"
  pd_offset :: u8
  pd_func_no :: "3 word"
  pd_dev_no :: "5 word"
  pd_bus_no :: u8
  pd_zero :: "7 word"
  pd_enable :: "1 word"

record pci_bus =
  pb_reg :: "u32 \<Rightarrow> u32"
  pb_wr :: "u32 \<Rightarrow> u32 \<Rightarrow> u32"

text \<open>The member \<^verbatim>\<open>data\<close> of the union \<^verbatim>\<open>cfg_addr_t\<close>.\<close>

definition cfg_data :: "pci_dev \<Rightarrow> u32" where
  "cfg_data d = ucast (pd_offset d) OR push_bit 8 (ucast (pd_func_no d)) OR push_bit 11 (ucast (pd_dev_no d)) OR
     push_bit 16 (ucast (pd_bus_no d)) OR push_bit 24 (ucast (pd_zero d)) OR push_bit 31 (ucast (pd_enable d))"

definition pci_inl :: "pci_dev \<Rightarrow> u8 \<Rightarrow> pci_bus \<Rightarrow> u32 \<times> pci_dev" where
  "pci_inl d off b = (let d = d\<lparr>pd_offset := off AND 0xfc\<rparr> in (pb_reg b (cfg_data d), d))"

definition pci_outl :: "pci_dev \<Rightarrow> u8 \<Rightarrow> u32 \<Rightarrow> pci_bus \<Rightarrow> pci_dev \<times> pci_bus" where
  "pci_outl d off v b =
     (let d = d\<lparr>pd_offset := off AND 0xfc\<rparr> in (d, b\<lparr>pb_reg := (pb_reg b)(cfg_data d := pb_wr b (cfg_data d) v)\<rparr>))"

definition pci_inb :: "pci_dev \<Rightarrow> u8 \<Rightarrow> pci_bus \<Rightarrow> u8 \<times> pci_dev" where
  "pci_inb d off b = (let (v, d) = pci_inl d off b in (ucast (drop_bit (unat ((off AND 3) * 8)) v AND 0xff), d))"

definition pci_inw :: "pci_dev \<Rightarrow> u8 \<Rightarrow> pci_bus \<Rightarrow> u16 \<times> pci_dev" where
  "pci_inw d off b = (let (v, d) = pci_inl d off b in (ucast (drop_bit (unat ((off AND 2) * 8)) v AND 0xffff), d))"

text \<open>The offsets of the base address registers; a negative number is outside the array.\<close>

definition bar_map :: "u8 list" where "bar_map = [0x10, 0x14, 0x18, 0x1c, 0x20, 0x24]"

definition pci_read_bar :: "pci_dev \<Rightarrow> int \<Rightarrow> pci_bus \<Rightarrow> (u32 \<times> pci_dev) option" where
  "pci_read_bar d no b = do { assertk (no \<le> 5); assertk (0 \<le> no); Some (pci_inl d (bar_map ! nat no) b) }"

definition pci_write_bar :: "pci_dev \<Rightarrow> int \<Rightarrow> u32 \<Rightarrow> pci_bus \<Rightarrow> (pci_dev \<times> pci_bus) option" where
  "pci_write_bar d no v b = do { assertk (no \<le> 5); assertk (0 \<le> no); Some (pci_outl d (bar_map ! nat no) v b) }"

definition pci_interrupt_line :: "pci_dev \<Rightarrow> pci_bus \<Rightarrow> u8 \<times> pci_dev" where
  "pci_interrupt_line d b = pci_inb d 0x3c b"

text \<open>The three loops of \<^verbatim>\<open>pci_device_detect\<close>, over functions and over the devices of all buses.\<close>

fun func_loop :: "nat list \<Rightarrow> pci_dev \<Rightarrow> pci_bus \<Rightarrow> bool \<times> pci_dev" where
  "func_loop [] d b = (False, d)"
| "func_loop (f # fs) d b =
     (let (c, d) = pci_inw (d\<lparr>pd_func_no := of_nat f\<rparr>) 0xa b
      in if (ucast c :: u32) = push_bit 8 (ucast (pd_class_code d)) OR ucast (pd_subclass d)
         then let (h, d) = pci_inb d 0xe b;
                  d = d\<lparr>pd_hd_type := ucast h\<rparr>;
                  (p, d) = pci_inb d 0x9 b;
                  d = d\<lparr>pd_prg_if := p\<rparr>;
                  (v, d) = pci_inw d 0x0 b;
                  d = d\<lparr>pd_vendor_id := v\<rparr>;
                  (i, d) = pci_inw d 0x2 b
              in (True, d\<lparr>pd_dev_id := i\<rparr>)
         else func_loop fs d b)"

fun dev_loop :: "(nat \<times> nat) list \<Rightarrow> pci_dev \<Rightarrow> pci_bus \<Rightarrow> int \<times> pci_dev" where
  "dev_loop [] d b = (-1, d)"
| "dev_loop ((bus_no, dev_no) # ds) d b =
     (let (v, d) = pci_inw (d\<lparr>pd_bus_no := of_nat bus_no, pd_dev_no := of_nat dev_no, pd_func_no := 0\<rparr>) 0x0 b
      in if v = 0xffff then dev_loop ds d b
         else let (h, d) = pci_inb d 0xe b;
                  (r, d) = func_loop [0..<if h AND 0x80 \<noteq> 0 then 8 else 1] d b
              in if r then (0, d) else dev_loop ds d b)"

definition pci_device_detect :: "pci_dev \<Rightarrow> pci_bus \<Rightarrow> int \<times> pci_dev" where
  "pci_device_detect d b =
     dev_loop (List.product [0..<256] [0..<32]) (d\<lparr>pd_zero := 0, pd_enable := 1\<rparr>) b"

section \<open>Functions on the bus\<close>

text \<open>The configuration address of a register of a function, and its 16-bit and 8-bit parts.\<close>

definition cfg_at :: "nat \<times> nat \<times> nat \<Rightarrow> u8 \<Rightarrow> u32" where
  "cfg_at = (\<lambda>(bn, dn, f) off. ucast (off AND 0xfc) OR push_bit 8 (ucast (of_nat f :: 3 word)) OR
     push_bit 11 (ucast (of_nat dn :: 5 word)) OR push_bit 16 (ucast (of_nat bn :: u8)) OR push_bit 31 1)"

definition reg16 :: "pci_bus \<Rightarrow> nat \<times> nat \<times> nat \<Rightarrow> u8 \<Rightarrow> u16" where
  "reg16 b x off = ucast (drop_bit (unat ((off AND 2) * 8)) (pb_reg b (cfg_at x off)) AND 0xffff)"

definition reg8 :: "pci_bus \<Rightarrow> nat \<times> nat \<times> nat \<Rightarrow> u8 \<Rightarrow> u8" where
  "reg8 b x off = ucast (drop_bit (unat ((off AND 3) * 8)) (pb_reg b (cfg_at x off)) AND 0xff)"

text \<open>The functions of the devices that are present, in the order of their numbers.\<close>

definition slot_functions :: "pci_bus \<Rightarrow> nat \<times> nat \<Rightarrow> (nat \<times> nat \<times> nat) list" where
  "slot_functions b = (\<lambda>(bn, dn). if reg16 b (bn, dn, 0) 0 = 0xffff then []
     else map (\<lambda>f. (bn, dn, f)) [0..<if reg8 b (bn, dn, 0) 0xe AND 0x80 \<noteq> 0 then 8 else 1])"

definition pci_functions :: "pci_bus \<Rightarrow> (nat \<times> nat \<times> nat) list" where
  "pci_functions b = concat (map (slot_functions b) (List.product [0..<256] [0..<32]))"

text \<open>The device structure is set to the function \<open>x\<close>.\<close>

definition dev_is :: "nat \<times> nat \<times> nat \<Rightarrow> pci_dev \<Rightarrow> bool" where
  "dev_is = (\<lambda>(bn, dn, f) d. pd_bus_no d = of_nat bn \<and> pd_dev_no d = of_nat dn \<and> pd_func_no d = of_nat f \<and> pd_zero d = 0 \<and> pd_enable d = 1)"

lemma cfg_data_dev: "dev_is x d \<Longrightarrow> cfg_data (d\<lparr>pd_offset := off AND 0xfc\<rparr>) = cfg_at x off"
  by (cases x) (simp add: cfg_data_def cfg_at_def dev_is_def)

lemma pci_in_dev:
  assumes "dev_is x d"
  shows "pci_inw d off b = (reg16 b x off, d\<lparr>pd_offset := off AND 0xfc\<rparr>)" "pci_inb d off b = (reg8 b x off, d\<lparr>pd_offset := off AND 0xfc\<rparr>)"
  using cfg_data_dev [OF assms] by (simp_all add: pci_inw_def pci_inb_def pci_inl_def reg16_def reg8_def)

lemma dev_is_offset [simp]:
  "dev_is x (d\<lparr>pd_offset := o1\<rparr>) = dev_is x d" "dev_is x (d\<lparr>pd_hd_type := h\<rparr>) = dev_is x d" "dev_is x (d\<lparr>pd_prg_if := p\<rparr>) = dev_is x d"
  "dev_is x (d\<lparr>pd_vendor_id := v\<rparr>) = dev_is x d" "dev_is x (d\<lparr>pd_dev_id := i\<rparr>) = dev_is x d"
  by (simp_all add: dev_is_def case_prod_beta)

definition class_is :: "pci_bus \<Rightarrow> u8 \<Rightarrow> u8 \<Rightarrow> nat \<times> nat \<times> nat \<Rightarrow> bool" where
  "class_is b c sc x \<longleftrightarrow> (ucast (reg16 b x 0xa) :: u32) = push_bit 8 (ucast c) OR ucast sc"

definition found :: "pci_bus \<Rightarrow> nat \<times> nat \<times> nat \<Rightarrow> pci_dev \<Rightarrow> bool" where
  "found b x d \<longleftrightarrow> dev_is x d \<and> pd_vendor_id d = reg16 b x 0 \<and> pd_dev_id d = reg16 b x 2 \<and> pd_prg_if d = reg8 b x 9 \<and>
     pd_hd_type d = ucast (reg8 b x 0xe)"

abbreviation same_class :: "pci_dev \<Rightarrow> pci_dev \<Rightarrow> bool" where
  "same_class d d' \<equiv> pd_class_code d' = pd_class_code d \<and> pd_subclass d' = pd_subclass d"

lemma func_loop_find:
  assumes "dev_is (bn, dn, g) d"
  shows "case find (\<lambda>f. class_is b (pd_class_code d) (pd_subclass d) (bn, dn, f)) fs of
      None \<Rightarrow> \<exists>d' g. func_loop fs d b = (False, d') \<and> dev_is (bn, dn, g) d' \<and> same_class d d'
    | Some f \<Rightarrow> \<exists>d'. func_loop fs d b = (True, d') \<and> found b (bn, dn, f) d' \<and> same_class d d'"
  using assms
proof (induction fs arbitrary: d g)
  case (Cons f fs)
  let ?d = "d\<lparr>pd_func_no := of_nat f\<rparr>"
  have df: "dev_is (bn, dn, f) ?d" using Cons.prems by (simp add: dev_is_def)
  note io = pci_in_dev [of "(bn, dn, f)"]
  show ?case
  proof (cases "class_is b (pd_class_code d) (pd_subclass d) (bn, dn, f)")
    case True
    then show ?thesis using df by (simp add: io class_is_def found_def Let_def)
  next
    case False
    define d1 where "d1 = ?d\<lparr>pd_offset := 0xa AND 0xfc\<rparr>"
    have d1: "dev_is (bn, dn, f) d1" "same_class d d1" using df by (simp_all add: d1_def)
    have step: "func_loop (f # fs) d b = func_loop fs d1 b" using False df by (simp add: io class_is_def Let_def d1_def)
    have "find (\<lambda>f. class_is b (pd_class_code d) (pd_subclass d) (bn, dn, f)) (f # fs) =
        find (\<lambda>f. class_is b (pd_class_code d1) (pd_subclass d1) (bn, dn, f)) fs" using False d1(2) by simp
    then show ?thesis using Cons.IH [OF d1(1)] d1(2) unfolding step by (auto split: option.splits)
  qed
qed auto

lemma find_app: "find P (xs @ ys) = (case find P xs of None \<Rightarrow> find P ys | Some x \<Rightarrow> Some x)"
  by (induction xs) auto

lemma dev_loop_find:
  assumes "pd_zero d = 0" "pd_enable d = 1"
  shows "case find (class_is b (pd_class_code d) (pd_subclass d)) (concat (map (slot_functions b) ds)) of
      None \<Rightarrow> fst (dev_loop ds d b) = -1
    | Some x \<Rightarrow> fst (dev_loop ds d b) = 0 \<and> found b x (snd (dev_loop ds d b))"
  using assms
proof (induction ds arbitrary: d)
  case (Cons p ds)
  obtain bn dn where p: "p = (bn, dn)" by (cases p)
  let ?d = "d\<lparr>pd_bus_no := of_nat bn, pd_dev_no := of_nat dn, pd_func_no := 0\<rparr>"
  have d0: "dev_is (bn, dn, 0) ?d" using Cons.prems by (simp add: dev_is_def)
  note io = pci_in_dev [of "(bn, dn, 0)"]
  let ?c = "class_is b (pd_class_code d) (pd_subclass d)"
  show ?case
  proof (cases "reg16 b (bn, dn, 0) 0 = 0xffff")
    case True
    define d1 where "d1 = ?d\<lparr>pd_offset := 0 AND 0xfc\<rparr>"
    have d1: "pd_zero d1 = 0" "pd_enable d1 = 1" "same_class d d1" using Cons.prems by (simp_all add: d1_def)
    have step: "dev_loop (p # ds) d b = dev_loop ds d1 b" using True d0 by (simp add: p io Let_def d1_def)
    have "slot_functions b p = []" using True by (simp add: slot_functions_def p)
    then show ?thesis using Cons.IH [OF d1(1,2)] d1(3) unfolding step by simp
  next
    case False
    define fs where "fs = [0..<if reg8 b (bn, dn, 0) 0xe AND 0x80 \<noteq> 0 then 8 else 1 :: nat]"
    define d1 where "d1 = ?d\<lparr>pd_offset := 0xe AND 0xfc\<rparr>"
    have d1: "dev_is (bn, dn, 0) d1" "same_class d d1" using d0 by (simp_all add: d1_def)
    have step: "dev_loop (p # ds) d b = (let (r, d) = func_loop fs d1 b in if r then (0, d) else dev_loop ds d b)"
      using False d0 by (simp add: p io Let_def fs_def d1_def)
    have sf: "slot_functions b p = map (\<lambda>f. (bn, dn, f)) fs" using False by (simp add: slot_functions_def p fs_def)
    have fm: "find ?c (map (\<lambda>f. (bn, dn, f)) fs) = map_option (\<lambda>f. (bn, dn, f)) (find (\<lambda>f. ?c (bn, dn, f)) fs)" by (induction fs) auto
    note fl = func_loop_find [OF d1(1), of fs b]
    show ?thesis
    proof (cases "find (\<lambda>f. ?c (bn, dn, f)) fs")
      case None
      then obtain d' g where d': "func_loop fs d1 b = (False, d')" "dev_is (bn, dn, g) d'" "same_class d1 d'" using fl d1(2) by auto
      then have step': "dev_loop (p # ds) d b = dev_loop ds d' b" using step by simp
      have "find ?c (concat (map (slot_functions b) (p # ds))) = find ?c (concat (map (slot_functions b) ds))"
        using None fm sf by (simp add: find_app)
      moreover have "pd_zero d' = 0" "pd_enable d' = 1" "same_class d d'" using d' d1(2) by (simp_all add: dev_is_def)
      ultimately show ?thesis using Cons.IH [of d'] unfolding step' by simp
    next
      case (Some f)
      then obtain d' where "func_loop fs d1 b = (True, d')" "found b (bn, dn, f) d'" using fl d1(2) by auto
      then show ?thesis using step Some fm sf by (simp add: find_app)
    qed
  qed
qed simp

section \<open>Properties\<close>

text \<open>
  C25. Detection of a device. \<^verbatim>\<open>pci_device_detect\<close> returns 0 exactly when some function of a present device
  has the class and subclass asked for; then the structure addresses the first such function in the
  order of bus, device and function numbers and holds its identification. Otherwise it returns -1.
\<close>

theorem pci_device_detect_first:
  "case find (class_is b (pd_class_code d) (pd_subclass d)) (pci_functions b) of
     None \<Rightarrow> fst (pci_device_detect d b) = -1
   | Some x \<Rightarrow> fst (pci_device_detect d b) = 0 \<and> found b x (snd (pci_device_detect d b))"
  using dev_loop_find [of "d\<lparr>pd_zero := 0, pd_enable := 1\<rparr>" "List.product [0..<256] [0..<32]" b]
  unfolding pci_device_detect_def pci_functions_def by simp

end
