(* ===== verification/Acpi.thy ===== *)
theory Acpi
  imports Multiboot
begin

text \<open>
  Finding the processors: \<^verbatim>\<open>drivers/acpi.c\<close>, \<^verbatim>\<open>drivers/mp.c\<close> and \<^verbatim>\<open>drivers/ioapic.c\<close>.

  The firmware tables are read from byte-addressed memory at their kernel addresses. The I/O APIC is
  its register file, reached through the select and window registers; which processor executes a
  function is the argument \<open>lid\<close>, the value of its local APIC.
\<close>

section \<open>Definitions\<close>

subsection \<open>Tables of the firmware\<close>

fun sum_loop :: "nat \<Rightarrow> ptr_t \<Rightarrow> mem8 \<Rightarrow> u8 \<Rightarrow> u8" where
  "sum_loop 0 a m s = s"
| "sum_loop (Suc n) a m s = sum_loop n (a + 1) m (s + m a)"

definition sum_bytes :: "ptr_t \<Rightarrow> u32 \<Rightarrow> mem8 \<Rightarrow> u8" where
  "sum_bytes addr len m = sum_loop (unat len) addr m 0"

text \<open>\<^verbatim>\<open>struct sdtHeader\<close> is packed: the length is at offset 4, the structure has 36 bytes.\<close>

definition acpiChecksum :: "ptr_t \<Rightarrow> mem8 \<Rightarrow> bool" where
  "acpiChecksum header m \<longleftrightarrow> sum_bytes header (ld32 m (header + 4)) m = 0"

text \<open>\<^verbatim>\<open>memcmp\<close> with a literal.\<close>

abbreviation mem_is :: "mem8 \<Rightarrow> ptr_t \<Rightarrow> u8 list \<Rightarrow> bool" where
  "mem_is m a bs \<equiv> map (\<lambda>i. m (a + of_nat i)) [0..<length bs] = bs"

definition RSDP_SIGNATURE :: "u8 list" where "RSDP_SIGNATURE = [0x52, 0x53, 0x44, 0x20, 0x50, 0x54, 0x52, 0x20]"
definition RSDT_SIGNATURE :: "u8 list" where "RSDT_SIGNATURE = [0x52, 0x53, 0x44, 0x54]"
definition APIC_SIGNATURE :: "u8 list" where "APIC_SIGNATURE = [0x41, 0x50, 0x49, 0x43]"

text \<open>\<^verbatim>\<open>struct rsdpDescriptor\<close> has 20 bytes: version at offset 15, address of the table at 16. NULL is 0.\<close>

definition get_rsdp :: "ptr_t \<Rightarrow> mem8 \<Rightarrow> ptr_t" where
  "get_rsdp rsdp m =
     (if rsdp = 0 then 0
      else if \<not> mem_is m rsdp RSDP_SIGNATURE then 0
      else if m (rsdp + 15) \<noteq> 0 then 0
      else if sum_bytes rsdp 20 m \<noteq> 0 then 0
      else rsdp)"

definition get_rsdt :: "u32 \<Rightarrow> mem8 \<Rightarrow> ptr_t option" where
  "get_rsdt addr m = do {
     let rsdt = addr + KERNEL_START;
     assertk (rsdt \<noteq> 0);
     Some (if \<not> mem_is m rsdt RSDT_SIGNATURE then 0
           else if \<not> acpiChecksum rsdt m then 0
           else rsdt)
   }"

text \<open>The loop over the pointers behind the header; the result is \<^verbatim>\<open>sysDesTable.madt\<close>.\<close>

fun rsdt_loop :: "nat \<Rightarrow> ptr_t \<Rightarrow> mem8 \<Rightarrow> ptr_t \<Rightarrow> ptr_t option" where
  "rsdt_loop 0 ent m madt = Some madt"
| "rsdt_loop (Suc n) ent m madt = do {
     let e = ld32 m ent + KERNEL_START;
     assertk (e \<noteq> 0);
     rsdt_loop n (ent + 4) m (if mem_is m e APIC_SIGNATURE then e else madt)
   }"

definition acpi_init :: "ptr_t \<Rightarrow> mem8 \<Rightarrow> pgtab \<Rightarrow> ptr_t \<Rightarrow> (ptr_t \<times> pgtab) option" where
  "acpi_init bInfo_rsdp m pt madt = do {
     let rsdp = get_rsdp bInfo_rsdp m;
     assertk (rsdp \<noteq> 0);
     let rsdtAddress = ld32 m (rsdp + 16);
     pt \<leftarrow> kvm_maps (PAGE_CEIL (rsdtAddress + KERNEL_START)) rsdtAddress PAGE_SIZE (VM_KR OR VM_PRES) pt;
     rsdt \<leftarrow> get_rsdt rsdtAddress m;
     assertk (rsdt \<noteq> 0 \<and> ld32 m (rsdt + 4) \<le> PAGE_SIZE);
     madt \<leftarrow> rsdt_loop (unat ((ld32 m (rsdt + 4) - 36) div 4)) (rsdt + 36) m madt;
     Some (madt, pt)
   }"

subsection \<open>Processors\<close>

text \<open>\<^verbatim>\<open>apic_id\<close> is an \<^verbatim>\<open>int16_t\<close>.\<close>

record cpu_t =
  cp_apic_id :: u16
  cp_ir_enable :: bool
  cp_lock :: ptr_t
  cp_idle :: ptr_t
  cp_start :: bool

record apic =
  ap_nCpu :: u8
  ap_ioApicId :: u8
  ap_lapicPtr :: u32
  ap_ioapicPtr :: u32

record smp =
  sm_cpus :: "nat \<Rightarrow> cpu_t"
  sm_cfg :: apic

definition N_CPU :: nat where "N_CPU = 8"

definition cpus_start :: smp where
  "cpus_start = \<lparr>sm_cpus = \<lambda>_. \<lparr>cp_apic_id = -1, cp_ir_enable = True, cp_lock = 0, cp_idle = 0, cp_start = False\<rparr>,
     sm_cfg = \<lparr>ap_nCpu = 0, ap_ioApicId = 0, ap_lapicPtr = 0, ap_ioapicPtr = 0\<rparr>\<rparr>"

text \<open>One entry of the table: a processor (type 0) or an I/O APIC (type 1). The ninth processor is outside the array.\<close>

definition madt_entry :: "mem8 \<Rightarrow> ptr_t \<Rightarrow> smp \<Rightarrow> smp option" where
  "madt_entry m e s =
     (if m e = 0 then
        (if ld32 m (e + 4) AND 1 \<noteq> 0 then do {
           let i = unat (ap_nCpu (sm_cfg s));
           assertk (i < N_CPU);
           Some (s\<lparr>sm_cpus := (sm_cpus s)(i := (sm_cpus s i)\<lparr>cp_apic_id := ucast (m (e + 3))\<rparr>),
             sm_cfg := (sm_cfg s)\<lparr>ap_nCpu := ap_nCpu (sm_cfg s) + 1\<rparr>\<rparr>)
         } else Some s)
      else if m e = 1 then
        Some (if ap_ioapicPtr (sm_cfg s) = 0
              then s\<lparr>sm_cfg := (sm_cfg s)\<lparr>ap_ioApicId := m (e + 2), ap_ioapicPtr := ld32 m (e + 4)\<rparr>\<rparr>
              else s)
      else Some s)"

partial_function (option) madt_loop :: "mem8 \<Rightarrow> ptr_t \<Rightarrow> ptr_t \<Rightarrow> smp \<Rightarrow> smp option" where
  "madt_loop m e stop s =
     (if e < stop then do { s \<leftarrow> madt_entry m e s; madt_loop m (e + ucast (m (e + 1))) stop s }
      else Some s)"

definition smp_init :: "ptr_t \<Rightarrow> mem8 \<Rightarrow> smp \<Rightarrow> smp option" where
  "smp_init table m s = do {
     assertk (table \<noteq> 0);
     assertk (mem_is m table APIC_SIGNATURE);
     assertk (acpiChecksum table m);
     madt_loop m (table + 44) (table + ld32 m (table + 4)) (s\<lparr>sm_cfg := (sm_cfg s)\<lparr>ap_lapicPtr := ld32 m (table + 36)\<rparr>\<rparr>)
   }"

fun cpu_loop :: "u32 \<Rightarrow> nat \<Rightarrow> nat \<Rightarrow> smp \<Rightarrow> nat option" where
  "cpu_loop lid 0 i s = None"
| "cpu_loop lid (Suc n) i s =
     (if sint (cp_apic_id (sm_cpus s i)) = sint (ucast lid :: u8) then Some i else cpu_loop lid n (Suc i) s)"

definition getCpu :: "u32 \<Rightarrow> smp \<Rightarrow> nat option" where
  "getCpu lid s = cpu_loop lid (unat (ap_nCpu (sm_cfg s))) 0 s"

definition cpu_init :: "u32 \<Rightarrow> smp \<Rightarrow> smp option" where
  "cpu_init lid s = do {
     let s = s\<lparr>sm_cpus := (\<lambda>i. if i < unat (ap_nCpu (sm_cfg s)) then (sm_cpus s i)\<lparr>cp_ir_enable := True\<rparr> else sm_cpus s i)\<rparr>;
     cpu \<leftarrow> getCpu lid s;
     assertk (cp_lock (sm_cpus s cpu) = 0);
     assertk (sint (cp_apic_id (sm_cpus s cpu)) \<ge> 0);
     Some s
   }"

subsection \<open>Routing of interrupts\<close>

text \<open>The registers behind the window; \<open>io_id\<close> is the static variable of \<^verbatim>\<open>irqEnable\<close>.\<close>

record ioapic =
  io_reg :: "u32 \<Rightarrow> u32"
  io_id :: u16

definition ioapicw :: "u32 \<Rightarrow> u32 \<Rightarrow> ioapic \<Rightarrow> ioapic" where
  "ioapicw idx data a = a\<lparr>io_reg := (io_reg a)(idx := data)\<rparr>"

definition ioapicr :: "u32 \<Rightarrow> ioapic \<Rightarrow> u32" where
  "ioapicr idx a = io_reg a idx"

fun mask_loop :: "nat \<Rightarrow> u32 \<Rightarrow> ioapic \<Rightarrow> ioapic" where
  "mask_loop 0 i a = a"
| "mask_loop (Suc n) i a = mask_loop n (i + 1) (ioapicw (0x10 + 2 * i + 1) 0 (ioapicw (0x10 + 2 * i) (0x10000 OR (32 + i)) a))"

definition ioapic_init :: "smp \<Rightarrow> ioapic \<Rightarrow> ioapic option" where
  "ioapic_init s a = do {
     assertk (ap_ioapicPtr (sm_cfg s) \<noteq> 0);
     let irqCnt = drop_bit 16 (ioapicr 1 a) AND mask 8;
     assertk (irqCnt \<noteq> 0);
     assertk (drop_bit 24 (ioapicr 0 a) = ucast (ap_ioApicId (sm_cfg s)));
     Some (mask_loop (unat irqCnt) 0 a)
   }"

text \<open>\<open>lapic\<close> is the \<^verbatim>\<open>int16_t\<close> argument; -1 chooses the next processor. Without processors the division traps.\<close>

definition irqEnable :: "u32 \<Rightarrow> u16 \<Rightarrow> smp \<Rightarrow> ioapic \<Rightarrow> ioapic option" where
  "irqEnable irq lapic s a = do {
     (lapic, a) \<leftarrow> (if lapic = -1 then do {
         assertk (ap_nCpu (sm_cfg s) \<noteq> 0);
         let id = (of_nat ((unat (io_id a) + 1) mod unat (ap_nCpu (sm_cfg s))) :: u16);
         assertk (unat id < N_CPU);
         Some (cp_apic_id (sm_cpus s (unat id)), a\<lparr>io_id := id\<rparr>)
       } else Some (lapic, a));
     let a = ioapicw (0x10 + 2 * irq) (32 + irq) a;
     Some (ioapicw (0x10 + 2 * irq + 1) (push_bit 24 (scast lapic)) a)
   }"

section \<open>Checksums\<close>

lemma sum_loop_eq: "sum_loop n a m s = s + (\<Sum>k<n. m (a + of_nat k))"
proof (induction n arbitrary: a s)
  case (Suc n)
  have "(\<Sum>k<Suc n. m (a + of_nat k)) = m a + (\<Sum>k<n. m (a + 1 + of_nat k))"
    by (subst sum.lessThan_Suc_shift) (simp add: algebra_simps)
  then show ?case using Suc by (simp add: algebra_simps)
qed simp

lemma of_nat_u32_inj: "i < 2 ^ 32 \<Longrightarrow> j < 2 ^ 32 \<Longrightarrow> (of_nat i :: u32) = of_nat j \<longleftrightarrow> i = j"
  unfolding word_unat_eq_iff unat_of_nat by simp

lemma sum_bytes_upd:
  assumes "k < unat len"
  shows "sum_bytes a len (m(a + of_nat k := v)) = sum_bytes a len m - m (a + of_nat k) + v"
proof -
  have ne: "(of_nat j :: ptr_t) = of_nat k \<longleftrightarrow> j = k" if "j < unat len" for j
    using that assms unat_u32_lt [of len] by (intro of_nat_u32_inj) simp_all
  have "(\<Sum>j<unat len. (m(a + of_nat k := v)) (a + of_nat j)) = (\<Sum>j<unat len. (if j = k then v else m (a + of_nat j)))"
    using ne by (intro sum.cong) auto
  also have "\<dots> = v + (\<Sum>j\<in>{..<unat len} - {k}. m (a + of_nat j))" using assms
    by (subst sum.remove [of _ k]) (auto intro!: sum.cong)
  also have "\<dots> = (\<Sum>j<unat len. m (a + of_nat j)) - m (a + of_nat k) + v" using assms
    by (subst (2) sum.remove [of _ k]) auto
  finally show ?thesis by (simp add: sum_bytes_def sum_loop_eq)
qed

section \<open>The table of processors\<close>

text \<open>The entries of the table: processors with their APIC number and flags, I/O APICs, and others with their length.\<close>

datatype madt = Lapic u8 u32 | Ioapic u8 u32 | Other u8 u8

fun madt_at :: "mem8 \<Rightarrow> ptr_t \<Rightarrow> madt \<Rightarrow> bool" where
  "madt_at m e (Lapic i f) \<longleftrightarrow> m e = 0 \<and> m (e + 1) = 8 \<and> m (e + 3) = i \<and> ld32 m (e + 4) = f"
| "madt_at m e (Ioapic i a) \<longleftrightarrow> m e = 1 \<and> m (e + 1) = 12 \<and> m (e + 2) = i \<and> ld32 m (e + 4) = a"
| "madt_at m e (Other t l) \<longleftrightarrow> m e = t \<and> t \<noteq> 0 \<and> t \<noteq> 1 \<and> m (e + 1) = l \<and> l \<noteq> 0"

fun madt_list :: "mem8 \<Rightarrow> ptr_t \<Rightarrow> madt list \<Rightarrow> ptr_t \<Rightarrow> bool" where
  "madt_list m e [] stop \<longleftrightarrow> e = stop"
| "madt_list m e (x # xs) stop \<longleftrightarrow> e < stop \<and> madt_at m e x \<and> madt_list m (e + ucast (m (e + 1))) xs stop"

text \<open>The numbers of the enabled processors, and the first I/O APIC.\<close>

fun enabled :: "madt list \<Rightarrow> u8 list" where
  "enabled [] = []"
| "enabled (Lapic i f # xs) = (if f AND 1 \<noteq> 0 then i # enabled xs else enabled xs)"
| "enabled (x # xs) = enabled xs"

fun ioapics :: "madt list \<Rightarrow> (u8 \<times> u32) list" where
  "ioapics [] = []"
| "ioapics (Ioapic i a # xs) = (i, a) # ioapics xs"
| "ioapics (x # xs) = ioapics xs"

definition add_cpu :: "u8 \<Rightarrow> smp \<Rightarrow> smp" where
  "add_cpu i s = s\<lparr>sm_cpus := (sm_cpus s)(unat (ap_nCpu (sm_cfg s)) := (sm_cpus s (unat (ap_nCpu (sm_cfg s))))\<lparr>cp_apic_id := ucast i\<rparr>),
     sm_cfg := (sm_cfg s)\<lparr>ap_nCpu := ap_nCpu (sm_cfg s) + 1\<rparr>\<rparr>"

text \<open>The outcome of the walk for given entries.\<close>

fun walk :: "madt list \<Rightarrow> smp \<Rightarrow> smp option" where
  "walk [] s = Some s"
| "walk (Lapic i f # xs) s = (if f AND 1 \<noteq> 0 then (if unat (ap_nCpu (sm_cfg s)) < N_CPU then walk xs (add_cpu i s) else None) else walk xs s)"
| "walk (Ioapic i a # xs) s = walk xs (if ap_ioapicPtr (sm_cfg s) = 0 then s\<lparr>sm_cfg := (sm_cfg s)\<lparr>ap_ioApicId := i, ap_ioapicPtr := a\<rparr>\<rparr> else s)"
| "walk (Other t l # xs) s = walk xs s"

lemma madt_loop_walk: "madt_list m e xs stop \<Longrightarrow> madt_loop m e stop s = walk xs s"
proof (induction xs arbitrary: e s)
  case Nil
  then show ?case by (simp add: madt_loop.simps)
next
  case (Cons x xs)
  then have "madt_loop m (e + ucast (m (e + 1))) stop = walk xs" by (intro ext) simp
  then have "madt_loop m e stop s = madt_entry m e s \<bind> walk xs" using Cons.prems by (subst madt_loop.simps) simp
  moreover have "madt_entry m e s \<bind> walk xs = walk (x # xs) s"
    using Cons.prems by (cases x) (auto simp: madt_entry_def add_cpu_def Let_def)
  ultimately show ?case by simp
qed

lemma walk_cpus:
  assumes "unat (ap_nCpu (sm_cfg s)) + length (enabled xs) \<le> N_CPU"
  shows "\<exists>s'. walk xs s = Some s' \<and> unat (ap_nCpu (sm_cfg s')) = unat (ap_nCpu (sm_cfg s)) + length (enabled xs) \<and>
    (\<forall>i<length (enabled xs). cp_apic_id (sm_cpus s' (unat (ap_nCpu (sm_cfg s)) + i)) = ucast (enabled xs ! i)) \<and>
    (\<forall>i<unat (ap_nCpu (sm_cfg s)). sm_cpus s' i = sm_cpus s i) \<and> ap_lapicPtr (sm_cfg s') = ap_lapicPtr (sm_cfg s)"
  using assms
proof (induction xs s rule: walk.induct)
  case (2 i f xs s)
  show ?case
  proof (cases "f AND 1 \<noteq> 0")
    case True
    then have n: "unat (ap_nCpu (sm_cfg s)) < N_CPU" using 2(3) by simp
    then have c: "unat (ap_nCpu (sm_cfg (add_cpu i s))) = Suc (unat (ap_nCpu (sm_cfg s)))" by (simp add: add_cpu_def N_CPU_def unat_add_no_wrap)
    obtain s' where s': "walk xs (add_cpu i s) = Some s'" "unat (ap_nCpu (sm_cfg s')) = Suc (unat (ap_nCpu (sm_cfg s))) + length (enabled xs)"
      "\<forall>k<length (enabled xs). cp_apic_id (sm_cpus s' (Suc (unat (ap_nCpu (sm_cfg s))) + k)) = ucast (enabled xs ! k)"
      "\<forall>k<Suc (unat (ap_nCpu (sm_cfg s))). sm_cpus s' k = sm_cpus (add_cpu i s) k" "ap_lapicPtr (sm_cfg s') = ap_lapicPtr (sm_cfg (add_cpu i s))"
      using 2(1) [OF True n] 2(3) True c by auto
    have "cp_apic_id (sm_cpus s' (unat (ap_nCpu (sm_cfg s)) + k)) = ucast (enabled (Lapic i f # xs) ! k)" if "k < length (enabled (Lapic i f # xs))" for k
      using that True s'(3,4) by (cases k) (auto simp: add_cpu_def)
    then show ?thesis using s' True n by (intro exI [of _ s']) (auto simp: add_cpu_def)
  next
    case False
    then show ?thesis using 2(2,3) by simp
  qed
qed auto

lemma walk_overflow:
  assumes "unat (ap_nCpu (sm_cfg s)) \<le> N_CPU" "N_CPU < unat (ap_nCpu (sm_cfg s)) + length (enabled xs)"
  shows "walk xs s = None"
  using assms
proof (induction xs s rule: walk.induct)
  case (2 i f xs s)
  then show ?case by (auto simp: add_cpu_def N_CPU_def unat_add_no_wrap)
qed auto

lemma walk_ioapic:
  "walk xs s = Some s' \<Longrightarrow> ioapics xs = (i, a) # r \<Longrightarrow> a \<noteq> 0 \<Longrightarrow> ap_ioapicPtr (sm_cfg s) = 0 \<Longrightarrow>
   ap_ioApicId (sm_cfg s') = i \<and> ap_ioapicPtr (sm_cfg s') = a"
proof (induction xs s rule: walk.induct)
  case (3 j b xs s)
  have keep: "walk ys t = Some s' \<Longrightarrow> ap_ioapicPtr (sm_cfg t) \<noteq> 0 \<Longrightarrow> ap_ioApicId (sm_cfg s') = ap_ioApicId (sm_cfg t) \<and>
      ap_ioapicPtr (sm_cfg s') = ap_ioapicPtr (sm_cfg t)" for ys t
    by (induction ys t rule: walk.induct) (auto simp: add_cpu_def split: if_splits)
  then show ?case using 3(2-5) by auto
qed (auto simp: add_cpu_def split: if_splits)

section \<open>Looking up a processor and routing interrupts\<close>

lemma cpu_loop_find:
  "cpu_loop lid n i s = find (\<lambda>i. sint (cp_apic_id (sm_cpus s i)) = sint (ucast lid :: u8)) [i..<i + n]"
  by (induction n arbitrary: i) (simp_all add: upt_rec)

text \<open>
  \<^verbatim>\<open>ioapic_init\<close> masks as many entries as the version register gives, which is the number of the last
  entry: the last entry keeps what it held.
\<close>

lemma mask_loop_regs:
  assumes "p + n < 2 ^ 30"
  shows "(\<forall>q. p \<le> q \<longrightarrow> q < p + n \<longrightarrow> io_reg (mask_loop n (of_nat p) a) (of_nat (16 + 2 * q)) = 0x10000 OR of_nat (32 + q)) \<and>
    (\<forall>k<2 ^ 32. k < 16 + 2 * p \<or> 16 + 2 * (p + n) \<le> k \<longrightarrow> io_reg (mask_loop n (of_nat p) a) (of_nat k) = io_reg a (of_nat k))"
  using assms
proof (induction n arbitrary: p a)
  case (Suc n)
  define a1 where "a1 = ioapicw (of_nat (16 + 2 * p + 1)) 0 (ioapicw (of_nat (16 + 2 * p)) (0x10000 OR of_nat (32 + p)) a)"
  have step: "mask_loop (Suc n) (of_nat p) a = mask_loop n (of_nat (Suc p)) a1" by (simp add: a1_def add.commute)
  note ih = Suc.IH [of "Suc p" a1]
  have reg: "io_reg a1 (of_nat k) = (if k = 16 + 2 * p + 1 then 0 else if k = 16 + 2 * p then 0x10000 OR of_nat (32 + p) else io_reg a (of_nat k))"
    if "k < 2 ^ 32" for k
    using that Suc.prems of_nat_u32_inj [of k "16 + 2 * p + 1"] of_nat_u32_inj [of k "16 + 2 * p"] by (simp add: a1_def ioapicw_def del: of_nat_add of_nat_mult of_nat_Suc)
  have "io_reg (mask_loop n (of_nat (Suc p)) a1) (of_nat (16 + 2 * q)) = 0x10000 OR of_nat (32 + q)" if "p \<le> q" "q < p + Suc n" for q
  proof (cases "q = p")
    case True
    then have "io_reg (mask_loop n (of_nat (Suc p)) a1) (of_nat (16 + 2 * q)) = io_reg a1 (of_nat (16 + 2 * q))"
      using conjunct2 [OF ih, rule_format, of "16 + 2 * q"] Suc.prems by (simp del: of_nat_add of_nat_mult of_nat_Suc)
    then show ?thesis using True reg [of "16 + 2 * p"] Suc.prems by simp
  next
    case False
    then show ?thesis using ih Suc.prems that by simp
  qed
  moreover have "io_reg (mask_loop n (of_nat (Suc p)) a1) (of_nat k) = io_reg a (of_nat k)"
    if "k < 2 ^ 32" "k < 16 + 2 * p \<or> 16 + 2 * (p + Suc n) \<le> k" for k
  proof -
    have "io_reg (mask_loop n (of_nat (Suc p)) a1) (of_nat k) = io_reg a1 (of_nat k)" using ih Suc.prems that by auto
    then show ?thesis using reg [OF that(1)] that(2) by auto
  qed
  ultimately show ?case unfolding step by blast
qed simp

lemma ioapic_init_masks:
  assumes "ap_ioapicPtr (sm_cfg s) \<noteq> 0" "drop_bit 24 (io_reg a 0) = ucast (ap_ioApicId (sm_cfg s))"
    "drop_bit 16 (io_reg a 1) AND mask 8 = (of_nat n :: u32)" "0 < n" "n < 256"
  shows "\<exists>a'. ioapic_init s a = Some a' \<and> (\<forall>q<n. io_reg a' (of_nat (16 + 2 * q)) = 0x10000 OR of_nat (32 + q)) \<and>
    io_reg a' (of_nat (16 + 2 * n)) = io_reg a (of_nat (16 + 2 * n))"
proof -
  have "unat (of_nat n :: u32) = n" unfolding unat_of_nat using assms(5) by (intro mod_less) simp
  moreover from this have "(of_nat n :: u32) \<noteq> 0" using assms(4) by (metis unat_0 less_numeral_extra(3))
  ultimately have "ioapic_init s a = Some (mask_loop n (of_nat 0) a)" using assms(1-3) by (simp add: ioapic_init_def ioapicr_def)
  then show ?thesis using mask_loop_regs [of 0 n a] assms(5) by (intro exI [of _ "mask_loop n (of_nat 0) a"]) (simp del: of_nat_add of_nat_mult of_nat_Suc)
qed

text \<open>
  \<^verbatim>\<open>irqEnable\<close> without a processor sends the interrupt to the next processor in turn, unmasked and with
  the vector of its number; no other entry changes.
\<close>

lemma irqEnable_routes:
  assumes "0 < unat (ap_nCpu (sm_cfg s))" "unat (ap_nCpu (sm_cfg s)) \<le> N_CPU" "unat (io_id a) < unat (ap_nCpu (sm_cfg s))"
  shows "\<exists>a'. irqEnable irq (-1) s a = Some a' \<and> unat (io_id a') = (unat (io_id a) + 1) mod unat (ap_nCpu (sm_cfg s)) \<and>
    io_reg a' (0x10 + 2 * irq) = 32 + irq \<and> io_reg a' (0x10 + 2 * irq + 1) = push_bit 24 (scast (cp_apic_id (sm_cpus s (unat (io_id a'))))) \<and>
    (\<forall>r. r \<noteq> 0x10 + 2 * irq \<longrightarrow> r \<noteq> 0x10 + 2 * irq + 1 \<longrightarrow> io_reg a' r = io_reg a r)"
proof -
  let ?k = "(unat (io_id a) + 1) mod unat (ap_nCpu (sm_cfg s))"
  have k: "?k < N_CPU" using assms(1,2) by (meson mod_less_divisor order_less_le_trans)
  then have u: "unat (of_nat ?k :: u16) = ?k" unfolding unat_of_nat by (intro mod_less) (simp add: N_CPU_def)
  have "ap_nCpu (sm_cfg s) \<noteq> 0" using assms(1) by auto
  then show ?thesis using k u by (simp add: irqEnable_def ioapicw_def Let_def)
qed

section \<open>Properties\<close>

text \<open>
  The checksum protects a table. When the checksum of a system description table holds, changing
  any one of its bytes (other than the length field) makes the check fail.
\<close>

theorem acpi_checksum_detects:
  assumes "acpiChecksum h m" "k < unat (ld32 m (h + 4))" "k \<notin> {4, 5, 6, 7}" "v \<noteq> m (h + of_nat k)"
  shows "\<not> acpiChecksum h (m(h + of_nat k := v))"
proof -
  have k: "k < 2 ^ 32" using assms(2) unat_u32_lt [of "ld32 m (h + 4)"] by simp
  have "h + of_nat j \<noteq> h + of_nat k" if "j \<in> {4, 5, 6, 7}" for j
    using of_nat_u32_inj [of j k] that k assms(3) by auto
  then have "ld32 (m(h + of_nat k := v)) (h + 4) = ld32 m (h + 4)"
    by (fastforce simp: ld32_def add.assoc)
  then show ?thesis using sum_bytes_upd [OF assms(2), of h m v] assms(1,4) by (simp add: acpiChecksum_def)
qed

text \<open>
  C24. Reading the processor table. On a table with a correct signature and checksum, \<^verbatim>\<open>smp_init\<close> enters
  exactly the enabled processors, in the order of the table, and the first I/O APIC; with more than
  eight enabled processors it runs past the end of \<^verbatim>\<open>cpus\<close>.
\<close>

theorem smp_init_correct:
  assumes "table \<noteq> 0" "mem_is m table APIC_SIGNATURE" "acpiChecksum table m"
    "madt_list m (table + 44) xs (table + ld32 m (table + 4))"
  shows "if length (enabled xs) \<le> N_CPU
    then \<exists>s. smp_init table m cpus_start = Some s \<and> unat (ap_nCpu (sm_cfg s)) = length (enabled xs) \<and>
      (\<forall>i<length (enabled xs). cp_apic_id (sm_cpus s i) = ucast (enabled xs ! i)) \<and> ap_lapicPtr (sm_cfg s) = ld32 m (table + 36) \<and>
      (\<forall>i a r. ioapics xs = (i, a) # r \<longrightarrow> a \<noteq> 0 \<longrightarrow> ap_ioApicId (sm_cfg s) = i \<and> ap_ioapicPtr (sm_cfg s) = a)
    else smp_init table m cpus_start = None"
proof -
  define s0 where "s0 = cpus_start\<lparr>sm_cfg := (sm_cfg cpus_start)\<lparr>ap_lapicPtr := ld32 m (table + 36)\<rparr>\<rparr>"
  have s0: "ap_nCpu (sm_cfg s0) = 0" "ap_ioapicPtr (sm_cfg s0) = 0" "ap_lapicPtr (sm_cfg s0) = ld32 m (table + 36)"
    by (simp_all add: s0_def cpus_start_def)
  have call: "smp_init table m cpus_start = walk xs s0"
    using assms(1-3) madt_loop_walk [OF assms(4)] by (simp add: smp_init_def s0_def)
  show ?thesis
  proof (cases "length (enabled xs) \<le> N_CPU")
    case True
    then obtain s where s: "walk xs s0 = Some s" "unat (ap_nCpu (sm_cfg s)) = length (enabled xs)"
      "\<forall>i<length (enabled xs). cp_apic_id (sm_cpus s i) = ucast (enabled xs ! i)" "ap_lapicPtr (sm_cfg s) = ap_lapicPtr (sm_cfg s0)"
      using walk_cpus [of s0 xs] s0(1) by auto
    then show ?thesis using True call walk_ioapic [OF s(1)] s0 by auto
  next
    case False
    then show ?thesis using call walk_overflow [of s0 xs] s0(1) by (simp add: N_CPU_def)
  qed
qed

text \<open>
  Identifying the processor. With the numbers \<^verbatim>\<open>smp_init\<close> enters, \<^verbatim>\<open>getCpu\<close> finds the processor with the
  number of the local APIC when that is below 128. From 128 on the cast to \<^verbatim>\<open>int8_t\<close> makes the number
  negative, no entry matches, and the kernel panics.
\<close>

theorem getCpu_correct:
  assumes "\<And>i. i < unat (ap_nCpu (sm_cfg s)) \<Longrightarrow> cp_apic_id (sm_cpus s i) = ucast (ids i :: u8)" "unat lid < 256"
  shows "getCpu lid s = (if unat lid < 128 then find (\<lambda>i. ids i = ucast lid) [0..<unat (ap_nCpu (sm_cfg s))] else None)"
proof -
  have pos: "sint (ucast (x :: u8) :: u16) = uint x" for x
  proof -
    have "0 \<le> uint x" "uint x < 256" using unsigned_less [of x] by simp_all
    then have "- (2 ^ 15) \<le> uint x" "uint x < 2 ^ 15" by (auto intro: order_trans [of _ 0])
    then have "signed_take_bit 15 (uint x) = uint x" by (rule signed_take_bit_int_eq_self)
    then show ?thesis using \<open>uint x < 256\<close> by (simp add: sint_uint unsigned_ucast_eq take_bit_int_eq_self)
  qed
  have u: "uint lid = int (unat lid)" by (metis uint_nat)
  have n: "0 \<le> uint lid" "uint lid < 256" "unat lid < 128 \<longleftrightarrow> uint lid < 128" using assms(2) u by linarith+
  have l: "sint (ucast lid :: u8) = (if unat lid < 128 then uint lid else uint lid - 256)"
  proof -
    have "bit (uint lid) 7 \<longleftrightarrow> \<not> uint lid < 128" using n by (auto simp: bit_iff_odd) presburger+
    then show ?thesis using n by (simp add: sint_uint unsigned_ucast_eq take_bit_int_eq_self signed_take_bit_eq_take_bit_minus)
  qed
  have e: "(ids i = ucast lid) = (uint (ids i) = uint lid)" for i
    using n by (simp add: word_uint_eq_iff unsigned_ucast_eq take_bit_int_eq_self)
  have "find (\<lambda>i. sint (cp_apic_id (sm_cpus s i)) = sint (ucast lid :: u8)) [0..<unat (ap_nCpu (sm_cfg s))] =
      (if unat lid < 128 then find (\<lambda>i. ids i = ucast lid) [0..<unat (ap_nCpu (sm_cfg s))] else None)"
    (is "find ?P ?is = _")
  proof (cases "unat lid < 128")
    case True
    then show ?thesis using assms(1) pos l e by (auto intro!: find_cong)
  next
    case False
    have "\<not> ?P i" if "i \<in> set ?is" for i
    proof -
      have "uint (ids i) \<noteq> uint lid - 256" using n(2) uint_ge_0 [of "ids i"] by linarith
      then show ?thesis using that assms(1) pos [of "ids i"] l False by simp
    qed
    then show ?thesis using False by (auto simp: find_None_iff)
  qed
  then show ?thesis by (simp add: getCpu_def cpu_loop_find)
qed

theorem getCpu_correct_witness:
  "getCpu 2 (cpus_start\<lparr>sm_cpus := \<lambda>i. (sm_cpus cpus_start i)\<lparr>cp_apic_id := ucast (of_nat (i + 1) :: u8)\<rparr>,
     sm_cfg := (sm_cfg cpus_start)\<lparr>ap_nCpu := 4\<rparr>\<rparr>) = Some 1"
  (is "getCpu 2 ?s = _")
proof -
  have "getCpu 2 ?s = find (\<lambda>i. of_nat (i + 1) = (ucast (2 :: u32) :: u8)) [0..<4]"
    by (subst getCpu_correct [of ?s "\<lambda>i. of_nat (i + 1)"]) simp_all
  then show ?thesis by (simp add: upt_rec)
qed

text \<open>A table with two processors, the second disabled, and an I/O APIC.\<close>

definition demo_table :: mem8 where
  "demo_table a = (let l = [0x41, 0x50, 0x49, 0x43, 72, 0, 0, 0, 0, 0xd7] @ replicate 26 0 @ [0, 0, 0xe0, 0xfe, 0, 0, 0, 0,
     0, 8, 0, 3, 1, 0, 0, 0,  0, 8, 1, 4, 0, 0, 0, 0,  1, 12, 2, 0, 0, 0, 0xc0, 0xfe, 0, 0, 0, 0 :: u8] in
     if unat (a - 0x1000) < length l then l ! unat (a - 0x1000) else 0)"

theorem smp_init_correct_witness:
  "\<exists>s. smp_init 0x1000 demo_table cpus_start = Some s \<and> ap_nCpu (sm_cfg s) = 1 \<and> cp_apic_id (sm_cpus s 0) = 3 \<and>
     ap_ioApicId (sm_cfg s) = 2 \<and> ap_ioapicPtr (sm_cfg s) = 0xfec00000"
proof -
  let ?xs = "[Lapic 3 1, Lapic 4 0, Ioapic 2 0xfec00000]"
  have h: "mem_is demo_table 0x1000 APIC_SIGNATURE" "acpiChecksum 0x1000 demo_table"
    "madt_list demo_table (0x1000 + 44) ?xs (0x1000 + ld32 demo_table (0x1000 + 4))" by code_simp+
  obtain s where "smp_init 0x1000 demo_table cpus_start = Some s" "unat (ap_nCpu (sm_cfg s)) = 1"
    "cp_apic_id (sm_cpus s 0) = 3" "ap_ioApicId (sm_cfg s) = 2 \<and> ap_ioapicPtr (sm_cfg s) = 0xfec00000"
    using smp_init_correct [OF _ h] by (auto simp: N_CPU_def)
  then show ?thesis by (auto simp: word_unat_eq_iff)
qed

theorem acpi_checksum_detects_witness:
  "acpiChecksum 0x1000 demo_table \<and> \<not> acpiChecksum 0x1000 (demo_table(0x1000 + of_nat 47 := 9))"
proof -
  have h: "acpiChecksum 0x1000 demo_table" "47 < unat (ld32 demo_table (0x1000 + 4))" "9 \<noteq> demo_table (0x1000 + of_nat 47)" by code_simp+
  then show ?thesis using acpi_checksum_detects [OF h(1,2) _ h(3)] by simp
qed

end
