(* ===== verification/Descr.thy ===== *)
theory Descr
  imports Acpi
begin

text \<open>
  Segment and interrupt descriptors: \<^verbatim>\<open>x86/gdt.c\<close>, \<^verbatim>\<open>include/gdt.h\<close> and the tables of \<^verbatim>\<open>x86/isr.c\<close>.

  Addresses the linker assigns (the task state segment, the entry points of the handlers) and the stack
  pointer are arguments. Loading the table registers is a field of the state. An index behind the end
  of a table is outside the program's memory: \<open>None\<close>.
\<close>

section \<open>Definitions\<close>

subsection \<open>Segments\<close>

record gdt_entry =
  ge_limit :: u16
  ge_base_l :: u16
  ge_base_m :: u8
  ge_access :: u8
  ge_limit_h :: "4 word"
  ge_flag :: "4 word"
  ge_base_h :: u8

text \<open>The members of \<^verbatim>\<open>tss_t\<close> the code writes; the others stay 0.\<close>

record tss_t =
  tss_esp0 :: u32
  tss_ss0 :: u16
  tss_cs :: u16
  tss_ss :: u16
  tss_ds :: u16
  tss_es :: u16
  tss_fs :: u16
  tss_gs :: u16

text \<open>\<open>gs_idx\<close> is the static variable of \<^verbatim>\<open>load_gdt\<close>, \<open>gs_tr\<close> the task register of the processor that runs.\<close>

record gdt_state =
  gs_gdt :: "nat \<Rightarrow> gdt_entry"
  gs_tss :: tss_t
  gs_idx :: u32
  gs_tr :: u32

definition GDT_COUNT :: nat where "GDT_COUNT = 20"
definition GDT_LIMIT :: u32 where "GDT_LIMIT = 0xfffff"

definition gdt_set :: "u32 \<Rightarrow> u32 \<Rightarrow> u32 \<Rightarrow> u8 \<Rightarrow> u8 \<Rightarrow> gdt_state \<Rightarrow> gdt_state option" where
  "gdt_set index base limit flag access s = do {
     assertk (unat index < GDT_COUNT);
     Some (s\<lparr>gs_gdt := (gs_gdt s)(unat index := \<lparr>ge_limit = ucast (limit AND mask 16), ge_base_l = ucast (base AND mask 16),
       ge_base_m = ucast (drop_bit 16 base AND mask 8), ge_access = access, ge_limit_h = ucast (drop_bit 16 limit),
       ge_flag = ucast flag, ge_base_h = ucast (drop_bit 24 base)\<rparr>)\<rparr>)
   }"

text \<open>\<^verbatim>\<open>sizeof(tss_t)\<close> is 104, \<^verbatim>\<open>TSS_NBUSY | TSS_KERNEL | TSS_PRES\<close> is \<open>0x89\<close>.\<close>

definition tss_desc_set :: "ptr_t \<Rightarrow> u32 \<Rightarrow> u32 \<Rightarrow> gdt_state \<Rightarrow> gdt_state option" where
  "tss_desc_set tss esp idx s = do {
     s \<leftarrow> gdt_set idx tss 104 0 0x89 s;
     Some (s\<lparr>gs_tss := \<lparr>tss_esp0 = esp, tss_ss0 = 0x10, tss_cs = push_bit 3 3, tss_ss = push_bit 3 4, tss_ds = push_bit 3 4,
       tss_es = push_bit 3 4, tss_fs = push_bit 3 4, tss_gs = push_bit 3 4\<rparr>\<rparr>)
   }"

definition load_gdt :: "ptr_t \<Rightarrow> u32 \<Rightarrow> gdt_state \<Rightarrow> gdt_state option" where
  "load_gdt tss esp s = do {
     let selector = 5 + gs_idx s;
     s \<leftarrow> tss_desc_set tss esp selector (s\<lparr>gs_idx := gs_idx s + 1\<rparr>);
     Some (s\<lparr>gs_tr := push_bit 3 selector\<rparr>)
   }"

definition gdt_init :: "ptr_t \<Rightarrow> u32 \<Rightarrow> gdt_state \<Rightarrow> gdt_state option" where
  "gdt_init tss esp s = do {
     s \<leftarrow> gdt_set 1 0 GDT_LIMIT 0xc 0x9a s;
     s \<leftarrow> gdt_set 2 0 GDT_LIMIT 0xc 0x92 s;
     s \<leftarrow> gdt_set 3 0 GDT_LIMIT 0xc 0xfa s;
     s \<leftarrow> gdt_set 4 0 GDT_LIMIT 0xc 0xf2 s;
     assertk (ge_limit (gs_gdt s 1) = 0xffff);
     assertk (ge_base_l (gs_gdt s 1) = 0);
     assertk (ge_base_m (gs_gdt s 1) = 0);
     assertk (ge_base_h (gs_gdt s 1) = 0);
     assertk (ge_limit_h (gs_gdt s 1) = 0xf);
     assertk (ge_flag (gs_gdt s 1) = 0xc);
     assertk (ge_access (gs_gdt s 1) = 0x9a);
     load_gdt tss esp s
   }"

definition set_tss_esp :: "u32 \<Rightarrow> gdt_state \<Rightarrow> gdt_state" where
  "set_tss_esp stack s = s\<lparr>gs_tss := (gs_tss s)\<lparr>tss_esp0 := stack\<rparr>\<rparr>"

subsection \<open>Interrupts\<close>

record gate_desc =
  gt_offset_l :: u16
  gt_selector :: u16
  gt_zero :: u8
  gt_type :: u8
  gt_offset_h :: u16

type_synonym idt = "u8 \<Rightarrow> gate_desc"

definition IDT_TYPE :: u8 where "IDT_TYPE = 0x8e"
definition IDT_UTYPE :: u8 where "IDT_UTYPE = 0xee"
definition IDT_SC :: u16 where "IDT_SC = 0x08"

definition idt_set_ig :: "u32 \<Rightarrow> u16 \<Rightarrow> u8 \<Rightarrow> gate_desc" where
  "idt_set_ig off selector ty = \<lparr>gt_offset_l = ucast (off AND mask 16), gt_selector = selector, gt_zero = 0, gt_type = ty,
     gt_offset_h = ucast (drop_bit 16 off)\<rparr>"

definition reg_isr0 :: "u8 \<Rightarrow> u32 \<Rightarrow> idt \<Rightarrow> idt" where
  "reg_isr0 n isr t = t(n := idt_set_ig isr IDT_SC IDT_TYPE)"

text \<open>\<^verbatim>\<open>idt_init\<close> registers the handlers \<open>isr\<close> of the exceptions, without number 15, and the system call.\<close>

definition idt_init :: "(u8 \<Rightarrow> u32) \<Rightarrow> u32 \<Rightarrow> idt \<Rightarrow> idt" where
  "idt_init isr syscall_entry t =
     (let t = foldl (\<lambda>t n. reg_isr0 n (isr n) t) t [0, 1, 2, 3, 4, 5, 6, 7, 8, 9, 10, 11, 12, 13, 14, 16, 17, 18, 19, 20]
      in t(0x80 := idt_set_ig syscall_entry IDT_SC IDT_UTYPE))"

definition reg_isr1 :: "u8 \<Rightarrow> u32 \<Rightarrow> u16 \<Rightarrow> smp \<Rightarrow> idt \<times> ioapic \<Rightarrow> (idt \<times> ioapic) option" where
  "reg_isr1 n isr lapicId s = (\<lambda>(t, a). do {
     a \<leftarrow> irqEnable (ucast n - 32) lapicId s a;
     Some (reg_isr0 n isr t, a)
   })"

definition reg_isr :: "u8 \<Rightarrow> u32 \<Rightarrow> smp \<Rightarrow> idt \<times> ioapic \<Rightarrow> (idt \<times> ioapic) option" where
  "reg_isr n isr s x = reg_isr1 n isr (-1) s x"

section \<open>What the processor reads\<close>

text \<open>The base, limit and privilege level of a segment descriptor, and the entry point and level of a gate.\<close>

definition seg_base :: "gdt_entry \<Rightarrow> u32" where
  "seg_base e = ucast (ge_base_l e) OR push_bit 16 (ucast (ge_base_m e)) OR push_bit 24 (ucast (ge_base_h e))"

definition seg_limit :: "gdt_entry \<Rightarrow> u32" where
  "seg_limit e = ucast (ge_limit e) OR push_bit 16 (ucast (ge_limit_h e))"

definition seg_dpl :: "gdt_entry \<Rightarrow> u8" where
  "seg_dpl e = drop_bit 5 (ge_access e) AND 3"

definition gate_offset :: "gate_desc \<Rightarrow> u32" where
  "gate_offset g = ucast (gt_offset_l g) OR push_bit 16 (ucast (gt_offset_h g))"

definition gate_dpl :: "gate_desc \<Rightarrow> u8" where
  "gate_dpl g = drop_bit 5 (gt_type g) AND 3"

lemma gdt_set_decode:
  assumes "gdt_set i base limit flag access s = Some s'"
  shows "seg_base (gs_gdt s' (unat i)) = base" "seg_limit (gs_gdt s' (unat i)) = limit AND mask 20"
    "ge_access (gs_gdt s' (unat i)) = access" "unat i < GDT_COUNT" "k \<noteq> unat i \<Longrightarrow> gs_gdt s' k = gs_gdt s k"
    "gs_tss s' = gs_tss s" "gs_idx s' = gs_idx s" "gs_tr s' = gs_tr s"
proof -
  have s': "s' = s\<lparr>gs_gdt := (gs_gdt s)(unat i := \<lparr>ge_limit = ucast (limit AND mask 16), ge_base_l = ucast (base AND mask 16),
       ge_base_m = ucast (drop_bit 16 base AND mask 8), ge_access = access, ge_limit_h = ucast (drop_bit 16 limit),
       ge_flag = ucast flag, ge_base_h = ucast (drop_bit 24 base)\<rparr>)\<rparr>" "unat i < GDT_COUNT"
    using assms by (auto simp: gdt_set_def split: if_splits)
  show "seg_base (gs_gdt s' (unat i)) = base"
  proof (rule bit_word_eqI)
    fix n assume "n < LENGTH(32)"
    then show "bit (seg_base (gs_gdt s' (unat i))) n = bit base n"
      unfolding s' seg_base_def by (cases "n < 24") (auto simp: bit_simps)
  qed
  show "seg_limit (gs_gdt s' (unat i)) = limit AND mask 20"
    unfolding s' seg_limit_def by (rule bit_word_eqI) (auto simp: bit_simps)
  show "ge_access (gs_gdt s' (unat i)) = access" "unat i < GDT_COUNT" "k \<noteq> unat i \<Longrightarrow> gs_gdt s' k = gs_gdt s k"
    "gs_tss s' = gs_tss s" "gs_idx s' = gs_idx s" "gs_tr s' = gs_tr s" using s' by simp_all
qed

lemma idt_set_ig_decode: "gate_offset (idt_set_ig off selector ty) = off"
  unfolding gate_offset_def idt_set_ig_def by (rule bit_word_eqI) (auto simp: bit_simps)

section \<open>Properties\<close>

lemma load_gdt_decode:
  assumes "unat (gs_idx s) < 15"
  shows "\<exists>s'. load_gdt tss esp s = Some s' \<and> seg_base (gs_gdt s' (5 + unat (gs_idx s))) = tss \<and> seg_limit (gs_gdt s' (5 + unat (gs_idx s))) = 104 \<and>
    ge_access (gs_gdt s' (5 + unat (gs_idx s))) = 0x89 \<and> unat (gs_tr s') = 8 * (5 + unat (gs_idx s)) \<and> gs_idx s' = gs_idx s + 1 \<and>
    tss_esp0 (gs_tss s') = esp \<and> (\<forall>k. k \<noteq> 5 + unat (gs_idx s) \<longrightarrow> gs_gdt s' k = gs_gdt s k)"
proof -
  have u: "unat (5 + gs_idx s) = 5 + unat (gs_idx s)" using assms by (simp add: unat_add_no_wrap)
  obtain s1 where s1: "gdt_set (5 + gs_idx s) tss 104 0 0x89 (s\<lparr>gs_idx := gs_idx s + 1\<rparr>) = Some s1"
    using assms u by (simp add: gdt_set_def GDT_COUNT_def)
  have "(104 :: u32) AND mask 20 = 104" by (simp add: mask_eq_exp_minus_1)
  moreover have "unat (push_bit 3 (5 + gs_idx s)) = 8 * (5 + unat (gs_idx s))"
    unfolding push_bit_eq_mult using u assms by (subst unat_mult_no_wrap) simp_all
  ultimately show ?thesis using gdt_set_decode [OF s1] u s1 by (simp add: load_gdt_def tss_desc_set_def)
qed





end
