(* ===== verification/Process.thy ===== *)
theory Process
  imports Vfs Terminal Descr
begin

text \<open>
  Processes: the creation and removal of tasks in \<^verbatim>\<open>task/fork.c\<close>, the program loader \<^verbatim>\<open>loader.c\<close>, the
  system calls of \<^verbatim>\<open>syscall/syscall.c\<close> and the page fault handler of \<^verbatim>\<open>x86/isr.c\<close>, composed from the
  scheduler, the address spaces, the file system and the terminal.

  The state is the one of the file system, which contains the kernel heap, the bytes of the pages and
  the scheduler, together with the kernel's page directory, the bytes of the kernel stacks, the
  descriptor tables, the terminal and what the keyboard will send. Code addresses the linker assigns
  are arguments. Entering user mode has no effect on this state.
\<close>

section \<open>Definitions\<close>

record kern =
  kr_vfs :: vfs
  kr_dir :: pgtab
  kr_stack :: mem8
  kr_gdt :: gdt_state
  kr_term :: terminal
  kr_keys :: "u8 list option list"

abbreviation kr_cc :: "kern \<Rightarrow> cache" where
  "kr_cc k \<equiv> fs_cc (vf_fs (kr_vfs k))"

abbreviation upd_kr_cc :: "(cache \<Rightarrow> cache) \<Rightarrow> kern \<Rightarrow> kern" where
  "upd_kr_cc f k \<equiv> k\<lparr>kr_vfs := (kr_vfs k)\<lparr>vf_fs := (vf_fs (kr_vfs k))\<lparr>fs_cc := f (kr_cc k)\<rparr>\<rparr>\<rparr>"

abbreviation kr_sched :: "kern \<Rightarrow> sched" where
  "kr_sched k \<equiv> cc_sched (kr_cc k)"

abbreviation upd_kr_sched :: "sched \<Rightarrow> kern \<Rightarrow> kern" where
  "upd_kr_sched s k \<equiv> upd_kr_cc (\<lambda>c. c\<lparr>cc_sched := s\<rparr>) k"

abbreviation upd_kr_heap :: "kheap \<Rightarrow> kern \<Rightarrow> kern" where
  "upd_kr_heap h k \<equiv> upd_kr_cc (\<lambda>c. c\<lparr>cc_heap := h\<rparr>) k"

abbreviation kr_um :: "kern \<Rightarrow> umem" where
  "kr_um k \<equiv> \<lparr>um_heap = cc_heap (kr_cc k), um_bytes = cc_data (kr_cc k)\<rparr>"

abbreviation upd_kr_um :: "umem \<Rightarrow> kern \<Rightarrow> kern" where
  "upd_kr_um u k \<equiv> upd_kr_cc (\<lambda>c. c\<lparr>cc_heap := um_heap u, cc_data := um_bytes u\<rparr>) k"

abbreviation kr_task :: "kern \<Rightarrow> ptr_t \<Rightarrow> task_struct" where
  "kr_task k t \<equiv> sd_task (kr_sched k) t"

abbreviation upd_kr_task :: "ptr_t \<Rightarrow> (task_struct \<Rightarrow> task_struct) \<Rightarrow> kern \<Rightarrow> kern" where
  "upd_kr_task t f k \<equiv> upd_kr_sched (upd_task t f (kr_sched k)) k"

definition on_sched :: "(sched \<Rightarrow> sched option) \<Rightarrow> kern \<Rightarrow> kern option" where
  "on_sched f k = do { s \<leftarrow> f (kr_sched k); Some (upd_kr_sched s k) }"

definition on_vfs :: "(vfs \<Rightarrow> ('a \<times> vfs) option) \<Rightarrow> kern \<Rightarrow> ('a \<times> kern) option" where
  "on_vfs f k = do { (r, v) \<leftarrow> f (kr_vfs k); Some (r, k\<lparr>kr_vfs := v\<rparr>) }"

subsection \<open>Creating tasks\<close>

abbreviation (input) CLONE_KERNEL_STACK :: u32 where "CLONE_KERNEL_STACK \<equiv> 1"
abbreviation (input) CLONE_MM :: u32 where "CLONE_MM \<equiv> 2"
abbreviation (input) CLONE_FILE :: u32 where "CLONE_FILE \<equiv> 4"

text \<open>The fresh structure of \<^verbatim>\<open>kernel_clone\<close>, in the memory that held \<open>t\<close>.\<close>

definition new_task :: "ptr_t \<Rightarrow> int \<Rightarrow> task_struct \<Rightarrow> task_struct \<Rightarrow> task_struct" where
  "new_task self pid cur t = t\<lparr>ts_pid := pid, ts_magic := TASK_MAGIC, ts_state := TASK_RUNNING, ts_priority := ts_priority cur,
     ts_timer_slice := TIME_SLICE_LENGTH, ts_name := (ts_name t)[0 := 0], ts_mm := None, ts_cwd := ts_cwd cur, ts_stack := self,
     ts_context := None, ts_sysContext := 0, ts_open := 0\<rparr>"

text \<open>
  The context a forked task starts with, 24 bytes below the copied part of the kernel stack; the
  registers that are not set are those in memory. Without a saved system call context the copy would
  start at offset 0 and overwrite the new structure itself; this is not followed further.
\<close>

definition clone_stack :: "u32 \<Rightarrow> ptr_t \<Rightarrow> ptr_t \<Rightarrow> kern \<Rightarrow> kern option" where
  "clone_stack syscall_ret cur t k = do {
     assertk (ts_sysContext (kr_task k cur) \<noteq> 0);
     let offset = ts_sysContext (kr_task k cur) AND PAGE_MASK;
     let k = k\<lparr>kr_stack := memcpy (ts_stack (kr_task k t) + offset) (ts_stack (kr_task k cur) + offset) (PAGE_SIZE - offset) (kr_stack k)\<rparr>;
     let c = ts_stack (kr_task k t) + offset - 24;
     Some (upd_kr_task t (\<lambda>p. p\<lparr>ts_context := Some \<lparr>cx_eflags = 0x200, cx_ebx = 0, cx_ebp = ld32 (kr_stack k) (c + 8),
       cx_esi = ld32 (kr_stack k) (c + 12), cx_edi = ld32 (kr_stack k) (c + 16), cx_eip = syscall_ret\<rparr>\<rparr>) k)
   }"

definition kernel_clone :: "u32 \<Rightarrow> ptr_t \<Rightarrow> u32 \<Rightarrow> kern \<Rightarrow> (ptr_t \<times> kern) option" where
  "kernel_clone syscall_ret cur flag k = do {
     (t, h) \<leftarrow> kmalloc PAGE_SIZE (cc_heap (kr_cc k));
     let k = upd_kr_heap h k;
     assertk (t \<noteq> 0);
     (pid, s) \<leftarrow> alloc_pid t (kr_sched k);
     let k = upd_kr_sched (upd_task t (new_task t pid (sd_task s cur)) s) k;
     k \<leftarrow> (if flag AND CLONE_FILE \<noteq> 0 then do { v \<leftarrow> copy_open_file cur t (kr_vfs k); Some (k\<lparr>kr_vfs := v\<rparr>) } else Some k);
     k \<leftarrow> (if flag AND CLONE_MM \<noteq> 0 then do {
         (self, mm) \<leftarrow> ts_mm (kr_task k cur);
         (new, mm, u) \<leftarrow> vm_struct_copy (kr_dir k) mm (kr_um k);
         Some (upd_kr_task t (\<lambda>p. p\<lparr>ts_mm := Some (new, mm)\<rparr>) (upd_kr_um u k))
       } else Some k);
     k \<leftarrow> (if flag AND CLONE_KERNEL_STACK \<noteq> 0 then clone_stack syscall_ret cur t k else Some k);
     Some (t, upd_kr_task t (\<lambda>p. p\<lparr>ts_lock := spinlock_init\<rparr>) k)
   }"

definition kernel_fork :: "u32 \<Rightarrow> kern \<Rightarrow> (int \<times> kern) option" where
  "kernel_fork syscall_ret k = do {
     cur \<leftarrow> CUR_TCB (kr_sched k);
     (t, k) \<leftarrow> kernel_clone syscall_ret cur (CLONE_MM OR CLONE_KERNEL_STACK OR CLONE_FILE) k;
     k \<leftarrow> on_sched (sched_task_add t) k;
     Some (ts_pid (kr_task k t), k)
   }"

text \<open>The result of \<^verbatim>\<open>kthread_create\<close> is 0 and the identifier it stores.\<close>

definition kthread_create :: "u32 \<Rightarrow> u32 \<Rightarrow> u32 \<Rightarrow> kern \<Rightarrow> (int \<times> int \<times> kern) option" where
  "kthread_create thread_entry worker args k = do {
     cur \<leftarrow> CUR_TCB (kr_sched k);
     (t, k) \<leftarrow> kernel_clone 0 cur 0 k;
     let c = t + PAGE_SIZE - 24;
     let k = upd_kr_task t (\<lambda>p. p\<lparr>ts_context := Some \<lparr>cx_eflags = 0, cx_ebx = worker, cx_ebp = args, cx_esi = ld32 (kr_stack k) (c + 12),
       cx_edi = ld32 (kr_stack k) (c + 16), cx_eip = thread_entry\<rparr>\<rparr>) k;
     let tid = ts_pid (kr_task k t);
     k \<leftarrow> on_sched (sched_task_add t) k;
     Some (0, tid, k)
   }"

subsection \<open>Start of the task system\<close>

definition task_init1 :: "sched \<Rightarrow> sched option" where
  "task_init1 s = do {
     let cur = sd_cur s;
     let s = upd_task cur (\<lambda>t. t\<lparr>ts_magic := TASK_MAGIC, ts_priority := of_nat TASK_MAX_PRIORITY, ts_timer_slice := TIME_SLICE_LENGTH\<rparr>) s;
     (pid, s) \<leftarrow> alloc_pid cur s;
     let s = upd_task cur (\<lambda>t. t\<lparr>ts_pid := pid, ts_state := TASK_RUNNING, ts_stack := cur, ts_sysContext := 0, ts_context := None, ts_open := 0\<rparr>) s;
     s \<leftarrow> task_set_name pid [0x69, 0x64, 0x6c, 0x65] s;
     Some (upd_task cur (\<lambda>t. t\<lparr>ts_lock := spinlock_init\<rparr>) s)
   }"

definition cleaner_task_init :: "u32 \<Rightarrow> u32 \<Rightarrow> kern \<Rightarrow> kern option" where
  "cleaner_task_init thread_entry cleaner_worker k = do {
     (_, tid, k) \<leftarrow> kthread_create thread_entry cleaner_worker 0 k;
     (t, s) \<leftarrow> task_get_run_list tid (kr_sched k);
     s \<leftarrow> task_set_name tid [0x63, 0x6c, 0x65, 0x61, 0x6e, 0x65, 0x72] (s\<lparr>sd_cleaner := t\<rparr>);
     Some (upd_kr_sched s k)
   }"

definition task_init :: "u32 \<Rightarrow> u32 \<Rightarrow> u32 \<Rightarrow> kern \<Rightarrow> kern option" where
  "task_init thread_entry cleaner_worker idle_worker k = do {
     s \<leftarrow> task_init1 ((kr_sched k)\<lparr>sd_map_lock := spinlock_init, sd_list_lock := spinlock_init\<rparr>);
     s \<leftarrow> task_set_name (ts_pid (sd_task s (sd_cur s))) [0x69, 0x6e, 0x69, 0x74] s;
     let s = s\<lparr>sd_timers := thread_timer_init (sd_timers s)\<rparr>;
     k \<leftarrow> cleaner_task_init thread_entry cleaner_worker (upd_kr_sched s k);
     let k = upd_kr_sched ((kr_sched k)\<lparr>sd_init_task := sd_cur (kr_sched k)\<rparr>) k;
     (_, tid, k) \<leftarrow> kthread_create thread_entry idle_worker 0 k;
     (t, s) \<leftarrow> task_get_run_list tid (kr_sched k);
     s \<leftarrow> task_set_name tid [0x69, 0x64, 0x6c, 0x65] (s\<lparr>sd_idle := t\<rparr>);
     s \<leftarrow> task_set_time_slice tid 0 s;
     Some (upd_kr_sched s k)
   }"

subsection \<open>User memory\<close>

text \<open>Bytes at a virtual address of the page directory; an unmapped address is a fault.\<close>

fun write_user :: "ptr_t \<Rightarrow> u8 list \<Rightarrow> ptr_t \<Rightarrow> umem \<Rightarrow> umem option" where
  "write_user va [] pgdir u = Some u"
| "write_user va (b # bs) pgdir u = do {
     p \<leftarrow> translate va pgdir u;
     write_user (va + 1) bs pgdir (u\<lparr>um_bytes := (um_bytes u)(p := (um_bytes u p)(unat (va AND PAGE_MASK) := b))\<rparr>)
   }"

fun read_user :: "nat \<Rightarrow> ptr_t \<Rightarrow> ptr_t \<Rightarrow> umem \<Rightarrow> u8 list option" where
  "read_user 0 va pgdir u = Some []"
| "read_user (Suc n) va pgdir u = do {
     p \<leftarrow> translate va pgdir u;
     bs \<leftarrow> read_user n (va + 1) pgdir u;
     Some (um_bytes u p (unat (va AND PAGE_MASK)) # bs)
   }"

text \<open>A string without its terminator.\<close>

partial_function (option) user_string :: "ptr_t \<Rightarrow> ptr_t \<Rightarrow> umem \<Rightarrow> u8 list option" where
  "user_string va pgdir u = do {
     p \<leftarrow> translate va pgdir u;
     let b = um_bytes u p (unat (va AND PAGE_MASK));
     if b = 0 then Some [] else do { bs \<leftarrow> user_string (va + 1) pgdir u; Some (b # bs) }
   }"

subsection \<open>The first process and the end of a task\<close>

text \<open>
  \<^verbatim>\<open>user_task_init\<close> up to the jump to user mode, with the addresses of the sections of the program; the
  second result is the stack address it passes.
\<close>

definition user_task_init :: "ptr_t \<Rightarrow> ptr_t \<Rightarrow> ptr_t \<Rightarrow> ptr_t \<Rightarrow> ptr_t \<Rightarrow> mm_struct \<Rightarrow> kern \<Rightarrow> (u32 \<times> kern) option" where
  "user_task_init text rodata data bss bssEnd mm k = do {
     (self, h) \<leftarrow> kmalloc 80 (cc_heap (kr_cc k));
     let k = upd_kr_heap h k;
     (mm, u) \<leftarrow> vm_map_init mm (kr_um k);
     (mm, u) \<leftarrow> mm_struct_init mm \<lparr>ma_text = text, ma_pa1 = text, ma_size1 = rodata - text, ma_rodata = rodata, ma_pa2 = rodata,
       ma_size2 = data - rodata, ma_data = data, ma_pa3 = data, ma_size3 = bss - data, ma_bss = bss, ma_pa4 = bss, ma_size4 = bssEnd - bss\<rparr> u;
     cur \<leftarrow> CUR_TCB (kr_sched k);
     let k = upd_kr_task cur (\<lambda>t. t\<lparr>ts_lock := spinlock_init\<rparr>) (upd_kr_um u k);
     let k = upd_kr_um (copy_kernel_pdes (kr_dir k) (mm_pgdir mm) (kr_um k)) k;
     let k = upd_kr_task cur (\<lambda>t. t\<lparr>ts_mm := Some (self, mm)\<rparr>) k;
     (cwd, k) \<leftarrow> on_vfs (vfs_find_core [0x2f]) k;
     let k = upd_kr_task cur (\<lambda>t. t\<lparr>ts_cwd := cwd\<rparr>) k;
     let k = k\<lparr>kr_gdt := set_tss_esp (ts_stack (kr_task k cur) + PAGE_SIZE) (kr_gdt k)\<rparr>;
     let k = upd_kr_task cur (\<lambda>t. t\<lparr>ts_timer_slice := TIME_SLICE_LENGTH\<rparr>) k;
     Some (ar_va (mm_stack mm) + PAGE_SIZE, k)
   }"

text \<open>The loop of \<^verbatim>\<open>cleaner_worker\<close> over the finished tasks, and one round up to its sleep.\<close>

definition clean_task :: "ptr_t \<Rightarrow> kern \<Rightarrow> kern option" where
  "clean_task t k = do {
     t \<leftarrow> tcb_entry t (kr_sched k);
     assertk (ts_state (kr_task k t) = TASK_ZOMBIE);
     k \<leftarrow> on_sched (free_pid (ts_pid (kr_task k t))) k;
     k \<leftarrow> (if ts_open (kr_task k t) \<noteq> 0
          then do { v \<leftarrow> recycle_open_file (ts_open (kr_task k t)) (kr_vfs k); Some (k\<lparr>kr_vfs := v\<rparr>) } else Some k);
     k \<leftarrow> (case ts_mm (kr_task k t) of
          None \<Rightarrow> Some k
        | Some (self, mm) \<Rightarrow> do { u \<leftarrow> vm_struct_destroy self mm (kr_um k); Some (upd_kr_um u k) });
     h \<leftarrow> kfree (ts_stack (kr_task k t)) (cc_heap (kr_cc k));
     Some (upd_kr_heap h k)
   }"

fun clean_loop :: "ptr_t list \<Rightarrow> kern \<Rightarrow> kern option" where
  "clean_loop [] k = Some k"
| "clean_loop (t # ts) k = do { k \<leftarrow> clean_task t k; clean_loop ts k }"

definition cleaner_worker :: "kern \<Rightarrow> kern option" where
  "cleaner_worker k = do {
     l \<leftarrow> spinlock_lock (sd_list_lock (kr_sched k));
     let k = upd_kr_sched ((kr_sched k)\<lparr>sd_list_lock := l\<rparr>) k;
     k \<leftarrow> clean_loop (sd_list (kr_sched k) FinishList) k;
     let s = kr_sched k;
     let s = s\<lparr>sd_list := (sd_list s)(FinishList := []), sd_list_lock := spinlock_unlock (sd_list_lock s)\<rparr>;
     (_, _, s) \<leftarrow> task_sleep BlockList None s;
     Some (upd_kr_sched s k)
   }"

subsection \<open>Page faults\<close>

definition task_cow :: "ptr_t \<Rightarrow> kern \<Rightarrow> (int \<times> kern) option" where
  "task_cow addr k = do {
     let addr = PAGE_CEIL addr;
     cur \<leftarrow> CUR_TCB (kr_sched k);
     (case ts_mm (kr_task k cur) of
        None \<Rightarrow> Some (-1, k)
      | Some (self, mm) \<Rightarrow> do { (r, u) \<leftarrow> vm_remap_page addr (mm_pgdir mm) (kr_um k); Some (r, upd_kr_um u k) })
   }"

text \<open>\<^verbatim>\<open>ISR(14)\<close>: bits 6 to 15 and 17 to 31 of the error code must be 0; only write faults are repaired.\<close>

definition page_fault_isr :: "u32 \<Rightarrow> ptr_t \<Rightarrow> kern \<Rightarrow> kern option" where
  "page_fault_isr error_code pf_adr k = do {
     assertk (drop_bit 6 error_code AND mask 10 = 0);
     assertk (drop_bit 17 error_code = 0);
     if bit error_code 1 then do {
       (r, k) \<leftarrow> task_cow pf_adr k;
       if r = 0 then Some k else None
     } else None
   }"

subsection \<open>Loading a program\<close>

abbreviation page_mem :: "kern \<Rightarrow> nat \<Rightarrow> mem8" where
  "page_mem k p \<equiv> (\<lambda>a. cc_data (kr_cc k) p (unat a))"

definition no_area :: vm_area where
  "no_area = \<lparr>ar_va = 0, ar_size = 0, ar_flag = 0\<rparr>"

text \<open>The member of \<^verbatim>\<open>mm\<close> a segment is entered in.\<close>

definition seg_area :: "elf32_phdr \<Rightarrow> mm_struct \<Rightarrow> vm_area" where
  "seg_area p mm = (if p_filesz p = 0 then mm_bss mm else if p_flags p AND PF_X \<noteq> 0 then mm_text mm
     else if p_flags p AND PF_W \<noteq> 0 then mm_data mm else mm_rodata mm)"

definition set_seg_area :: "elf32_phdr \<Rightarrow> vm_area \<Rightarrow> mm_struct \<Rightarrow> mm_struct" where
  "set_seg_area p a mm = (if p_filesz p = 0 then mm\<lparr>mm_bss := a\<rparr> else if p_flags p AND PF_X \<noteq> 0 then mm\<lparr>mm_text := a\<rparr>
     else if p_flags p AND PF_W \<noteq> 0 then mm\<lparr>mm_data := a\<rparr> else mm\<lparr>mm_rodata := a\<rparr>)"

text \<open>One program header: pages for the segment, mapped and filled from the file and with zeros.\<close>

definition load_segment :: "int \<Rightarrow> elf32_phdr \<Rightarrow> mm_struct \<Rightarrow> kern \<Rightarrow> (mm_struct \<times> kern) option" where
  "load_segment file pgh mm k = do {
     assertk (p_type pgh = PT_LOAD);
     let va = p_vaddr pgh;
     let sz = PAGE_FLOOR (p_memsz pgh);
     (pa, s) \<leftarrow> alloc_page sz (um_pmm (kr_um k));
     flag \<leftarrow> get_flags pgh;
     let flag = flag OR VM_PRES;
     u \<leftarrow> vm_maps (Some mm) va pa flag sz (upd_um_pmm s (kr_um k));
     let k = upd_kr_um u k;
     k \<leftarrow> (if p_filesz pgh = 0 then do {
         u \<leftarrow> write_user va (replicate (unat sz) 0) (mm_pgdir mm) (kr_um k);
         Some (upd_kr_um u k)
       } else do {
         assertk (ar_size (seg_area pgh mm) = 0);
         (_, k) \<leftarrow> on_vfs (vfs_lseek file (p_offset pgh) SEEK_SET) k;
         (bs, k) \<leftarrow> on_vfs (vfs_read file (p_filesz pgh)) k;
         u \<leftarrow> write_user va bs (mm_pgdir mm) (kr_um k);
         u \<leftarrow> write_user (va + p_filesz pgh) (replicate (unat (p_memsz pgh - p_filesz pgh)) 0) (mm_pgdir mm) u;
         Some (upd_kr_um u k)
       });
     Some ((set_seg_area pgh \<lparr>ar_va = va, ar_size = sz, ar_flag = flag\<rparr> mm)\<lparr>mm_size := mm_size mm + sz\<rparr>, k)
   }"

text \<open>The loop over the program headers, which must lie in the page that was read.\<close>

fun load_segments :: "nat \<Rightarrow> int \<Rightarrow> nat \<Rightarrow> u32 \<Rightarrow> mm_struct \<Rightarrow> kern \<Rightarrow> (mm_struct \<times> kern) option" where
  "load_segments 0 file pg off mm k = Some (mm, k)"
| "load_segments (Suc n) file pg off mm k = do {
     assertk (unat off + 32 \<le> 4096);
     let pgh = elf32_phdr_at (page_mem k pg) off;
     (mm, k) \<leftarrow> (if p_type pgh \<noteq> PT_NULL then load_segment file pgh mm k else Some (mm, k));
     load_segments n file pg (off + 32) mm k
   }"

text \<open>
  \<^verbatim>\<open>load_elf_exec\<close>. The user part of the directory (768 entries) is cleared; the new stack pointer and
  entry point go to offsets 32 and 20 of the saved system call context on the kernel stack.
\<close>

definition store32 :: "ptr_t \<Rightarrow> u32 \<Rightarrow> mem8 \<Rightarrow> mem8" where
  "store32 a v m = m(a := ucast v, a + 1 := ucast (drop_bit 8 v), a + 2 := ucast (drop_bit 16 v), a + 3 := ucast (drop_bit 24 v))"

definition load_elf_exec :: "u8 list \<Rightarrow> kern \<Rightarrow> kern option" where
  "load_elf_exec path k = do {
     cur \<leftarrow> CUR_TCB (kr_sched k);
     (self, mm) \<leftarrow> ts_mm (kr_task k cur);
     let pgdir = mm_pgdir mm;
     (file, k) \<leftarrow> on_vfs (vfs_open path) k;
     assertk (file \<ge> 0);
     (page, k) \<leftarrow> on_vfs (vfs_read_page file 0) k;
     let hdr = elf32_header_at (page_mem k page) 0;
     ok \<leftarrow> elf_check_header hdr;
     assertk ok;
     assertk (e_type hdr = ET_EXEC);
     assertk (e_shstrndx hdr \<noteq> SHN_UNDEF);
     u \<leftarrow> vm_struct_unmaps mm (kr_um k);
     let u = foldl (\<lambda>u i. um_store (pgdir + 4 * of_nat i) 0 u) u [0..<768];
     let k = upd_kr_um u k;
     let mm = \<lparr>mm_text = no_area, mm_rodata = no_area, mm_data = no_area, mm_bss = no_area, mm_brk = no_area, mm_stack = no_area,
       mm_size = 0, mm_pgdir = pgdir\<rparr>;
     (page1, k) \<leftarrow> on_vfs (vfs_read_page file (e_phoff hdr)) k;
     (mm, k) \<leftarrow> load_segments (unat (e_phnum hdr)) file page1 (e_phoff hdr mod PAGE_SIZE) mm k;
     mm \<leftarrow> vm_brk_init mm;
     (mm, u) \<leftarrow> vm_stack_init mm (kr_um k);
     let mm = mm\<lparr>mm_size := mm_size mm + (ar_size (mm_brk mm) + ar_size (mm_stack mm))\<rparr>;
     let k = upd_kr_task cur (\<lambda>t. t\<lparr>ts_mm := Some (self, mm)\<rparr>) (upd_kr_um u k);
     (_, k) \<leftarrow> on_vfs (vfs_close file) k;
     let sc = ts_sysContext (kr_task k cur);
     assertk (sc \<noteq> 0);
     Some (k\<lparr>kr_stack := store32 (sc + 20) (e_entry hdr) (store32 (sc + 32) (ar_va (mm_stack mm) + PAGE_SIZE) (kr_stack k))\<rparr>)
   }"

subsection \<open>System calls\<close>

text \<open>\<^verbatim>\<open>SYS_EXEC\<close> to \<^verbatim>\<open>SYS_SBRK\<close>; the address space of the caller.\<close>

definition cur_mm :: "kern \<Rightarrow> (ptr_t \<times> ptr_t \<times> mm_struct) option" where
  "cur_mm k = do { cur \<leftarrow> CUR_TCB (kr_sched k); (self, mm) \<leftarrow> ts_mm (kr_task k cur); Some (cur, self, mm) }"

definition sys_exec :: "u32 \<Rightarrow> kern \<Rightarrow> (u32 \<times> kern) option" where
  "sys_exec path k = do {
     (cur, self, mm) \<leftarrow> cur_mm k;
     p \<leftarrow> user_string path (mm_pgdir mm) (kr_um k);
     k \<leftarrow> load_elf_exec p k;
     Some (0, k)
   }"

definition sys_fork :: "u32 \<Rightarrow> kern \<Rightarrow> (u32 \<times> kern) option" where
  "sys_fork syscall_ret k = do { (pid, k) \<leftarrow> kernel_fork syscall_ret k; Some (of_int pid, k) }"

text \<open>
  \<^verbatim>\<open>k_gets\<close> and \<^verbatim>\<open>k_puts\<close> run on the buffer of the caller: the bytes it reads are placed in the memory of
  the terminal functions, the bytes it stores are written back.
\<close>

definition sys_getchar :: "u32 \<Rightarrow> u32 \<Rightarrow> kern \<Rightarrow> (u32 \<times> kern) option" where
  "sys_getchar buf len k = do {
     (cur, self, mm) \<leftarrow> cur_mm k;
     (i, keys, t) \<leftarrow> k_gets buf (sint len) (kr_keys k) (kr_term k);
     let n = nat (min (sint len) (i + 1));
     u \<leftarrow> write_user buf (map (\<lambda>j. t_mem t (buf + of_nat j)) [0..<n]) (mm_pgdir mm) (kr_um k);
     Some (0, (upd_kr_um u k)\<lparr>kr_term := t, kr_keys := keys\<rparr>)
   }"

definition sys_putchar :: "u32 \<Rightarrow> u32 \<Rightarrow> kern \<Rightarrow> (u32 \<times> kern) option" where
  "sys_putchar buf len k = do {
     (cur, self, mm) \<leftarrow> cur_mm k;
     bs \<leftarrow> (if sint len < 0 then user_string buf (mm_pgdir mm) (kr_um k) else read_user (unat len) buf (mm_pgdir mm) (kr_um k));
     let m = (\<lambda>a. if unat (a - buf) < length bs then bs ! unat (a - buf) else 0);
     t \<leftarrow> k_puts buf (sint len) ((kr_term k)\<lparr>t_mem := m\<rparr>);
     Some (0, k\<lparr>kr_term := t\<rparr>)
   }"

text \<open>The handlers that only return 0: \<^verbatim>\<open>sys_mkdir\<close> to \<^verbatim>\<open>sys_sleep\<close>, and \<^verbatim>\<open>sys_getcwd\<close>, whose \<^verbatim>\<open>getcwd\<close> is empty.\<close>

definition sys_nothing :: "kern \<Rightarrow> (u32 \<times> kern) option" where
  "sys_nothing k = Some (0, k)"

definition sys_cls :: "kern \<Rightarrow> (u32 \<times> kern) option" where
  "sys_cls k = Some (0, k\<lparr>kr_term := terminal_clear (kr_term k)\<rparr>)"

definition sys_sbrk :: "u32 \<Rightarrow> kern \<Rightarrow> (u32 \<times> kern) option" where
  "sys_sbrk sz k = do {
     (cur, self, mm) \<leftarrow> cur_mm k;
     (r, mm, u) \<leftarrow> sbrk sz (Some mm) (kr_um k);
     Some (r, upd_kr_task cur (\<lambda>t. t\<lparr>ts_mm := Some (self, mm)\<rparr>) (upd_kr_um u k))
   }"

text \<open>
  \<^verbatim>\<open>syscall_isr\<close>. The first result is the value in \<^verbatim>\<open>eax\<close>, \<open>None\<close> when the call does not return to the
  caller: after \<^verbatim>\<open>sys_exit\<close> the state is that of the task that runs next.
\<close>

record sys_reg =
  r_eax :: u32
  r_ebx :: u32
  r_ecx :: u32
  r_edx :: u32
  r_esi :: u32
  r_edi :: u32
  r_esp :: u32

definition syscall_isr :: "u32 \<Rightarrow> sys_reg \<Rightarrow> kern \<Rightarrow> (u32 option \<times> kern) option" where
  "syscall_isr syscall_ret reg k = do {
     cur \<leftarrow> CUR_TCB (kr_sched k);
     let k = upd_kr_task cur (\<lambda>t. t\<lparr>ts_sysContext := r_esp reg\<rparr>) k;
     let no = unat (r_eax reg);
     if no \<le> 16 then
       (if no = 13 then do { k \<leftarrow> on_sched task_exit k; Some (None, k) }
        else do {
          (r, k) \<leftarrow> (if no = 0 then sys_exec (r_ebx reg) k
            else if no = 1 then sys_getchar (r_ebx reg) (r_ecx reg) k
            else if no = 2 then sys_putchar (r_ebx reg) (r_ecx reg) k
            else if no = 9 then sys_fork syscall_ret k
            else if no = 14 then sys_cls k
            else if no = 16 then sys_sbrk (r_ebx reg) k
            else sys_nothing k);
          Some (Some r, k)
        })
     else Some (Some (-1), k)
   }"

subsection \<open>Start of the page cache\<close>

text \<open>
  \<^verbatim>\<open>page_cache_init\<close>: \<open>lid\<close> is the identifier of the processor; the interrupt gates and routes are \<open>x\<close>. The
  queues and the list are empty, and the functions of the disk are those of the driver.
\<close>

definition create_flush_thread :: "u32 \<Rightarrow> u32 \<Rightarrow> kern \<Rightarrow> kern option" where
  "create_flush_thread thread_entry page_flush_worker k = do {
     (_, tid, k) \<leftarrow> kthread_create thread_entry page_flush_worker 0 k;
     s \<leftarrow> task_set_name tid [0x70, 0x61, 0x67, 0x65, 0x5f, 0x66, 0x6c, 0x61, 0x73, 0x68] (kr_sched k);
     Some (upd_kr_sched s k)
   }"

definition page_cache_init ::
  "u32 \<Rightarrow> u32 \<Rightarrow> u32 \<Rightarrow> u32 \<Rightarrow> smp \<Rightarrow> idt \<times> ioapic \<Rightarrow> kern \<Rightarrow> ((idt \<times> ioapic) \<times> kern) option" where
  "page_cache_init thread_entry page_flush_worker isr lid p x k = do {
     let (m, s) = thread_mutex_init (cc_wait_rw (kr_cc k)) (kr_sched k);
     let k = upd_kr_cc (\<lambda>c. c\<lparr>cc_wait_rw := m, cc_sched := s, cc_list := [], cc_rwlock := rwlock_init, cc_dirty := [], cc_inode_dirty := [],
       cc_thread := None, cc_writing := None\<rparr>) k;
     i \<leftarrow> getCpu lid p;
     x \<leftarrow> reg_isr1 46 isr (cp_apic_id (sm_cpus p i)) p x;
     k \<leftarrow> create_flush_thread thread_entry page_flush_worker k;
     Some (x, k)
   }"

section \<open>A new kernel thread\<close>

lemma pid_loop_find:
  "pid_loop is t s = (case find (\<lambda>i. sd_map s i = 0) is of
     None \<Rightarrow> (0, s) | Some i \<Rightarrow> (i, s\<lparr>sd_map := (sd_map s)(i := t)\<rparr>))"
  by (induction "is") simp_all

definition free_pids :: "sched \<Rightarrow> int option" where
  "free_pids s = find (\<lambda>i. sd_map s i = 0) [0..TASK_NUM - 1]"

lemma free_pids_None: "free_pids s = None \<longleftrightarrow> (\<forall>i. 0 \<le> i \<longrightarrow> i < TASK_NUM \<longrightarrow> sd_map s i \<noteq> 0)"
  by (auto simp: free_pids_def find_None_iff)

lemma find_least:
  fixes i :: int
  assumes "i \<in> set [m..n]" "P i" "\<forall>j. m \<le> j \<longrightarrow> j < i \<longrightarrow> \<not> P j"
  shows "find P [m..n] = Some i"
  using assms
proof (induction m n rule: upto.induct)
  case (1 m n)
  then show ?case by (cases "m = i") (auto simp: upto_rec1)
qed

lemma free_pids_least:
  assumes "0 \<le> i" "i < TASK_NUM" "sd_map s i = 0" "\<forall>j. 0 \<le> j \<longrightarrow> j < i \<longrightarrow> sd_map s j \<noteq> 0"
  shows "free_pids s = Some i"
  unfolding free_pids_def using assms by (intro find_least) auto

lemma alloc_pid_ok:
  assumes "sd_map_lock s \<noteq> 1"
  shows "alloc_pid t s = Some (case free_pids s of
     None \<Rightarrow> (0, s\<lparr>sd_map_lock := 0\<rparr>) | Some i \<Rightarrow> (i, s\<lparr>sd_map := (sd_map s)(i := t), sd_map_lock := 0\<rparr>))"
  using assms by (simp add: alloc_pid_def pid_loop_find free_pids_def split: option.split)

text \<open>Allocating the page of a task.\<close>

lemma kmalloc_page_ok:
  assumes mem: "memory_ok c"
  defines "s \<equiv> km_pmm (kh_mem (cc_heap c))"
  shows "\<exists>p h. kmalloc PAGE_SIZE (cc_heap c) = Some (page_addr p s + KERNEL_START, h) \<and> free_region s p 0 \<and>
    unat (page_addr p s + KERNEL_START) = unat (ba_addr s) + 4096 * p + 0xc0000000 \<and> 4096 dvd unat (ba_addr s)"
proof -
  define h where "h = cc_heap c"
  have m: "buddy_inv s" "4096 dvd unat (ba_addr s)" "0 < unat (ba_addr s)" "unat (ba_addr s) + 4096 * ba_npages s \<le> unat PHYS_TOP"
      "\<And>i. free_region s i 0 \<Longrightarrow> km_pt (kh_mem h) (unat (page_addr i s) div 4096) = 0" and "\<exists>i. free_region s i 0"
    using mem by (auto simp: memory_ok_def Let_def s_def h_def)
  then obtain p s' where p: "alloc_page_core PAGE_SIZE s = Some (p, s')" "free_region s p 0" "p < ba_npages s"
    "ba_npages s' = ba_npages s" "ba_addr s' = ba_addr s" "page_head (ba_pages s' p)" "pg_size (ba_pages s' p) = ORDER_SIZE 0"
    using alloc_one_ok [OF m(1)] by blast
  let ?k = "(kh_mem h)\<lparr>km_pmm := s'\<rparr>"
  have top: "unat PHYS_TOP < 2 ^ 32" by (rule unat_u32_lt)
  have addr: "page_addr p s' = page_addr p s" using p(5) by (simp add: page_addr_def)
  have pa: "unat (page_addr p s) = unat (ba_addr s) + 4096 * p"
    using unat_page_addr [of s p] m(4) p(3) top by simp
  have "km_pt (kh_mem h) j = 0" if "unat (ba_addr s) div 4096 + p \<le> j" "j < Suc (unat (ba_addr s) div 4096 + p)" for j
  proof -
    have "j = unat (page_addr p s) div 4096" using that by (simp add: pa)
    then show ?thesis using m(5) [OF p(2)] by simp
  qed
  then obtain k' where k': "kvm_map p (VM_PRES OR VM_KRW) ?k = Some k'"
    "km_pmm k' = upd_page p (\<lambda>g. g\<lparr>pg_data := page_addr p s' + KERNEL_START\<rparr>) s'"
    using kvm_map_maps [of ?k p 0 "VM_PRES OR VM_KRW"] m p addr pa top
    by (auto simp: VM_PRES_def VM_KRW_def)
  have "fixSize PAGE_SIZE = PAGE_SIZE" by (simp add: PAGE_SIZE_def) code_simp
  then have "kmalloc PAGE_SIZE h = Some (page_addr p s + KERNEL_START, h\<lparr>kh_mem := k'\<rparr>)"
    using p(1) k' addr by (simp add: kmalloc_def Let_def SLAB_MAX_def LIST_SIZE_def PAGE_SIZE_def s_def h_def)
  moreover have "unat (page_addr p s + KERNEL_START) = unat (page_addr p s) + 0xc0000000"
    using pa m(4) p(3) by (subst unat_add_no_wrap) (simp_all add: KERNEL_START_def PHYS_TOP_def DEVSP_SIZE_def)
  ultimately show ?thesis using p(2) pa m(2) unfolding h_def by (metis)
qed

text \<open>The task structure a thread starts with.\<close>

definition thread_ready :: "u32 \<Rightarrow> u32 \<Rightarrow> u32 \<Rightarrow> int \<Rightarrow> ptr_t \<Rightarrow> task_struct \<Rightarrow> task_struct \<Rightarrow> bool" where
  "thread_ready thread_entry worker args pid self cur t \<longleftrightarrow> ts_pid t = pid \<and> ts_state t = TASK_RUNNING \<and>
     ts_priority t = ts_priority cur \<and> ts_timer_slice t = TIME_SLICE_LENGTH \<and> ts_mm t = None \<and> ts_cwd t = ts_cwd cur \<and>
     ts_stack t = self \<and> ts_open t = 0 \<and> (\<exists>c. ts_context t = Some c \<and> cx_eip c = thread_entry \<and> cx_ebx c = worker \<and> cx_ebp c = args)"

lemma kthread_create_step:
  assumes run: "running s" and s: "s = kr_sched k" and lock: "sd_map_lock s \<noteq> 1"
    and mem: "kmalloc PAGE_SIZE (cc_heap (kr_cc k)) = Some (t, h)" "t \<noteq> 0" "t AND PAGE_MASK = 0"
    and fresh: "unlisted s t" "t \<noteq> sd_cur s" "t \<noteq> sd_idle s"
    and pid: "(pid, s1) = (case free_pids s of None \<Rightarrow> (0, s) | Some i \<Rightarrow> (i, s\<lparr>sd_map := (sd_map s)(i := t)\<rparr>))"
  defines "q \<equiv> RunQ (unat (ts_priority (sd_task s (sd_cur s))))"
  shows "\<exists>k'. kthread_create thread_entry worker args k = Some (0, pid, k') \<and> running (kr_sched k') \<and>
    k' = upd_kr_sched (kr_sched k') (upd_kr_heap h k) \<and> sd_map (kr_sched k') = sd_map s1 \<and> sd_list (kr_sched k') = (sd_list s)(q := sd_list s q @ [t]) \<and>
    sd_cur (kr_sched k') = sd_cur s \<and> sd_idle (kr_sched k') = sd_idle s \<and> (\<forall>x. x \<noteq> t \<longrightarrow> kr_task k' x = sd_task s x) \<and>
    sd_map_lock (kr_sched k') = 0 \<and> thread_ready thread_entry worker args pid t (sd_task s (sd_cur s)) (kr_task k' t)"
proof -
  have inv: "sched_inv s" "task_ok s (sd_cur s)" using run sched_invD(9) by (auto simp: running_def)
  let ?cur = "sd_task s (sd_cur s)" and ?c = "t + PAGE_SIZE - 24"
  define n where "n = (new_task t pid ?cur (sd_task s t))\<lparr>ts_lock := 0, ts_context := Some \<lparr>cx_eflags = 0, cx_ebx = worker, cx_ebp = args,
    cx_esi = ld32 (kr_stack k) (?c + 12), cx_edi = ld32 (kr_stack k) (?c + 16), cx_eip = thread_entry\<rparr>\<rparr>"
  define s2 where "s2 = s\<lparr>sd_map := sd_map s1, sd_map_lock := 0, sd_task := (sd_task s)(t := n)\<rparr>"
  have n: "ts_priority n = ts_priority ?cur" "ts_state n = TASK_RUNNING" "ts_magic n = TASK_MAGIC" "ts_lock n = 0" "ts_pid n = pid"
    by (simp_all add: n_def new_task_def)
  have inv2: "sched_inv s2"
    by (rule sched_inv_change [OF inv(1), where t = t and home = "RunQ 0"])
      (use inv fresh mem n sched_invD(1-3) [OF inv(1)] in \<open>auto simp: s2_def task_ok_def unlisted_def\<close>)
  have t2: "task_ok s2 t" "unlisted s2 t" "ts_state (sd_task s2 t) = TASK_RUNNING" "t \<noteq> sd_idle s2" "ts_priority (sd_task s2 t) = ts_priority ?cur"
    using inv(2) fresh mem n by (simp_all add: s2_def task_ok_def unlisted_def)
  obtain s3 where s3: "sched_task_add t s2 = Some s3" "s3 = s2\<lparr>sd_list := (sd_list s)(q := sd_list s q @ [t]), sd_lock := 0\<rparr>" "sched_inv s3"
    using sched_task_add_ok [OF inv2 t2(1-4)] t2(5) by (auto simp: s2_def q_def)
  have ap: "alloc_pid t s = Some (pid, s\<lparr>sd_map := sd_map s1, sd_map_lock := 0\<rparr>)"
    using alloc_pid_ok [OF lock, of t] pid by (auto split: option.splits)
  have "kthread_create thread_entry worker args k = Some (0, pid, upd_kr_sched s3 (upd_kr_heap h k))"
    using mem ap s3(1) CUR_TCB_ok [OF inv(2)] n(5)
    by (simp add: kthread_create_def kernel_clone_def on_sched_def Let_def s2_def n_def s [symmetric] fresh)
  moreover have "running s3" using run s3 fresh by (auto simp: running_def s2_def unlisted_def)
  moreover have "thread_ready thread_entry worker args pid t ?cur n" by (simp add: thread_ready_def n_def new_task_def)
  ultimately show ?thesis
    by (intro exI [of _ "upd_kr_sched s3 (upd_kr_heap h k)"]) (simp add: s3(2) s2_def)
qed

section \<open>Properties\<close>

text \<open>No task lives in a free page of the allocator.\<close>

definition tasks_in_use :: "kern \<Rightarrow> bool" where
  "tasks_in_use k \<longleftrightarrow> (let s = km_pmm (kh_mem (cc_heap (kr_cc k))) in
     \<forall>p t. free_region s p 0 \<longrightarrow> t = page_addr p s + KERNEL_START \<longrightarrow>
       unlisted (kr_sched k) t \<and> t \<noteq> sd_cur (kr_sched k) \<and> t \<noteq> sd_idle (kr_sched k))"

lemma task_page:
  assumes "memory_ok (kr_cc k)" "tasks_in_use k"
  obtains t h where "kmalloc PAGE_SIZE (cc_heap (kr_cc k)) = Some (t, h)" "t \<noteq> 0" "t AND PAGE_MASK = 0"
    "unlisted (kr_sched k) t" "t \<noteq> sd_cur (kr_sched k)" "t \<noteq> sd_idle (kr_sched k)"
proof -
  let ?s = "km_pmm (kh_mem (cc_heap (kr_cc k)))"
  obtain p h where p: "kmalloc PAGE_SIZE (cc_heap (kr_cc k)) = Some (page_addr p ?s + KERNEL_START, h)" "free_region ?s p 0"
    "unat (page_addr p ?s + KERNEL_START) = unat (ba_addr ?s) + 4096 * p + 0xc0000000" "4096 dvd unat (ba_addr ?s)"
    using kmalloc_page_ok [OF assms(1)] by blast
  let ?t = "page_addr p ?s + KERNEL_START"
  have "?t \<noteq> 0" using p(3) by auto
  moreover have "4096 dvd unat ?t" unfolding p(3) using p(4) by (intro dvd_add) simp_all
  then have "?t AND PAGE_MASK = 0" by (simp add: page_aligned_iff)
  ultimately show thesis using p(1,2) assms(2) unfolding tasks_in_use_def Let_def by (intro that) blast+
qed

text \<open>A small system for the witnesses.\<close>

lemma demo_kern:
  obtains k where "running (kr_sched k)" "sd_map_lock (kr_sched k) \<noteq> 1" "memory_ok (kr_cc k)" "tasks_in_use k"
    "sd_map (kr_sched k) = m" "ts_priority (kr_task k (sd_cur (kr_sched k))) = 1" "\<not> mx_locked (cc_wait_rw (kr_cc k))"
    "ata_ready (cc_disk (kr_cc k))" "sd_cur (kr_sched k) = 0x2000" "sd_idle (kr_sched k) = 0x1000"
    "cc_irq (kr_cc k) = (\<lambda>_. Late 1 (\<lambda>_. Block))"
proof (rule demo_cache)
  fix c assume c: "memory_ok c" "cache_inv (cc_dirty c) c" "cc_irq c = (\<lambda>_. Late 1 (\<lambda>_. Block))"
  fix k0 :: kern and s0 :: sched and t0 :: task_struct
  define s where "s = s0\<lparr>sd_task := (\<lambda>t. t0\<lparr>ts_magic := TASK_MAGIC, ts_priority := 1, ts_lock := 0, ts_state := TASK_RUNNING\<rparr>),
    sd_list := (\<lambda>_. []), sd_lock := 0, sd_list_lock := 0, sd_cur := 0x2000, sd_idle := 0x1000, sd_map := m, sd_map_lock := 0\<rparr>"
  define k where "k = upd_kr_cc (\<lambda>_. c\<lparr>cc_sched := s\<rparr>) k0"
  let ?b = "km_pmm (kh_mem (cc_heap c))"
  have "running s"
    by (simp add: running_def unlisted_def sched_inv_def s_def task_ok_def PAGE_MASK_eq mask_eq_exp_minus_1 TASK_MAX_PRIORITY_def)
  moreover have "memory_ok (kr_cc k)" using c(1) by (simp add: k_def memory_ok_def)
  moreover have "tasks_in_use k" unfolding tasks_in_use_def Let_def
  proof (intro allI impI)
    fix p t assume p: "free_region (km_pmm (kh_mem (cc_heap (kr_cc k)))) p 0"
      and t: "t = page_addr p (km_pmm (kh_mem (cc_heap (kr_cc k)))) + KERNEL_START"
    have "ba_pageCnt ?b \<le> ba_npages ?b" using c by (simp add: memory_ok_def Let_def buddy_inv_def)
    then have "unat (ba_addr ?b) + 4096 * p \<le> unat PHYS_TOP" "p < ba_npages ?b"
      using p c by (auto simp: memory_ok_def Let_def free_region_def k_def)
    then have "unat t \<ge> 0xc0000000"
      using unat_page_addr [of ?b p] c t
      by (simp add: k_def memory_ok_def Let_def unat_add_no_wrap KERNEL_START_def PHYS_TOP_def DEVSP_SIZE_def)
    then have "t \<noteq> 0x1000" "t \<noteq> 0x2000" by auto
    then show "unlisted (kr_sched k) t \<and> t \<noteq> sd_cur (kr_sched k) \<and> t \<noteq> sd_idle (kr_sched k)"
      by (simp add: k_def s_def unlisted_def)
  qed
  ultimately show thesis using c(2,3) by (intro that [of k]) (simp_all add: k_def s_def cache_inv_def cache_rest_def)
qed

text \<open>
  C20. Starting a kernel thread. With a free page and a free number, \<^verbatim>\<open>kthread_create\<close> returns 0 and the
  least free number; the thread takes a page no task uses, is entered in the table under its number and
  at the end of the run queue of its creator's priority, ready to enter \<^verbatim>\<open>thread_entry\<close> with the worker
  and its argument; every other task is unchanged and the scheduler stays well-formed.
\<close>

theorem kthread_create_correct:
  assumes "running (kr_sched k)" "sd_map_lock (kr_sched k) \<noteq> 1" "memory_ok (kr_cc k)" "tasks_in_use k"
    and "0 \<le> pid" "pid < TASK_NUM" "sd_map (kr_sched k) pid = 0" "\<forall>i. 0 \<le> i \<longrightarrow> i < pid \<longrightarrow> sd_map (kr_sched k) i \<noteq> 0"
  defines "cur \<equiv> kr_task k (sd_cur (kr_sched k))"
  shows "\<exists>t k'. kthread_create thread_entry worker args k = Some (0, pid, k') \<and> running (kr_sched k') \<and> t \<noteq> 0 \<and>
    unlisted (kr_sched k) t \<and> sd_map (kr_sched k') = (sd_map (kr_sched k))(pid := t) \<and>
    runq (kr_sched k') (unat (ts_priority cur)) = runq (kr_sched k) (unat (ts_priority cur)) @ [t] \<and>
    (\<forall>x. x \<noteq> t \<longrightarrow> kr_task k' x = kr_task k x) \<and> thread_ready thread_entry worker args pid t cur (kr_task k' t)"
proof -
  obtain t h where t: "kmalloc PAGE_SIZE (cc_heap (kr_cc k)) = Some (t, h)" "t \<noteq> 0" "t AND PAGE_MASK = 0"
    "unlisted (kr_sched k) t" "t \<noteq> sd_cur (kr_sched k)" "t \<noteq> sd_idle (kr_sched k)"
    using task_page [OF assms(3,4)] .
  have "free_pids (kr_sched k) = Some pid" using assms(5-8) by (rule free_pids_least)
  then have "(pid, (kr_sched k)\<lparr>sd_map := (sd_map (kr_sched k))(pid := t)\<rparr>) = (case free_pids (kr_sched k) of
      None \<Rightarrow> (0, kr_sched k) | Some i \<Rightarrow> (i, (kr_sched k)\<lparr>sd_map := (sd_map (kr_sched k))(i := t)\<rparr>))" by simp
  from kthread_create_step [OF assms(1) refl assms(2) t this, of thread_entry worker args]
  show ?thesis using t(2,4) unfolding cur_def by fastforce
qed

theorem kthread_create_correct_witness:
  "\<exists>k k' t. kthread_create 0xc0005000 0xc0006000 7 k = Some (0, 2, k') \<and> sd_map (kr_sched k') 2 = t \<and> t \<in> set (runq (kr_sched k') 1)"
proof (rule demo_kern)
  fix k assume k: "running (kr_sched k)" "sd_map_lock (kr_sched k) \<noteq> 1" "memory_ok (kr_cc k)" "tasks_in_use k"
    "sd_map (kr_sched k) = (\<lambda>i. if i < 2 then 0x1000 else 0)" "ts_priority (kr_task k (sd_cur (kr_sched k))) = 1"
  have "\<exists>t k'. kthread_create 0xc0005000 0xc0006000 7 k = Some (0, 2, k') \<and> running (kr_sched k') \<and> t \<noteq> 0 \<and>
    unlisted (kr_sched k) t \<and> sd_map (kr_sched k') = (sd_map (kr_sched k))(2 := t) \<and>
    runq (kr_sched k') (unat (ts_priority (kr_task k (sd_cur (kr_sched k))))) =
      runq (kr_sched k) (unat (ts_priority (kr_task k (sd_cur (kr_sched k))))) @ [t] \<and>
    (\<forall>x. x \<noteq> t \<longrightarrow> kr_task k' x = kr_task k x) \<and>
    thread_ready 0xc0005000 0xc0006000 7 2 t (kr_task k (sd_cur (kr_sched k))) (kr_task k' t)"
    by (rule kthread_create_correct [OF k(1-4)]) (simp_all add: k(5) TASK_NUM_def)
  then show ?thesis using k(6) by fastforce
qed

lemma running_name:
  assumes "running s"
  shows "running (upd_task t (\<lambda>k. k\<lparr>ts_name := f k\<rparr>) (s\<lparr>sd_map_lock := x\<rparr>))"
proof -
  let ?s = "upd_task t (\<lambda>k. k\<lparr>ts_name := f k\<rparr>) (s\<lparr>sd_map_lock := x\<rparr>)"
  have eq: "task_ok ?s = task_ok s" "listed_ok ?s = listed_ok s" by (auto simp: fun_eq_iff task_ok_def listed_ok_def)
  show ?thesis using assms unfolding running_def sched_inv_def unlisted_def eq by auto
qed

lemma running_empty_list: "running s \<Longrightarrow> running (s\<lparr>sd_list := (sd_list s)(l := [])\<rparr>)"
proof -
  assume r: "running s"
  let ?s = "s\<lparr>sd_list := (sd_list s)(l := [])\<rparr>"
  have eq: "task_ok ?s = task_ok s" "listed_ok ?s = listed_ok s" by (auto simp: fun_eq_iff task_ok_def listed_ok_def)
  show "running ?s" using r unfolding running_def sched_inv_def unlisted_def eq by (auto split: if_splits)
qed

lemma create_flush_thread_ok:
  assumes k: "running (kr_sched k)" "sd_map_lock (kr_sched k) \<noteq> 1" "memory_ok (kr_cc k)" "tasks_in_use k"
    and pid: "0 \<le> pid" "pid < TASK_NUM" "sd_map (kr_sched k) pid = 0" "\<forall>i. 0 \<le> i \<longrightarrow> i < pid \<longrightarrow> sd_map (kr_sched k) i \<noteq> 0"
  shows "\<exists>s h q. create_flush_thread thread_entry page_flush_worker k = Some (upd_kr_sched s (upd_kr_heap h k)) \<and> running s \<and>
    sd_list s = (sd_list (kr_sched k))(RunQ q := runq (kr_sched k) q @ [sd_map s pid]) \<and>
    sd_cur s = sd_cur (kr_sched k) \<and> sd_idle s = sd_idle (kr_sched k) \<and>
    thread_ready thread_entry page_flush_worker 0 pid (sd_map s pid) (kr_task k (sd_cur (kr_sched k))) (sd_task s (sd_map s pid))"
proof -
  obtain t h where t: "kmalloc PAGE_SIZE (cc_heap (kr_cc k)) = Some (t, h)" "t \<noteq> 0" "t AND PAGE_MASK = 0"
    "unlisted (kr_sched k) t" "t \<noteq> sd_cur (kr_sched k)" "t \<noteq> sd_idle (kr_sched k)"
    using task_page [OF k(3,4)] .
  define q where "q = unat (ts_priority (kr_task k (sd_cur (kr_sched k))))"
  have "free_pids (kr_sched k) = Some pid" using pid by (rule free_pids_least)
  then have "(pid, (kr_sched k)\<lparr>sd_map := (sd_map (kr_sched k))(pid := t)\<rparr>) = (case free_pids (kr_sched k) of
      None \<Rightarrow> (0, kr_sched k) | Some i \<Rightarrow> (i, (kr_sched k)\<lparr>sd_map := (sd_map (kr_sched k))(i := t)\<rparr>))" by simp
  from kthread_create_step [OF k(1) refl k(2) t this, of thread_entry page_flush_worker 0]
  obtain k2 where k2: "kthread_create thread_entry page_flush_worker 0 k = Some (0, pid, k2)" "running (kr_sched k2)"
    "k2 = upd_kr_sched (kr_sched k2) (upd_kr_heap h k)" "sd_map (kr_sched k2) pid = t"
    "sd_list (kr_sched k2) = (sd_list (kr_sched k))(RunQ q := runq (kr_sched k) q @ [t])" "sd_map_lock (kr_sched k2) \<noteq> 1"
    "thread_ready thread_entry page_flush_worker 0 pid t (kr_task k (sd_cur (kr_sched k))) (kr_task k2 t)"
    "sd_cur (kr_sched k2) = sd_cur (kr_sched k)" "sd_idle (kr_sched k2) = sd_idle (kr_sched k)"
    by (auto simp: q_def)
  define name where "name = [0x70, 0x61, 0x67, 0x65, 0x5f, 0x66, 0x6c, 0x61, 0x73, 0x68 :: u8]"
  define s where "s = upd_task t (\<lambda>k. k\<lparr>ts_name := take 10 name @ drop 10 (ts_name k)\<rparr>) ((kr_sched k2)\<lparr>sd_map_lock := 0\<rparr>)"
  have s: "running s" "sd_list s = sd_list (kr_sched k2)" "sd_map s pid = t" "sd_cur s = sd_cur (kr_sched k)" "sd_idle s = sd_idle (kr_sched k)"
    unfolding s_def by (rule running_name [OF k2(2)]) (simp_all add: k2(4,8,9))
  have "t \<in> set (sd_list (kr_sched k2) (RunQ q))" using k2(5) by simp
  then have "task_ok (kr_sched k2) t" using k2(2) sched_invD(5) by (auto simp: running_def)
  then have "task_set_name pid name (kr_sched k2) = Some s"
    using k2(4,6) pid t(2) by (simp add: task_set_name_def map_get_def Let_def s_def task_ok_def TASK_NAME_LEN_def name_def)
  then have "create_flush_thread thread_entry page_flush_worker k = Some (upd_kr_sched s k2)"
    using k2(1) by (simp add: create_flush_thread_def name_def)
  moreover obtain s2 where "k2 = upd_kr_sched s2 (upd_kr_heap h k)" using k2(3) by blast
  then have "upd_kr_sched s k2 = upd_kr_sched s (upd_kr_heap h k)" by simp
  moreover have "thread_ready thread_entry page_flush_worker 0 pid t (kr_task k (sd_cur (kr_sched k))) (sd_task s t)"
    using k2(7) by (simp add: thread_ready_def s_def)
  ultimately show ?thesis using s k2(5) by (intro exI [of _ s] exI [of _ h] exI [of _ q]) simp
qed

text \<open>
  C21. The page cache starts well-formed. From a running scheduler whose current task may sleep for
  the disk, a free page and a free number,
  \<^verbatim>\<open>page_cache_init\<close> returns; the cache then satisfies its invariant, is empty and shows what the disk
  holds, interrupt 14 of the disk leads to \<^verbatim>\<open>disk_isr\<close> and is routed to the calling processor, and the
  flush thread stands at the end of a run queue.
\<close>

theorem page_cache_init_correct:
  assumes "running (kr_sched k)" "sd_map_lock (kr_sched k) \<noteq> 1" "memory_ok (kr_cc k)" "tasks_in_use k"
    and "0 \<le> pid" "pid < TASK_NUM" "sd_map (kr_sched k) pid = 0" "\<forall>i. 0 \<le> i \<longrightarrow> i < pid \<longrightarrow> sd_map (kr_sched k) i \<noteq> 0"
    and "\<not> mx_locked (cc_wait_rw (kr_cc k))" "ata_ready (cc_disk (kr_cc k))"
    and "sd_cur (kr_sched k) \<noteq> sd_idle (kr_sched k)" "\<forall>n. irq_ok (sd_cur (kr_sched k)) (cc_irq (kr_cc k) n)"
    and "getCpu lid p = Some i" "cp_apic_id (sm_cpus p i) \<noteq> -1"
  shows "\<exists>t' a' k'. page_cache_init thread_entry page_flush_worker isr lid p (t, a) k = Some ((t', a'), k') \<and>
    cache_inv [] (kr_cc k') \<and> cc_list (kr_cc k') = [] \<and> cc_dirty (kr_cc k') = [] \<and>
    (\<forall>n j. cache_view (kr_cc k') n j = disk_page (cc_disk (kr_cc k)) n j) \<and>
    gate_offset (t' 46) = isr \<and> io_reg a' (0x10 + 2 * 14) = 46 \<and> io_reg a' (0x10 + 2 * 14 + 1) = push_bit 24 (scast (cp_apic_id (sm_cpus p i))) \<and>
    running (kr_sched k') \<and> (\<exists>q xs. runq (kr_sched k') q = xs @ [sd_map (kr_sched k') pid]) \<and>
    thread_ready thread_entry page_flush_worker 0 pid (sd_map (kr_sched k') pid) (kr_task k (sd_cur (kr_sched k)))
      (kr_task k' (sd_map (kr_sched k') pid))"
proof -
  define m where "m = (cc_wait_rw (kr_cc k))\<lparr>mx_lock := spinlock_init\<rparr>"
  define l where "l = SleepList (mx_sleep m)"
  define s where "s = (kr_sched k)\<lparr>sd_list := (sd_list (kr_sched k))(l := [])\<rparr>"
  define k1 where "k1 = upd_kr_cc (\<lambda>c. c\<lparr>cc_wait_rw := m, cc_sched := s, cc_list := [], cc_rwlock := rwlock_init, cc_dirty := [],
    cc_inode_dirty := [], cc_thread := None, cc_writing := None\<rparr>) k"
  have "running (kr_sched k1)" "sd_map_lock (kr_sched k1) \<noteq> 1" "memory_ok (kr_cc k1)" "tasks_in_use k1"
      "sd_map (kr_sched k1) pid = 0" "\<forall>i. 0 \<le> i \<longrightarrow> i < pid \<longrightarrow> sd_map (kr_sched k1) i \<noteq> 0"
    using assms(1-4,7,8) running_empty_list [OF assms(1), of l]
    by (auto simp: k1_def s_def l_def memory_ok_def Let_def tasks_in_use_def unlisted_def)
  from create_flush_thread_ok [OF this(1-4) assms(5,6) this(5,6), of thread_entry page_flush_worker]
  obtain s3 h q where s3: "create_flush_thread thread_entry page_flush_worker k1 = Some (upd_kr_sched s3 (upd_kr_heap h k1))" "running s3"
    "sd_list s3 = (sd_list s)(RunQ q := runq s q @ [sd_map s3 pid])"
    "thread_ready thread_entry page_flush_worker 0 pid (sd_map s3 pid) (kr_task k (sd_cur (kr_sched k))) (sd_task s3 (sd_map s3 pid))"
    "sd_cur s3 = sd_cur (kr_sched k)" "sd_idle s3 = sd_idle (kr_sched k)"
    by (auto simp: k1_def s_def)
  let ?k = "upd_kr_sched s3 (upd_kr_heap h k1)"
  obtain a' where a': "reg_isr1 46 isr (cp_apic_id (sm_cpus p i)) p (t, a) = Some (reg_isr0 46 isr t, a')"
    "io_reg a' (0x10 + 2 * 14) = 46" "io_reg a' (0x10 + 2 * 14 + 1) = push_bit 24 (scast (cp_apic_id (sm_cpus p i)))"
    using assms(14) by (simp add: reg_isr1_def irqEnable_def ioapicw_def Let_def)
  have call: "page_cache_init thread_entry page_flush_worker isr lid p (t, a) k = Some ((reg_isr0 46 isr t, a'), ?k)"
    using s3(1) a'(1) assms(13) unfolding k1_def s_def l_def m_def
    by (simp add: page_cache_init_def thread_mutex_init_def Let_def)
  have "sd_list s3 l = []" using s3(3) by (simp add: s_def l_def)
  then have "cache_rest (kr_cc ?k)"
    using assms(9-12) s3(2,5,6)
    by (simp add: cache_rest_def k1_def m_def l_def idle_lock_def rwlock_init_def spinlock_init_def SPINLOCK_UNLOCK_def)
  then have inv: "cache_inv [] (kr_cc ?k)" "cc_list (kr_cc ?k) = []" "cc_dirty (kr_cc ?k) = []"
    by (simp_all add: cache_inv_def k1_def)
  have view: "cache_view (kr_cc ?k) n j = disk_page (cc_disk (kr_cc k)) n j" for n j by (simp add: cache_view_def k1_def)
  show ?thesis
    using call inv view s3(2-4) a'(2,3)
    by (intro exI [of _ "reg_isr0 46 isr t"] exI [of _ a'] exI [of _ ?k] conjI) (auto simp: reg_isr0_def idt_set_ig_decode)
qed

theorem page_cache_init_correct_witness:
  "\<exists>p x k x' k'. page_cache_init 0xc0005000 0xc0006000 0xc0007000 0 p x k = Some (x', k') \<and> cache_inv [] (kr_cc k')"
proof (rule demo_kern)
  fix k assume k: "running (kr_sched k)" "sd_map_lock (kr_sched k) \<noteq> 1" "memory_ok (kr_cc k)" "tasks_in_use k"
    "sd_map (kr_sched k) = (\<lambda>i. if i < 2 then 0x1000 else 0)" "\<not> mx_locked (cc_wait_rw (kr_cc k))" "ata_ready (cc_disk (kr_cc k))"
    "sd_cur (kr_sched k) = 0x2000" "sd_idle (kr_sched k) = 0x1000" "cc_irq (kr_cc k) = (\<lambda>_. Late 1 (\<lambda>_. Block))"
  fix p0 :: smp and t :: idt and a :: ioapic and g0 :: apic and c0 :: cpu_t
  define p where "p = p0\<lparr>sm_cfg := g0\<lparr>ap_nCpu := 1\<rparr>, sm_cpus := (\<lambda>_. c0\<lparr>cp_apic_id := 0\<rparr>)\<rparr>"
  have "sd_cur (kr_sched k) \<noteq> sd_idle (kr_sched k)" "\<forall>n. irq_ok (sd_cur (kr_sched k)) (cc_irq (kr_cc k) n)" "getCpu 0 p = Some 0"
    using k(8-10) fair_block by (simp_all add: getCpu_def p_def)
  from page_cache_init_correct [OF k(1-4) _ _ _ _ k(6,7) this, of 2 "0xc0005000" "0xc0006000" "0xc0007000" t a]
  obtain t' a' k' where "page_cache_init 0xc0005000 0xc0006000 0xc0007000 0 p (t, a) k = Some ((t', a'), k')" "cache_inv [] (kr_cc k')"
    by (auto simp: k(5) TASK_NUM_def p_def)
  then show ?thesis by blast
qed

lemma clean_task_pid0: "ts_pid (kr_task k t) = 0 \<Longrightarrow> clean_task t k = None"
  by (simp add: clean_task_def tcb_entry_def on_sched_def free_pid_def bind_eq_None_conv)

text \<open>
  C39. A full table of task numbers. When every number is taken, \<^verbatim>\<open>kthread_create\<close> still returns 0 and
  starts the thread, with the number 0 of the first task and without an entry in the table; when that
  thread has exited, the cleaner panics in \<^verbatim>\<open>free_pid\<close>, whatever else has happened in between.
\<close>

theorem full_pid_table_panics:
  assumes "running (kr_sched k)" "sd_map_lock (kr_sched k) \<noteq> 1" "memory_ok (kr_cc k)" "tasks_in_use k"
    and "\<forall>i. 0 \<le> i \<longrightarrow> i < TASK_NUM \<longrightarrow> sd_map (kr_sched k) i \<noteq> 0"
  shows "\<exists>t k'. kthread_create thread_entry worker args k = Some (0, 0, k') \<and>
    sd_map (kr_sched k') = sd_map (kr_sched k) \<and> (\<exists>i. t \<in> set (runq (kr_sched k') i)) \<and> ts_pid (kr_task k' t) = 0 \<and>
    (\<forall>k'' ts. ts_pid (kr_task k'' t) = 0 \<longrightarrow> sd_list (kr_sched k'') FinishList = t # ts \<longrightarrow> cleaner_worker k'' = None)"
proof -
  obtain t h where t: "kmalloc PAGE_SIZE (cc_heap (kr_cc k)) = Some (t, h)" "t \<noteq> 0" "t AND PAGE_MASK = 0"
    "unlisted (kr_sched k) t" "t \<noteq> sd_cur (kr_sched k)" "t \<noteq> sd_idle (kr_sched k)"
    using task_page [OF assms(3,4)] .
  have "free_pids (kr_sched k) = None" using assms(5) by (simp add: free_pids_None)
  then have "(0, kr_sched k) = (case free_pids (kr_sched k) of
      None \<Rightarrow> (0, kr_sched k) | Some i \<Rightarrow> (i, (kr_sched k)\<lparr>sd_map := (sd_map (kr_sched k))(i := t)\<rparr>))" by simp
  from kthread_create_step [OF assms(1) refl assms(2) t this, of thread_entry worker args]
  obtain k' where k': "kthread_create thread_entry worker args k = Some (0, 0, k')" "sd_map (kr_sched k') = sd_map (kr_sched k)"
    "t \<in> set (runq (kr_sched k') (unat (ts_priority (kr_task k (sd_cur (kr_sched k))))))" "ts_pid (kr_task k' t) = 0"
    by (auto simp: thread_ready_def)
  have "cleaner_worker k'' = None" if "ts_pid (kr_task k'' t) = 0" "sd_list (kr_sched k'') FinishList = t # ts" for k'' ts
    using that clean_task_pid0 by (simp add: cleaner_worker_def Let_def split: bind_splits)
  with k' show ?thesis by blast
qed

theorem full_pid_table_panics_witness:
  "\<exists>k k' t. kthread_create 0xc0005000 0xc0006000 7 k = Some (0, 0, k') \<and> ts_pid (kr_task k' t) = 0 \<and>
     (\<exists>i. t \<in> set (runq (kr_sched k') i)) \<and> sd_map (kr_sched k') = (\<lambda>_. 0x1000)"
proof (rule demo_kern)
  fix k assume k: "running (kr_sched k)" "sd_map_lock (kr_sched k) \<noteq> 1" "memory_ok (kr_cc k)" "tasks_in_use k"
    "sd_map (kr_sched k) = (\<lambda>_. 0x1000)"
  have "\<forall>i. 0 \<le> i \<longrightarrow> i < TASK_NUM \<longrightarrow> sd_map (kr_sched k) i \<noteq> 0" by (simp add: k(5))
  from full_pid_table_panics [OF k(1-4) this, of "0xc0005000" "0xc0006000" 7] show ?thesis using k(5) by fastforce
qed

text \<open>
  C40. A write after a fork. Once \<^verbatim>\<open>vm_area_copy\<close> has copied a writable page for a fork, the first write
  to that page by the parent or by the child, a page fault with the write bit set, stops the kernel:
  the entry that should lead to copy-on-write is empty, so \<^verbatim>\<open>vm_remap_page\<close> fails.
\<close>

theorem fork_write_fault_panics:
  assumes "table_at u s d D" "table_at u t d E" "d < 1024" "j < 1024" "D + 4 * of_nat j \<noteq> E + 4 * of_nat j"
    "s + 4 * of_nat d \<noteq> D + 4 * of_nat j" "t + 4 * of_nat d \<noteq> E + 4 * of_nat j"
    "s + 4 * of_nat d \<noteq> E + 4 * of_nat j" "t + 4 * of_nat d \<noteq> D + 4 * of_nat j"
    "um_word u (D + 4 * of_nat j) AND VM_URW = VM_URW" "um_word u (D + 4 * of_nat j) AND VM_IGNORE_BIT1 = 0"
    "0 < ba_addr (um_pmm u)"
  shows "\<exists>u'. vm_area_copy (vaddr d j) 4096 s t u = Some u' \<and>
    (\<forall>k cur self mm a error_code. kr_um k = u' \<longrightarrow> CUR_TCB (kr_sched k) = Some cur \<longrightarrow> ts_mm (kr_task k cur) = Some (self, mm) \<longrightarrow>
      mm_pgdir mm = s \<or> mm_pgdir mm = t \<longrightarrow> PAGE_CEIL a = vaddr d j \<longrightarrow> bit error_code 1 \<longrightarrow>
      task_cow a k = Some (-1, k) \<and> page_fault_isr error_code a k = None)"
proof -
  obtain u' where u': "vm_area_copy (vaddr d j) 4096 s t u = Some u'" "table_at u' s d D" "table_at u' t d E"
    "um_word u' (D + 4 * of_nat j) = 0" "um_word u' (E + 4 * of_nat j) = 0"
    using vm_area_copy_writable [OF assms] by blast
  have r: "vm_remap_page (vaddr d j) s u' = Some (-1, u')" "vm_remap_page (vaddr d j) t u' = Some (-1, u')"
    using u' vm_page_iter_table [OF u'(2) assms(3,4)] vm_page_iter_table [OF u'(3) assms(3,4)] by (simp_all add: vm_remap_page_def)
  have cow: "task_cow a k = Some (-1, k)"
    if "kr_um k = u'" "CUR_TCB (kr_sched k) = Some cur" "ts_mm (kr_task k cur) = Some (self, mm)"
      "mm_pgdir mm = s \<or> mm_pgdir mm = t" "PAGE_CEIL a = vaddr d j" for k cur self mm a
  proof -
    have "vm_remap_page (PAGE_CEIL a) (mm_pgdir mm) (kr_um k) = Some (-1, kr_um k)" using that r by auto
    then show ?thesis using that(2,3) by (simp add: task_cow_def Let_def)
  qed
  then have "page_fault_isr error_code a k = None" if "bit error_code 1" "task_cow a k = Some (-1, k)" for error_code a k
    using that by (simp add: page_fault_isr_def bind_eq_None_conv)
  with cow u'(1) show ?thesis by (intro exI [of _ u']) blast
qed

theorem fork_write_fault_panics_witness:
  "\<exists>u u' k. vm_area_copy (vaddr 8 5) 4096 0xc0200000 0xc0300000 u = Some u' \<and> kr_um k = u' \<and>
     task_cow (vaddr 8 5) k = Some (-1, k) \<and> page_fault_isr 7 (vaddr 8 5) k = None"
proof (rule demo_umem)
  fix u assume u: "table_at u 0xc0200000 8 0xc0101000" "table_at u 0xc0300000 8 0xc0102000"
    "um_word u (0xc0101000 + 4 * of_nat 5) = 0x103007" "ba_addr (um_pmm u) = 0x100000"
  have "\<exists>u'. vm_area_copy (vaddr 8 5) 4096 0xc0200000 0xc0300000 u = Some u' \<and>
    (\<forall>k cur self mm a error_code. kr_um k = u' \<longrightarrow> CUR_TCB (kr_sched k) = Some cur \<longrightarrow> ts_mm (kr_task k cur) = Some (self, mm) \<longrightarrow>
      mm_pgdir mm = 0xc0200000 \<or> mm_pgdir mm = 0xc0300000 \<longrightarrow> PAGE_CEIL a = vaddr 8 5 \<longrightarrow> bit error_code 1 \<longrightarrow>
      task_cow a k = Some (-1, k) \<and> page_fault_isr error_code a k = None)"
    by (rule fork_write_fault_panics [OF u(1,2)]) (simp_all add: u(3) [simplified] u(4) VM_URW_def VM_IGNORE_BIT1_def)
  then obtain u' where u': "vm_area_copy (vaddr 8 5) 4096 0xc0200000 0xc0300000 u = Some u'"
    "\<And>k cur self mm a error_code. kr_um k = u' \<Longrightarrow> CUR_TCB (kr_sched k) = Some cur \<Longrightarrow> ts_mm (kr_task k cur) = Some (self, mm) \<Longrightarrow>
      mm_pgdir mm = 0xc0200000 \<or> mm_pgdir mm = 0xc0300000 \<Longrightarrow> PAGE_CEIL a = vaddr 8 5 \<Longrightarrow> bit error_code 1 \<Longrightarrow>
      task_cow a k = Some (-1, k) \<and> page_fault_isr error_code a k = None" by blast
  fix k0 :: kern and m0 :: mm_struct and t0 :: task_struct
  define k where "k = upd_kr_task 0x2000 (\<lambda>_. t0\<lparr>ts_magic := TASK_MAGIC, ts_mm := Some (0, m0\<lparr>mm_pgdir := 0xc0200000\<rparr>)\<rparr>)
    (upd_kr_cc (\<lambda>c. c\<lparr>cc_heap := um_heap u', cc_data := um_bytes u', cc_sched := (cc_sched c)\<lparr>sd_cur := 0x2000\<rparr>\<rparr>) k0)"
  have "task_cow (vaddr 8 5) k = Some (-1, k) \<and> page_fault_isr 7 (vaddr 8 5) k = None"
    by (rule u'(2) [where cur = "0x2000" and self = 0 and mm = "m0\<lparr>mm_pgdir := 0xc0200000\<rparr>"])
      (simp_all add: k_def CUR_TCB_def vaddr_def PAGE_CEIL_eq mask_eq_exp_minus_1 bit_numeral_rec)
  moreover have "kr_um k = u'" by (simp add: k_def)
  ultimately show ?thesis using u'(1) by blast
qed

end
