(* ===== verification/Spec2Isabelle.thy ===== *)
theory Spec2Isabelle
  imports Locks Klist Buddy_Spec Kvm Slab FdTable Kstring BlockAlloc Elf Multiboot Uvm Sched Vga Terminal Clock Fs_Spec Open_Spec
    Umalloc Pci Process
begin

text \<open>
  A verification development of quarkOS, a small 32-bit x86 kernel written in C, with its user-space
  heap. File names are relative to \<^verbatim>\<open>src/kernel\<close> unless they start with \<^verbatim>\<open>userspace\<close>.

  \<^bold>\<open>The system.\<close> At boot the kernel reads the information of the boot loader, builds a block list of the
  free memory, and hands it to a buddy allocator of physical pages. Kernel page tables and a slab
  allocator on top of it give \<^verbatim>\<open>kmalloc\<close>. Tasks live in one page each, run under a multi-level feedback
  scheduler and sleep in lists. A driver moves disk sectors into pages of a page cache, on which an
  ext2 file system and a small virtual file system stand. The processors and interrupt routes come
  from the ACPI tables, the disk controller from the PCI bus. User programs are loaded from ELF files
  and enter the kernel by system calls and page faults. Keyboard and screen form the terminal.

  \<^bold>\<open>Conventions.\<close> Machine integers are words of their width (\<open>u8\<close>, \<open>u16\<close>, \<open>u32\<close>, \<open>u64\<close>, \<open>ptr_t\<close>), so
  wrap-around is that of C; signed values are integers where the code does not overflow them. A function
  that may panic, fail an assertion, fault or spin for ever has an option as its result, and \<open>None\<close> stands for
  all of these; \<open>assertk\<close> is the assertion. Loops over lists of known length are structural recursion,
  loops whose end depends on memory are \<open>partial_function (option)\<close>, and their lemmas show that they
  return; no definition uses fuel. C identifiers that start with an underscore get the suffix
  \<open>_core\<close>; a part of a function that is a loop has the suffix \<open>_loop\<close>. State is passed explicitly: each
  component has a record, and the record of a component contains those of the components it calls
  (\<open>kern\<close> contains \<open>vfs\<close>, this \<open>fs\<close>, this \<open>cache\<close>, and this the heap, the scheduler and the disk).

  \<^bold>\<open>Foundations.\<close>
  \<^item> \<open>Quark_Prelude\<close>: types, assertions, shared facts on words, options and lists.
  \<^item> \<open>Klib\<close> (\<^verbatim>\<open>lib/qlib.h\<close>, \<^verbatim>\<open>lib/qlib.c\<close>, \<^verbatim>\<open>mm/mm.h\<close>): bit operations, rounding, logarithm, page rounding.
  \<^item> \<open>Locks\<close> (\<^verbatim>\<open>lib/klock.s\<close>, \<^verbatim>\<open>spinlock.h\<close>, \<^verbatim>\<open>rwlock.h\<close>, \<^verbatim>\<open>ticklock.h\<close>, \<^verbatim>\<open>irlock.h\<close>): the operations, and the
    readers-writer lock as a step relation of any number of threads, one step per memory access; mutual
    exclusion is an invariant of the reachable states, and some thread can always move.
  \<^item> \<open>Klist\<close> (\<^verbatim>\<open>lib/list.h\<close>, \<^verbatim>\<open>lib/queue.c\<close>): the operations on a store of pointers refine operations on HOL
    lists; the locale \<open>fifo_queue\<close> is interpreted on both queue implementations.
  \<^item> \<open>Kstring\<close> (\<^verbatim>\<open>lib/qstring.c\<close>): strings on byte memory, conversion of numbers and its round trip.
  \<^item> \<open>Clock\<close> (\<^verbatim>\<open>drivers/cmos.c\<close>, \<^verbatim>\<open>lib/time.c\<close>): reading the real-time clock and the conversion to seconds.

  \<^bold>\<open>Memory.\<close>
  \<^item> \<open>Multiboot\<close> (\<^verbatim>\<open>multiboot2.c\<close>), \<open>Elf\<close> (\<^verbatim>\<open>elf.h\<close>, the checks of \<^verbatim>\<open>loader.c\<close>, symbol lookup): structures decoded
    from bytes and the walks over them.
  \<^item> \<open>BlockAlloc\<close> (\<^verbatim>\<open>mm/block_alloc.c\<close>): blocks handed out at boot lie in available memory and are disjoint.
  \<^item> \<open>Buddy\<close> (\<^verbatim>\<open>mm/page_alloc.c\<close>), \<open>Buddy_Inv\<close>, \<open>Buddy_Spec\<close>: the invariant says that blocks tile the memory,
    that each free list holds the free blocks of its order and that no two free buddies coexist. On it
    rest the contract of allocation and release over the abstract state \<open>in_use\<close>, their round trip and
    the page count.
  \<^item> \<open>Kvm\<close> (\<^verbatim>\<open>mm/vm.c\<close>): the page tables of the upper gigabyte as one array; mapping, translation, unmapping.
  \<^item> \<open>Slab\<close> (\<^verbatim>\<open>mm/slab.c\<close>, \<^verbatim>\<open>mm/kmalloc.c\<close>): slab caches over the page allocator; a released object is
    handed out again.
  \<^item> \<open>Uvm\<close> (\<^verbatim>\<open>mm/uvm.c\<close>): page directories in memory, mapping of areas, the copy for a fork, \<^verbatim>\<open>sbrk\<close>.
  \<^item> \<open>Umalloc\<close> (\<^verbatim>\<open>userspace/malloc.c\<close>): the chunks tile the pages from \<^verbatim>\<open>sbrk\<close>; the locale \<open>block_heap\<close> is
    the contract of an allocator in terms of its allocated blocks.

  \<^bold>\<open>Tasks.\<close>
  \<^item> \<open>Sched\<close> (\<^verbatim>\<open>task/schedule.c\<close>, \<^verbatim>\<open>task/timer.c\<close>, \<^verbatim>\<open>task/thread_mutex.c\<close>, sleeping and numbers of \<^verbatim>\<open>task/fork.c\<close>): the
    invariant \<open>sched_inv\<close> says that each task is in at most one list that agrees with its state;
    \<^verbatim>\<open>schedule\<close> returns, picks the head of the highest non-empty queue and loses no task.
  \<^item> \<open>Process\<close> (\<^verbatim>\<open>task/fork.c\<close>, \<^verbatim>\<open>loader.c\<close>, \<^verbatim>\<open>syscall/syscall.c\<close>, the page fault handler of \<^verbatim>\<open>x86/isr.c\<close>): creation of
    threads and processes over heap, scheduler, address spaces and file system, the cleaner, loading
    of programs, the system calls, and the start of the page cache, which establishes its invariant.
    The bugs that cross components are here: a full number table, and a write after a fork.

  \<^bold>\<open>Files.\<close>
  \<^item> \<open>Ide\<close> (\<^verbatim>\<open>drivers/ide.c\<close>): commands and interrupts over a record for the drive; the locale \<open>block_device\<close>
    is the contract of starting and finishing a transfer.
  \<^item> \<open>PageCache\<close> (\<^verbatim>\<open>fs/writeback.c\<close>): the invariant ties cached pages, flags, the dirty queue and the disk
    together; \<open>cache_view\<close> is what the sectors hold for a client, and reads and flushes respect it.
  \<^item> \<open>DirBlock\<close>, \<open>Ext2Fs\<close>, \<open>Ext2Dir\<close> (\<^verbatim>\<open>fs/ext2\<close>): bitmaps and directory entries inside a block, block
    pointers and allocation, inodes, directories, file operations.
  \<^item> \<open>Vfs\<close> (\<^verbatim>\<open>fs/vfs.c\<close>), \<open>FdTable\<close> (\<^verbatim>\<open>fs/hash.c\<close>): paths, open files, descriptors; the locale
    \<open>descriptor_table\<close> is the contract of the table as a finite map.
  \<^item> \<open>Fs_Spec\<close>, \<open>Open_Spec\<close>: properties across these layers, first that what \<^verbatim>\<open>ext2_write\<close> stores is what
    \<^verbatim>\<open>ext2_read\<close> returns, through cache, scheduler and disk interrupts.

  \<^bold>\<open>Devices.\<close>
  \<^item> \<open>Vga\<close> (\<^verbatim>\<open>drivers/vga.c\<close>), \<open>Terminal\<close> (\<^verbatim>\<open>terminal.c\<close>, \<^verbatim>\<open>drivers/keyboard.h\<close>): screen cells and cursor, scan
    codes, ring buffer, formatted output, line input.
  \<^item> \<open>Acpi\<close> (\<^verbatim>\<open>drivers/acpi.c\<close>, \<^verbatim>\<open>drivers/mp.c\<close>, \<^verbatim>\<open>drivers/ioapic.c\<close>): checksums, the walk over the processor table,
    interrupt routing.
  \<^item> \<open>Pci\<close> (\<^verbatim>\<open>drivers/pci.c\<close>): access to the configuration space, search for a device.
  \<^item> \<open>Descr\<close> (\<^verbatim>\<open>x86/gdt.c\<close>, \<^verbatim>\<open>x86/isr.c\<close>): segment descriptors, task state segment, interrupt gates.

  \<^bold>\<open>Environment.\<close> The drive, the clock registers, the configuration space and the key strokes are records or
  arguments with the behaviour their documentation gives; addresses assigned by the linker are
  arguments. Interrupts arrive where the code sleeps or waits for them; apart from \<open>Locks\<close>, whose
  steps interleave freely, an operation runs without another processor in between.

  \<^bold>\<open>Not modelled.\<close> Assembly and inline assembly (mode switches, register loads, the stack switch), since
  no processor is modelled. The sequence of initialisations in \<^verbatim>\<open>kernel_main\<close>, apart from its temporary
  page tables. Set-up of the
  local APIC, PIC, PIT and PS/2 controller, which are sequences of register writes and waits. The
  network card and the ethernet layer, whose initialisation is commented out, and \<^verbatim>\<open>drivers/dma.c\<close>,
  which does not compile. Floating-point rounding in \<^verbatim>\<open>lib/qmath.c\<close>, which no other part calls.
  \<^verbatim>\<open>userspace/lib.c\<close>, a second copy of the string and formatting routines of \<open>Kstring\<close> and \<open>Terminal\<close>, and
  the shell \<^verbatim>\<open>userspace/sh.c\<close>, whose commands are empty but for two. Self-tests of a test build.
\<close>

end
